(* ===== verification/Prelude.thy ===== *)
theory Prelude
  imports Main "HOL-Library.Word" "HOL-Library.Monad_Syntax"
begin

text \<open>
  What every component shares: the machine integers of the C and C++ code, byte
  strings and their literals, the C library's view of a NUL-terminated string
  (\<open>strlen\<close>, \<open>strcmp\<close>, \<open>tolower\<close>), decimal rendering as \<open>snprintf\<close> does it for
  \<open>%d\<close> and \<open>%lld\<close>, and generic facts on lists that several components use.
\<close>

unbundle bit_operations_syntax

named_theorems byte_simps \<open>evaluation of byte-string literals and byte classes\<close>

section \<open>Machine types\<close>

type_synonym u8 = "8 word"
type_synonym u16 = "16 word"
type_synonym u32 = "32 word"
type_synonym u64 = "64 word"
type_synonym bytes = "u8 list"

text \<open>
  A C string literal as its bytes, without the terminator. Literals are evaluated by
  the simplifier.
\<close>

definition str :: "string \<Rightarrow> bytes" where
  [byte_simps]: "str s = map of_char s"

lemma length_str [simp]: "length (str s) = length s"
  by (simp add: str_def)

text \<open>Names of the characters the code compares against.\<close>

abbreviation ch_tab :: u8 where "ch_tab \<equiv> 0x09"
abbreviation ch_nl :: u8 where "ch_nl \<equiv> 0x0A"
abbreviation ch_cr :: u8 where "ch_cr \<equiv> 0x0D"
abbreviation ch_space :: u8 where "ch_space \<equiv> 0x20"
abbreviation ch_quote :: u8 where "ch_quote \<equiv> 0x22"
abbreviation ch_star :: u8 where "ch_star \<equiv> 0x2A"
abbreviation ch_plus :: u8 where "ch_plus \<equiv> 0x2B"
abbreviation ch_comma :: u8 where "ch_comma \<equiv> 0x2C"
abbreviation ch_minus :: u8 where "ch_minus \<equiv> 0x2D"
abbreviation ch_dot :: u8 where "ch_dot \<equiv> 0x2E"
abbreviation ch_slash :: u8 where "ch_slash \<equiv> 0x2F"
abbreviation ch_0 :: u8 where "ch_0 \<equiv> 0x30"
abbreviation ch_9 :: u8 where "ch_9 \<equiv> 0x39"
abbreviation ch_colon :: u8 where "ch_colon \<equiv> 0x3A"
abbreviation ch_A :: u8 where "ch_A \<equiv> 0x41"
abbreviation ch_E :: u8 where "ch_E \<equiv> 0x45"
abbreviation ch_F :: u8 where "ch_F \<equiv> 0x46"
abbreviation ch_Z :: u8 where "ch_Z \<equiv> 0x5A"
abbreviation ch_lbrack :: u8 where "ch_lbrack \<equiv> 0x5B"
abbreviation ch_bslash :: u8 where "ch_bslash \<equiv> 0x5C"
abbreviation ch_rbrack :: u8 where "ch_rbrack \<equiv> 0x5D"
abbreviation ch_a :: u8 where "ch_a \<equiv> 0x61"
abbreviation ch_b :: u8 where "ch_b \<equiv> 0x62"
abbreviation ch_e :: u8 where "ch_e \<equiv> 0x65"
abbreviation ch_f :: u8 where "ch_f \<equiv> 0x66"
abbreviation ch_n :: u8 where "ch_n \<equiv> 0x6E"
abbreviation ch_r :: u8 where "ch_r \<equiv> 0x72"
abbreviation ch_t :: u8 where "ch_t \<equiv> 0x74"
abbreviation ch_u :: u8 where "ch_u \<equiv> 0x75"
abbreviation ch_z :: u8 where "ch_z \<equiv> 0x7A"
abbreviation ch_lbrace :: u8 where "ch_lbrace \<equiv> 0x7B"
abbreviation ch_rbrace :: u8 where "ch_rbrace \<equiv> 0x7D"

lemma ucast_u64_u32_of_int: "(ucast (word_of_int i :: u64) :: u32) = word_of_int i"
  by (rule bit_word_eqI) (auto simp: bit_simps)

section \<open>C strings\<close>

text \<open>
  A block of memory read as a C string: the bytes before the first NUL. \<open>strlen\<close> of a
  block with no NUL runs past its end, which \<open>c_strlen\<close> shows as \<open>None\<close>.
\<close>

definition cstr :: "bytes \<Rightarrow> bytes" where
  "cstr m = takeWhile (\<lambda>b. b \<noteq> 0) m"

definition c_strlen :: "bytes \<Rightarrow> nat option" where
  "c_strlen m = (if 0 \<in> set m then Some (length (cstr m)) else None)"

definition c_tolower :: "u8 \<Rightarrow> u8" where
  "c_tolower c = (if ch_A \<le> c \<and> c \<le> ch_Z then c + 0x20 else c)"

lemma cstr_append_nul [simp]: "0 \<notin> set s \<Longrightarrow> cstr (s @ 0 # t) = s"
  by (induction s) (auto simp: cstr_def)

lemma cstr_nul_free [simp]: "0 \<notin> set (cstr m)"
  by (auto simp: cstr_def dest: set_takeWhileD)

lemma cstr_id: "0 \<notin> set s \<Longrightarrow> cstr s = s"
  by (induction s) (auto simp: cstr_def)

lemma cstr_cstr [simp]: "cstr (cstr m) = cstr m"
  by (simp add: cstr_id)

lemma length_cstr_less: "0 \<in> set m \<Longrightarrow> length (cstr m) < length m"
  by (induction m) (auto simp: cstr_def)

lemma length_cstr_le: "length (cstr m) \<le> length m"
  by (simp add: cstr_def length_takeWhile_le)

lemma cstr_split: "0 \<in> set m \<Longrightarrow> m = cstr m @ 0 # drop (Suc (length (cstr m))) m"
  by (induction m) (auto simp: cstr_def)

section \<open>Decimal rendering\<close>

fun dec_nat :: "nat \<Rightarrow> bytes" where
  "dec_nat n = (if n < 10 then [ch_0 + of_nat n] else dec_nat (n div 10) @ [ch_0 + of_nat (n mod 10)])"

declare dec_nat.simps [simp del]

text \<open>\<open>snprintf\<close> with \<open>%d\<close>, \<open>%i\<close> or \<open>%lld\<close>.\<close>

definition dec_int :: "int \<Rightarrow> bytes" where
  "dec_int i = (if i < 0 then ch_minus # dec_nat (nat (- i)) else dec_nat (nat i))"

definition is_digit :: "u8 \<Rightarrow> bool" where
  "is_digit c \<longleftrightarrow> ch_0 \<le> c \<and> c \<le> ch_9"

definition digit_val :: "u8 \<Rightarrow> nat" where
  "digit_val c = unat (c - ch_0)"

definition digits_val :: "nat \<Rightarrow> bytes \<Rightarrow> nat" where
  "digits_val = foldl (\<lambda>v c. v * 10 + digit_val c)"

lemma digits_val_Nil [simp]: "digits_val v [] = v"
  by (simp add: digits_val_def)

lemma digits_val_Cons [simp]: "digits_val v (c # cs) = digits_val (v * 10 + digit_val c) cs"
  by (simp add: digits_val_def)

lemma digits_val_append [simp]: "digits_val v (xs @ ys) = digits_val (digits_val v xs) ys"
  by (simp add: digits_val_def)

lemma digit_of_nat:
  assumes "n < 10"
  shows "is_digit (ch_0 + of_nat n)" and "digit_val (ch_0 + of_nat n) = n"
proof -
  have n: "n \<in> {0, 1, 2, 3, 4, 5, 6, 7, 8, 9}" using assms by auto
  from n show "is_digit (ch_0 + of_nat n)" by (auto simp: is_digit_def)
  from assms show "digit_val (ch_0 + of_nat n) = n"
    by (simp add: digit_val_def unat_of_nat)
qed

lemma dec_nat_nonempty [simp]: "dec_nat n \<noteq> []"
  by (subst dec_nat.simps) simp

lemma dec_nat_digits: "\<forall>c \<in> set (dec_nat n). is_digit c"
proof (induction n rule: dec_nat.induct)
  case (1 n)
  then show ?case by (subst dec_nat.simps) (auto simp: digit_of_nat)
qed

lemma dec_nat_val [simp]: "digits_val 0 (dec_nat n) = n"
proof (induction n rule: dec_nat.induct)
  case (1 n)
  then show ?case by (subst dec_nat.simps) (simp add: digit_of_nat)
qed

lemma dec_nat_length: "n < 10 ^ k \<Longrightarrow> 0 < k \<Longrightarrow> length (dec_nat n) \<le> k"
proof (induction n arbitrary: k rule: dec_nat.induct)
  case (1 n)
  show ?case
  proof (cases "n < 10")
    case True
    with 1 show ?thesis by (subst dec_nat.simps) simp
  next
    case False
    with 1 obtain k' where k: "k = Suc k'" "0 < k'"
      by (cases k; cases "k - 1") auto
    with 1 have "n div 10 < 10 ^ k'" by (simp add: less_mult_imp_div_less mult.commute)
    with 1 k False have "length (dec_nat (n div 10)) \<le> k'" by blast
    with False k show ?thesis by (subst dec_nat.simps) simp
  qed
qed

section \<open>Lists\<close>

lemma take_Suc_nth: "i < length xs \<Longrightarrow> take (Suc i) xs = take i xs @ [xs ! i]"
  by (rule take_Suc_conv_app_nth)

lemma nth_drop_Cons: "drop i xs = y # ys \<Longrightarrow> i < length xs \<and> xs ! i = y \<and> drop (Suc i) xs = ys"
  by (metis Cons_nth_drop_Suc drop_eq_Nil2 leI list.distinct(1) list.inject)

lemma takeWhile_append_stop: "\<forall>x \<in> set xs. P x \<Longrightarrow> \<not> P y \<Longrightarrow> takeWhile P (xs @ y # ys) = xs"
  by (induction xs) auto

end
