(* ===== verification/Wire_Encoder.thy ===== *)
theory Wire_Encoder
  imports Prelude
begin

text \<open>
  The sending half of the line-delimited JSON wire: \<open>LineBuffer\<close> and \<open>Encoder\<close> of
  \<open>source/program/json_line.{hpp,cpp}\<close>. A \<open>line_buffer\<close> holds the first \<open>len_\<close> bytes
  of the fixed array \<open>buf_\<close>, so \<open>size()\<close> is the length of that list. The encoder is
  its output buffer, the array of "needs a comma" flags and the nesting depth; every
  member function of the class is one definition. The lemmas show that what reaches the
  buffer is exactly the JSON rendering of the fields, cut at the capacity, and that the
  truncation flag tells when it was cut.
\<close>

section \<open>LineBuffer\<close>

definition kCap :: nat where
  "kCap = 8 * 1024"

record line_buffer =
  lb_buf :: bytes
  lb_trunc :: bool

definition lb_empty :: line_buffer where
  "lb_empty = \<lparr>lb_buf = [], lb_trunc = False\<rparr>"

definition lb_clear :: "line_buffer \<Rightarrow> line_buffer" where
  "lb_clear l = l\<lparr>lb_buf := [], lb_trunc := False\<rparr>"

definition lb_size :: "line_buffer \<Rightarrow> nat" where
  "lb_size l = length (lb_buf l)"

definition lb_append_char :: "line_buffer \<Rightarrow> u8 \<Rightarrow> line_buffer" where
  "lb_append_char l c =
     (if lb_size l < kCap then l\<lparr>lb_buf := lb_buf l @ [c]\<rparr> else l\<lparr>lb_trunc := True\<rparr>)"

definition lb_append :: "line_buffer \<Rightarrow> bytes \<Rightarrow> line_buffer" where
  "lb_append l s =
     (let n = length s;
          tk = (if lb_size l + n \<le> kCap then n else kCap - lb_size l);
          l' = l\<lparr>lb_buf := lb_buf l @ take tk s\<rparr>
      in if tk < n then l'\<lparr>lb_trunc := True\<rparr> else l')"

definition lb_wf :: "line_buffer \<Rightarrow> bool" where
  "lb_wf l \<longleftrightarrow> lb_size l \<le> kCap"

text \<open>The promise of the buffer: the text written so far, cut at the capacity.\<close>

definition lb_write :: "line_buffer \<Rightarrow> bytes \<Rightarrow> line_buffer" where
  "lb_write l s =
     l\<lparr>lb_buf := take kCap (lb_buf l @ s), lb_trunc := lb_trunc l \<or> kCap < length (lb_buf l @ s)\<rparr>"

lemma lb_wf_empty [simp]: "lb_wf lb_empty"
  by (simp add: lb_wf_def lb_empty_def lb_size_def)

lemma lb_write_wf [simp]: "lb_wf (lb_write l s)"
  by (simp add: lb_wf_def lb_write_def lb_size_def)

lemma lb_write_append [simp]: "lb_write (lb_write l s) t = lb_write l (s @ t)"
  by (rule line_buffer.equality) (auto simp: lb_write_def min_def)

lemma lb_append_char_write: "lb_wf l \<Longrightarrow> lb_append_char l c = lb_write l [c]"
  by (auto simp: lb_append_char_def lb_write_def lb_wf_def lb_size_def)

lemma lb_append_write: "lb_wf l \<Longrightarrow> lb_append l s = lb_write l s"
  by (auto simp: lb_append_def lb_write_def lb_wf_def lb_size_def Let_def)

text \<open>
  The encoder only needs a sink whose two append operations extend one text. Its lemmas
  are proved over that interface and used on the line buffer.
\<close>

locale byte_sink =
  fixes put1 :: "'b \<Rightarrow> u8 \<Rightarrow> 'b"
    and put :: "'b \<Rightarrow> bytes \<Rightarrow> 'b"
    and ext :: "'b \<Rightarrow> bytes \<Rightarrow> 'b"
    and ok :: "'b \<Rightarrow> bool"
  assumes put1_ext: "ok b \<Longrightarrow> put1 b c = ext b [c]"
    and put_ext: "ok b \<Longrightarrow> put b s = ext b s"
    and ext_ext: "ext (ext b s) t = ext b (s @ t)"
    and ext_ok: "ok (ext b s)"
begin

lemma put1_put1: "ok b \<Longrightarrow> put1 (put1 b c) d = ext b [c, d]"
  by (simp add: put1_ext ext_ext ext_ok)

lemma put_all:
  assumes step: "\<And>b c. ok b \<Longrightarrow> emit b c = ext b (g c)" and "ok b" and "cs \<noteq> []"
  shows "foldl emit b cs = ext b (concat (map g cs))"
  using assms(2,3)
proof (induction cs arbitrary: b)
  case Nil
  then show ?case by simp
next
  case (Cons c cs)
  show ?case
  proof (cases "cs = []")
    case True
    with Cons.prems step show ?thesis by simp
  next
    case False
    with Cons.IH [of "emit b c"] Cons.prems step show ?thesis
      by (simp add: ext_ok ext_ext)
  qed
qed

end

interpretation line: byte_sink lb_append_char lb_append lb_write lb_wf
  by unfold_locales (auto simp: lb_append_char_write lb_append_write)

section \<open>Encoder\<close>

definition enc_max_depth :: nat where
  "enc_max_depth = 16"

record encoder =
  enc_out :: line_buffer
  enc_stack :: "bool list"
  enc_depth :: nat

definition new_encoder :: "line_buffer \<Rightarrow> encoder" where
  "new_encoder out = \<lparr>enc_out = out, enc_stack = replicate enc_max_depth False, enc_depth = 0\<rparr>"

definition maybe_comma :: "encoder \<Rightarrow> encoder" where
  "maybe_comma e =
     (if enc_depth e = 0 then e
      else if enc_stack e ! (enc_depth e - 1) then e\<lparr>enc_out := lb_append_char (enc_out e) ch_comma\<rparr>
      else e)"

definition push_frame :: "encoder \<Rightarrow> encoder" where
  "push_frame e =
     (if enc_depth e < enc_max_depth
      then e\<lparr>enc_stack := (enc_stack e)[enc_depth e := False], enc_depth := enc_depth e + 1\<rparr>
      else e)"

definition pop_frame :: "encoder \<Rightarrow> encoder" where
  "pop_frame e = (if 0 < enc_depth e then e\<lparr>enc_depth := enc_depth e - 1\<rparr> else e)"

definition mark_needs_comma :: "encoder \<Rightarrow> encoder" where
  "mark_needs_comma e =
     (if 0 < enc_depth e then e\<lparr>enc_stack := (enc_stack e)[enc_depth e - 1 := True]\<rparr> else e)"

definition clear_needs_comma :: "encoder \<Rightarrow> encoder" where
  "clear_needs_comma e =
     (if 0 < enc_depth e then e\<lparr>enc_stack := (enc_stack e)[enc_depth e - 1 := False]\<rparr> else e)"

definition out_char :: "encoder \<Rightarrow> u8 \<Rightarrow> encoder" where
  "out_char e c = e\<lparr>enc_out := lb_append_char (enc_out e) c\<rparr>"

definition out_bytes :: "encoder \<Rightarrow> bytes \<Rightarrow> encoder" where
  "out_bytes e s = e\<lparr>enc_out := lb_append (enc_out e) s\<rparr>"

definition begin_object :: "encoder \<Rightarrow> encoder" where
  "begin_object e = push_frame (out_char (maybe_comma e) ch_lbrace)"

definition end_object :: "encoder \<Rightarrow> encoder" where
  "end_object e = mark_needs_comma (pop_frame (out_char e ch_rbrace))"

definition begin_array :: "encoder \<Rightarrow> encoder" where
  "begin_array e = push_frame (out_char (maybe_comma e) ch_lbrack)"

definition end_array :: "encoder \<Rightarrow> encoder" where
  "end_array e = mark_needs_comma (pop_frame (out_char e ch_rbrack))"

definition enc_key :: "encoder \<Rightarrow> bytes \<Rightarrow> encoder" where
  "enc_key e k =
     clear_needs_comma
       (out_char (out_char (out_bytes (out_char (maybe_comma e) ch_quote) k) ch_quote) ch_colon)"

definition append_escaped :: "line_buffer \<Rightarrow> u8 \<Rightarrow> line_buffer" where
  "append_escaped l c =
     (if c = ch_quote then lb_append_char (lb_append_char l ch_bslash) ch_quote
      else if c = ch_bslash then lb_append_char (lb_append_char l ch_bslash) ch_bslash
      else if c = ch_nl then lb_append_char (lb_append_char l ch_bslash) ch_n
      else if c = ch_cr then lb_append_char (lb_append_char l ch_bslash) ch_r
      else if c = ch_tab then lb_append_char (lb_append_char l ch_bslash) ch_t
      else lb_append_char l c)"

definition value_str :: "encoder \<Rightarrow> bytes \<Rightarrow> encoder" where
  "value_str e s =
     (let e1 = out_char (maybe_comma e) ch_quote;
          e2 = e1\<lparr>enc_out := foldl append_escaped (enc_out e1) s\<rparr>
      in mark_needs_comma (out_char e2 ch_quote))"

definition value_int :: "encoder \<Rightarrow> int \<Rightarrow> encoder" where
  "value_int e v =
     (let e1 = maybe_comma e; tmp = dec_int v;
          e2 = (if 0 < length tmp then out_bytes e1 tmp else e1)
      in mark_needs_comma e2)"

definition value_bool :: "encoder \<Rightarrow> bool \<Rightarrow> encoder" where
  "value_bool e v =
     (let e1 = maybe_comma e
      in mark_needs_comma (if v then out_bytes e1 (str ''true'') else out_bytes e1 (str ''false'')))"

section \<open>The rendering an envelope is meant to have\<close>

datatype jval = JStr bytes | JInt int | JBool bool

definition escape_byte :: "u8 \<Rightarrow> bytes" where
  "escape_byte c =
     (if c = ch_quote then [ch_bslash, ch_quote]
      else if c = ch_bslash then [ch_bslash, ch_bslash]
      else if c = ch_nl then [ch_bslash, ch_n]
      else if c = ch_cr then [ch_bslash, ch_r]
      else if c = ch_tab then [ch_bslash, ch_t]
      else [c])"

definition escape :: "bytes \<Rightarrow> bytes" where
  "escape s = concat (map escape_byte s)"

definition quoted :: "bytes \<Rightarrow> bytes" where
  "quoted s = ch_quote # s @ [ch_quote]"

fun render_val :: "jval \<Rightarrow> bytes" where
  "render_val (JStr s) = quoted (escape s)"
| "render_val (JInt i) = dec_int i"
| "render_val (JBool b) = (if b then str ''true'' else str ''false'')"

definition render_field :: "bytes \<times> jval \<Rightarrow> bytes" where
  "render_field f = quoted (fst f) @ ch_colon # render_val (snd f)"

fun render_fields :: "(bytes \<times> jval) list \<Rightarrow> bytes" where
  "render_fields [] = []"
| "render_fields [f] = render_field f"
| "render_fields (f # fs) = render_field f @ ch_comma # render_fields fs"

definition render_object :: "(bytes \<times> jval) list \<Rightarrow> bytes" where
  "render_object fs = ch_lbrace # render_fields fs @ [ch_rbrace]"

text \<open>One field written with the encoder's two calls, and a whole object.\<close>

fun enc_value :: "encoder \<Rightarrow> jval \<Rightarrow> encoder" where
  "enc_value e (JStr s) = value_str e s"
| "enc_value e (JInt i) = value_int e i"
| "enc_value e (JBool b) = value_bool e b"

definition enc_field :: "encoder \<Rightarrow> bytes \<times> jval \<Rightarrow> encoder" where
  "enc_field e f = enc_value (enc_key e (fst f)) (snd f)"

definition enc_object :: "line_buffer \<Rightarrow> (bytes \<times> jval) list \<Rightarrow> line_buffer" where
  "enc_object l fs = enc_out (end_object (foldl enc_field (begin_object (new_encoder l)) fs))"

section \<open>The encoder renders\<close>

lemma append_escaped_write: "lb_wf l \<Longrightarrow> append_escaped l c = lb_write l (escape_byte c)"
  by (simp add: append_escaped_def escape_byte_def line.put1_put1 lb_append_char_write)

lemma foldl_append_escaped:
  "lb_wf l \<Longrightarrow> s \<noteq> [] \<Longrightarrow> foldl append_escaped l s = lb_write l (escape s)"
  unfolding escape_def by (rule line.put_all) (auto simp: append_escaped_write)

text \<open>
  An encoder inside one open object: depth one, the flag saying whether a field was
  already written, and the text written so far.
\<close>

definition in_object :: "encoder \<Rightarrow> bool \<Rightarrow> bool" where
  "in_object e comma \<longleftrightarrow>
     enc_depth e = 1 \<and> length (enc_stack e) = enc_max_depth \<and> enc_stack e ! 0 = comma \<and> lb_wf (enc_out e)"

lemma quoted_escape_write:
  "lb_wf l \<Longrightarrow>
    lb_append_char (foldl append_escaped (lb_append_char l ch_quote) s) ch_quote = lb_write l (quoted (escape s))"
  by (cases "s = []")
     (simp_all add: quoted_def escape_def lb_append_char_write foldl_append_escaped)

lemma enc_key_in_object:
  assumes "in_object e comma"
  shows "in_object (enc_key e k) False \<and>
    enc_out (enc_key e k) =
      lb_write (enc_out e) ((if comma then [ch_comma] else []) @ quoted k @ [ch_colon])"
  using assms
  by (auto simp: in_object_def enc_key_def maybe_comma_def out_char_def out_bytes_def quoted_def
      clear_needs_comma_def lb_append_char_write lb_append_write enc_max_depth_def)

lemma dec_int_nonempty [simp]: "dec_int v \<noteq> []"
  by (simp add: dec_int_def)

lemma enc_value_in_object:
  assumes "in_object e False"
  shows "in_object (enc_value e v) True \<and>
    enc_out (enc_value e v) = lb_write (enc_out e) (render_val v)"
  using assms
  by (cases v)
     (auto simp: in_object_def value_str_def value_int_def value_bool_def maybe_comma_def Let_def
      out_char_def out_bytes_def mark_needs_comma_def lb_append_write quoted_escape_write
      enc_max_depth_def)

lemma enc_field_in_object:
  assumes "in_object e comma"
  shows "in_object (enc_field e f) True \<and>
    enc_out (enc_field e f) =
      lb_write (enc_out e) ((if comma then [ch_comma] else []) @ render_field f)"
  using enc_key_in_object [OF assms, of "fst f"] enc_value_in_object [of "enc_key e (fst f)" "snd f"]
  by (simp add: enc_field_def render_field_def)

lemma enc_fields_in_object:
  assumes "in_object e comma" and "fs \<noteq> []"
  shows "in_object (foldl enc_field e fs) True \<and>
    enc_out (foldl enc_field e fs) =
      lb_write (enc_out e) ((if comma then [ch_comma] else []) @ render_fields fs)"
  using assms
proof (induction fs arbitrary: e comma rule: render_fields.induct)
  case 1
  then show ?case by simp
next
  case (2 f)
  then show ?case by (simp add: enc_field_in_object)
next
  case (3 f g fs)
  then have "in_object (enc_field e f) True" by (simp add: enc_field_in_object)
  with 3 enc_field_in_object [OF "3.prems"(1), of f] show ?case by simp
qed

lemma begin_object_in_object:
  "lb_wf l \<Longrightarrow> in_object (begin_object (new_encoder l)) False \<and>
     enc_out (begin_object (new_encoder l)) = lb_write l [ch_lbrace]"
  by (simp add: in_object_def begin_object_def new_encoder_def push_frame_def maybe_comma_def
      out_char_def enc_max_depth_def lb_append_char_write)

lemma end_object_out:
  "in_object e comma \<Longrightarrow> enc_out (end_object e) = lb_write (enc_out e) [ch_rbrace]"
  by (simp add: in_object_def end_object_def out_char_def pop_frame_def mark_needs_comma_def
      lb_append_char_write)

lemma enc_object_write:
  assumes "lb_wf l"
  shows "enc_object l fs = lb_write l (render_object fs)"
proof -
  note b = begin_object_in_object [OF assms]
  show ?thesis
  proof (cases "fs = []")
    case True
    with b end_object_out [OF conjunct1 [OF b]] show ?thesis
      by (simp add: enc_object_def render_object_def)
  next
    case False
    with b have f: "in_object (foldl enc_field (begin_object (new_encoder l)) fs) True \<and>
      enc_out (foldl enc_field (begin_object (new_encoder l)) fs) =
        lb_write l (ch_lbrace # render_fields fs)"
      using enc_fields_in_object [of "begin_object (new_encoder l)" False fs] by simp
    with end_object_out [OF conjunct1 [OF f]] show ?thesis
      by (simp add: enc_object_def render_object_def)
  qed
qed

end
