(* ===== verification/Wire_Reader.thy ===== *)
theory Wire_Reader
  imports Wire_Encoder
begin

text \<open>
  The receiving half of the wire: the class \<open>Reader\<close> of
  \<open>source/program/json_line.{hpp,cpp}\<close>. The object is a record: the writable buffer
  (strings are unescaped in place), the cursor \<open>p_\<close> and the end \<open>end_\<close> as indexes
  into it, the frame stack with its depth, and the sticky error flag. A
  \<open>std::string_view\<close> handed out is a pair of start and length into the buffer. A member
  function that returns \<open>bool\<close> and fills an out parameter returns an \<open>option\<close> of that
  value and the new object: \<open>None\<close> is \<open>false\<close>, with the parameter left alone.
\<close>

section \<open>State\<close>

record frame =
  fr_is_object :: bool
  fr_needs_comma :: bool

definition rd_max_depth :: nat where
  "rd_max_depth = 8"

record reader =
  rd_buf :: bytes
  rd_p :: nat
  rd_end :: nat
  rd_stack :: "frame list"
  rd_depth :: nat
  rd_error :: bool

type_synonym view = "nat \<times> nat"

definition new_reader :: "bytes \<Rightarrow> nat \<Rightarrow> reader" where
  "new_reader data len =
     \<lparr>rd_buf = data, rd_p = 0, rd_end = len,
      rd_stack = replicate rd_max_depth \<lparr>fr_is_object = False, fr_needs_comma = False\<rparr>,
      rd_depth = 0, rd_error = False\<rparr>"

definition rd_cur :: "reader \<Rightarrow> u8" where
  "rd_cur r = rd_buf r ! rd_p r"

definition view_bytes :: "reader \<Rightarrow> view \<Rightarrow> bytes" where
  "view_bytes r v = take (snd v) (drop (fst v) (rd_buf r))"

definition rd_top :: "reader \<Rightarrow> frame" where
  "rd_top r = rd_stack r ! (rd_depth r - 1)"

definition rd_advance :: "nat \<Rightarrow> reader \<Rightarrow> reader" where
  "rd_advance n r = r\<lparr>rd_p := rd_p r + n\<rparr>"

definition is_ws :: "u8 \<Rightarrow> bool" where
  "is_ws c \<longleftrightarrow> c = ch_space \<or> c = ch_tab \<or> c = ch_nl \<or> c = ch_cr"

function skip_ws_from :: "bytes \<Rightarrow> nat \<Rightarrow> nat \<Rightarrow> nat" where
  "skip_ws_from b p e = (if p < e \<and> is_ws (b ! p) then skip_ws_from b (Suc p) e else p)"
  by pat_completeness auto
termination
  by (relation "measure (\<lambda>(b, p, e). e - p)") auto

declare skip_ws_from.simps [simp del]

definition skip_ws :: "reader \<Rightarrow> reader" where
  "skip_ws r = r\<lparr>rd_p := skip_ws_from (rd_buf r) (rd_p r) (rd_end r)\<rparr>"

definition rd_fail :: "reader \<Rightarrow> reader" where
  "rd_fail r = r\<lparr>rd_error := True\<rparr>"

definition in_array_after_value :: "reader \<Rightarrow> bool" where
  "in_array_after_value r \<longleftrightarrow> 0 < rd_depth r \<and> \<not> fr_is_object (rd_top r) \<and> fr_needs_comma (rd_top r)"

definition prepare_value :: "reader \<Rightarrow> bool \<times> reader" where
  "prepare_value r =
     (if rd_error r then (False, r)
      else if in_array_after_value r then
        (let r1 = skip_ws r
         in if rd_p r1 \<ge> rd_end r1 \<or> rd_cur r1 \<noteq> ch_comma then (False, rd_fail r1)
            else let r2 = skip_ws (rd_advance (Suc 0) r1) in (rd_p r2 < rd_end r2, r2))
      else let r2 = skip_ws r in (rd_p r2 < rd_end r2, r2))"

definition mark_value_done :: "reader \<Rightarrow> reader" where
  "mark_value_done r =
     (if 0 < rd_depth r \<and> \<not> fr_is_object (rd_top r)
      then r\<lparr>rd_stack := (rd_stack r)[rd_depth r - 1 := (rd_top r)\<lparr>fr_needs_comma := True\<rparr>]\<rparr>
      else r)"

section \<open>Strings, unescaped in place\<close>

definition is_hex_digit :: "u8 \<Rightarrow> bool" where
  "is_hex_digit c \<longleftrightarrow>
     (ch_0 \<le> c \<and> c \<le> ch_9) \<or> (ch_a \<le> c \<and> c \<le> ch_f) \<or> (ch_A \<le> c \<and> c \<le> ch_F)"

definition hex_val :: "u8 \<Rightarrow> u32" where
  "hex_val c =
     (if ch_0 \<le> c \<and> c \<le> ch_9 then ucast (c - ch_0)
      else if ch_a \<le> c \<and> c \<le> ch_f then ucast (c - ch_a) + 10
      else ucast (c - ch_A) + 10)"

text \<open>The \<open>for\<close> loop over the four digits: success, cursor, code point.\<close>

fun hex_loop :: "bytes \<Rightarrow> nat \<Rightarrow> nat \<Rightarrow> u32 \<Rightarrow> bool \<times> nat \<times> u32" where
  "hex_loop b p 0 cp = (True, p, cp)"
| "hex_loop b p (Suc n) cp =
     (let h = b ! p
      in if \<not> is_hex_digit h then (False, Suc p, cp)
         else hex_loop b (Suc p) n (push_bit 4 cp OR hex_val h))"

definition utf8_bytes :: "u32 \<Rightarrow> bytes" where
  "utf8_bytes cp =
     (if cp < 0x80 then [ucast cp]
      else if cp < 0x800 then [ucast (0xC0 OR drop_bit 6 cp), ucast (0x80 OR (cp AND 0x3F))]
      else [ucast (0xE0 OR drop_bit 12 cp), ucast (0x80 OR (drop_bit 6 cp AND 0x3F)),
            ucast (0x80 OR (cp AND 0x3F))])"

definition simple_escape :: "u8 \<Rightarrow> u8 option" where
  "simple_escape c =
     (if c = ch_quote then Some ch_quote
      else if c = ch_bslash then Some ch_bslash
      else if c = ch_slash then Some ch_slash
      else if c = ch_n then Some ch_nl
      else if c = ch_r then Some ch_cr
      else if c = ch_t then Some ch_tab
      else if c = ch_b then Some 0x08
      else if c = ch_f then Some 0x0C
      else None)"

fun put_bytes :: "bytes \<Rightarrow> nat \<Rightarrow> bytes \<Rightarrow> bytes" where
  "put_bytes b w [] = b"
| "put_bytes b w (x # xs) = put_bytes (b[w := x]) (Suc w) xs"

lemma hex_loop_cursor: "hex_loop b p n cp = (ok, p', cp') \<Longrightarrow> p \<le> p' \<and> p' \<le> p + n \<and> (ok \<longrightarrow> p' = p + n)"
  by (induction b p n cp rule: hex_loop.induct) (fastforce simp: Let_def split: if_splits)+

text \<open>The \<open>while\<close> loop: success, buffer, read cursor, write cursor.\<close>

function read_loop :: "bytes \<Rightarrow> nat \<Rightarrow> nat \<Rightarrow> nat \<Rightarrow> bool \<times> bytes \<times> nat \<times> nat" where
  "read_loop b p w e =
     (if p < e \<and> b ! p \<noteq> ch_quote then
        (if b ! p = ch_bslash then
           (if Suc p \<ge> e then (False, b, Suc p, w)
            else let esc = b ! Suc p; p2 = Suc (Suc p)
                 in if esc = ch_u then
                      (if e - p2 < 4 then (False, b, p2, w)
                       else (case hex_loop b p2 4 0 of (ok, p3, cp) \<Rightarrow>
                               if \<not> ok then (False, b, p3, w)
                               else let xs = utf8_bytes cp
                                    in read_loop (put_bytes b w xs) p3 (w + length xs) e))
                    else (case simple_escape esc of
                            None \<Rightarrow> (False, b, p2, w)
                          | Some x \<Rightarrow> read_loop (b[w := x]) p2 (Suc w) e))
         else read_loop (b[w := b ! p]) (Suc p) (Suc w) e)
      else (True, b, p, w))"
  by pat_completeness auto
termination
  by (relation "measure (\<lambda>(b, p, w, e). e - p)") (auto dest: hex_loop_cursor [OF sym])

declare read_loop.simps [simp del]

definition read_string :: "reader \<Rightarrow> view option \<times> reader" where
  "read_string r =
     (if rd_p r \<ge> rd_end r \<or> rd_cur r \<noteq> ch_quote then (None, r)
      else let start = Suc (rd_p r)
           in (case read_loop (rd_buf r) start start (rd_end r) of (ok, b, p, w) \<Rightarrow>
                 let r1 = r\<lparr>rd_buf := b, rd_p := p\<rparr>
                 in if \<not> ok then (None, r1)
                    else if p \<ge> rd_end r \<or> b ! p \<noteq> ch_quote then (None, r1)
                    else (Some (start, w - start), rd_advance (Suc 0) r1)))"

section \<open>Structure\<close>

definition push_rd_frame :: "frame \<Rightarrow> reader \<Rightarrow> reader" where
  "push_rd_frame f r = r\<lparr>rd_stack := (rd_stack r)[rd_depth r := f], rd_depth := rd_depth r + 1\<rparr>"

definition rd_enter :: "u8 \<Rightarrow> frame \<Rightarrow> reader \<Rightarrow> bool \<times> reader" where
  "rd_enter opening f r =
     (case prepare_value r of (ok, r1) \<Rightarrow>
        if \<not> ok then (False, rd_fail r1)
        else if rd_cur r1 \<noteq> opening then (False, rd_fail r1)
        else let r2 = rd_advance (Suc 0) r1
             in if rd_depth r2 \<ge> rd_max_depth then (False, rd_fail r2)
                else (True, push_rd_frame f r2))"

definition enter_object :: "reader \<Rightarrow> bool \<times> reader" where
  "enter_object = rd_enter ch_lbrace \<lparr>fr_is_object = True, fr_needs_comma = False\<rparr>"

definition enter_array :: "reader \<Rightarrow> bool \<times> reader" where
  "enter_array = rd_enter ch_lbrack \<lparr>fr_is_object = False, fr_needs_comma = False\<rparr>"

definition rd_exit :: "u8 \<Rightarrow> bool \<Rightarrow> reader \<Rightarrow> bool \<times> reader" where
  "rd_exit closing is_obj r =
     (if rd_error r then (False, r)
      else if rd_depth r = 0 \<or> fr_is_object (rd_top r) \<noteq> is_obj then (False, rd_fail r)
      else let r1 = skip_ws r
           in if rd_p r1 \<ge> rd_end r1 \<or> rd_cur r1 \<noteq> closing then (False, rd_fail r1)
              else let r2 = rd_advance (Suc 0) r1
                   in (True, mark_value_done (r2\<lparr>rd_depth := rd_depth r2 - 1\<rparr>)))"

definition exit_object :: "reader \<Rightarrow> bool \<times> reader" where
  "exit_object = rd_exit ch_rbrace True"

definition exit_array :: "reader \<Rightarrow> bool \<times> reader" where
  "exit_array = rd_exit ch_rbrack False"

definition has_more_in_array :: "reader \<Rightarrow> bool" where
  "has_more_in_array r =
     (if rd_error r then False
      else if rd_depth r = 0 \<or> fr_is_object (rd_top r) then False
      else let q = skip_ws_from (rd_buf r) (rd_p r) (rd_end r)
           in if q \<ge> rd_end r then False else rd_buf r ! q \<noteq> ch_rbrack)"

definition next_field :: "reader \<Rightarrow> view option \<times> reader" where
  "next_field r =
     (if rd_error r then (None, r)
      else if rd_depth r = 0 \<or> \<not> fr_is_object (rd_top r) then (None, rd_fail r)
      else let r1 = skip_ws r
           in if rd_p r1 \<ge> rd_end r1 then (None, rd_fail r1)
              else if rd_cur r1 = ch_rbrace then (None, r1)
              else if fr_needs_comma (rd_top r1) \<and> rd_cur r1 \<noteq> ch_comma then (None, rd_fail r1)
              else let r2 = (if fr_needs_comma (rd_top r1) then skip_ws (rd_advance (Suc 0) r1) else r1)
                   in if rd_p r2 \<ge> rd_end r2 \<or> rd_cur r2 \<noteq> ch_quote then (None, rd_fail r2)
                      else (case read_string r2 of
                              (None, r3) \<Rightarrow> (None, rd_fail r3)
                            | (Some key, r3) \<Rightarrow>
                                let r4 = skip_ws r3
                                in if rd_p r4 \<ge> rd_end r4 \<or> rd_cur r4 \<noteq> ch_colon then (None, rd_fail r4)
                                   else let r5 = skip_ws (rd_advance (Suc 0) r4)
                                        in (Some key,
                                            r5\<lparr>rd_stack := (rd_stack r5)[rd_depth r5 - 1 :=
                                                 (rd_top r5)\<lparr>fr_needs_comma := True\<rparr>]\<rparr>)))"

section \<open>Values\<close>

definition next_string :: "reader \<Rightarrow> view option \<times> reader" where
  "next_string r =
     (case prepare_value r of (ok, r1) \<Rightarrow>
        if \<not> ok then (None, rd_fail r1)
        else (case read_string r1 of
                (None, r2) \<Rightarrow> (None, rd_fail r2)
              | (Some v, r2) \<Rightarrow> (Some v, mark_value_done r2)))"

text \<open>
  The accumulator is \<open>std::int64_t\<close>; \<open>v * 10 + d\<close> past its range is left to the
  hardware, which wraps.
\<close>

function int_loop :: "bytes \<Rightarrow> nat \<Rightarrow> nat \<Rightarrow> u64 \<Rightarrow> nat \<times> u64" where
  "int_loop b p e v =
     (if p < e \<and> ch_0 \<le> b ! p \<and> b ! p \<le> ch_9
      then int_loop b (Suc p) e (v * 10 + ucast (b ! p - ch_0)) else (p, v))"
  by pat_completeness auto
termination
  by (relation "measure (\<lambda>(b, p, e, v). e - p)") auto

declare int_loop.simps [simp del]

definition next_int :: "reader \<Rightarrow> u64 option \<times> reader" where
  "next_int r =
     (case prepare_value r of (ok, r1) \<Rightarrow>
        if \<not> ok then (None, rd_fail r1)
        else let neg = (rd_cur r1 = ch_minus);
                 r2 = (if neg then rd_advance (Suc 0) r1 else r1)
             in if neg \<and> rd_p r2 \<ge> rd_end r2 then (None, rd_fail r2)
                else if rd_cur r2 < ch_0 \<or> rd_cur r2 > ch_9 then (None, rd_fail r2)
                else (case int_loop (rd_buf r2) (rd_p r2) (rd_end r2) 0 of (p, v) \<Rightarrow>
                        let r3 = r2\<lparr>rd_p := p\<rparr>
                        in if p < rd_end r3 \<and> (rd_cur r3 = ch_dot \<or> rd_cur r3 = ch_e \<or> rd_cur r3 = ch_E)
                           then (None, rd_fail r3)
                           else (Some (if neg then - v else v), mark_value_done r3)))"

text \<open>\<open>end_ - p_ >= n && p_[0] == ... && p_[n-1] == ...\<close>\<close>

definition rd_looking_at :: "bytes \<Rightarrow> reader \<Rightarrow> bool" where
  "rd_looking_at w r \<longleftrightarrow>
     rd_end r - rd_p r \<ge> length w \<and> take (length w) (drop (rd_p r) (rd_buf r)) = w"

definition next_bool :: "reader \<Rightarrow> bool option \<times> reader" where
  "next_bool r =
     (case prepare_value r of (ok, r1) \<Rightarrow>
        if \<not> ok then (None, rd_fail r1)
        else if rd_looking_at (str ''true'') r1 then (Some True, mark_value_done (rd_advance 4 r1))
        else if rd_looking_at (str ''false'') r1 then (Some False, mark_value_done (rd_advance 5 r1))
        else (None, rd_fail r1))"

definition is_null :: "reader \<Rightarrow> bool \<times> reader" where
  "is_null r =
     (if rd_error r then (False, r)
      else let save = rd_p r; r1 = (if in_array_after_value r then skip_ws r else r)
           in if in_array_after_value r \<and> (rd_p r1 \<ge> rd_end r1 \<or> rd_cur r1 \<noteq> ch_comma)
              then (False, r1\<lparr>rd_p := save\<rparr>)
              else let r2 = skip_ws (if in_array_after_value r then rd_advance (Suc 0) r1 else r1)
                   in if rd_looking_at (str ''null'') r2
                      then (True, mark_value_done (rd_advance 4 r2))
                      else (False, r2\<lparr>rd_p := save\<rparr>))"

text \<open>
  The idiom both callers use for a field they do not know:
  \<open>(void)(r.isNull() || r.nextString(_sv) || r.nextInt(_i) || r.nextBool(_b))\<close>.
\<close>

definition skip_value :: "reader \<Rightarrow> reader" where
  "skip_value r =
     (case is_null r of (True, r1) \<Rightarrow> r1
      | (False, r1) \<Rightarrow>
         (case next_string r1 of (Some _, r2) \<Rightarrow> r2
          | (None, r2) \<Rightarrow>
             (case next_int r2 of (Some _, r3) \<Rightarrow> r3
              | (None, r3) \<Rightarrow> snd (next_bool r3))))"

end
