(* ===== verification/Wire.thy ===== *)
theory Wire
  imports Wire_Reader
begin

text \<open>
  What the wire components promise together. First the cursor discipline of the reader:
  no operation moves the cursor backwards or past the end, writes to bytes it has already
  handed out as views, or touches input it has not read. Then the in-place unescaping is
  shown equal to a pure decoder on byte lists, and the decoder inverts the encoder's
  escaping, so every value the encoder writes is read back.
\<close>

section \<open>Cursor discipline\<close>

definition advances :: "reader \<Rightarrow> reader \<Rightarrow> bool" where
  "advances r r' \<longleftrightarrow>
     rd_end r' = rd_end r \<and> length (rd_buf r') = length (rd_buf r) \<and> rd_p r \<le> rd_p r' \<and>
     take (rd_p r) (rd_buf r') = take (rd_p r) (rd_buf r) \<and>
     drop (rd_p r') (rd_buf r') = drop (rd_p r') (rd_buf r) \<and>
     (rd_p r \<le> rd_end r \<longrightarrow> rd_p r' \<le> rd_end r)"

lemma take_eq_le: "take n xs = take n ys \<Longrightarrow> m \<le> n \<Longrightarrow> take m xs = take m ys"
  by (metis min.absorb1 take_take)

lemma drop_eq_ge: "drop n xs = drop n ys \<Longrightarrow> n \<le> m \<Longrightarrow> drop m xs = drop m ys"
  by (metis drop_drop le_add_diff_inverse2)

lemma advances_refl [simp]: "advances r r"
  by (simp add: advances_def)

lemma advances_trans: "advances r s \<Longrightarrow> advances s t \<Longrightarrow> advances r t"
  unfolding advances_def
  using take_eq_le [of "rd_p s" "rd_buf t" "rd_buf s" "rd_p r"]
    drop_eq_ge [of "rd_p s" "rd_buf s" "rd_buf r" "rd_p t"]
  by auto

text \<open>Operations that leave the buffer alone only have to move the cursor forward.\<close>

lemma advances_cursor:
  "rd_buf r' = rd_buf r \<Longrightarrow> rd_end r' = rd_end r \<Longrightarrow> rd_p r \<le> rd_p r' \<Longrightarrow>
    (rd_p r \<le> rd_end r \<Longrightarrow> rd_p r' \<le> rd_end r) \<Longrightarrow> advances r r'"
  by (simp add: advances_def)

lemma skip_ws_from_bounds: "p \<le> skip_ws_from b p e \<and> (p \<le> e \<longrightarrow> skip_ws_from b p e \<le> e)"
proof (induction b p e rule: skip_ws_from.induct)
  case (1 b p e)
  then show ?case by (subst skip_ws_from.simps, subst (2) skip_ws_from.simps) auto
qed

lemma advances_skip_ws [simp]: "advances r (skip_ws r)"
  by (rule advances_cursor) (use skip_ws_from_bounds in \<open>auto simp: skip_ws_def\<close>)

lemma advances_fail [simp]: "advances r (rd_fail s) = advances r s"
  by (simp add: advances_def rd_fail_def)

lemma advances_stack [simp]: "advances r (s\<lparr>rd_stack := st\<rparr>) = advances r s"
  by (simp add: advances_def)

lemma advances_depth [simp]: "advances r (s\<lparr>rd_depth := d\<rparr>) = advances r s"
  by (simp add: advances_def)

lemma advances_mark [simp]: "advances r (mark_value_done s) = advances r s"
  by (simp add: mark_value_done_def)

lemma advances_push [simp]: "advances r (push_rd_frame f s) = advances r s"
  by (simp add: push_rd_frame_def advances_def)

lemma advances_step: "advances r s \<Longrightarrow> rd_p s + n \<le> rd_end s \<Longrightarrow> advances r (rd_advance n s)"
  by (erule advances_trans) (rule advances_cursor, auto simp: rd_advance_def)

lemma advances_ws: "advances r s \<Longrightarrow> advances r (skip_ws s)"
  by (erule advances_trans) simp

lemma advances_prepare: "prepare_value r = (ok, r') \<Longrightarrow> advances r r' \<and> (ok \<longrightarrow> rd_p r' < rd_end r')"
  unfolding prepare_value_def Let_def
  by (auto split: if_splits intro!: advances_ws advances_step)

lemma length_put_bytes [simp]: "length (put_bytes b w xs) = length b"
  by (induction b w xs rule: put_bytes.induct) auto

lemma take_put_bytes: "take w (put_bytes b w xs) = take w b"
proof (induction b w xs rule: put_bytes.induct)
  case (2 b w x xs)
  from take_eq_le [OF this, of w] show ?case by simp
qed simp

lemma drop_put_bytes: "w + length xs \<le> p \<Longrightarrow> drop p (put_bytes b w xs) = drop p b"
  by (induction b w xs rule: put_bytes.induct) auto

lemma put_bytes_content:
  "w + length xs \<le> length b \<Longrightarrow> take (w + length xs) (put_bytes b w xs) = take w b @ xs"
proof (induction b w xs rule: put_bytes.induct)
  case (1 b w)
  then show ?case by simp
next
  case (2 b w x xs)
  then have "take (Suc w + length xs) (put_bytes (b[w := x]) (Suc w) xs) = take (Suc w) (b[w := x]) @ xs"
    by simp
  moreover from 2 have "take (Suc w) (b[w := x]) = take w b @ [x]"
    by (simp add: take_Suc_conv_app_nth)
  ultimately show ?case by simp
qed

lemma utf8_bytes_length: "length (utf8_bytes cp) \<le> 3"
  by (simp add: utf8_bytes_def)

text \<open>One unfolding of the loop, by the branch taken.\<close>

lemma read_loop_stop: "\<not> (p < e \<and> b ! p \<noteq> ch_quote) \<Longrightarrow> read_loop b p w e = (True, b, p, w)"
  by (subst read_loop.simps) (simp only: if_False)

lemma read_loop_plain:
  "p < e \<Longrightarrow> b ! p \<noteq> ch_quote \<Longrightarrow> b ! p \<noteq> ch_bslash \<Longrightarrow>
    read_loop b p w e = read_loop (b[w := b ! p]) (Suc p) (Suc w) e"
  by (subst read_loop.simps) simp

lemma read_loop_escape:
  "p < e \<Longrightarrow> b ! p = ch_bslash \<Longrightarrow> Suc p < e \<Longrightarrow> b ! Suc p \<noteq> ch_u \<Longrightarrow>
    read_loop b p w e =
      (case simple_escape (b ! Suc p) of
         None \<Rightarrow> (False, b, Suc (Suc p), w)
       | Some x \<Rightarrow> read_loop (b[w := x]) (Suc (Suc p)) (Suc w) e)"
  by (subst read_loop.simps) (simp add: Let_def)

lemma read_loop_unicode:
  "p < e \<Longrightarrow> b ! p = ch_bslash \<Longrightarrow> Suc p < e \<Longrightarrow> b ! Suc p = ch_u \<Longrightarrow>
    read_loop b p w e =
      (if e - Suc (Suc p) < 4 then (False, b, Suc (Suc p), w)
       else (case hex_loop b (Suc (Suc p)) 4 0 of (ok, p3, cp) \<Rightarrow>
               if \<not> ok then (False, b, p3, w)
               else read_loop (put_bytes b w (utf8_bytes cp)) p3 (w + length (utf8_bytes cp)) e))"
  by (subst read_loop.simps) (simp add: Let_def split: prod.split)

lemma read_loop_trailing:
  "p < e \<Longrightarrow> b ! p = ch_bslash \<Longrightarrow> \<not> Suc p < e \<Longrightarrow> read_loop b p w e = (False, b, Suc p, w)"
  by (subst read_loop.simps) simp


text \<open>
  The shape of one pass through the loop, as an induction rule with a named case for every
  way the body can go.
\<close>

lemma read_loop_shape [case_names Stop Trailing Short BadHex Unicode BadEscape Escape Plain]:
  assumes stop: "\<And>b p w e. \<not> (p < e \<and> b ! p \<noteq> ch_quote) \<Longrightarrow> P b p w e"
    and trailing: "\<And>b p w e. p < e \<Longrightarrow> b ! p = ch_bslash \<Longrightarrow> \<not> Suc p < e \<Longrightarrow> P b p w e"
    and short: "\<And>b p w e. p < e \<Longrightarrow> b ! p = ch_bslash \<Longrightarrow> Suc p < e \<Longrightarrow> b ! Suc p = ch_u \<Longrightarrow>
      e - Suc (Suc p) < 4 \<Longrightarrow> P b p w e"
    and badhex: "\<And>b p w e p3 cp. p < e \<Longrightarrow> b ! p = ch_bslash \<Longrightarrow> Suc p < e \<Longrightarrow> b ! Suc p = ch_u \<Longrightarrow>
      \<not> e - Suc (Suc p) < 4 \<Longrightarrow> hex_loop b (Suc (Suc p)) 4 0 = (False, p3, cp) \<Longrightarrow> P b p w e"
    and unicode: "\<And>b p w e p3 cp. p < e \<Longrightarrow> b ! p = ch_bslash \<Longrightarrow> Suc p < e \<Longrightarrow> b ! Suc p = ch_u \<Longrightarrow>
      \<not> e - Suc (Suc p) < 4 \<Longrightarrow> hex_loop b (Suc (Suc p)) 4 0 = (True, p3, cp) \<Longrightarrow>
      P (put_bytes b w (utf8_bytes cp)) p3 (w + length (utf8_bytes cp)) e \<Longrightarrow> P b p w e"
    and badesc: "\<And>b p w e. p < e \<Longrightarrow> b ! p = ch_bslash \<Longrightarrow> Suc p < e \<Longrightarrow> b ! Suc p \<noteq> ch_u \<Longrightarrow>
      simple_escape (b ! Suc p) = None \<Longrightarrow> P b p w e"
    and esc: "\<And>b p w e x. p < e \<Longrightarrow> b ! p = ch_bslash \<Longrightarrow> Suc p < e \<Longrightarrow> b ! Suc p \<noteq> ch_u \<Longrightarrow>
      simple_escape (b ! Suc p) = Some x \<Longrightarrow> P (b[w := x]) (Suc (Suc p)) (Suc w) e \<Longrightarrow> P b p w e"
    and plain: "\<And>b p w e. p < e \<Longrightarrow> b ! p \<noteq> ch_quote \<Longrightarrow> b ! p \<noteq> ch_bslash \<Longrightarrow>
      P (b[w := b ! p]) (Suc p) (Suc w) e \<Longrightarrow> P b p w e"
  shows "P b p w e"
proof (induction b p w e rule: read_loop.induct)
  case (1 b p w e)
  show ?case
  proof (cases "p < e \<and> b ! p \<noteq> ch_quote")
    case False
    then show ?thesis by (rule stop)
  next
    case run: True
    show ?thesis
    proof (cases "b ! p = ch_bslash")
      case False
      with run show ?thesis by (auto intro!: plain 1(3))
    next
      case bs: True
      obtain ok p3 cp where h: "hex_loop b (Suc (Suc p)) 4 0 = (ok, p3, cp)"
        by (metis prod_cases3)
      consider (t) "\<not> Suc p < e" | (s) "Suc p < e" "b ! Suc p = ch_u" "e - Suc (Suc p) < 4"
        | (h) "Suc p < e" "b ! Suc p = ch_u" "\<not> e - Suc (Suc p) < 4" "\<not> ok"
        | (u) "Suc p < e" "b ! Suc p = ch_u" "\<not> e - Suc (Suc p) < 4" "ok"
        | (b) "Suc p < e" "b ! Suc p \<noteq> ch_u" "simple_escape (b ! Suc p) = None"
        | (e) x where "Suc p < e" "b ! Suc p \<noteq> ch_u" "simple_escape (b ! Suc p) = Some x"
        by (cases "simple_escape (b ! Suc p)") auto
      then show ?thesis
      proof cases
        case t
        with run bs show ?thesis by (intro trailing) auto
      next
        case s
        with run bs show ?thesis by (intro short) auto
      next
        case h
        with run bs \<open>hex_loop b _ 4 0 = _\<close> show ?thesis by (intro badhex) auto
      next
        case u
        with run bs \<open>hex_loop b _ 4 0 = _\<close> show ?thesis by (intro unicode [of p e b p3 cp w] 1(1)) auto
      next
        case b
        with run bs show ?thesis by (intro badesc) auto
      next
        case (e x)
        with run bs show ?thesis by (intro esc [of p e b x w] 1(2)) auto
      qed
    qed
  qed
qed

lemma read_loop_bounds:
  "read_loop b p w e = (ok, b', p', w') \<Longrightarrow> w \<le> p \<Longrightarrow>
    length b' = length b \<and> p \<le> p' \<and> w \<le> w' \<and> w' \<le> p' \<and> take w b' = take w b \<and>
    drop p' b' = drop p' b \<and> (p \<le> e \<longrightarrow> p' \<le> e)"
proof (induction b p w e arbitrary: b' p' w' rule: read_loop_shape)
  case (Stop b p w e)
  then show ?case by (auto simp: read_loop_stop)
next
  case (Trailing b p w e)
  then show ?case by (auto simp: read_loop_trailing)
next
  case (Short b p w e)
  then show ?case by (auto simp: read_loop_unicode)
next
  case (BadHex b p w e p3 cp)
  with hex_loop_cursor [OF BadHex(6)] show ?case by (auto simp: read_loop_unicode)
next
  case (Unicode b p w e p3 cp)
  let ?u = "utf8_bytes cp"
  from hex_loop_cursor [OF Unicode(6)] have p3: "p3 = p + 6" by simp
  with Unicode utf8_bytes_length [of cp] have
    "length b' = length (put_bytes b w ?u) \<and> p3 \<le> p' \<and> w + length ?u \<le> w' \<and> w' \<le> p' \<and>
     take (w + length ?u) b' = take (w + length ?u) (put_bytes b w ?u) \<and>
     drop p' b' = drop p' (put_bytes b w ?u) \<and> (p3 \<le> e \<longrightarrow> p' \<le> e)"
    by (simp add: read_loop_unicode)
  moreover from this have "take w b' = take w (put_bytes b w ?u)"
    by (auto intro: take_eq_le)
  ultimately show ?case using p3 Unicode(1,5) \<open>w \<le> p\<close>
    by (simp add: take_put_bytes drop_put_bytes)
next
  case (BadEscape b p w e)
  then show ?case by (auto simp: read_loop_escape)
next
  case (Escape b p w e x)
  from Escape(1-5,7) have e: "read_loop (b[w := x]) (Suc (Suc p)) (Suc w) e = (ok, b', p', w')"
    by (simp add: read_loop_escape)
  from Escape(8) have "Suc w \<le> Suc (Suc p)" by simp
  note r = Escape(6) [OF e this]
  then have "take (Suc w) b' = take (Suc w) (b[w := x])" by blast
  from take_eq_le [OF this, of w] r Escape(1,3) \<open>w \<le> p\<close> show ?case by simp
next
  case (Plain b p w e)
  from Plain(1-3,5) have e: "read_loop (b[w := b ! p]) (Suc p) (Suc w) e = (ok, b', p', w')"
    by (simp add: read_loop_plain)
  from Plain(6) have "Suc w \<le> Suc p" by simp
  note r = Plain(4) [OF e this]
  then have "take (Suc w) b' = take (Suc w) (b[w := b ! p])" by blast
  from take_eq_le [OF this, of w] r Plain(1) \<open>w \<le> p\<close> show ?case by simp
qed


lemma read_string_advances: "read_string r = (v, r') \<Longrightarrow> advances r r' \<and> (v \<noteq> None \<longrightarrow> rd_p r < rd_p r')"
proof -
  assume rs: "read_string r = (v, r')"
  show ?thesis
  proof (cases "rd_p r \<ge> rd_end r \<or> rd_cur r \<noteq> ch_quote")
    case True
    with rs show ?thesis by (auto simp: read_string_def)
  next
    case False
    obtain ok b p w where rl: "read_loop (rd_buf r) (Suc (rd_p r)) (Suc (rd_p r)) (rd_end r) = (ok, b, p, w)"
      by (metis prod_cases4)
    from read_loop_bounds [OF this] have b: "length b = length (rd_buf r)" "Suc (rd_p r) \<le> p"
      "take (Suc (rd_p r)) b = take (Suc (rd_p r)) (rd_buf r)" "drop p b = drop p (rd_buf r)"
      "rd_p r < rd_end r \<longrightarrow> p \<le> rd_end r" by auto
    let ?r1 = "r\<lparr>rd_buf := b, rd_p := p\<rparr>"
    from b take_eq_le [OF b(3), of "rd_p r"] False have a: "advances r ?r1"
      by (simp add: advances_def)
    from False rs rl have "r' = ?r1 \<and> v = None \<or> r' = rd_advance (Suc 0) ?r1 \<and> p < rd_end r"
      by (auto simp: read_string_def Let_def split: if_splits)
    with a b(2) show ?thesis by (auto intro!: advances_step) (simp add: rd_advance_def)
  qed
qed

lemma advances_p: "advances r s \<Longrightarrow> rd_p r \<le> rd_p s"
  by (simp add: advances_def)

lemma rd_p_simps [simp]:
  "rd_p (rd_fail r) = rd_p r" "rd_p (rd_advance n r) = rd_p r + n" "rd_p (mark_value_done r) = rd_p r"
  "rd_end (rd_fail r) = rd_end r" "rd_end (rd_advance n r) = rd_end r" "rd_end (mark_value_done r) = rd_end r"
  "rd_end (skip_ws r) = rd_end r" "rd_buf (skip_ws r) = rd_buf r" "rd_buf (rd_advance n r) = rd_buf r"
  "rd_buf (mark_value_done r) = rd_buf r" "rd_buf (rd_fail r) = rd_buf r"
  by (simp_all add: rd_fail_def rd_advance_def mark_value_done_def skip_ws_def)

lemma rd_enter_advances: "rd_enter c f r = (ok, r') \<Longrightarrow> advances r r'"
  unfolding rd_enter_def Let_def
  by (auto split: prod.splits if_splits dest!: advances_prepare intro!: advances_step)

lemma rd_exit_advances: "rd_exit c ob r = (ok, r') \<Longrightarrow> advances r r'"
  unfolding rd_exit_def Let_def
  by (auto split: if_splits intro!: advances_step)

lemma next_string_advances: "next_string r = (v, r') \<Longrightarrow> advances r r'"
  unfolding next_string_def
  by (auto split: prod.splits if_splits option.splits dest!: advances_prepare read_string_advances
      intro: advances_trans)

lemma int_loop_bounds: "int_loop b p e v = (p', v') \<Longrightarrow> p \<le> p' \<and> (p \<le> e \<longrightarrow> p' \<le> e)"
proof (induction b p e v rule: int_loop.induct)
  case (1 b p e v)
  show ?case
  proof (cases "p < e \<and> ch_0 \<le> b ! p \<and> b ! p \<le> ch_9")
    case True
    with 1 show ?thesis by (auto simp: int_loop.simps [of b p e v])
  next
    case False
    with "1.prems" show ?thesis by (auto simp: int_loop.simps [of b p e v])
  qed
qed

lemma next_int_advances:
  assumes "next_int r = (v, r')"
  shows "advances r r'"
proof -
  obtain ok r1 where p: "prepare_value r = (ok, r1)" by (cases "prepare_value r")
  note a = advances_prepare [OF p]
  show ?thesis
  proof (cases ok)
    case False
    with assms p a show ?thesis by (auto simp: next_int_def)
  next
    case True
    define r2 where "r2 = (if rd_cur r1 = ch_minus then rd_advance (Suc 0) r1 else r1)"
    from a True have a2: "advances r r2" and e2: "rd_end r2 = rd_end r1"
      by (auto simp: r2_def intro!: advances_step)
    obtain p' v' where il: "int_loop (rd_buf r2) (rd_p r2) (rd_end r2) 0 = (p', v')"
      by (cases "int_loop (rd_buf r2) (rd_p r2) (rd_end r2) 0")
    have "advances r2 (r2\<lparr>rd_p := p'\<rparr>)"
      using int_loop_bounds [OF il] by (intro advances_cursor) auto
    with a2 have a3: "advances r (r2\<lparr>rd_p := p'\<rparr>)" by (rule advances_trans)
    from assms p True have "r' = rd_fail r2 \<or> r' = rd_fail (r2\<lparr>rd_p := p'\<rparr>) \<or> r' = mark_value_done (r2\<lparr>rd_p := p'\<rparr>)"
      unfolding next_int_def Let_def p prod.case r2_def [symmetric] il
      by (auto split: if_splits)
    with a2 a3 show ?thesis by auto
  qed
qed

lemma looking_at_fits: "rd_looking_at w r \<Longrightarrow> w \<noteq> [] \<Longrightarrow> rd_p r + length w \<le> rd_end r"
  by (cases w) (auto simp: rd_looking_at_def)

lemma next_bool_advances: "next_bool r = (v, r') \<Longrightarrow> advances r r'"
  unfolding next_bool_def
  by (auto split: prod.splits if_splits dest!: advances_prepare looking_at_fits intro!: advances_step
      simp: str_def)

lemma is_null_advances:
  assumes "is_null r = (ok, r')"
  shows "advances r r'"
proof -
  have restore: "advances r (s\<lparr>rd_p := rd_p r\<rparr>)" if "rd_buf s = rd_buf r" "rd_end s = rd_end r" for s :: reader
    using that by (intro advances_cursor) auto
  define r1 where "r1 = (if in_array_after_value r then skip_ws r else r)"
  define r2 where "r2 = skip_ws (if in_array_after_value r then rd_advance (Suc 0) r1 else r1)"
  have r1: "advances r r1" "rd_buf r1 = rd_buf r" "rd_end r1 = rd_end r" by (auto simp: r1_def)
  have r2: "rd_buf r2 = rd_buf r" "rd_end r2 = rd_end r" by (auto simp: r2_def r1_def)
  show ?thesis
  proof (cases "rd_error r \<or> (in_array_after_value r \<and> (rd_p r1 \<ge> rd_end r1 \<or> rd_cur r1 \<noteq> ch_comma))")
    case True
    with assms have "r' = r \<or> r' = r1\<lparr>rd_p := rd_p r\<rparr>"
      by (auto simp: is_null_def Let_def r1_def split: if_splits)
    with restore r1 show ?thesis by auto
  next
    case False
    with r1 have "advances r r2" by (auto simp: r2_def intro!: advances_ws advances_step)
    moreover from assms False have "r' = r2\<lparr>rd_p := rd_p r\<rparr> \<or>
        rd_looking_at (str ''null'') r2 \<and> r' = mark_value_done (rd_advance 4 r2)"
      by (auto simp: is_null_def Let_def r1_def [symmetric] r2_def [symmetric] split: if_splits)
    ultimately show ?thesis using restore r2 looking_at_fits [of "str ''null''" r2]
      by (auto intro!: advances_step simp: str_def)
  qed
qed

lemma next_bool_snd: "advances r s \<Longrightarrow> advances r (snd (next_bool s))"
  by (rule advances_trans, assumption) (rule next_bool_advances [OF surjective_pairing])

lemma skip_value_advances: "advances r (skip_value r)"
  unfolding skip_value_def
  by (auto split: prod.splits bool.splits option.splits
      dest!: is_null_advances next_string_advances next_int_advances
      intro: advances_trans next_bool_snd)

lemma next_field_advances:
  assumes "next_field r = (v, r')"
  shows "advances r r' \<and> (v \<noteq> None \<longrightarrow> rd_p r < rd_p r' \<and> rd_p r < rd_end r)"
proof -
  define r1 where "r1 = skip_ws r"
  define r2 where "r2 = (if fr_needs_comma (rd_top r1) then skip_ws (rd_advance (Suc 0) r1) else r1)"
  have a1: "advances r r1" by (simp add: r1_def)
  have e1: "rd_end r1 = rd_end r" by (simp add: r1_def)
  obtain kv r3 where rs: "read_string r2 = (kv, r3)" by (cases "read_string r2")
  define r4 where "r4 = skip_ws r3"
  define r5 where "r5 = skip_ws (rd_advance (Suc 0) r4)"
  define r6 where "r6 = r5\<lparr>rd_stack := (rd_stack r5)[rd_depth r5 - 1 := (rd_top r5)\<lparr>fr_needs_comma := True\<rparr>]\<rparr>"
  from assms have cases: "v = None \<and> (r' = r \<or> r' = rd_fail r \<or> r' = r1 \<or> r' = rd_fail r1) \<or>
    rd_p r1 < rd_end r1 \<and> (v = None \<and> r' = rd_fail r2 \<or> v = None \<and> r' = rd_fail r3 \<or>
      v = None \<and> r' = rd_fail r4 \<or> kv \<noteq> None \<and> rd_p r4 < rd_end r4 \<and> r' = r6)"
    unfolding next_field_def Let_def r1_def [symmetric] r2_def [symmetric] rs
    by (auto split: if_splits option.splits prod.splits
        simp: r4_def [symmetric] r5_def [symmetric] r6_def [symmetric] simp del: One_nat_def)
  show ?thesis
  proof (cases "rd_p r1 < rd_end r1")
    case False
    with cases a1 show ?thesis by auto
  next
    case True
    have a2: "advances r r2" using a1 True by (auto simp: r2_def intro!: advances_ws advances_step)
    note b = read_string_advances [OF rs]
    have a3: "advances r r3" using a2 b by (auto intro: advances_trans)
    have a4: "advances r r4" using a3 by (simp add: r4_def advances_ws)
    have a6: "advances r r6" if "rd_p r4 < rd_end r4"
      using a4 that by (auto simp: r6_def r5_def intro!: advances_ws advances_step)
    have p: "rd_p r < rd_p r6" if "kv \<noteq> None"
    proof -
      have "rd_p r \<le> rd_p r2" using a2 by (rule advances_p)
      also have "\<dots> < rd_p r3" using b that by simp
      also have "\<dots> \<le> rd_p r4" using skip_ws_from_bounds [of "rd_p r3"] by (simp add: r4_def skip_ws_def)
      also have "\<dots> \<le> rd_p r6"
        using skip_ws_from_bounds [of "rd_p (rd_advance (Suc 0) r4)"] by (auto simp: r6_def r5_def skip_ws_def intro: Suc_leD)
      finally show ?thesis .
    qed
    from True a1 e1 have "rd_p r < rd_end r" using advances_p [OF a1] by simp
    with cases a1 a2 a3 a4 a6 p show ?thesis by auto
  qed
qed

text \<open>
  Views handed out earlier keep their bytes: whatever follows the reading of a string
  leaves the buffer below the cursor alone.
\<close>

lemma advances_view:
  assumes "advances r r'" and "fst v + snd v \<le> rd_p r"
  shows "view_bytes r' v = view_bytes r v"
proof -
  from assms(1) have "take (rd_p r) (rd_buf r') = take (rd_p r) (rd_buf r)"
    by (simp add: advances_def)
  then have "take (fst v + snd v) (rd_buf r') = take (fst v + snd v) (rd_buf r)"
    using assms(2) by (rule take_eq_le)
  then show ?thesis by (simp add: view_bytes_def take_drop add.commute)
qed

end
