(* ===== verification/Wire_Text.thy ===== *)
theory Wire_Text
  imports Wire
begin

text \<open>
  The reader seen through the text it has left. \<open>rest r\<close> is the unread input; each
  operation of the reader is characterised by what it does to that text. The in-place
  unescaping loop refines the pure decoder \<open>decode_str\<close>, and \<open>decode_str\<close> inverts the
  encoder's escaping.
\<close>

section \<open>The pure decoder\<close>

fun hex_word :: "u32 \<Rightarrow> bytes \<Rightarrow> u32 option" where
  "hex_word cp [] = Some cp"
| "hex_word cp (h # hs) =
     (if is_hex_digit h then hex_word (push_bit 4 cp OR hex_val h) hs else None)"

fun decode_str :: "bytes \<Rightarrow> (bytes \<times> bytes) option" where
  "decode_str [] = None"
| "decode_str (c # cs) =
     (if c = ch_quote then Some ([], cs)
      else if c = ch_bslash then
        (case cs of
           [] \<Rightarrow> None
         | esc # ds \<Rightarrow>
             if esc = ch_u then
               (if length ds < 4 then None
                else (case hex_word 0 (take 4 ds) of
                        None \<Rightarrow> None
                      | Some cp \<Rightarrow> map_option (apfst (append (utf8_bytes cp))) (decode_str (drop 4 ds))))
             else (case simple_escape esc of
                     None \<Rightarrow> None
                   | Some x \<Rightarrow> map_option (apfst (Cons x)) (decode_str ds)))
      else map_option (apfst (Cons c)) (decode_str cs))"

lemma hex_loop_word:
  "p + n \<le> length b \<Longrightarrow> hex_loop b p n cp = (ok, p', c) \<Longrightarrow>
    hex_word cp (take n (drop p b)) = (if ok then Some c else None)"
proof (induction b p n cp rule: hex_loop.induct)
  case (1 b p cp)
  then show ?case by simp
next
  case (2 b p n cp)
  from 2(2) have "take (Suc n) (drop p b) = b ! p # take n (drop (Suc p) b)"
    by (simp add: Cons_nth_drop_Suc [symmetric])
  with 2 show ?case by (auto simp: Let_def split: if_splits)
qed

section \<open>In-place unescaping refines the decoder\<close>

definition text_from :: "nat \<Rightarrow> nat \<Rightarrow> bytes \<Rightarrow> bytes" where
  "text_from p e b = drop p (take e b)"

lemma text_from_Cons: "p < e \<Longrightarrow> e \<le> length b \<Longrightarrow> text_from p e b = b ! p # text_from (Suc p) e b"
  by (simp add: text_from_def Cons_nth_drop_Suc [symmetric])

lemma text_from_Nil: "\<not> p < e \<Longrightarrow> text_from p e b = []"
  by (simp add: text_from_def)

lemma text_from_eq: "drop p b' = drop p b \<Longrightarrow> text_from p e b' = text_from p e b"
  by (simp add: text_from_def drop_take)

lemma text_from_update: "w < p \<Longrightarrow> text_from p e (b[w := x]) = text_from p e b"
  by (rule text_from_eq) simp

lemma text_from_put: "w + length xs \<le> p \<Longrightarrow> text_from p e (put_bytes b w xs) = text_from p e b"
  by (rule text_from_eq) (simp add: drop_put_bytes)

lemma text_from_drop: "drop n (text_from p e b) = text_from (p + n) e b"
  by (simp add: text_from_def add.commute)

lemma length_text_from: "e \<le> length b \<Longrightarrow> length (text_from p e b) = e - p"
  by (simp add: text_from_def)

lemma take_text_from: "p + n \<le> e \<Longrightarrow> e \<le> length b \<Longrightarrow> take n (text_from p e b) = take n (drop p b)"
  by (simp add: text_from_def take_drop min_def add.commute)

text \<open>What one pass wrote becomes the front of what the loop wrote.\<close>

lemma window_split:
  assumes "take (w + length xs) b' = take (w + length xs) c" and "take (w + length xs) c = take w b @ xs"
    and "w + length xs \<le> w'" and "w \<le> length b"
  shows "drop w (take w' b') = xs @ drop (w + length xs) (take w' b')"
proof -
  have "take w' b' = take (w + length xs) b' @ drop (w + length xs) (take w' b')"
    using assms(3) by (metis append_take_drop_id min.absorb1 take_take)
  then have "drop w (take w' b') = drop w ((take w b @ xs) @ drop (w + length xs) (take w' b'))"
    using assms(1,2) by metis
  with assms(4) show ?thesis by simp
qed

lemma decode_unicode:
  "\<not> length ds < 4 \<Longrightarrow> hex_word 0 (take 4 ds) = Some cp \<Longrightarrow>
    decode_str (ch_bslash # ch_u # ds) = map_option (apfst (append (utf8_bytes cp))) (decode_str (drop 4 ds))"
  by simp

lemma decode_unicode_bad:
  "hex_word 0 (take 4 ds) = None \<Longrightarrow> decode_str (ch_bslash # ch_u # ds) = None"
  by simp

lemma read_loop_quote:
  "read_loop b p w e = (True, b', p', w') \<Longrightarrow> p' < e \<Longrightarrow> b' ! p' = ch_quote"
proof (induction b p w e rule: read_loop_shape)
  case (Escape b p w e x)
  from Escape(1-5,7) have "read_loop (b[w := x]) (Suc (Suc p)) (Suc w) e = (True, b', p', w')"
    by (simp add: read_loop_escape)
  from Escape(6) [OF this Escape(8)] show ?case .
next
  case (Unicode b p w e p3 cp)
  from Unicode(1-6,8) have
    "read_loop (put_bytes b w (utf8_bytes cp)) p3 (w + length (utf8_bytes cp)) e = (True, b', p', w')"
    by (simp add: read_loop_unicode)
  from Unicode(7) [OF this Unicode(9)] show ?case .
next
  case (Plain b p w e)
  from Plain(1-3,5) have "read_loop (b[w := b ! p]) (Suc p) (Suc w) e = (True, b', p', w')"
    by (simp add: read_loop_plain)
  from Plain(4) [OF this Plain(6)] show ?case .
qed (auto simp: read_loop_stop read_loop_trailing read_loop_unicode read_loop_escape)

lemma read_loop_decode:
  "read_loop b p w e = (ok, b', p', w') \<Longrightarrow> w \<le> p \<Longrightarrow> e \<le> length b \<Longrightarrow>
    decode_str (text_from p e b) =
      (if ok \<and> p' < e then Some (drop w (take w' b'), text_from (Suc p') e b') else None)"
proof (induction b p w e arbitrary: b' p' w' rule: read_loop_shape)
  case (Stop b p w e)
  then show ?case
    by (cases "p < e") (auto simp: read_loop_stop text_from_Cons text_from_Nil)
next
  case (Trailing b p w e)
  then show ?case by (auto simp: read_loop_trailing text_from_Cons text_from_Nil)
next
  case (Short b p w e)
  then show ?case by (auto simp: read_loop_unicode text_from_Cons length_text_from)
next
  case (BadHex b p w e p3 cp)
  have hw: "hex_word 0 (take 4 (text_from (Suc (Suc p)) e b)) = None"
    using hex_loop_word [OF _ BadHex(6)] BadHex(5,9) by (simp add: take_text_from)
  from BadHex(1-7) have "\<not> ok" by (auto simp: read_loop_unicode)
  moreover have "text_from p e b = ch_bslash # ch_u # text_from (Suc (Suc p)) e b"
    using BadHex(1-4,9) by (simp add: text_from_Cons)
  then have "decode_str (text_from p e b) = None"
    by (simp only: decode_unicode_bad [OF hw])
  ultimately show ?case by simp
next
  case (Unicode b p w e p3 cp)
  let ?u = "utf8_bytes cp"
  from hex_loop_cursor [OF Unicode(6)] have p3: "p3 = Suc (Suc p) + 4" by simp
  from Unicode(1-6,8) have rl: "read_loop (put_bytes b w ?u) p3 (w + length ?u) e = (ok, b', p', w')"
    by (simp add: read_loop_unicode)
  have le: "w + length ?u \<le> p3" using p3 Unicode(9) utf8_bytes_length [of cp] by simp
  have hw: "hex_word 0 (take 4 (text_from (Suc (Suc p)) e b)) = Some cp"
    using hex_loop_word [OF _ Unicode(6)] Unicode(5,10) by (simp add: take_text_from)
  from Unicode(7) [OF rl le] Unicode(10) le have
    "decode_str (text_from p3 e b) =
      (if ok \<and> p' < e then Some (drop (w + length ?u) (take w' b'), text_from (Suc p') e b') else None)"
    by (simp add: text_from_put)
  moreover have "drop w (take w' b') = ?u @ drop (w + length ?u) (take w' b')"
    using read_loop_bounds [OF rl le] le Unicode(5,10) p3
    by (intro window_split [where c = "put_bytes b w ?u" and b = b] put_bytes_content) auto
  moreover have "decode_str (text_from p e b) =
      map_option (apfst (append ?u)) (decode_str (text_from p3 e b))"
  proof -
    have t: "text_from p e b = ch_bslash # ch_u # text_from (Suc (Suc p)) e b"
      using Unicode(1-4,10) by (simp add: text_from_Cons)
    have "\<not> length (text_from (Suc (Suc p)) e b) < 4"
      using Unicode(5) length_text_from [OF Unicode(10)] by simp
    from decode_unicode [OF this hw] show ?thesis by (simp only: t text_from_drop p3)
  qed
  ultimately show ?case by simp
next
  case (BadEscape b p w e)
  then show ?case by (auto simp: read_loop_escape text_from_Cons)
next
  case (Escape b p w e x)
  from Escape(1-5,7) have rl: "read_loop (b[w := x]) (Suc (Suc p)) (Suc w) e = (ok, b', p', w')"
    by (simp add: read_loop_escape)
  have le: "Suc w \<le> Suc (Suc p)" using Escape(8) by simp
  from Escape(6) [OF rl le] Escape(9) le have
    "decode_str (text_from (Suc (Suc p)) e b) =
      (if ok \<and> p' < e then Some (drop (Suc w) (take w' b'), text_from (Suc p') e b') else None)"
    by (simp add: text_from_update)
  moreover have "drop w (take w' b') = [x] @ drop (w + length [x]) (take w' b')"
    using read_loop_bounds [OF rl le] le Escape(1,8,9)
    by (intro window_split [where c = "b[w := x]" and b = b]) (auto simp: take_Suc_conv_app_nth)
  moreover have "decode_str (text_from p e b) =
      map_option (apfst (Cons x)) (decode_str (text_from (Suc (Suc p)) e b))"
    using Escape(1-5,9) by (simp add: text_from_Cons)
  ultimately show ?case by simp
next
  case (Plain b p w e)
  from Plain(1-3,5) have rl: "read_loop (b[w := b ! p]) (Suc p) (Suc w) e = (ok, b', p', w')"
    by (simp add: read_loop_plain)
  have le: "Suc w \<le> Suc p" using Plain(6) by simp
  from Plain(4) [OF rl le] Plain(7) le have
    "decode_str (text_from (Suc p) e b) =
      (if ok \<and> p' < e then Some (drop (Suc w) (take w' b'), text_from (Suc p') e b') else None)"
    by (simp add: text_from_update)
  moreover have "drop w (take w' b') = [b ! p] @ drop (w + length [b ! p]) (take w' b')"
    using read_loop_bounds [OF rl le] le Plain(1,6,7)
    by (intro window_split [where c = "b[w := b ! p]" and b = b]) (auto simp: take_Suc_conv_app_nth)
  moreover have "decode_str (text_from p e b) =
      map_option (apfst (Cons (b ! p))) (decode_str (text_from (Suc p) e b))"
    using Plain(1-3,7) by (simp add: text_from_Cons)
  ultimately show ?case by simp
qed

section \<open>The decoder inverts the escaping\<close>

lemma decode_escape_byte: "decode_str (escape_byte c @ t) = map_option (apfst (Cons c)) (decode_str t)"
  by (simp add: escape_byte_def simple_escape_def)

lemma decode_escape: "decode_str (escape s @ ch_quote # t) = Some (s, t)"
  by (induction s) (simp_all add: escape_def decode_escape_byte)


text \<open>Keys the program uses hold no quote and no backslash and are sent unescaped.\<close>

definition plain_key :: "bytes \<Rightarrow> bool" where
  "plain_key k \<longleftrightarrow> (\<forall>c \<in> set k. c \<noteq> ch_quote \<and> c \<noteq> ch_bslash)"

lemma decode_plain: "plain_key k \<Longrightarrow> decode_str (k @ ch_quote # t) = Some (k, t)"
  by (induction k) (simp_all add: plain_key_def)

section \<open>The unread text\<close>

definition rd_wf :: "reader \<Rightarrow> bool" where
  "rd_wf r \<longleftrightarrow> rd_p r \<le> rd_end r \<and> rd_end r \<le> length (rd_buf r)"

definition rest :: "reader \<Rightarrow> bytes" where
  "rest r = text_from (rd_p r) (rd_end r) (rd_buf r)"

lemma advances_wf: "advances r r' \<Longrightarrow> rd_wf r \<Longrightarrow> rd_wf r'"
  by (simp add: advances_def rd_wf_def)

lemma rest_nonempty: "rd_wf r \<Longrightarrow> rest r \<noteq> [] \<longleftrightarrow> rd_p r < rd_end r"
  using length_text_from [of "rd_end r" "rd_buf r" "rd_p r"]
  by (metis diff_is_0_eq length_0_conv not_le rd_wf_def rest_def)

lemma rest_cur: "rd_wf r \<Longrightarrow> rest r = c # t \<Longrightarrow> rd_cur r = c \<and> rd_p r < rd_end r \<and> rest (rd_advance (Suc 0) r) = t"
  using rest_nonempty [of r] text_from_Cons [of "rd_p r" "rd_end r" "rd_buf r"]
  by (auto simp: rest_def rd_cur_def rd_wf_def)

lemma rest_advance: "rest (rd_advance n r) = drop n (rest r)"
  by (simp add: rest_def text_from_drop)

lemma rest_same [simp]:
  "rest (rd_fail r) = rest r" "rest (mark_value_done r) = rest r" "rest (push_rd_frame f r) = rest r"
  "rest (r\<lparr>rd_stack := st\<rparr>) = rest r" "rest (r\<lparr>rd_depth := d\<rparr>) = rest r"
  by (simp_all add: rest_def rd_fail_def mark_value_done_def push_rd_frame_def)

lemma rest_skip_ws:
  assumes "rd_wf r"
  shows "rest (skip_ws r) = dropWhile is_ws (rest r)"
proof -
  have "e \<le> length b \<Longrightarrow> text_from (skip_ws_from b p e) e b = dropWhile is_ws (text_from p e b)" for b p e
  proof (induction b p e rule: skip_ws_from.induct)
    case (1 b p e)
    then show ?case
      using text_from_Cons [of p e b] text_from_Nil [of p e b]
      by (cases "p < e \<and> is_ws (b ! p)"; cases "p < e") (simp_all add: skip_ws_from.simps [of b p e])
  qed
  with assms show ?thesis by (simp add: rest_def skip_ws_def rd_wf_def)
qed

text \<open>The fields an operation on the text leaves alone.\<close>

definition same_frames :: "reader \<Rightarrow> reader \<Rightarrow> bool" where
  "same_frames r r' \<longleftrightarrow>
     rd_stack r' = rd_stack r \<and> rd_depth r' = rd_depth r \<and> rd_error r' = rd_error r"

lemma same_frames_refl [simp]: "same_frames r r"
  by (simp add: same_frames_def)

lemma same_frames_trans: "same_frames r s \<Longrightarrow> same_frames s t \<Longrightarrow> same_frames r t"
  by (simp add: same_frames_def)

lemma same_frames_cursor [simp]:
  "same_frames r (skip_ws s) = same_frames r s" "same_frames r (rd_advance n s) = same_frames r s"
  by (simp_all add: same_frames_def skip_ws_def rd_advance_def)

lemma read_string_text:
  assumes "rd_wf r" and "rest r = ch_quote # cs" and "decode_str cs = Some (d, t)"
  obtains v r' where "read_string r = (Some v, r')" "view_bytes r' v = d" "rest r' = t"
    "same_frames r r'" "advances r r'" "fst v + snd v \<le> rd_p r'"
proof -
  let ?s = "Suc (rd_p r)"
  from rest_cur [OF assms(1,2)] have c: "rd_cur r = ch_quote" "rd_p r < rd_end r" and
    cs: "text_from ?s (rd_end r) (rd_buf r) = cs" by (auto simp: rest_def)
  obtain ok b p w where rl: "read_loop (rd_buf r) ?s ?s (rd_end r) = (ok, b, p, w)"
    by (metis prod_cases4)
  from assms(1) have e: "rd_end r \<le> length (rd_buf r)" by (simp add: rd_wf_def)
  from read_loop_decode [OF rl _ e] cs assms(3) have ok: "ok" "p < rd_end r"
    and d: "d = drop ?s (take w b)" and t: "t = text_from (Suc p) (rd_end r) b"
    by (auto split: if_splits)
  from read_loop_quote [of "rd_buf r" ?s ?s "rd_end r" b p w] rl ok have q: "b ! p = ch_quote" by simp
  let ?r' = "rd_advance (Suc 0) (r\<lparr>rd_buf := b, rd_p := p\<rparr>)"
  from c ok q rl have rs: "read_string r = (Some (?s, w - ?s), ?r')"
    by (simp add: read_string_def)
  from read_string_advances [OF rs] have a: "advances r ?r'" by simp
  from read_loop_bounds [OF rl] have w: "?s \<le> w" "w \<le> p" by auto
  show thesis
  proof (rule that [OF rs])
    show "view_bytes ?r' (?s, w - ?s) = d"
      using w d by (simp add: view_bytes_def rd_advance_def drop_take)
    show "rest ?r' = t" using t by (simp add: rest_def rd_advance_def)
    show "same_frames r ?r'" by (simp add: same_frames_def rd_advance_def)
    show "advances r ?r'" by (rule a)
    show "fst (?s, w - ?s) + snd (?s, w - ?s) \<le> rd_p ?r'" using w by (simp add: rd_advance_def)
  qed
qed

lemma read_string_text_fail:
  assumes "rd_wf r" and "rest r = [] \<or> hd (rest r) \<noteq> ch_quote \<or> decode_str (tl (rest r)) = None"
  shows "fst (read_string r) = None"
proof (cases "rest r")
  case Nil
  with rest_nonempty [OF assms(1)] show ?thesis by (simp add: read_string_def)
next
  case (Cons c cs)
  show ?thesis
  proof (cases "c = ch_quote")
    case False
    with rest_cur [OF assms(1) Cons] show ?thesis by (simp add: read_string_def)
  next
    case True
    let ?s = "Suc (rd_p r)"
    from rest_cur [OF assms(1) Cons] have cs: "text_from ?s (rd_end r) (rd_buf r) = cs"
      by (auto simp: rest_def)
    obtain ok b p w where rl: "read_loop (rd_buf r) ?s ?s (rd_end r) = (ok, b, p, w)"
      by (metis prod_cases4)
    from assms(1) have e: "rd_end r \<le> length (rd_buf r)" by (simp add: rd_wf_def)
    from read_loop_decode [OF rl _ e] cs assms(2) Cons True have "\<not> ok \<or> rd_end r \<le> p"
      by (auto split: if_splits)
    with rl show ?thesis by (auto simp: read_string_def Let_def)
  qed
qed


section \<open>Inside an object\<close>

definition in_obj :: "reader \<Rightarrow> bool \<Rightarrow> bool" where
  "in_obj r comma \<longleftrightarrow>
     rd_wf r \<and> \<not> rd_error r \<and> 0 < rd_depth r \<and> rd_depth r \<le> length (rd_stack r) \<and>
     fr_is_object (rd_top r) \<and> fr_needs_comma (rd_top r) = comma"

lemma in_obj_same:
  "in_obj r comma \<Longrightarrow> same_frames r r' \<Longrightarrow> advances r r' \<Longrightarrow> in_obj r' comma"
  by (auto simp: in_obj_def same_frames_def rd_top_def intro: advances_wf)

lemma in_obj_not_array: "in_obj r comma \<Longrightarrow> \<not> in_array_after_value r"
  by (simp add: in_obj_def in_array_after_value_def)

lemma in_obj_mark [simp]: "in_obj r comma \<Longrightarrow> mark_value_done r = r"
  by (simp add: in_obj_def mark_value_done_def)

lemma in_obj_ws [simp]: "in_obj r comma \<Longrightarrow> in_obj (skip_ws r) comma"
  by (erule in_obj_same) simp_all

lemma in_obj_advance: "in_obj r comma \<Longrightarrow> rest r = c # t \<Longrightarrow> in_obj (rd_advance (Suc 0) r) comma"
  using rest_cur [of r c t]
  by - (rule in_obj_same [of r comma], auto intro!: advances_step simp: in_obj_def)

lemma in_obj_rest_ws: "in_obj r comma \<Longrightarrow> rest (skip_ws r) = dropWhile is_ws (rest r)"
  by (simp add: in_obj_def rest_skip_ws)

lemma in_obj_cur:
  "in_obj r comma \<Longrightarrow> rest r = c # t \<Longrightarrow> rd_cur r = c \<and> rd_p r < rd_end r \<and> rest (rd_advance (Suc 0) r) = t"
  by (auto simp: in_obj_def dest!: rest_cur [rotated])

lemma in_obj_prepare:
  assumes "in_obj r comma" and "dropWhile is_ws (rest r) \<noteq> []"
  shows "prepare_value r = (True, skip_ws r)"
  using assms rest_nonempty [of "skip_ws r"] in_obj_not_array [OF assms(1)] in_obj_ws [OF assms(1)]
  by (auto simp: prepare_value_def in_obj_rest_ws in_obj_def Let_def)

lemma enter_object_text:
  assumes "len \<le> length data" and "take len data = ch_lbrace # t"
  obtains r' where "enter_object (new_reader data len) = (True, r')" "in_obj r' False" "rest r' = t"
    "rd_depth r' = 1" "rd_p r' = 1" "rd_buf r' = data" "rd_end r' = len"
proof -
  let ?r = "new_reader data len"
  have len: "0 < len" using assms(2) by (cases len) auto
  have c: "data ! 0 = ch_lbrace" using assms len by (metis nth_Cons_0 nth_take)
  have ws: "skip_ws ?r = ?r"
    using c len by (simp add: skip_ws_def new_reader_def skip_ws_from.simps [of data 0 len] is_ws_def)
  let ?r' = "push_rd_frame \<lparr>fr_is_object = True, fr_needs_comma = False\<rparr> (rd_advance (Suc 0) ?r)"
  have "enter_object ?r = (True, ?r')"
    using c len ws
    by (simp add: enter_object_def rd_enter_def prepare_value_def)
       (simp add: in_array_after_value_def rd_cur_def new_reader_def rd_advance_def rd_max_depth_def)
  then show thesis
  proof (rule that)
    show "in_obj ?r' False" using assms len
      by (simp add: in_obj_def push_rd_frame_def rd_advance_def new_reader_def rd_wf_def rd_top_def rd_max_depth_def)
    show "rest ?r' = t" using assms
      by (simp add: rest_def push_rd_frame_def rd_advance_def new_reader_def text_from_def drop_Suc)
  qed (simp_all add: push_rd_frame_def rd_advance_def new_reader_def)
qed

lemma next_field_text:
  assumes o: "in_obj r comma"
    and t0: "dropWhile is_ws (rest r) = (if comma then ch_comma # t else ch_quote # cs)"
    and t1: "comma \<Longrightarrow> dropWhile is_ws t = ch_quote # cs"
    and d: "decode_str cs = Some (k, t2)" and t3: "dropWhile is_ws t2 = ch_colon # t3"
  obtains v r' where "next_field r = (Some v, r')" "view_bytes r' v = k" "rest r' = dropWhile is_ws t3"
    "in_obj r' True" "advances r r'" "fst v + snd v \<le> rd_p r'" "rd_depth r' = rd_depth r"
proof -
  define r1 where "r1 = skip_ws r"
  define r2 where "r2 = (if fr_needs_comma (rd_top r1) then skip_ws (rd_advance (Suc 0) r1) else r1)"
  have o1: "in_obj r1 comma" using o by (simp add: r1_def)
  have c1: "fr_needs_comma (rd_top r1) = comma" using o1 by (simp add: in_obj_def)
  have p1: "rest r1 = (if comma then ch_comma # t else ch_quote # cs)"
    using t0 in_obj_rest_ws [OF o] by (simp add: r1_def)
  have cur1: "rd_cur r1 = (if comma then ch_comma else ch_quote)" "rd_p r1 < rd_end r1"
    using in_obj_cur [OF o1] p1 by (auto split: if_splits)
  have o2: "in_obj r2 comma" and p2: "rest r2 = ch_quote # cs"
  proof -
    have "in_obj r2 comma \<and> rest r2 = ch_quote # cs"
    proof (cases comma)
      case True
      with p1 in_obj_advance [OF o1] have a: "in_obj (rd_advance (Suc 0) r1) comma" by simp
      with True p1 t1 in_obj_cur [OF o1] c1 show ?thesis
        by (simp add: r2_def in_obj_rest_ws [OF a])
    next
      case False
      with o1 p1 c1 show ?thesis by (simp add: r2_def)
    qed
    then show "in_obj r2 comma" "rest r2 = ch_quote # cs" by auto
  qed
  have cur2: "rd_cur r2 = ch_quote" "rd_p r2 < rd_end r2" using in_obj_cur [OF o2 p2] by auto
  have w2: "rd_wf r2" using o2 by (simp add: in_obj_def)
  obtain v r3 where rs: "read_string r2 = (Some v, r3)" and vb: "view_bytes r3 v = k" and p3: "rest r3 = t2"
    and f3: "same_frames r2 r3" and a3: "advances r2 r3" and v3: "fst v + snd v \<le> rd_p r3"
    using read_string_text [OF w2 p2 d] by metis
  have o3: "in_obj r3 comma" by (rule in_obj_same [OF o2 f3 a3])
  define r4 where "r4 = skip_ws r3"
  have o4: "in_obj r4 comma" and p4: "rest r4 = ch_colon # t3"
    using o3 p3 t3 by (simp_all add: r4_def in_obj_rest_ws)
  have cur4: "rd_cur r4 = ch_colon" "rd_p r4 < rd_end r4" "rest (rd_advance (Suc 0) r4) = t3"
    using in_obj_cur [OF o4 p4] by auto
  define r5 where "r5 = skip_ws (rd_advance (Suc 0) r4)"
  have o5: "in_obj r5 comma" and p5: "rest r5 = dropWhile is_ws t3"
    using in_obj_advance [OF o4 p4] cur4(3) by (simp_all add: r5_def in_obj_rest_ws)
  define r6 where "r6 = r5\<lparr>rd_stack := (rd_stack r5)[rd_depth r5 - 1 := (rd_top r5)\<lparr>fr_needs_comma := True\<rparr>]\<rparr>"
  have o6: "in_obj r6 True" using o5
    by (auto simp: r6_def in_obj_def rd_wf_def rd_top_def)
  have o': "\<not> rd_error r" "rd_depth r \<noteq> 0" "fr_is_object (rd_top r)" using o by (auto simp: in_obj_def)
  have nf: "next_field r = (Some v, r6)"
    using o' cur1 cur2 cur4 c1
    unfolding next_field_def Let_def r1_def [symmetric] r2_def [symmetric] rs option.case prod.case
      r4_def [symmetric] r5_def [symmetric] r6_def [symmetric]
    by (auto simp: not_le)
  have a6: "advances r3 r6" using cur4 by (auto simp: r6_def r5_def r4_def intro!: advances_ws advances_step)
  have d6: "rd_depth r6 = rd_depth r"
    using f3 by (auto simp: r6_def r5_def r4_def r2_def r1_def skip_ws_def rd_advance_def same_frames_def)
  show thesis
  proof (rule that [OF nf])
    show "view_bytes r6 v = k" using advances_view [OF a6 v3] vb by simp
    show "rest r6 = dropWhile is_ws t3" using p5 by (simp add: r6_def)
    show "in_obj r6 True" by (rule o6)
    show "advances r r6" using next_field_advances [OF nf] by simp
    show "fst v + snd v \<le> rd_p r6" using v3 advances_p [OF a6] by simp
    show "rd_depth r6 = rd_depth r" by (rule d6)
  qed
qed

lemma next_field_end:
  assumes "in_obj r comma" and "dropWhile is_ws (rest r) = ch_rbrace # t"
  shows "next_field r = (None, skip_ws r)"
  using assms in_obj_cur [OF in_obj_ws [OF assms(1)]] in_obj_rest_ws [OF assms(1)]
  by (auto simp: next_field_def in_obj_def Let_def)

lemma next_field_error: "rd_error r \<Longrightarrow> next_field r = (None, r)"
  by (simp add: next_field_def)

lemma next_string_text:
  assumes o: "in_obj r comma" and t: "dropWhile is_ws (rest r) = ch_quote # cs"
    and d: "decode_str cs = Some (s, t2)"
  obtains v r' where "next_string r = (Some v, r')" "view_bytes r' v = s" "rest r' = t2"
    "in_obj r' comma" "advances r r'" "fst v + snd v \<le> rd_p r'" "rd_depth r' = rd_depth r"
proof -
  have o1: "in_obj (skip_ws r) comma" and p1: "rest (skip_ws r) = ch_quote # cs"
    using o t by (simp_all add: in_obj_rest_ws)
  have w1: "rd_wf (skip_ws r)" using o1 by (simp add: in_obj_def)
  obtain v r2 where rs: "read_string (skip_ws r) = (Some v, r2)" and vb: "view_bytes r2 v = s"
    and p2: "rest r2 = t2" and f2: "same_frames (skip_ws r) r2" and a2: "advances (skip_ws r) r2"
    and v2: "fst v + snd v \<le> rd_p r2"
    using read_string_text [OF w1 p1 d] by metis
  have o2: "in_obj r2 comma" by (rule in_obj_same [OF o1 f2 a2])
  have ns: "next_string r = (Some v, r2)"
    using in_obj_prepare [OF o] t rs o2 by (simp add: next_string_def)
  show thesis
    by (rule that [OF ns vb p2 o2 next_string_advances [OF ns] v2])
       (use f2 in \<open>simp add: same_frames_def skip_ws_def\<close>)
qed

lemma next_string_fails:
  assumes o: "in_obj r comma" and "dropWhile is_ws (rest r) = c # t" and "c \<noteq> ch_quote"
  obtains r' where "next_string r = (None, r')" "rd_error r'"
proof -
  have "fst (read_string (skip_ws r)) = None"
    using assms in_obj_ws [OF o] by (intro read_string_text_fail) (auto simp: in_obj_def in_obj_rest_ws [OF o])
  then obtain r2 where "read_string (skip_ws r) = (None, r2)" by (cases "read_string (skip_ws r)") auto
  with in_obj_prepare [OF o] assms(2) have "next_string r = (None, rd_fail r2)"
    by (simp add: next_string_def)
  then show thesis by (rule that) (simp add: rd_fail_def)
qed


text \<open>Numbers: the digit loop computes the decimal value, modulo the width.\<close>

lemma digit_ucast: "of_nat (digit_val c) = (ucast (c - ch_0) :: u64)"
  by (simp add: digit_val_def)

definition stops_int :: "bytes \<Rightarrow> bool" where
  "stops_int t \<longleftrightarrow>
     t = [] \<or> \<not> is_digit (hd t) \<and> hd t \<noteq> ch_dot \<and> hd t \<noteq> ch_e \<and> hd t \<noteq> ch_E"

lemma int_loop_text:
  "text_from p e b = ds @ t \<Longrightarrow> e \<le> length b \<Longrightarrow> \<forall>c \<in> set ds. is_digit c \<Longrightarrow> stops_int t \<Longrightarrow>
    int_loop b p e (of_nat n) = (p + length ds, of_nat (digits_val n ds))"
proof (induction ds arbitrary: p n)
  case Nil
  then have "\<not> (p < e \<and> is_digit (b ! p))"
    by (auto simp: stops_int_def text_from_Cons)
  then show ?case by (subst int_loop.simps) (auto simp: is_digit_def)
next
  case (Cons c ds)
  have lt: "p < e" using Cons.prems(1) text_from_Nil [of p e b] by auto
  with Cons.prems have c: "b ! p = c" and t: "text_from (Suc p) e b = ds @ t"
    by (auto simp: text_from_Cons)
  have "int_loop b p e (of_nat n) = int_loop b (Suc p) e (of_nat (n * 10 + digit_val c))"
    using lt c Cons.prems(3)
    by (subst int_loop.simps) (simp add: is_digit_def digit_ucast)
  also have "\<dots> = (Suc p + length ds, of_nat (digits_val (n * 10 + digit_val c) ds))"
    using Cons.prems(3) by (intro Cons.IH [OF t Cons.prems(2) _ Cons.prems(4)]) simp
  finally show ?case by simp
qed

lemma digit_class: "is_digit c \<Longrightarrow> \<not> is_ws c \<and> c \<noteq> ch_minus \<and> c \<noteq> ch_quote \<and> c \<noteq> ch_n"
  by (auto simp: is_digit_def is_ws_def)

lemma dec_nat_Cons: "\<exists>c cs. dec_nat n = c # cs \<and> is_digit c"
  using dec_nat_digits [of n] dec_nat_nonempty [of n] by (cases "dec_nat n") auto

lemma dec_int_first: "\<exists>c cs. dec_int i = c # cs \<and> \<not> is_ws c \<and> c \<noteq> ch_n \<and> c \<noteq> ch_quote"
  using dec_nat_Cons [of "nat i"] by (auto simp: dec_int_def is_ws_def dest: digit_class)

lemma next_int_digits:
  assumes o: "in_obj r comma" and p: "rest r = dec_nat n @ t" and st: "stops_int t"
  obtains r' where "int_loop (rd_buf r) (rd_p r) (rd_end r) 0 = (rd_p r', of_nat n)"
    "r' = r\<lparr>rd_p := rd_p r'\<rparr>" "rest r' = t" "advances r r'" "rd_p r' < rd_end r' \<longleftrightarrow> t \<noteq> []"
proof -
  let ?r' = "rd_advance (length (dec_nat n)) r"
  have e: "rd_end r \<le> length (rd_buf r)" and w: "rd_wf r" using o by (auto simp: in_obj_def rd_wf_def)
  from int_loop_text [OF p [unfolded rest_def] e dec_nat_digits st, of 0]
  have il: "int_loop (rd_buf r) (rd_p r) (rd_end r) 0 = (rd_p ?r', of_nat n)" by simp
  have "advances r ?r'"
    using int_loop_bounds [OF il] w by (intro advances_cursor) (auto simp: rd_wf_def rd_advance_def)
  moreover have t: "rest ?r' = t" using p by (simp add: rest_advance)
  ultimately show thesis
    using rest_nonempty [of ?r'] advances_wf [of r ?r'] w
    by (intro that [OF il]) (auto simp: rd_advance_def)
qed

lemma next_int_text:
  assumes o: "in_obj r comma" and t: "dropWhile is_ws (rest r) = dec_int i @ t" and st: "stops_int t"
  obtains r' where "next_int r = (Some (word_of_int i), r')" "rest r' = t" "in_obj r' comma"
    "advances r r'" "rd_depth r' = rd_depth r"
proof -
  define r1 where "r1 = skip_ws r"
  have o1: "in_obj r1 comma" and p1: "rest r1 = dec_int i @ t"
    using o t by (simp_all add: r1_def in_obj_rest_ws)
  have pr: "prepare_value r = (True, r1)" using in_obj_prepare [OF o] t by (simp add: r1_def)
  obtain n r2 where n: "word_of_int i = (if i < 0 then - of_nat n else of_nat n :: u64)"
    and r2: "r2 = (if rd_cur r1 = ch_minus then rd_advance (Suc 0) r1 else r1)"
    and neg: "rd_cur r1 = ch_minus \<longleftrightarrow> i < 0"
    and o2: "in_obj r2 comma" and p2: "rest r2 = dec_nat n @ t"
  proof (cases "i < 0")
    case True
    with p1 have p: "rest r1 = ch_minus # dec_nat (nat (- i)) @ t" by (simp add: dec_int_def)
    from True in_obj_cur [OF o1 p] in_obj_advance [OF o1 p] show thesis
      by (intro that [of "nat (- i)" "rd_advance (Suc 0) r1"]) auto
  next
    case False
    obtain c cs where c: "dec_nat (nat i) = c # cs" "is_digit c" using dec_nat_Cons by blast
    from False p1 have p: "rest r1 = dec_nat (nat i) @ t" by (simp add: dec_int_def)
    from False in_obj_cur [OF o1, of c "cs @ t"] p c digit_class [OF c(2)] o1 show thesis
      by (intro that [of "nat i" r1]) auto
  qed
  obtain c cs where c: "dec_nat n = c # cs" "is_digit c" using dec_nat_Cons by blast
  have cur2: "is_digit (rd_cur r2)" "rd_p r2 < rd_end r2"
    using in_obj_cur [OF o2, of c "cs @ t"] p2 c by auto
  obtain r3 where il: "int_loop (rd_buf r2) (rd_p r2) (rd_end r2) 0 = (rd_p r3, of_nat n)"
    and r3: "r3 = r2\<lparr>rd_p := rd_p r3\<rparr>" and p3: "rest r3 = t" and a3: "advances r2 r3"
    and lt3: "rd_p r3 < rd_end r3 \<longleftrightarrow> t \<noteq> []"
    using next_int_digits [OF o2 p2 st] by metis
  have "same_frames r2 r3" by (subst r3) (simp add: same_frames_def)
  with o2 a3 have o3: "in_obj r3 comma" by (auto intro: in_obj_same)
  have e3: "rd_end r3 = rd_end r2" by (subst r3) simp
  have cur3: "\<not> (rd_p r3 < rd_end r2 \<and> (rd_cur r3 = ch_dot \<or> rd_cur r3 = ch_e \<or> rd_cur r3 = ch_E))"
  proof
    assume a: "rd_p r3 < rd_end r2 \<and> (rd_cur r3 = ch_dot \<or> rd_cur r3 = ch_e \<or> rd_cur r3 = ch_E)"
    with lt3 e3 obtain x xs where "t = x # xs" by (cases t) auto
    with in_obj_cur [OF o3, of x xs] p3 a st show False by (auto simp: stops_int_def)
  qed
  have "next_int r = (Some (if rd_cur r1 = ch_minus then - of_nat n else of_nat n), mark_value_done r3)"
    unfolding next_int_def Let_def pr prod.case r2 [symmetric] il r3 [symmetric]
    using cur2 cur3 e3 by (simp add: is_digit_def not_less)
  with neg n o3 have ni: "next_int r = (Some (word_of_int i), r3)" by simp
  have "rd_depth r3 = rd_depth r"
    by (subst r3) (simp add: r2 r1_def skip_ws_def rd_advance_def)
  with ni p3 o3 next_int_advances [OF ni] show thesis by (intro that)
qed

lemma is_null_other:
  assumes o: "in_obj r comma" and t: "dropWhile is_ws (rest r) = c # t" and "c \<noteq> ch_n"
  shows "is_null r = (False, r)"
proof -
  have p1: "rest (skip_ws r) = c # t" using in_obj_rest_ws [OF o] t by simp
  have "rd_cur (skip_ws r) = c" "rd_p (skip_ws r) < rd_end (skip_ws r)"
    using in_obj_cur [OF in_obj_ws [OF o] p1] by auto
  then have "\<not> rd_looking_at (str ''null'') (skip_ws r)"
    using assms(3) o in_obj_ws [OF o]
    by (auto simp: rd_looking_at_def rd_cur_def str_def take_Suc_conv_app_nth in_obj_def rd_wf_def
        Cons_nth_drop_Suc [symmetric])
  with o in_obj_not_array [OF o] show ?thesis
    by (simp add: is_null_def Let_def in_obj_def) (simp add: skip_ws_def)
qed

lemma skip_value_error:
  assumes "in_obj r comma" and "dropWhile is_ws (rest r) = c # t" and "c \<noteq> ch_n" and "c \<noteq> ch_quote"
  shows "rd_error (skip_value r)"
proof -
  obtain r' where "next_string r = (None, r')" "rd_error r'"
    using next_string_fails [OF assms(1,2,4)] .
  then show ?thesis using is_null_other [OF assms(1-3)]
    by (simp add: skip_value_def next_int_def next_bool_def prepare_value_def rd_fail_def)
qed

lemma skip_value_string:
  assumes o: "in_obj r comma" and t: "dropWhile is_ws (rest r) = ch_quote # cs"
    and d: "decode_str cs = Some (s, t2)"
  shows "rest (skip_value r) = t2" and "in_obj (skip_value r) comma" and "rd_depth (skip_value r) = rd_depth r"
proof -
  obtain v r' where "next_string r = (Some v, r')" "rest r' = t2" "in_obj r' comma" "rd_depth r' = rd_depth r"
    using next_string_text [OF o t d] by metis
  with is_null_other [OF o t] show "rest (skip_value r) = t2" and "in_obj (skip_value r) comma"
    and "rd_depth (skip_value r) = rd_depth r"
    by (simp_all add: skip_value_def)
qed

end
