(* ===== verification/Remote_Api.thy ===== *)
theory Remote_Api
  imports Wire_Text
begin

text \<open>
  The bridge of \<open>source/program/remote_api.{hpp,cpp}\<close>: the globals of the translation
  unit are one record, and every helper, message handler and public function is a
  definition over it. The socket library (\<open>nn::socket\<close>) is outside the repository: what
  its calls answer is an argument of the definitions that make them. \<open>g_wire\<close> is the
  byte stream the socket has accepted on the current connection, in order.
\<close>

section \<open>State\<close>

definition BufferSize :: nat where
  "BufferSize = 4096"

definition kInboundCap :: nat where
  "kInboundCap = 16 * 1024"

definition line_buf_cap :: nat where
  "line_buf_cap = 8 * 1024 + 1"

definition VERSION :: int where
  "VERSION = 2"

record subscriptions =
  sub_logging :: bool
  sub_multiWorld :: bool

record bridge =
  g_socket :: int
  g_readyForGameThread :: bool
  g_socketConnected :: bool
  g_inbound :: bytes
  g_pendingLuaSrc :: bytes
  g_pendingLuaLen :: nat
  g_pendingSeq :: u32
  g_sendBuffer :: "bytes list"
  g_clientSubs :: subscriptions
  g_initialized :: bool
  g_wire :: bytes

definition init_bridge :: bridge where
  "init_bridge =
     \<lparr>g_socket = -1, g_readyForGameThread = False, g_socketConnected = False, g_inbound = [],
      g_pendingLuaSrc = replicate BufferSize 0, g_pendingLuaLen = 0, g_pendingSeq = 0,
      g_sendBuffer = [], g_clientSubs = \<lparr>sub_logging = False, sub_multiWorld = False\<rparr>,
      g_initialized = False, g_wire = []\<rparr>"

section \<open>Outbound lines\<close>

definition enqueue :: "bytes \<Rightarrow> bridge \<Rightarrow> bridge" where
  "enqueue buf st = st\<lparr>g_sendBuffer := g_sendBuffer st @ [buf]\<rparr>"

definition make_buffer_from_line :: "line_buffer \<Rightarrow> bytes" where
  "make_buffer_from_line line = lb_buf line @ [ch_nl]"

definition sendHello :: "bytes \<Rightarrow> bytes \<Rightarrow> bytes \<Rightarrow> bridge \<Rightarrow> bridge" where
  "sendHello mod_ver display_ver layout_uuid st =
     enqueue (make_buffer_from_line (enc_object lb_empty
       [(str ''t'', JStr (str ''hello'')),
        (str ''mod_ver'', JStr mod_ver),
        (str ''dread_ver'', JStr display_ver),
        (str ''layout_uuid'', JStr layout_uuid),
        (str ''device_id'', JStr (str ''''))])) st"

definition enqueue_pong :: "u64 \<Rightarrow> bridge \<Rightarrow> bridge" where
  "enqueue_pong ts_ms st =
     enqueue (make_buffer_from_line (enc_object lb_empty
       [(str ''t'', JStr (str ''pong'')), (str ''ts_ms'', JInt (sint ts_ms))])) st"

text \<open>
  The Lua-driven pushes. A \<open>const char*\<close> argument is the optional C string it points to.
\<close>

definition or_default :: "bytes option \<Rightarrow> string \<Rightarrow> bytes" where
  "or_default s d = (case s of None \<Rightarrow> str d | Some b \<Rightarrow> b)"

definition SendLogJson :: "bytes option \<Rightarrow> bytes option \<Rightarrow> bridge \<Rightarrow> bridge" where
  "SendLogJson level msg st =
     (if \<not> g_socketConnected st then st
      else if \<not> sub_logging (g_clientSubs st) then st
      else enqueue (make_buffer_from_line (enc_object lb_empty
             [(str ''t'', JStr (str ''log'')),
              (str ''level'', JStr (or_default level ''info'')),
              (str ''msg'', JStr (or_default msg ''''))])) st)"

definition inventory_line :: "u32 \<Rightarrow> bytes option \<Rightarrow> line_buffer" where
  "inventory_line index inventory_json =
     (let l1 = lb_append lb_empty (str ''{\"t\":\"inventory\",\"index\":'');
          l2 = lb_append l1 (dec_int (sint index));
          l3 = lb_append l2 (str '',\"inventory\":'');
          l4 = (case inventory_json of
                  Some arr \<Rightarrow> lb_append l3 arr
                | None \<Rightarrow> lb_append l3 (str ''[]''))
      in lb_append_char l4 ch_rbrace)"

definition SendInventoryJson :: "u32 \<Rightarrow> bytes option \<Rightarrow> bridge \<Rightarrow> bridge" where
  "SendInventoryJson index inventory_json st =
     (if \<not> g_socketConnected st then st
      else if \<not> sub_multiWorld (g_clientSubs st) then st
      else enqueue (make_buffer_from_line (inventory_line index inventory_json)) st)"

definition SendCollectedJson :: "bytes option \<Rightarrow> bridge \<Rightarrow> bridge" where
  "SendCollectedJson hex st =
     (if \<not> g_socketConnected st then st
      else if \<not> sub_multiWorld (g_clientSubs st) then st
      else enqueue (make_buffer_from_line (enc_object lb_empty
             [(str ''t'', JStr (str ''collected'')), (str ''hex'', JStr (or_default hex ''''))])) st)"

definition SendReceivedPickupsJson :: "u32 \<Rightarrow> bridge \<Rightarrow> bridge" where
  "SendReceivedPickupsJson count st =
     (if \<not> g_socketConnected st then st
      else if \<not> sub_multiWorld (g_clientSubs st) then st
      else enqueue (make_buffer_from_line (enc_object lb_empty
             [(str ''t'', JStr (str ''received_pickups'')), (str ''count'', JInt (sint count))])) st)"

definition SendGameStateJson :: "bytes option \<Rightarrow> bool \<Rightarrow> bridge \<Rightarrow> bridge" where
  "SendGameStateJson scenario beaten st =
     (if \<not> g_socketConnected st then st
      else if \<not> sub_multiWorld (g_clientSubs st) then st
      else enqueue (make_buffer_from_line (enc_object lb_empty
             [(str ''t'', JStr (str ''game_state'')),
              (str ''scenario'', JStr (or_default scenario '''')),
              (str ''beaten'', JBool beaten)])) st)"

definition SendLayoutUuidJson :: "bytes option \<Rightarrow> bridge \<Rightarrow> bridge" where
  "SendLayoutUuidJson uuid st =
     (if \<not> g_socketConnected st then st
      else enqueue (make_buffer_from_line (enc_object lb_empty
             [(str ''t'', JStr (str ''layout_uuid'')), (str ''value'', JStr (or_default uuid ''''))])) st)"

definition IsConnected :: "bridge \<Rightarrow> bool" where
  "IsConnected st = g_socketConnected st"

section \<open>Connection\<close>

text \<open>
  \<open>sock\<close> answers \<open>Socket\<close>, \<open>aton\<close> says whether \<open>InetAton\<close> accepted the host, \<open>rc\<close> is
  what \<open>Connect\<close> returned. A new connection starts a new byte stream.
\<close>

definition tcp_connect :: "int \<Rightarrow> bool \<Rightarrow> u32 \<Rightarrow> bridge \<Rightarrow> bool \<times> bridge" where
  "tcp_connect sock aton rc st =
     (let st1 = st\<lparr>g_socket := sock\<rparr>
      in if sock < 0 then (False, st1\<lparr>g_socket := -1\<rparr>)
         else if \<not> aton then (False, st1\<lparr>g_socket := -1\<rparr>)
         else if rc \<noteq> 0 then (False, st1\<lparr>g_socket := -1\<rparr>)
         else (True, st1\<lparr>g_inbound := [], g_socketConnected := True, g_wire := []\<rparr>))"

definition close_socket :: "bridge \<Rightarrow> bridge" where
  "close_socket st =
     st\<lparr>g_socketConnected := False, g_socket := (if 0 \<le> g_socket st then -1 else g_socket st),
        g_inbound := [], g_sendBuffer := [], g_readyForGameThread := False\<rparr>"

section \<open>Inbound lines\<close>

text \<open>
  What \<open>Recv\<close> did: some bytes (none of them is the peer's FIN) or an error, which on
  this non-blocking call means "try later". It never stores more than it was asked for.
\<close>

datatype recv_result = Received bytes | RecvError

definition drain_into_inbound :: "recv_result \<Rightarrow> bridge \<Rightarrow> bool \<times> bridge" where
  "drain_into_inbound res st =
     (let st1 = (if length (g_inbound st) \<ge> kInboundCap then st\<lparr>g_inbound := []\<rparr> else st);
          want = kInboundCap - length (g_inbound st1)
      in case res of
           RecvError \<Rightarrow> (True, st1)
         | Received bs \<Rightarrow>
             if bs = [] then (False, st1)
             else (True, st1\<lparr>g_inbound := g_inbound st1 @ take want bs\<rparr>))"

fun find_newline_from :: "nat \<Rightarrow> bytes \<Rightarrow> nat option" where
  "find_newline_from i [] = None"
| "find_newline_from i (b # bs) = (if b = ch_nl then Some i else find_newline_from (Suc i) bs)"

definition find_newline :: "bridge \<Rightarrow> nat option" where
  "find_newline st = find_newline_from 0 (g_inbound st)"

definition consume_line :: "nat \<Rightarrow> bridge \<Rightarrow> bridge" where
  "consume_line nl st =
     (if nl + 1 \<ge> length (g_inbound st) then st\<lparr>g_inbound := []\<rparr>
      else st\<lparr>g_inbound := drop (nl + 1) (g_inbound st)\<rparr>)"

section \<open>Dispatch\<close>

text \<open>
  The three field loops of \<open>dispatch_line\<close>. Each stops when \<open>nextField\<close> says \<open>false\<close>;
  \<open>None\<close>, or a first component \<open>False\<close>, is the early \<open>return\<close> of the handler.
\<close>

lemma field_step:
  assumes "next_field r = (Some v, r1)" and "advances r1 r2"
  shows "rd_end r2 - rd_p r2 < rd_end r - rd_p r"
  using next_field_advances [OF assms(1)] assms(2) by (auto simp: advances_def)

lemma field_step_of:
  "(Some v, r1) = next_field r \<Longrightarrow> advances r1 r2 \<Longrightarrow> rd_end r2 - rd_p r2 < rd_end r - rd_p r"
  by (rule field_step [OF sym])

function type_pass :: "reader \<Rightarrow> view option \<Rightarrow> (reader \<times> view option) option" where
  "type_pass r t =
     (case next_field r of
        (None, r1) \<Rightarrow> Some (r1, t)
      | (Some key, r1) \<Rightarrow>
          if view_bytes r1 key = str ''t'' then
            (case next_string r1 of
               (None, r2) \<Rightarrow> None
             | (Some v, r2) \<Rightarrow> type_pass r2 (Some v))
          else type_pass (skip_value r1) t)"
  by pat_completeness auto
termination
  by (relation "measure (\<lambda>(r, t). rd_end r - rd_p r)")
     (auto elim!: field_step_of intro: skip_value_advances next_string_advances [OF sym])

declare type_pass.simps [simp del]

definition stash_src :: "bytes \<Rightarrow> nat \<Rightarrow> bridge \<Rightarrow> bridge" where
  "stash_src src n st = st\<lparr>g_pendingLuaSrc := take n src @ drop n (g_pendingLuaSrc st)\<rparr>"

function exec_pass :: "reader \<Rightarrow> bridge \<Rightarrow> u32 \<Rightarrow> nat \<Rightarrow> bool \<times> bridge \<times> u32 \<times> nat" where
  "exec_pass r st seq src_len =
     (case next_field r of
        (None, r1) \<Rightarrow> (True, st, seq, src_len)
      | (Some key, r1) \<Rightarrow>
          if view_bytes r1 key = str ''seq'' then
            (case next_int r1 of
               (None, r2) \<Rightarrow> (False, st, seq, src_len)
             | (Some v, r2) \<Rightarrow> exec_pass r2 st (ucast v) src_len)
          else if view_bytes r1 key = str ''src'' then
            (case next_string r1 of
               (None, r2) \<Rightarrow> (False, st, seq, src_len)
             | (Some src, r2) \<Rightarrow>
                 let n = (if snd src > BufferSize then BufferSize else snd src)
                 in exec_pass r2 (stash_src (view_bytes r2 src) n st) seq n)
          else exec_pass (skip_value r1) st seq src_len)"
  by pat_completeness auto
termination
  by (relation "measure (\<lambda>(r, st, seq, n). rd_end r - rd_p r)")
     (auto elim!: field_step_of
       intro: skip_value_advances next_string_advances [OF sym] next_int_advances [OF sym])

declare exec_pass.simps [simp del]

function ping_pass :: "reader \<Rightarrow> u64 \<Rightarrow> u64 option" where
  "ping_pass r ts_ms =
     (case next_field r of
        (None, r1) \<Rightarrow> Some ts_ms
      | (Some key, r1) \<Rightarrow>
          if view_bytes r1 key = str ''ts_ms'' then
            (case next_int r1 of
               (None, r2) \<Rightarrow> None
             | (Some v, r2) \<Rightarrow> ping_pass r2 v)
          else ping_pass (skip_value r1) ts_ms)"
  by pat_completeness auto
termination
  by (relation "measure (\<lambda>(r, ts). rd_end r - rd_p r)")
     (auto elim!: field_step_of intro: skip_value_advances next_int_advances [OF sym])

declare ping_pass.simps [simp del]

definition type_name :: "reader \<times> view option \<Rightarrow> bytes" where
  "type_name p = (case snd p of None \<Rightarrow> [] | Some v \<Rightarrow> view_bytes (fst p) v)"

definition saved_cap :: nat where
  "saved_cap = 16 * 1024"

definition dispatch_line :: "bytes \<Rightarrow> nat \<Rightarrow> bridge \<Rightarrow> bridge" where
  "dispatch_line buf len st =
     (case enter_object (new_reader buf len) of
        (False, r) \<Rightarrow> st
      | (True, r) \<Rightarrow>
          if len > saved_cap then st
          else let saved = take len buf
               in (case type_pass r None of
                    None \<Rightarrow> st
                  | Some tp \<Rightarrow>
                      let t_val = type_name tp
                      in if t_val = str ''lua_exec'' then
                           (case enter_object (new_reader saved len) of
                              (False, r2) \<Rightarrow> st
                            | (True, r2) \<Rightarrow>
                                (case exec_pass r2 st 0 0 of
                                   (False, st1, seq, n) \<Rightarrow> st1
                                 | (True, st1, seq, n) \<Rightarrow>
                                     st1\<lparr>g_pendingLuaLen := n, g_pendingSeq := seq,
                                         g_readyForGameThread := True\<rparr>))
                         else if t_val = str ''ping'' then
                           (case enter_object (new_reader saved len) of
                              (False, r2) \<Rightarrow> st
                            | (True, r2) \<Rightarrow>
                                (case ping_pass r2 0 of
                                   None \<Rightarrow> st
                                 | Some ts_ms \<Rightarrow> enqueue_pong ts_ms st))
                         else if t_val = str ''hello_ack'' then
                           st\<lparr>g_clientSubs := \<lparr>sub_logging = True, sub_multiWorld = True\<rparr>\<rparr>
                         else if t_val = str ''kick'' then close_socket st
                         else st))"

section \<open>The send queue\<close>

text \<open>
  \<open>rets\<close> are the answers of successive \<open>Send\<close> calls; when they run out the socket would
  block. The loop gives back the buffers, what was accepted, and the unused answers.
\<close>

fun pump_loop :: "bytes list \<Rightarrow> int list \<Rightarrow> bytes list \<times> bytes \<times> int list" where
  "pump_loop [] rets = ([], [], rets)"
| "pump_loop ([] # q) rets = (case pump_loop q rets of (q', out, rs) \<Rightarrow> ([] # q', out, rs))"
| "pump_loop ((b # pb) # q) [] = ((b # pb) # q, [], [])"
| "pump_loop ((b # pb) # q) (ret # rets) =
     (if ret \<le> 0 then ((b # pb) # q, [], rets)
      else if nat ret \<ge> length (b # pb) then
        (case pump_loop q rets of (q', out, rs) \<Rightarrow> ([] # q', (b # pb) @ out, rs))
      else (drop (nat ret) (b # pb) # q, take (nat ret) (b # pb), rets))"

definition pump_outbound :: "int list \<Rightarrow> bridge \<Rightarrow> bridge" where
  "pump_outbound rets st =
     (case pump_loop (g_sendBuffer st) rets of (q, out, rs) \<Rightarrow>
        st\<lparr>g_sendBuffer := filter (\<lambda>pb. length pb \<noteq> 0) q, g_wire := g_wire st @ out\<rparr>)"

section \<open>The inner poll loop\<close>

lemma exec_pass_end: "next_field r = (None, r1) \<Longrightarrow> exec_pass r st seq n = (True, st, seq, n)"
  by (subst exec_pass.simps) simp

lemma exec_pass_seq:
  "next_field r = (Some key, r1) \<Longrightarrow> view_bytes r1 key = str ''seq'' \<Longrightarrow>
    exec_pass r st seq n =
      (case next_int r1 of (None, r2) \<Rightarrow> (False, st, seq, n) | (Some v, r2) \<Rightarrow> exec_pass r2 st (ucast v) n)"
  by (subst exec_pass.simps) simp

lemma exec_pass_src:
  "next_field r = (Some key, r1) \<Longrightarrow> view_bytes r1 key = str ''src'' \<Longrightarrow>
    exec_pass r st seq n =
      (case next_string r1 of (None, r2) \<Rightarrow> (False, st, seq, n)
       | (Some src, r2) \<Rightarrow>
           exec_pass r2 (stash_src (view_bytes r2 src) (min (snd src) BufferSize) st) seq (min (snd src) BufferSize))"
  by (subst exec_pass.simps) (auto simp: Let_def min_def str_def split: prod.split option.split)

lemma exec_pass_other:
  "next_field r = (Some key, r1) \<Longrightarrow> view_bytes r1 key \<noteq> str ''seq'' \<Longrightarrow> view_bytes r1 key \<noteq> str ''src'' \<Longrightarrow>
    exec_pass r st seq n = exec_pass (skip_value r1) st seq n"
  by (subst exec_pass.simps) simp

text \<open>The \<open>lua_exec\<close> loop writes the source buffer only, and keeps the length within it.\<close>

definition stash_frame :: "bridge \<Rightarrow> nat \<Rightarrow> bridge \<Rightarrow> nat \<Rightarrow> bool" where
  "stash_frame st n st' n' \<longleftrightarrow>
     (\<exists>src. st' = st\<lparr>g_pendingLuaSrc := src\<rparr> \<and>
       (length (g_pendingLuaSrc st) = BufferSize \<longrightarrow> length src = BufferSize)) \<and>
     (n \<le> BufferSize \<longrightarrow> n' \<le> BufferSize)"

lemma stash_frame_refl [simp]: "stash_frame st n st n"
  by (auto simp: stash_frame_def intro!: exI [of _ "g_pendingLuaSrc st"])

lemma stash_frame_stash:
  "n = length src \<Longrightarrow> stash_frame (stash_src src (min n BufferSize) st) (min n BufferSize) st' n' \<Longrightarrow>
    stash_frame st m st' n'"
  by (auto simp: stash_frame_def stash_src_def)

lemma next_string_view_fits:
  assumes "next_string r = (Some v, r')" and "rd_wf r"
  shows "length (view_bytes r' v) = snd v"
proof -
  obtain r1 where p: "prepare_value r = (True, r1)" and rs: "\<exists>r2. read_string r1 = (Some v, r2) \<and> r' = mark_value_done r2"
    using assms(1) by (auto simp: next_string_def split: prod.splits if_splits option.splits)
  from advances_prepare [OF p] assms(2) have w1: "rd_wf r1" by (auto intro: advances_wf)
  from rs obtain r2 where r2: "read_string r1 = (Some v, r2)" "r' = mark_value_done r2" by auto
  have "length (view_bytes r2 v) = snd v"
  proof -
    obtain b p w where rl: "read_loop (rd_buf r1) (Suc (rd_p r1)) (Suc (rd_p r1)) (rd_end r1) = (True, b, p, w)"
      and v: "v = (Suc (rd_p r1), w - Suc (rd_p r1))" and b: "rd_buf r2 = b" and lt: "rd_p r1 < rd_end r1" "p < rd_end r1"
      using r2(1) by (auto simp: read_string_def Let_def rd_advance_def split: prod.splits if_splits)
    from read_loop_bounds [OF rl] w1 lt have "w \<le> length b" by (simp add: rd_wf_def)
    then show ?thesis by (simp add: view_bytes_def v b)
  qed
  then show ?thesis by (simp add: r2 view_bytes_def)
qed

lemma exec_pass_frame:
  "exec_pass r st seq n = (ok, st', seq', n') \<Longrightarrow> rd_wf r \<Longrightarrow> stash_frame st n st' n'"
proof (induction r st seq n rule: exec_pass.induct)
  case (1 r st seq n)
  obtain kv r1 where nf: "next_field r = (kv, r1)" by (cases "next_field r")
  have w1: "rd_wf r1" using next_field_advances [OF nf] "1.prems"(2) by (auto intro: advances_wf)
  show ?case
  proof (cases kv)
    case None
    with "1.prems"(1) nf show ?thesis by (simp add: exec_pass_end)
  next
    case (Some key)
    consider (seq) "view_bytes r1 key = str ''seq''" | (src) "view_bytes r1 key = str ''src''"
      | (other) "view_bytes r1 key \<noteq> str ''seq''" "view_bytes r1 key \<noteq> str ''src''" by blast
    then show ?thesis
    proof cases
      case seq
      obtain v r2 where ni: "next_int r1 = (v, r2)" by (cases "next_int r1")
      have "rd_wf r2" using next_int_advances [OF ni] w1 by (rule advances_wf)
      with "1.prems"(1) "1.IH"(1) [OF nf [symmetric] Some seq ni [symmetric]] show ?thesis
        by (cases v) (auto simp: exec_pass_seq [OF nf [unfolded Some] seq] ni)
    next
      case src
      then have ns': "view_bytes r1 key \<noteq> str ''seq''" by (simp add: str_def)
      obtain v r2 where ns: "next_string r1 = (v, r2)" by (cases "next_string r1")
      have w2: "rd_wf r2" using next_string_advances [OF ns] w1 by (rule advances_wf)
      show ?thesis
      proof (cases v)
        case None
        with "1.prems"(1) show ?thesis by (simp add: exec_pass_src [OF nf [unfolded Some] src] ns)
      next
        case (Some sv)
        have "stash_frame (stash_src (view_bytes r2 sv) (min (snd sv) BufferSize) st) (min (snd sv) BufferSize) st' n'"
          using "1.IH"(2) [OF nf [symmetric] \<open>kv = Some key\<close> ns' src ns [symmetric] Some refl] "1.prems"(1) w2
          by (simp add: exec_pass_src [OF nf [unfolded \<open>kv = Some key\<close>] src] ns Some min_def split: if_splits)
        with next_string_view_fits [of r1 sv r2] ns Some w1 show ?thesis
          by (metis stash_frame_stash)
      qed
    next
      case other
      have "rd_wf (skip_value r1)" using skip_value_advances w1 by (rule advances_wf)
      with "1.prems"(1) "1.IH"(3) [OF nf [symmetric] Some other] show ?thesis
        by (simp add: exec_pass_other [OF nf [unfolded Some] other])
    qed
  qed
qed

lemma new_reader_wf: "len \<le> length data \<Longrightarrow> rd_wf (new_reader data len)"
  by (simp add: rd_wf_def new_reader_def)

lemma enter_object_wf: "enter_object r = (ok, r') \<Longrightarrow> rd_wf r \<Longrightarrow> rd_wf r'"
  unfolding enter_object_def by (blast intro: advances_wf rd_enter_advances)

text \<open>The state after a line, by the effect of the handler that ran.\<close>

lemma dispatch_cases:
  assumes "len \<le> length buf"
  obtains (same) "dispatch_line buf len st = st"
    | (stash) st' n where "stash_frame st 0 st' n" "dispatch_line buf len st = st'"
    | (exec) st' n seq where "stash_frame st 0 st' n" "dispatch_line buf len st =
        st'\<lparr>g_pendingLuaLen := n, g_pendingSeq := seq, g_readyForGameThread := True\<rparr>"
    | (pong) ts where "dispatch_line buf len st = enqueue_pong ts st"
    | (ack) "dispatch_line buf len st = st\<lparr>g_clientSubs := \<lparr>sub_logging = True, sub_multiWorld = True\<rparr>\<rparr>"
    | (kick) "dispatch_line buf len st = close_socket st"
proof -
  obtain ok r where e: "enter_object (new_reader buf len) = (ok, r)"
    by (cases "enter_object (new_reader buf len)")
  obtain ok2 r2 where e2: "enter_object (new_reader (take len buf) len) = (ok2, r2)"
    by (cases "enter_object (new_reader (take len buf) len)")
  obtain ok3 st' seq n where x: "exec_pass r2 st 0 0 = (ok3, st', seq, n)" by (metis prod_cases4)
  have "rd_wf r2" using assms by (intro enter_object_wf [OF e2] new_reader_wf) simp
  then have f: "stash_frame st 0 st' n" by (rule exec_pass_frame [OF x])
  show thesis
  proof (cases "type_pass r None")
    case None
    with e show thesis by (intro same) (simp add: dispatch_line_def split: bool.split)
  next
    case (Some tp)
    note d = dispatch_line_def e e2 Some x Let_def
    show thesis
    proof (cases "ok \<and> \<not> len > saved_cap")
      case False
      then show thesis by (intro same) (auto simp: d split: bool.split)
    next
      case True
      consider "type_name tp = str ''lua_exec''" | "type_name tp = str ''ping''"
        | "type_name tp = str ''hello_ack''" | "type_name tp = str ''kick''"
        | "type_name tp \<noteq> str ''lua_exec''" "type_name tp \<noteq> str ''ping''"
          "type_name tp \<noteq> str ''hello_ack''" "type_name tp \<noteq> str ''kick''" by blast
      then show thesis
      proof cases
        case 1
        show thesis
        proof (cases "ok2 \<and> ok3")
          case t: True
          with 1 True show thesis by (intro exec [OF f]) (simp add: d)
        next
          case False
          with 1 True show thesis
            by (cases ok2) (simp_all add: d stash [OF f] same)
        qed
      next
        case 2
        with True show thesis
          by (cases ok2; cases "ping_pass r2 0") (simp_all add: d same pong str_def)
      next
        case 3
        with True show thesis by (intro ack) (simp add: d str_def)
      next
        case 4
        with True show thesis by (intro kick) (simp add: d str_def)
      next
        case 5
        with True show thesis by (intro same) (simp add: d)
      qed
    qed
  qed
qed

lemma dispatch_inbound:
  assumes "len \<le> length buf"
  shows "length (g_inbound (dispatch_line buf len st)) \<le> length (g_inbound st)"
  using assms
  by (cases rule: dispatch_cases [of len buf st])
     (auto simp: stash_frame_def enqueue_pong_def enqueue_def close_socket_def)

lemma find_newline_from_less: "find_newline_from i bs = Some k \<Longrightarrow> i \<le> k \<and> k < i + length bs"
  by (induction i bs rule: find_newline_from.induct) (auto split: if_splits)

lemma find_newline_less: "find_newline st = Some nl \<Longrightarrow> nl < length (g_inbound st)"
  using find_newline_from_less [of 0 "g_inbound st" nl] by (simp add: find_newline_def)

lemma consume_line_less:
  "find_newline st = Some nl \<Longrightarrow> length (g_inbound (consume_line nl st)) < length (g_inbound st)"
  using find_newline_from_less [of 0 "g_inbound st" nl]
  by (auto simp: find_newline_def consume_line_def)

function process_lines :: "bridge \<Rightarrow> bridge" where
  "process_lines st =
     (case find_newline st of
        None \<Rightarrow> st
      | Some nl \<Rightarrow>
          let tk = (if nl < line_buf_cap - 1 then nl else line_buf_cap - 1);
              line_buf = take tk (g_inbound st) @ [0]
          in process_lines (dispatch_line line_buf tk (consume_line nl st)))"
  by pat_completeness auto
termination
  by (relation "measure (\<lambda>st. length (g_inbound st))")
     (auto intro!: le_less_trans [OF dispatch_inbound consume_line_less] dest: find_newline_less)

declare process_lines.simps [simp del]

text \<open>
  What \<open>Poll\<close> reported: an error, a timeout, or an event, with POLLERR or POLLHUP, or
  with POLLIN and then what \<open>Recv\<close> does.
\<close>

datatype poll_result = PollFailed | PollTimeout | PollHangup | PollReadable recv_result | PollOther

text \<open>One pass of the inner loop; the flag says whether the pass reached its end.\<close>

definition poll_iteration :: "poll_result \<Rightarrow> int list \<Rightarrow> bridge \<Rightarrow> bool \<times> bridge" where
  "poll_iteration p rets st =
     (case p of
        PollFailed \<Rightarrow> (False, close_socket st)
      | PollTimeout \<Rightarrow> (True, pump_outbound rets st)
      | PollOther \<Rightarrow> (True, pump_outbound rets st)
      | PollHangup \<Rightarrow> (False, close_socket st)
      | PollReadable res \<Rightarrow>
          (case drain_into_inbound res st of
             (False, st1) \<Rightarrow> (False, close_socket st1)
           | (True, st1) \<Rightarrow> (True, pump_outbound rets (process_lines st1))))"

section \<open>The outer worker loop\<close>

definition kBackoffSchedule :: "nat list" where
  "kBackoffSchedule = [1000, 2000, 5000, 10000, 30000]"

definition next_backoff :: "nat \<Rightarrow> nat" where
  "next_backoff idx = (if idx + 1 < length kBackoffSchedule then idx + 1 else idx)"

text \<open>
  One pass of the outer loop up to the inner loop: the answer of \<open>resolveBridge\<close>, the
  answers of the three connection calls, the two version strings, the backoff index. It
  gives the milliseconds slept (if it slept), the new index and the new state.
\<close>

definition connect_attempt ::
  "bool \<Rightarrow> int \<Rightarrow> bool \<Rightarrow> u32 \<Rightarrow> bytes \<Rightarrow> bytes \<Rightarrow> nat \<Rightarrow> bridge \<Rightarrow> nat option \<times> nat \<times> bridge" where
  "connect_attempt resolved sock aton rc mod_ver display_ver idx st =
     (if \<not> resolved then (Some (kBackoffSchedule ! idx), next_backoff idx, st)
      else (case tcp_connect sock aton rc st of
              (False, st1) \<Rightarrow> (Some (kBackoffSchedule ! idx), next_backoff idx, st1)
            | (True, st1) \<Rightarrow> (None, 0, sendHello mod_ver display_ver (str '''') st1)))"

section \<open>Public API\<close>

text \<open>The flag says whether the worker thread is created and started by this call.\<close>

definition Init :: "bridge \<Rightarrow> bool \<times> bridge" where
  "Init st = (if g_initialized st then (False, st) else (True, st\<lparr>g_initialized := True\<rparr>))"

text \<open>
  \<open>ProcessCommand\<close> on the game thread, in the order of its effects: it looks at the flag,
  runs the processor on the stashed source, enqueues what it built, clears the flag.
\<close>

definition pending_command :: "bridge \<Rightarrow> bytes \<times> u32" where
  "pending_command st = (take (g_pendingLuaLen st) (g_pendingLuaSrc st), g_pendingSeq st)"

definition finish_command :: "bridge \<Rightarrow> bridge" where
  "finish_command st = st\<lparr>g_readyForGameThread := False\<rparr>"

definition ProcessCommand :: "(bytes \<Rightarrow> u32 \<Rightarrow> bytes option) \<Rightarrow> bridge \<Rightarrow> bridge" where
  "ProcessCommand processor st =
     (if \<not> g_readyForGameThread st then st
      else let (src, seq) = pending_command st;
               st1 = (case processor src seq of None \<Rightarrow> st | Some buf \<Rightarrow> enqueue buf st)
           in finish_command st1)"

end
