(* ===== verification/Remote_Dispatch.thy ===== *)
theory Remote_Dispatch
  imports Remote_Api
begin

text \<open>
  What \<open>dispatch_line\<close> does on the envelopes the PC sends. The lemmas follow the field
  loops over the rendering of an object; the properties say that a \<open>ping\<close> is answered by
  the \<open>pong\<close> that carries its time stamp, that a \<open>lua_exec\<close> stashes its source and its
  sequence number, and that an unknown number in front of the type makes the whole line
  disappear.
\<close>

section \<open>Reading a rendered object\<close>

fun render_tail :: "(bytes \<times> jval) list \<Rightarrow> bytes" where
  "render_tail [] = [ch_rbrace]"
| "render_tail (f # fs) = ch_comma # render_field f @ render_tail fs"

lemma render_fields_tail: "render_fields (f # fs) @ [ch_rbrace] = render_field f @ render_tail fs"
  by (induction fs arbitrary: f) simp_all

lemma render_object_Cons: "render_object (f # fs) = ch_lbrace # render_field f @ render_tail fs"
  by (simp only: render_object_def render_fields_tail)

lemma render_tail_first: "\<exists>c cs. render_tail fs = c # cs \<and> \<not> is_ws c \<and> stops_int (render_tail fs)"
  by (cases fs) (simp_all add: is_ws_def stops_int_def is_digit_def)

lemma render_val_first:
  "\<exists>c cs. render_val v = c # cs \<and> \<not> is_ws c \<and> c \<noteq> ch_n \<and> (c = ch_quote \<longleftrightarrow> (\<exists>s. v = JStr s))"
  using dec_int_first by (cases v) (auto simp: quoted_def str_def is_ws_def)

lemma next_field_render:
  assumes o: "in_obj r comma" and k: "plain_key k"
    and t: "rest r = (if comma then [ch_comma] else []) @ quoted k @ ch_colon # render_val v @ t"
  obtains key r' where "next_field r = (Some key, r')" "view_bytes r' key = k" "rest r' = render_val v @ t"
    "in_obj r' True" "advances r r'" "fst key + snd key \<le> rd_p r'" "rd_depth r' = rd_depth r"
proof -
  obtain c cs where c: "render_val v = c # cs" "\<not> is_ws c" using render_val_first by blast
  let ?q = "k @ ch_quote # ch_colon # render_val v @ t"
  have 1: "dropWhile is_ws (rest r) = (if comma then ch_comma # ch_quote # ?q else ch_quote # ?q)"
    using t by (simp add: quoted_def is_ws_def)
  have 2: "dropWhile is_ws (ch_quote # ?q) = ch_quote # ?q" by (simp add: is_ws_def)
  have 3: "dropWhile is_ws (ch_colon # render_val v @ t) = ch_colon # render_val v @ t" by (simp add: is_ws_def)
  from next_field_text [OF o 1 2 decode_plain [OF k] 3] obtain key r' where
    "next_field r = (Some key, r')" "view_bytes r' key = k" "rest r' = dropWhile is_ws (render_val v @ t)"
    "in_obj r' True" "advances r r'" "fst key + snd key \<le> rd_p r'" "rd_depth r' = rd_depth r" .
  with c show thesis by (intro that [of key r']) auto
qed

lemma next_string_render:
  assumes o: "in_obj r comma" and t: "rest r = quoted (escape s) @ t"
  obtains v r' where "next_string r = (Some v, r')" "view_bytes r' v = s" "rest r' = t"
    "in_obj r' comma" "advances r r'" "fst v + snd v \<le> rd_p r'"
proof -
  have "dropWhile is_ws (rest r) = ch_quote # escape s @ ch_quote # t"
    using t by (simp add: quoted_def is_ws_def)
  from next_string_text [OF o this decode_escape] that show thesis by blast
qed

lemma skip_render_string:
  assumes o: "in_obj r comma" and t: "rest r = quoted (escape s) @ t"
  shows "rest (skip_value r) = t" and "in_obj (skip_value r) comma"
proof -
  have d: "dropWhile is_ws (rest r) = ch_quote # escape s @ ch_quote # t"
    using t by (simp add: quoted_def is_ws_def)
  show "rest (skip_value r) = t" and "in_obj (skip_value r) comma"
    using skip_value_string [OF o d decode_escape] by blast+
qed

lemma skip_render_other:
  assumes o: "in_obj r comma" and t: "rest r = render_val v @ t" and v: "\<nexists>s. v = JStr s"
  shows "rd_error (skip_value r)"
proof -
  obtain c cs where c: "render_val v = c # cs" "\<not> is_ws c" "c \<noteq> ch_n" "c \<noteq> ch_quote"
    using render_val_first [of v] v by auto
  with t have d: "dropWhile is_ws (rest r) = c # cs @ t" by simp
  show ?thesis by (rule skip_value_error [OF o d c(3,4)])
qed

section \<open>The first pass finds the type\<close>

lemma type_pass_end: "next_field r = (None, r1) \<Longrightarrow> type_pass r t = Some (r1, t)"
  by (subst type_pass.simps) simp

lemma type_pass_other:
  "next_field r = (Some key, r1) \<Longrightarrow> view_bytes r1 key \<noteq> str ''t'' \<Longrightarrow>
    type_pass r t = type_pass (skip_value r1) t"
  by (subst type_pass.simps) simp

lemma type_pass_type:
  "next_field r = (Some key, r1) \<Longrightarrow> view_bytes r1 key = str ''t'' \<Longrightarrow>
    type_pass r t = (case next_string r1 of (None, r2) \<Rightarrow> None | (Some v, r2) \<Rightarrow> type_pass r2 (Some v))"
  by (subst type_pass.simps) simp

lemma type_pass_tail:
  "in_obj r True \<Longrightarrow> rest r = render_tail fs \<Longrightarrow>
    \<forall>f \<in> set fs. plain_key (fst f) \<and> fst f \<noteq> str ''t'' \<Longrightarrow>
    \<exists>r'. type_pass r t = Some (r', t) \<and> advances r r'"
proof (induction fs arbitrary: r)
  case Nil
  then have "dropWhile is_ws (rest r) = ch_rbrace # []" by (simp add: is_ws_def)
  from next_field_end [OF Nil.prems(1) this] have nf: "next_field r = (None, skip_ws r)" .
  show ?case by (simp add: type_pass_end [OF nf])
next
  case (Cons f fs)
  obtain k v where f: "f = (k, v)" by (cases f)
  from Cons.prems f have k: "plain_key k" "k \<noteq> str ''t''" by auto
  from Cons.prems(2) f have
    t: "rest r = (if True then [ch_comma] else []) @ quoted k @ ch_colon # render_val v @ render_tail fs"
    by (simp add: render_field_def)
  from next_field_render [OF Cons.prems(1) k(1) t] obtain key r1 where
    nf: "next_field r = (Some key, r1)" "view_bytes r1 key = k" and r1: "rest r1 = render_val v @ render_tail fs"
    and o1: "in_obj r1 True" and a1: "advances r r1" by metis
  have step: "type_pass r t = type_pass (skip_value r1) t"
    using nf k(2) by (simp add: type_pass_other)
  have a2: "advances r (skip_value r1)" using a1 skip_value_advances by (rule advances_trans)
  show ?case
  proof (cases "\<exists>s. v = JStr s")
    case True
    then obtain s where "rest r1 = quoted (escape s) @ render_tail fs" using r1 by auto
    from skip_render_string [OF o1 this] Cons.IH [of "skip_value r1"] Cons.prems(3)
    obtain r' where "type_pass (skip_value r1) t = Some (r', t)" "advances (skip_value r1) r'" by auto
    with a2 show ?thesis using step by (auto intro: advances_trans)
  next
    case False
    from skip_render_other [OF o1 r1 False] have "rd_error (skip_value r1)" .
    from type_pass_end [OF next_field_error [OF this]] a2 step show ?thesis by auto
  qed
qed

lemma type_pass_typed_line:
  assumes o: "in_obj r False" and t: "rest r = render_field (str ''t'', JStr s) @ render_tail fs"
    and fs: "\<forall>f \<in> set fs. plain_key (fst f) \<and> fst f \<noteq> str ''t''"
  obtains tp where "type_pass r None = Some tp" "type_name tp = s"
proof -
  from t have t': "rest r = (if False then [ch_comma] else []) @
      quoted (str ''t'') @ ch_colon # render_val (JStr s) @ render_tail fs"
    by (simp add: render_field_def)
  have p: "plain_key (str ''t'')" by (simp add: plain_key_def str_def)
  from next_field_render [OF o p t'] obtain key r1 where nf: "next_field r = (Some key, r1)"
    "view_bytes r1 key = str ''t''" and r1: "rest r1 = quoted (escape s) @ render_tail fs"
    and o1: "in_obj r1 True"
    by (metis render_val.simps(1))
  from next_string_render [OF o1 r1] obtain v r2 where ns: "next_string r1 = (Some v, r2)"
    and v: "view_bytes r2 v = s" "fst v + snd v \<le> rd_p r2" and r2: "rest r2 = render_tail fs" "in_obj r2 True"
    by metis
  from type_pass_tail [OF r2(2,1) fs] obtain r' where
    tp: "type_pass r2 (Some v) = Some (r', Some v)" and a: "advances r2 r'" by blast
  have "type_pass r None = Some (r', Some v)" by (simp add: type_pass_type [OF nf] ns tp)
  moreover have "type_name (r', Some v) = s" using advances_view [OF a v(2)] v(1) by (simp add: type_name_def)
  ultimately show thesis by (rule that)
qed

lemma first_field_skip:
  assumes o: "in_obj r False" and t: "rest r = render_field (k, JStr s) @ render_tail fs" and k: "plain_key k"
  obtains key r1 where "next_field r = (Some key, r1)" "view_bytes r1 key = k"
    "rest (skip_value r1) = render_tail fs" "in_obj (skip_value r1) True"
proof -
  from t have t': "rest r = (if False then [ch_comma] else []) @
      quoted k @ ch_colon # render_val (JStr s) @ render_tail fs"
    by (simp add: render_field_def)
  from next_field_render [OF o k t'] obtain key r1 where nf: "next_field r = (Some key, r1)"
    "view_bytes r1 key = k" and r1: "rest r1 = quoted (escape s) @ render_tail fs" and o1: "in_obj r1 True"
    by (metis render_val.simps(1))
  from nf skip_render_string [OF o1 r1] show thesis by (rule that)
qed

lemma line_enter:
  assumes "line = render_object (f # fs)"
  obtains r where "enter_object (new_reader (line @ pad) (length line)) = (True, r)" "in_obj r False"
    "rest r = render_field f @ render_tail fs"
proof -
  have "take (length line) (line @ pad) = ch_lbrace # render_field f @ render_tail fs"
    using assms by (simp add: render_object_Cons)
  moreover have "length line \<le> length (line @ pad)" by simp
  ultimately obtain r where "enter_object (new_reader (line @ pad) (length line)) = (True, r)" "in_obj r False"
    "rest r = render_field f @ render_tail fs"
    using enter_object_text by metis
  then show thesis by (rule that)
qed

text \<open>The handler given a typed line: its second pass runs on the saved copy of the line.\<close>

lemma typed_line:
  assumes line: "line = render_object ((str ''t'', JStr s) # fs)" and len: "length line \<le> saved_cap"
    and fs: "\<forall>f \<in> set fs. plain_key (fst f) \<and> fst f \<noteq> str ''t''"
  obtains r tp r2 key r3 where "enter_object (new_reader (line @ pad) (length line)) = (True, r)"
    "type_pass r None = Some tp" "type_name tp = s"
    "enter_object (new_reader line (length line)) = (True, r2)"
    "next_field r2 = (Some key, r3)" "view_bytes r3 key = str ''t''"
    "rest (skip_value r3) = render_tail fs" "in_obj (skip_value r3) True"
proof -
  have p: "plain_key (str ''t'')" by (simp add: plain_key_def str_def)
  from line_enter [OF line, of pad] obtain r where e: "enter_object (new_reader (line @ pad) (length line)) = (True, r)"
    and o: "in_obj r False" and t: "rest r = render_field (str ''t'', JStr s) @ render_tail fs" .
  from type_pass_typed_line [OF o t fs] obtain tp where tp: "type_pass r None = Some tp" "type_name tp = s" .
  from line_enter [OF line, of "[]"] obtain r2 where e2: "enter_object (new_reader line (length line)) = (True, r2)"
    and o2: "in_obj r2 False" and t2: "rest r2 = render_field (str ''t'', JStr s) @ render_tail fs" by auto
  from first_field_skip [OF o2 t2 p] obtain key r3 where "next_field r2 = (Some key, r3)"
    "view_bytes r3 key = str ''t''" "rest (skip_value r3) = render_tail fs" "in_obj (skip_value r3) True" .
  with e tp e2 show thesis by (rule that)
qed

section \<open>ping is answered by pong\<close>

lemma ping_pass_ts:
  "next_field r = (Some key, r1) \<Longrightarrow> view_bytes r1 key = str ''ts_ms'' \<Longrightarrow>
    ping_pass r ts = (case next_int r1 of (None, r2) \<Rightarrow> None | (Some v, r2) \<Rightarrow> ping_pass r2 v)"
  by (subst ping_pass.simps) simp

lemma ping_pass_other:
  "next_field r = (Some key, r1) \<Longrightarrow> view_bytes r1 key \<noteq> str ''ts_ms'' \<Longrightarrow>
    ping_pass r ts = ping_pass (skip_value r1) ts"
  by (subst ping_pass.simps) simp

lemma ping_pass_end: "next_field r = (None, r1) \<Longrightarrow> ping_pass r ts = Some ts"
  by (subst ping_pass.simps) simp

lemma next_int_render:
  assumes o: "in_obj r True" and k: "plain_key k"
    and t: "rest r = ch_comma # render_field (k, JInt i) @ render_tail fs"
  obtains key r1 r2 where "next_field r = (Some key, r1)" "view_bytes r1 key = k"
    "next_int r1 = (Some (word_of_int i), r2)" "rest r2 = render_tail fs" "in_obj r2 True"
proof -
  from t have t': "rest r = (if True then [ch_comma] else []) @
      quoted k @ ch_colon # render_val (JInt i) @ render_tail fs"
    by (simp add: render_field_def)
  from next_field_render [OF o k t'] obtain key r1 where nf: "next_field r = (Some key, r1)"
    "view_bytes r1 key = k" and r1: "rest r1 = dec_int i @ render_tail fs" and o1: "in_obj r1 True"
    by (metis render_val.simps(2))
  have d: "dropWhile is_ws (rest r1) = dec_int i @ render_tail fs"
    using dec_int_first [of i] r1 by auto
  have st: "stops_int (render_tail fs)" using render_tail_first by blast
  from next_int_text [OF o1 d st] obtain r2 where "next_int r1 = (Some (word_of_int i), r2)"
    "rest r2 = render_tail fs" "in_obj r2 True" by metis
  with nf show thesis by (rule that)
qed

lemma tail_end:
  assumes "in_obj r True" and "rest r = render_tail []"
  shows "next_field r = (None, skip_ws r)"
  using assms by (intro next_field_end [where t = "[]"]) (auto simp: is_ws_def)

lemma dispatch_ping_line:
  assumes line: "line = render_object [(str ''t'', JStr (str ''ping'')), (str ''ts_ms'', JInt ts)]"
    and len: "length line \<le> saved_cap"
  shows "dispatch_line (line @ pad) (length line) st = enqueue_pong (word_of_int ts) st"
proof -
  let ?fs = "[(str ''ts_ms'', JInt ts)]"
  have keys: "\<forall>f \<in> set ?fs. plain_key (fst f) \<and> fst f \<noteq> str ''t''" by (simp add: plain_key_def str_def)
  from typed_line [OF line len keys, of pad] obtain r0 tp r key r1 where
    e0: "enter_object (new_reader (line @ pad) (length line)) = (True, r0)"
    and tp: "type_pass r0 None = Some tp" "type_name tp = str ''ping''"
    and e: "enter_object (new_reader line (length line)) = (True, r)"
    and nf: "next_field r = (Some key, r1)" "view_bytes r1 key = str ''t''"
    and r1: "rest (skip_value r1) = render_tail ?fs" "in_obj (skip_value r1) True" .
  have p: "plain_key (str ''t'')" "plain_key (str ''ts_ms'')" by (simp_all add: plain_key_def str_def)
  from r1(1) have "rest (skip_value r1) = ch_comma # render_field (str ''ts_ms'', JInt ts) @ render_tail []" by simp
  from next_int_render [OF r1(2) p(2) this] obtain key2 r2 r3 where
    nf2: "next_field (skip_value r1) = (Some key2, r2)" "view_bytes r2 key2 = str ''ts_ms''"
    and ni: "next_int r2 = (Some (word_of_int ts), r3)" and r3: "rest r3 = render_tail []" "in_obj r3 True" .
  have "ping_pass r 0 = Some (word_of_int ts)"
    using nf nf2 ni ping_pass_end [OF tail_end [OF r3(2,1)]]
    by (simp add: ping_pass_other ping_pass_ts str_def)
  with e0 e tp len show ?thesis by (simp add: dispatch_line_def str_def)
qed

section \<open>lua_exec is stashed\<close>

lemma next_src_render:
  assumes o: "in_obj r True" and t: "rest r = ch_comma # render_field (k, JStr s) @ render_tail fs" and k: "plain_key k"
  obtains key r1 v r2 where "next_field r = (Some key, r1)" "view_bytes r1 key = k"
    "next_string r1 = (Some v, r2)" "view_bytes r2 v = s" "rest r2 = render_tail fs" "in_obj r2 True" "snd v = length s"
proof -
  from t have t': "rest r = (if True then [ch_comma] else []) @
      quoted k @ ch_colon # render_val (JStr s) @ render_tail fs"
    by (simp add: render_field_def)
  from next_field_render [OF o k t'] obtain key r1 where nf: "next_field r = (Some key, r1)"
    "view_bytes r1 key = k" and r1: "rest r1 = quoted (escape s) @ render_tail fs" and o1: "in_obj r1 True"
    by (metis render_val.simps(1))
  from next_string_render [OF o1 r1] obtain v r2 where ns: "next_string r1 = (Some v, r2)"
    and v: "view_bytes r2 v = s" and r2: "rest r2 = render_tail fs" "in_obj r2 True"
    by metis
  have "snd v = length s" using next_string_view_fits [OF ns] o1 v by (simp add: in_obj_def)
  with nf ns v r2 show thesis by (intro that)
qed

lemma dispatch_exec_line:
  assumes line: "line = render_object [(str ''t'', JStr (str ''lua_exec'')), (str ''seq'', JInt seq), (str ''src'', JStr src)]"
    and len: "length line \<le> saved_cap"
  shows "dispatch_line (line @ pad) (length line) st =
    (stash_src src (min (length src) BufferSize) st)
      \<lparr>g_pendingLuaLen := min (length src) BufferSize, g_pendingSeq := word_of_int seq,
       g_readyForGameThread := True\<rparr>"
proof -
  let ?fs = "[(str ''seq'', JInt seq), (str ''src'', JStr src)]"
  have keys: "\<forall>f \<in> set ?fs. plain_key (fst f) \<and> fst f \<noteq> str ''t''" by (simp add: plain_key_def str_def)
  from typed_line [OF line len keys, of pad] obtain r0 tp r key r1 where
    e0: "enter_object (new_reader (line @ pad) (length line)) = (True, r0)"
    and tp: "type_pass r0 None = Some tp" "type_name tp = str ''lua_exec''"
    and e: "enter_object (new_reader line (length line)) = (True, r)"
    and nf: "next_field r = (Some key, r1)" "view_bytes r1 key = str ''t''"
    and r1: "rest (skip_value r1) = render_tail ?fs" "in_obj (skip_value r1) True" .
  have p: "plain_key (str ''t'')" "plain_key (str ''seq'')" "plain_key (str ''src'')"
    by (simp_all add: plain_key_def str_def)
  from r1(1) have "rest (skip_value r1) = ch_comma # render_field (str ''seq'', JInt seq) @
      render_tail [(str ''src'', JStr src)]" by simp
  from next_int_render [OF r1(2) p(2) this] obtain key2 r2 r3 where
    nf2: "next_field (skip_value r1) = (Some key2, r2)" "view_bytes r2 key2 = str ''seq''"
    and ni: "next_int r2 = (Some (word_of_int seq), r3)"
    and r3: "rest r3 = render_tail [(str ''src'', JStr src)]" "in_obj r3 True" .
  from r3(1) have "rest r3 = ch_comma # render_field (str ''src'', JStr src) @ render_tail []" by simp
  from next_src_render [OF r3(2) this p(3)] obtain key3 r4 v r5 where
    nf3: "next_field r3 = (Some key3, r4)" "view_bytes r4 key3 = str ''src''"
    and ns: "next_string r4 = (Some v, r5)" "view_bytes r5 v = src" "snd v = length src"
    and r5: "rest r5 = render_tail []" "in_obj r5 True" by metis
  have "exec_pass r st 0 0 = exec_pass (skip_value r1) st 0 0"
    using nf by (intro exec_pass_other [OF nf(1)]) (simp_all add: str_def)
  also have "\<dots> = exec_pass r3 st (word_of_int seq) 0"
    using exec_pass_seq [OF nf2] ni by (simp add: ucast_u64_u32_of_int)
  also have "\<dots> = exec_pass r5 (stash_src src (min (length src) BufferSize) st) (word_of_int seq) (min (length src) BufferSize)"
    using exec_pass_src [OF nf3] ns by simp
  also have "\<dots> = (True, stash_src src (min (length src) BufferSize) st, word_of_int seq, min (length src) BufferSize)"
    by (rule exec_pass_end [OF tail_end [OF r5(2,1)]])
  finally show ?thesis using e0 e tp len by (simp add: dispatch_line_def)
qed

section \<open>A number before the type hides the type\<close>

lemma dispatch_number_first:
  assumes line: "line = render_object ((k, v) # fs)" and len: "length line \<le> saved_cap"
    and k: "plain_key k" "k \<noteq> str ''t''" and v: "\<nexists>s. v = JStr s"
  shows "dispatch_line (line @ pad) (length line) st = st"
proof -
  from line_enter [OF line, of pad] obtain r where e: "enter_object (new_reader (line @ pad) (length line)) = (True, r)"
    and o: "in_obj r False" and t: "rest r = render_field (k, v) @ render_tail fs" .
  from t have t': "rest r = (if False then [ch_comma] else []) @ quoted k @ ch_colon # render_val v @ render_tail fs"
    by (simp add: render_field_def)
  from next_field_render [OF o k(1) t'] obtain key r1 where nf: "next_field r = (Some key, r1)"
    "view_bytes r1 key = k" and r1: "rest r1 = render_val v @ render_tail fs" and o1: "in_obj r1 True"
    by metis
  from skip_render_other [OF o1 r1 v] have er: "rd_error (skip_value r1)" .
  have "type_pass r None = Some (skip_value r1, None)"
    using nf k(2) type_pass_end [OF next_field_error [OF er]] by (simp add: type_pass_other)
  with e len show ?thesis by (simp add: dispatch_line_def type_name_def str_def)
qed

end
