(* ===== verification/Wire_Claims.thy ===== *)
theory Wire_Claims
  imports Remote_Dispatch
begin

text \<open>
  The properties of the wire format: what the encoder emits, what the reader decodes, and
  that the reader stays inside the line it was given.
\<close>

text \<open>
  C10: an object written field by field with the encoder is the JSON text of its fields, cut
  at the capacity of the line buffer, and the truncation flag says exactly whether it was cut.
\<close>

theorem encoder_writes_object:
  "lb_buf (enc_object lb_empty fs) = take kCap (render_object fs) \<and>
    (lb_trunc (enc_object lb_empty fs) \<longleftrightarrow> kCap < length (render_object fs))"
  by (simp add: enc_object_write) (simp add: lb_write_def lb_empty_def)

text \<open>
  C8: the reader's in-place string unescaping, which shifts the decoded bytes left inside
  the line buffer, returns what the pure decoder gives on the unread text and continues right
  after the closing quote; where the decoder rejects the text the reader fails.
\<close>

theorem read_string_decodes:
  assumes "rd_wf r" and "rest r = ch_quote # cs"
  shows "case decode_str cs of
      None \<Rightarrow> fst (read_string r) = None
    | Some (d, t) \<Rightarrow> (\<exists>v r'. read_string r = (Some v, r') \<and> view_bytes r' v = d \<and> rest r' = t)"
proof (cases "decode_str cs")
  case None
  with read_string_text_fail [OF assms(1)] assms(2) show ?thesis by simp
next
  case (Some dt)
  then obtain d t where dt: "decode_str cs = Some (d, t)" by (cases dt) auto
  have "\<exists>v r'. read_string r = (Some v, r') \<and> view_bytes r' v = d \<and> rest r' = t"
    using read_string_text [OF assms dt] by metis
  then show ?thesis by (simp only: dt option.case prod.case)
qed

theorem read_string_decodes_witness:
  "\<exists>v r'. read_string (new_reader [ch_quote, ch_bslash, ch_n, ch_a, ch_quote] 5) = (Some v, r') \<and>
    view_bytes r' v = [ch_nl, ch_a] \<and> rest r' = []"
proof -
  let ?cs = "[ch_bslash, ch_n, ch_a, ch_quote]"
  have d: "decode_str ?cs = Some ([ch_nl, ch_a], [])" by (simp add: decode_str.simps simple_escape_def)
  have "rd_wf (new_reader (ch_quote # ?cs) 5)" by (simp add: rd_wf_def new_reader_def)
  from read_string_decodes [OF this, of ?cs] d show ?thesis
    by (simp add: rest_def text_from_def new_reader_def)
qed

lemma value_str_written:
  assumes "lb_wf (enc_out e)" and "\<not> lb_trunc (enc_out (value_str e s))"
  shows "lb_buf (enc_out (value_str e s)) = lb_buf (enc_out (maybe_comma e)) @ quoted (escape s)"
proof -
  have "lb_wf (enc_out (maybe_comma e))"
    using assms(1) by (simp add: maybe_comma_def lb_append_char_write)
  then have "enc_out (value_str e s) = lb_write (enc_out (maybe_comma e)) (quoted (escape s))"
    by (simp add: value_str_def out_char_def mark_needs_comma_def Let_def quoted_escape_write)
  with assms(2) show ?thesis by (simp add: lb_write_def not_less) arith
qed

text \<open>
  C9: what the encoder writes for a string value, after the comma it may need, is read back by
  the reader byte for byte, whatever bytes the string holds, whatever state the encoder is in and
  whatever text follows. The truncation flag must be clear: a string that does not fit into
  the 8 KiB of the line buffer is cut.
\<close>

theorem string_value_round_trip:
  assumes "lb_wf (enc_out e)" and "\<not> lb_trunc (enc_out (value_str e s))"
    and "written = drop (lb_size (enc_out (maybe_comma e))) (lb_buf (enc_out (value_str e s)))"
    and "rd_wf r" and "rest r = written @ t"
  shows "\<exists>v r'. read_string r = (Some v, r') \<and> view_bytes r' v = s \<and> rest r' = t"
proof -
  have "rest r = ch_quote # escape s @ ch_quote # t"
    using assms(3,5) value_str_written [OF assms(1,2)] by (simp add: quoted_def lb_size_def)
  from read_string_text [OF assms(4) this decode_escape] show ?thesis by metis
qed

theorem string_value_round_trip_witness:
  "let e = value_str (begin_array (new_encoder lb_empty)) [ch_a];
       line = lb_buf (enc_out (value_str e [ch_quote, 0, 0xFF]))
   in length line = 11 \<and>
     (\<exists>v r'. read_string ((new_reader line 11)\<lparr>rd_p := 5\<rparr>) = (Some v, r') \<and>
        view_bytes r' v = [ch_quote, 0, 0xFF] \<and> rest r' = [])"
proof -
  let ?e = "value_str (begin_array (new_encoder lb_empty)) [ch_a]"
  let ?line = "lb_buf (enc_out (value_str ?e [ch_quote, 0, 0xFF]))"
  note enc = value_str_def begin_array_def new_encoder_def lb_empty_def maybe_comma_def out_char_def push_frame_def
    enc_max_depth_def mark_needs_comma_def append_escaped_def lb_append_char_def lb_size_def kCap_def Let_def
  have line: "?line = [ch_lbrack, ch_quote, ch_a, ch_quote, ch_comma, ch_quote, ch_bslash, ch_quote, 0, 0xFF, ch_quote]"
    by (simp add: enc)
  have c: "lb_wf (enc_out ?e)" "\<not> lb_trunc (enc_out (value_str ?e [ch_quote, 0, 0xFF]))"
    "lb_size (enc_out (maybe_comma ?e)) = 5" by (simp_all add: enc lb_wf_def)
  from string_value_round_trip [OF c(1,2) refl, of "(new_reader ?line 11)\<lparr>rd_p := 5\<rparr>" "[]"]
  show ?thesis unfolding Let_def c(3) line by (simp add: rd_wf_def new_reader_def rest_def text_from_def)
qed

text \<open>
  C11: no operation of the reader leaves the line: for any input and any state of the frames,
  the cursor only moves forward and never past the end, the buffer keeps its length, and the
  bytes from the cursor on are the ones that arrived.
\<close>

theorem reader_stays_inside:
  assumes "rd_wf r"
    and "r' \<in> {snd (enter_object r), snd (enter_array r), snd (exit_object r), snd (exit_array r),
      snd (next_field r), snd (next_string r), snd (next_int r), snd (next_bool r), snd (is_null r),
      skip_value r}"
  shows "rd_p r \<le> rd_p r' \<and> rd_p r' \<le> rd_end r \<and> rd_end r' = rd_end r \<and>
    length (rd_buf r') = length (rd_buf r) \<and> drop (rd_p r') (rd_buf r') = drop (rd_p r') (rd_buf r)"
proof -
  have a: "advances r (snd (enter_object r))" "advances r (snd (enter_array r))"
    "advances r (snd (exit_object r))" "advances r (snd (exit_array r))"
    unfolding enter_object_def enter_array_def exit_object_def exit_array_def
    by (metis rd_enter_advances rd_exit_advances prod.collapse)+
  have b: "advances r (snd (next_string r))" "advances r (snd (next_int r))" "advances r (snd (next_bool r))"
    "advances r (snd (is_null r))"
    by (metis next_string_advances next_int_advances next_bool_advances is_null_advances prod.collapse)+
  have "advances r (snd (next_field r))" using next_field_advances [of r] by (metis prod.collapse)
  with a b skip_value_advances assms(2) have "advances r r'" by blast
  with assms(1) show ?thesis by (simp add: advances_def rd_wf_def)
qed

theorem reader_stays_inside_witness:
  "rd_p (skip_value (new_reader [ch_0, ch_comma] 2)) \<le> 2"
  using reader_stays_inside [of "new_reader [ch_0, ch_comma] 2" "skip_value (new_reader [ch_0, ch_comma] 2)"]
  by (simp add: rd_wf_def new_reader_def)

text \<open>
  C12: a key or string view that was handed out keeps its bytes while the rest of the message
  is read, although later strings are unescaped in the same buffer.
\<close>

theorem views_stay_valid:
  assumes "fst v + snd v \<le> rd_p r"
    and "r' \<in> {snd (next_field r), snd (next_string r), snd (next_int r), skip_value r}"
  shows "view_bytes r' v = view_bytes r v"
proof -
  have "advances r (snd (next_field r))" "advances r (snd (next_string r))" "advances r (snd (next_int r))"
    using next_field_advances [of r] next_string_advances [of r] next_int_advances [of r] by (metis prod.collapse)+
  with skip_value_advances assms(2) have "advances r r'" by blast
  from advances_view [OF this assms(1)] show ?thesis .
qed

theorem views_stay_valid_witness:
  "view_bytes (skip_value ((new_reader [ch_a, ch_quote, ch_quote] 3)\<lparr>rd_p := 1\<rparr>)) (0, 1) = [ch_a]"
proof -
  let ?r = "(new_reader [ch_a, ch_quote, ch_quote] 3)\<lparr>rd_p := 1\<rparr>"
  have "view_bytes (skip_value ?r) (0, 1) = view_bytes ?r (0, 1)"
    by (rule views_stay_valid) (simp_all)
  then show ?thesis by (simp add: view_bytes_def new_reader_def)
qed

end
