(* ===== verification/Multiworld.thy ===== *)
theory Multiworld
  imports Remote_Dispatch
begin

text \<open>
  The game-thread side of the bridge, from \<open>source/program/main.cpp\<close> and
  \<open>source/program/debug_hooks.cpp\<close>: the Lua entry points of the \<open>RemoteLua\<close> table, the
  processor that answers a \<open>lua_exec\<close>, the version-dependent offsets, and the \<open>LogWarn\<close>
  replacement. The Lua interpreter is a parameter: what loading and running a chunk gives.
  A Lua argument read with \<open>lua_tostring\<close> is the optional C string it returns.
\<close>

section \<open>Answering a command\<close>

text \<open>
  \<open>luaL_loadbuffer\<close> fails, or the chunk runs and \<open>tostring\<close> of its result or of its
  error is a string; the flag says whether \<open>pcall\<close> succeeded.
\<close>

datatype lua_outcome = LoadFailed | Returned bool bytes

definition lua_exec_reply :: "u32 \<Rightarrow> bool \<Rightarrow> bytes \<Rightarrow> bytes" where
  "lua_exec_reply seq ok result =
     make_buffer_from_line (enc_object lb_empty
       [(str ''t'', JStr (str ''lua_exec_reply'')),
        (str ''seq'', JInt (sint seq)),
        (str ''ok'', JBool ok),
        (str ''result'', JStr result)])"

definition command_processor :: "(bytes \<Rightarrow> lua_outcome) \<Rightarrow> bytes \<Rightarrow> u32 \<Rightarrow> bytes option" where
  "command_processor lua src seq =
     (case lua src of
        Returned success s \<Rightarrow> Some (lua_exec_reply seq success s)
      | LoadFailed \<Rightarrow> Some (lua_exec_reply seq False (str ''error parsing buffer'')))"

definition multiworld_update :: "(bytes \<Rightarrow> lua_outcome) \<Rightarrow> bridge \<Rightarrow> bridge" where
  "multiworld_update lua st = ProcessCommand (command_processor lua) st"

definition multiworld_init :: "bridge \<Rightarrow> bool \<times> bridge" where
  "multiworld_init st = Init st"

section \<open>The Lua library\<close>

definition gamelog_send :: "bytes option \<Rightarrow> bytes option \<Rightarrow> bridge \<Rightarrow> bridge" where
  "gamelog_send level0 msg0 st =
     (let msg = (if msg0 = None then level0 else msg0);
          level = (if msg0 = None then Some (str ''info'') else level0)
      in SendLogJson (Some (or_default level ''info'')) (Some (or_default msg '''')) st)"

definition inventory_send :: "u64 \<Rightarrow> bytes option \<Rightarrow> bridge \<Rightarrow> bridge" where
  "inventory_send index arr st = SendInventoryJson (ucast index) (Some (or_default arr ''[]'')) st"

definition indices_send :: "bytes option \<Rightarrow> bridge \<Rightarrow> bridge" where
  "indices_send hex st = SendCollectedJson (Some (or_default hex '''')) st"

definition recv_pickups_send :: "u64 \<Rightarrow> bridge \<Rightarrow> bridge" where
  "recv_pickups_send count st = SendReceivedPickupsJson (ucast count) st"

definition new_game_state_send :: "bytes option \<Rightarrow> bool \<Rightarrow> bridge \<Rightarrow> bridge" where
  "new_game_state_send scenario beaten st = SendGameStateJson (Some (or_default scenario '''')) beaten st"

definition layout_uuid_send :: "bytes option \<Rightarrow> bridge \<Rightarrow> bridge" where
  "layout_uuid_send uuid st = SendLayoutUuidJson (Some (or_default uuid '''')) st"

definition is_connected :: "bridge \<Rightarrow> bool" where
  "is_connected st = IsConnected st"

text \<open>Every push the game thread can make, as one type.\<close>

datatype lua_push =
    PushLog "bytes option" "bytes option"
  | PushInventory u64 "bytes option"
  | PushIndices "bytes option"
  | PushReceived u64
  | PushGameState "bytes option" bool
  | PushUuid "bytes option"

fun lua_push_step :: "lua_push \<Rightarrow> bridge \<Rightarrow> bridge" where
  "lua_push_step (PushLog level msg) st = gamelog_send level msg st"
| "lua_push_step (PushInventory index arr) st = inventory_send index arr st"
| "lua_push_step (PushIndices hex) st = indices_send hex st"
| "lua_push_step (PushReceived n) st = recv_pickups_send n st"
| "lua_push_step (PushGameState scen beaten) st = new_game_state_send scen beaten st"
| "lua_push_step (PushUuid uuid) st = layout_uuid_send uuid st"

section \<open>Offsets by game version\<close>

record functionOffsets =
  off_crc64 :: int
  off_CFilePathStrIdCtor :: int
  off_luaRegisterGlobals :: int
  off_lua_pcall :: int
  off_LogWarn :: int
  off_CallFunctionWithArguments :: int
  off_OnCollectPickup :: int
  off_PlayPickupSound :: int
  off_ShowItemPickupMessage :: int
  off_PlaySoundWithCallback :: int
  off_StaticStringBank :: int
  off_FindOrCreateStringInstance :: int

definition getVersionOffsets :: "bytes \<Rightarrow> functionOffsets" where
  "getVersionOffsets displayVersion =
     (if displayVersion = str ''2.1.0'' then
        \<lparr>off_crc64 = 0x1570, off_CFilePathStrIdCtor = 0x166C8, off_luaRegisterGlobals = 0x010aed50,
         off_lua_pcall = 0x010a3a80, off_LogWarn = 0x1094820, off_CallFunctionWithArguments = 0x790,
         off_OnCollectPickup = 0x9d0e28, off_PlayPickupSound = 0x9d16c4,
         off_ShowItemPickupMessage = 0xb5fd9c, off_PlaySoundWithCallback = 0xfd90d8,
         off_StaticStringBank = 0x1d552d0, off_FindOrCreateStringInstance = 0x406dc\<rparr>
      else
        \<lparr>off_crc64 = 0x1570, off_CFilePathStrIdCtor = 0x16624, off_luaRegisterGlobals = 0x106ce90,
         off_lua_pcall = 0x1061bc0, off_LogWarn = 0x1052a70, off_CallFunctionWithArguments = 0x790,
         off_OnCollectPickup = 0x9ce5c8, off_PlayPickupSound = 0x9cee64,
         off_ShowItemPickupMessage = 0xb5395c, off_PlaySoundWithCallback = 0xf975f8,
         off_StaticStringBank = 0x1cfc2d0, off_FindOrCreateStringInstance = 0x4063c\<rparr>)"

section \<open>The LogWarn replacement\<close>

text \<open>
  \<open>snprintf\<close> into the 256-byte static buffer keeps at most 255 bytes and a terminator, and
  returns the length the whole text would have had, which the code hands on as the length
  of the buffer's contents.
\<close>

definition log_buffer_size :: nat where
  "log_buffer_size = 256"

datatype log_result = LogSkipped | LogArgError nat | LogPrinted bytes nat

definition LogWarn :: "bool \<Rightarrow> nat \<Rightarrow> u32 \<Rightarrow> bytes \<Rightarrow> log_result" where
  "LogWarn loggingEnabled nargs arg1 msg =
     (if \<not> loggingEnabled then LogSkipped
      else if nargs < 2 then LogArgError nargs
      else let text = str ''[LogWarn/'' @ dec_int (sint arg1) @ str ''] '' @ msg
           in LogPrinted (take (log_buffer_size - 1) text @ [0]) (length text))"

section \<open>Facts\<close>

lemma make_buffer_object:
  "make_buffer_from_line (enc_object lb_empty fs) = take kCap (render_object fs) @ [ch_nl]"
  by (simp add: make_buffer_from_line_def enc_object_write) (simp add: lb_write_def lb_empty_def)

lemma inventory_line_text:
  "inventory_line index arr = lb_write lb_empty
     (str ''{\"t\":\"inventory\",\"index\":'' @ dec_int (sint index) @ str '',\"inventory\":'' @
      or_default arr ''[]'' @ [ch_rbrace])"
  by (cases arr) (simp_all add: inventory_line_def Let_def lb_append_write lb_append_char_write or_default_def)

text \<open>A buffer of the queue: a line of at most \<open>kCap\<close> bytes and its newline.\<close>

definition line_shaped :: "bytes \<Rightarrow> bool" where
  "line_shaped buf \<longleftrightarrow> buf \<noteq> [] \<and> last buf = ch_nl \<and> length buf \<le> kCap + 1"

lemma line_shaped_make: "lb_wf l \<Longrightarrow> line_shaped (make_buffer_from_line l)"
  by (simp add: line_shaped_def make_buffer_from_line_def lb_wf_def lb_size_def)

lemma line_shaped_object [simp]: "line_shaped (make_buffer_from_line (enc_object lb_empty fs))"
  by (rule line_shaped_make) (simp add: enc_object_write)

lemma line_shaped_inventory [simp]: "line_shaped (make_buffer_from_line (inventory_line i arr))"
  by (rule line_shaped_make) (simp add: inventory_line_text)

text \<open>Each push adds at most one such line, and only while a peer is connected.\<close>

lemma enqueue_shaped: "line_shaped b \<Longrightarrow> \<exists>buf. line_shaped buf \<and> enqueue b st = enqueue buf st"
  by blast

lemma lua_push_cases:
  "lua_push_step p st = st \<or>
    (g_socketConnected st \<and> (\<exists>buf. line_shaped buf \<and> lua_push_step p st = enqueue buf st))"
  by (cases p)
     (simp_all add: enqueue_shaped gamelog_send_def SendLogJson_def inventory_send_def SendInventoryJson_def
       indices_send_def SendCollectedJson_def recv_pickups_send_def SendReceivedPickupsJson_def
       new_game_state_send_def SendGameStateJson_def layout_uuid_send_def SendLayoutUuidJson_def Let_def)

lemma command_processor_shaped:
  "\<exists>buf. command_processor lua src seq = Some buf \<and> line_shaped buf"
  by (cases "lua src") (simp_all add: command_processor_def lua_exec_reply_def)

end
