(* ===== verification/Remote_Worker.thy ===== *)
theory Remote_Worker
  imports Multiworld
begin

text \<open>
  The two threads of the bridge as a transition system: the worker of \<open>worker_main\<close> with
  its program counter and backoff index, and the game thread inside or outside
  \<open>ProcessCommand\<close>. Each rule is one action the code performs between two points where
  the other thread can run. What the socket library answers is left open in the rules.
\<close>

section \<open>Generic invariants\<close>

text \<open>
  A transition system and a predicate its steps keep: the predicate then holds in every
  reachable state.
\<close>

locale kept_invariant =
  fixes start :: "'s \<Rightarrow> bool"
    and step :: "'s \<Rightarrow> 's \<Rightarrow> bool"
    and keeps :: "'s \<Rightarrow> bool"
  assumes start_keeps: "start s \<Longrightarrow> keeps s"
    and step_keeps: "step s t \<Longrightarrow> keeps s \<Longrightarrow> keeps t"
begin

lemma run_keeps: "step\<^sup>*\<^sup>* s t \<Longrightarrow> keeps s \<Longrightarrow> keeps t"
  by (induction rule: rtranclp_induct) (auto intro: step_keeps)

lemma reachable_keeps: "start s \<Longrightarrow> step\<^sup>*\<^sup>* s t \<Longrightarrow> keeps t"
  by (rule run_keeps) (auto intro: start_keeps)

end

section \<open>The transition system\<close>

datatype worker_pc = WOuter | WHello | WPoll | WLines | WPump

datatype game_pc = GIdle | GRunning bytes u32 | GFinishing

record system =
  sys_bridge :: bridge
  sys_worker :: worker_pc
  sys_backoff :: nat
  sys_game :: game_pc

text \<open>One pass of the line loop of the worker, for the newline found at \<open>nl\<close>.\<close>

definition take_line :: "nat \<Rightarrow> bridge \<Rightarrow> bridge" where
  "take_line nl st =
     (let tk = (if nl < line_buf_cap - 1 then nl else line_buf_cap - 1)
      in dispatch_line (take tk (g_inbound st) @ [0]) tk (consume_line nl st))"

lemma process_lines_take:
  "process_lines st = (case find_newline st of None \<Rightarrow> st | Some nl \<Rightarrow> process_lines (take_line nl st))"
  by (subst process_lines.simps) (simp add: take_line_def Let_def split: option.split)

inductive sys_step :: "system \<Rightarrow> system \<Rightarrow> bool" where
  unresolved: "sys_worker s = WOuter \<Longrightarrow>
    sys_step s (s\<lparr>sys_backoff := next_backoff (sys_backoff s)\<rparr>)"
| refused: "sys_worker s = WOuter \<Longrightarrow> tcp_connect sock aton rc (sys_bridge s) = (False, b) \<Longrightarrow>
    sys_step s (s\<lparr>sys_bridge := b, sys_backoff := next_backoff (sys_backoff s)\<rparr>)"
| connected: "sys_worker s = WOuter \<Longrightarrow> tcp_connect sock aton rc (sys_bridge s) = (True, b) \<Longrightarrow>
    sys_step s (s\<lparr>sys_bridge := b, sys_backoff := 0, sys_worker := WHello\<rparr>)"
| hello: "sys_worker s = WHello \<Longrightarrow>
    sys_step s (s\<lparr>sys_bridge := sendHello mod_ver disp_ver (str '''') (sys_bridge s), sys_worker := WPoll\<rparr>)"
| left_loop: "sys_worker s = WPoll \<Longrightarrow> \<not> g_socketConnected (sys_bridge s) \<Longrightarrow>
    sys_step s (s\<lparr>sys_worker := WOuter\<rparr>)"
| hangup: "sys_worker s = WPoll \<Longrightarrow> g_socketConnected (sys_bridge s) \<Longrightarrow>
    sys_step s (s\<lparr>sys_bridge := close_socket (sys_bridge s), sys_worker := WOuter\<rparr>)"
| fin: "sys_worker s = WPoll \<Longrightarrow> g_socketConnected (sys_bridge s) \<Longrightarrow>
    drain_into_inbound res (sys_bridge s) = (False, b) \<Longrightarrow>
    sys_step s (s\<lparr>sys_bridge := close_socket b, sys_worker := WOuter\<rparr>)"
| readable: "sys_worker s = WPoll \<Longrightarrow> g_socketConnected (sys_bridge s) \<Longrightarrow>
    drain_into_inbound res (sys_bridge s) = (True, b) \<Longrightarrow>
    sys_step s (s\<lparr>sys_bridge := b, sys_worker := WLines\<rparr>)"
| quiet: "sys_worker s = WPoll \<Longrightarrow> g_socketConnected (sys_bridge s) \<Longrightarrow>
    sys_step s (s\<lparr>sys_worker := WPump\<rparr>)"
| line: "sys_worker s = WLines \<Longrightarrow> find_newline (sys_bridge s) = Some nl \<Longrightarrow>
    sys_step s (s\<lparr>sys_bridge := take_line nl (sys_bridge s)\<rparr>)"
| lines_done: "sys_worker s = WLines \<Longrightarrow> find_newline (sys_bridge s) = None \<Longrightarrow>
    sys_step s (s\<lparr>sys_worker := WPump\<rparr>)"
| pump: "sys_worker s = WPump \<Longrightarrow>
    sys_step s (s\<lparr>sys_bridge := pump_outbound rets (sys_bridge s), sys_worker := WPoll\<rparr>)"
| game_start: "sys_game s = GIdle \<Longrightarrow> g_readyForGameThread (sys_bridge s) \<Longrightarrow>
    pending_command (sys_bridge s) = (src, seq) \<Longrightarrow>
    sys_step s (s\<lparr>sys_game := GRunning src seq\<rparr>)"
| game_push: "sys_step s (s\<lparr>sys_bridge := lua_push_step p (sys_bridge s)\<rparr>)"
| game_reply: "sys_game s = GRunning src seq \<Longrightarrow> command_processor lua src seq = Some buf \<Longrightarrow>
    sys_step s (s\<lparr>sys_bridge := enqueue buf (sys_bridge s), sys_game := GFinishing\<rparr>)"
| game_finish: "sys_game s = GFinishing \<Longrightarrow>
    sys_step s (s\<lparr>sys_bridge := finish_command (sys_bridge s), sys_game := GIdle\<rparr>)"

definition sys_start :: "system \<Rightarrow> bool" where
  "sys_start s \<longleftrightarrow>
     s = \<lparr>sys_bridge = snd (Init init_bridge), sys_worker = WOuter, sys_backoff = 0, sys_game = GIdle\<rparr>"

section \<open>The bridge invariant\<close>

definition bridge_ok :: "bridge \<Rightarrow> bool" where
  "bridge_ok st \<longleftrightarrow>
     length (g_inbound st) \<le> kInboundCap \<and> length (g_pendingLuaSrc st) = BufferSize \<and>
     g_pendingLuaLen st \<le> BufferSize \<and> (g_socketConnected st \<longleftrightarrow> 0 \<le> g_socket st) \<and>
     (\<forall>buf \<in> set (g_sendBuffer st). line_shaped buf)"

lemma bridge_ok_init: "bridge_ok init_bridge"
  by (simp add: bridge_ok_def init_bridge_def)

lemma bridge_ok_enqueue: "bridge_ok st \<Longrightarrow> line_shaped buf \<Longrightarrow> bridge_ok (enqueue buf st)"
  by (simp add: bridge_ok_def enqueue_def)

lemma bridge_ok_push: "bridge_ok st \<Longrightarrow> bridge_ok (lua_push_step p st)"
  using lua_push_cases [of p st] by (auto intro: bridge_ok_enqueue)

lemma bridge_ok_close: "bridge_ok st \<Longrightarrow> bridge_ok (close_socket st)"
  by (auto simp: bridge_ok_def close_socket_def)

lemma bridge_ok_connect:
  "bridge_ok st \<Longrightarrow> \<not> g_socketConnected st \<Longrightarrow> tcp_connect sock aton rc st = (ok, st') \<Longrightarrow>
    bridge_ok st' \<and> (g_socketConnected st' \<longleftrightarrow> ok)"
  by (auto simp: bridge_ok_def tcp_connect_def Let_def split: if_splits)

lemma bridge_ok_drain: "bridge_ok st \<Longrightarrow> drain_into_inbound res st = (ok, st') \<Longrightarrow>
    bridge_ok st' \<and> g_socketConnected st' = g_socketConnected st"
  by (cases res) (auto simp: bridge_ok_def drain_into_inbound_def Let_def split: if_splits)

lemma bridge_ok_dispatch:
  assumes "bridge_ok st" and "len \<le> length buf"
  shows "bridge_ok (dispatch_line buf len st)"
  using assms(2)
proof (cases rule: dispatch_cases [of len buf st])
  case (pong ts)
  with assms show ?thesis by (simp add: enqueue_pong_def bridge_ok_enqueue)
qed (use assms in \<open>auto simp: stash_frame_def bridge_ok_def close_socket_def\<close>)

lemma take_line_fits:
  "find_newline st = Some nl \<Longrightarrow> tk = (if nl < line_buf_cap - 1 then nl else line_buf_cap - 1) \<Longrightarrow>
    tk \<le> length (take tk (g_inbound st) @ [0])"
  using find_newline_less [of st nl] by auto

lemma bridge_ok_take_line:
  assumes "bridge_ok st" and "find_newline st = Some nl"
  shows "bridge_ok (take_line nl st)"
  unfolding take_line_def Let_def
  by (rule bridge_ok_dispatch)
     (use assms take_line_fits [OF assms(2) refl] in \<open>auto simp: bridge_ok_def consume_line_def\<close>)

lemma pump_loop_shaped:
  "pump_loop q rets = (q', out, rs) \<Longrightarrow> \<forall>b \<in> set q. b = [] \<or> line_shaped b \<Longrightarrow>
    \<forall>b \<in> set q'. b = [] \<or> line_shaped b"
proof (induction q rets arbitrary: q' out rs rule: pump_loop.induct)
  case (4 b pb q ret rets)
  have "line_shaped (drop (nat ret) (b # pb))" if "nat ret < length (b # pb)"
    using "4.prems"(2) that by (auto simp: line_shaped_def last_drop simp del: drop_Cons')
  with 4 show ?case by (auto split: if_splits prod.splits simp del: drop_Cons')
qed (auto split: prod.splits)

lemma bridge_ok_pump: "bridge_ok st \<Longrightarrow> bridge_ok (pump_outbound rets st)"
  using pump_loop_shaped [of "g_sendBuffer st" rets]
  by (auto simp: bridge_ok_def pump_outbound_def split: prod.split)

text \<open>The invariant of the whole system adds what the program counters know.\<close>

definition sys_ok :: "system \<Rightarrow> bool" where
  "sys_ok s \<longleftrightarrow>
     bridge_ok (sys_bridge s) \<and> sys_backoff s < length kBackoffSchedule \<and>
     (sys_worker s = WOuter \<longrightarrow> \<not> g_socketConnected (sys_bridge s)) \<and>
     (sys_worker s = WHello \<longrightarrow> g_socketConnected (sys_bridge s))"

lemma push_connected [simp]: "g_socketConnected (lua_push_step p st) = g_socketConnected st"
  using lua_push_cases [of p st] by (auto simp: enqueue_def)

lemma next_backoff_less: "i < length kBackoffSchedule \<Longrightarrow> next_backoff i < length kBackoffSchedule"
  by (simp add: next_backoff_def)

lemma backoff_nonempty: "kBackoffSchedule \<noteq> []"
  by (simp add: kBackoffSchedule_def)

lemma sys_step_ok: "sys_step s t \<Longrightarrow> sys_ok s \<Longrightarrow> sys_ok t"
proof (induction rule: sys_step.induct)
  case (hello s mv dv)
  then show ?case by (auto simp: sys_ok_def sendHello_def intro: bridge_ok_enqueue)
next
  case (fin s res b)
  then show ?case by (auto simp: sys_ok_def intro: bridge_ok_close dest: bridge_ok_drain) (simp add: close_socket_def)
next
  case (game_reply s src seq lua buf)
  then show ?case using command_processor_shaped [of lua src seq]
    by (auto simp: sys_ok_def intro: bridge_ok_enqueue) (auto simp: enqueue_def)
next
  case (game_finish s)
  then show ?case by (auto simp: sys_ok_def finish_command_def bridge_ok_def)
next
  case (hangup s)
  then show ?case by (auto simp: sys_ok_def intro: bridge_ok_close) (simp add: close_socket_def)
next
  case (pump s rets)
  then show ?case by (auto simp: sys_ok_def intro: bridge_ok_pump)
qed (auto simp: sys_ok_def next_backoff_less backoff_nonempty intro: bridge_ok_take_line bridge_ok_push
      dest: bridge_ok_connect bridge_ok_drain)

lemma sys_start_ok: "sys_start s \<Longrightarrow> sys_ok s"
  using bridge_ok_init by (simp add: sys_start_def sys_ok_def Init_def bridge_ok_def init_bridge_def kBackoffSchedule_def)

interpretation worker: kept_invariant sys_start sys_step sys_ok
  by unfold_locales (auto intro: sys_start_ok sys_step_ok)

end
