(* ===== verification/Remote_Stream.thy ===== *)
theory Remote_Stream
  imports Remote_Worker
begin

text \<open>
  The byte streams of the bridge: what reaches the socket is the queue in order, and what
  arrives is cut into lines the same way however \<open>Recv\<close> splits it.
\<close>

section \<open>Outbound: first in, first out\<close>

text \<open>The bytes of the current connection, sent or queued.\<close>

definition outstream :: "bridge \<Rightarrow> bytes" where
  "outstream st = g_wire st @ concat (g_sendBuffer st)"

lemma pump_loop_stream: "pump_loop q rets = (q', out, rs) \<Longrightarrow> out @ concat q' = concat q"
proof (induction q rets arbitrary: q' out rs rule: pump_loop.induct)
  case (4 b pb q ret rets)
  obtain q1 out1 rs1 where p: "pump_loop q rets = (q1, out1, rs1)" by (metis prod_cases3)
  have t: "take (nat ret) (b # pb) @ drop (nat ret) (b # pb) @ ys = (b # pb) @ ys" for ys
    by (simp only: append_take_drop_id flip: append_assoc)
  show ?case using "4.prems" "4.IH" [OF _ _ p] p t
    by (auto split: if_splits simp del: drop_Cons' take_Cons')
qed (auto split: prod.splits)

lemma concat_filter_nonempty: "concat (filter (\<lambda>b. b \<noteq> []) q) = concat q"
  by (induction q) auto

lemma pump_outstream [simp]: "outstream (pump_outbound rets st) = outstream st"
  using pump_loop_stream [of "g_sendBuffer st" rets]
  by (auto simp: outstream_def pump_outbound_def concat_filter_nonempty split: prod.split)

lemma outstream_enqueue [simp]: "outstream (enqueue buf st) = outstream st @ buf"
  by (simp add: outstream_def enqueue_def)

lemma outstream_same:
  "g_wire st' = g_wire st \<Longrightarrow> g_sendBuffer st' = g_sendBuffer st \<Longrightarrow> outstream st' = outstream st"
  by (simp add: outstream_def)

text \<open>An extension by whole lines.\<close>

definition adds_lines :: "bridge \<Rightarrow> bridge \<Rightarrow> bool" where
  "adds_lines st st' \<longleftrightarrow>
     (\<exists>ls. (\<forall>l \<in> set ls. line_shaped l) \<and> outstream st' = outstream st @ concat ls)"

lemma adds_lines_same: "outstream st' = outstream st \<Longrightarrow> adds_lines st st'"
  by (auto simp: adds_lines_def intro!: exI [of _ "[]"])

lemma adds_lines_enqueue: "line_shaped buf \<Longrightarrow> adds_lines st (enqueue buf st)"
  by (auto simp: adds_lines_def intro!: exI [of _ "[buf]"])

lemma adds_lines_push: "adds_lines st (lua_push_step p st)"
  using lua_push_cases [of p st] by (auto intro: adds_lines_same adds_lines_enqueue)

lemma adds_lines_dispatch:
  assumes "len \<le> length buf" and "g_socketConnected (dispatch_line buf len st)"
  shows "adds_lines st (dispatch_line buf len st)"
  using assms(1)
proof (cases rule: dispatch_cases [of len buf st])
  case (pong ts)
  then show ?thesis by (simp add: enqueue_pong_def adds_lines_enqueue)
next
  case kick
  with assms(2) show ?thesis by (simp add: close_socket_def)
qed (auto intro!: adds_lines_same simp: stash_frame_def outstream_def)

lemma adds_lines_take_line:
  assumes "find_newline st = Some nl" and "g_socketConnected (take_line nl st)"
  shows "adds_lines st (take_line nl st)"
proof -
  have "adds_lines (consume_line nl st) (take_line nl st)"
    using assms take_line_fits [OF assms(1) refl] unfolding take_line_def Let_def
    by (intro adds_lines_dispatch)
  moreover have "outstream (consume_line nl st) = outstream st"
    by (simp add: outstream_def consume_line_def)
  ultimately show ?thesis by (simp add: adds_lines_def)
qed

lemma drain_outstream: "drain_into_inbound res st = (ok, st') \<Longrightarrow> outstream st' = outstream st"
  by (cases res) (auto simp: drain_into_inbound_def Let_def outstream_def split: if_splits)

text \<open>What one step does to the connection's byte stream.\<close>

lemma sys_step_stream:
  "sys_step s t \<Longrightarrow> sys_worker s \<noteq> WOuter \<Longrightarrow> g_socketConnected (sys_bridge t) \<Longrightarrow>
    adds_lines (sys_bridge s) (sys_bridge t)"
proof (induction rule: sys_step.induct)
  case (hello s mv dv)
  then show ?case by (simp add: sendHello_def adds_lines_enqueue)
next
  case (readable s res b)
  then show ?case by (auto intro: adds_lines_same drain_outstream)
next
  case (game_reply s src seq lua buf)
  then show ?case using command_processor_shaped [of lua src seq] by (auto intro: adds_lines_enqueue)
next
  case (game_finish s)
  then show ?case by (intro adds_lines_same) (simp add: finish_command_def outstream_def)
next
  case (pump s rets)
  then show ?case by (intro adds_lines_same) simp
qed (auto simp: close_socket_def intro: adds_lines_same adds_lines_take_line adds_lines_push)

section \<open>Inbound: framing does not depend on the chunks\<close>

lemma exec_pass_inbound:
  "exec_pass r (st\<lparr>g_inbound := x\<rparr>) seq n =
    (case exec_pass r st seq n of (ok, st', s, m) \<Rightarrow> (ok, st'\<lparr>g_inbound := x\<rparr>, s, m))"
proof (induction r st seq n rule: exec_pass.induct)
  case (1 r st seq n)
  obtain kv r1 where nf: "next_field r = (kv, r1)" by (cases "next_field r")
  show ?case
  proof (cases kv)
    case None
    with nf show ?thesis by (simp add: exec_pass_end)
  next
    case (Some key)
    note nf' = nf [unfolded Some]
    consider (seq) "view_bytes r1 key = str ''seq''" | (src) "view_bytes r1 key = str ''src''"
      | (other) "view_bytes r1 key \<noteq> str ''seq''" "view_bytes r1 key \<noteq> str ''src''" by blast
    then show ?thesis
    proof cases
      case seq
      obtain v r2 where ni: "next_int r1 = (v, r2)" by (cases "next_int r1")
      with "1.IH"(1) [OF nf [symmetric] Some seq ni [symmetric]] show ?thesis
        by (cases v) (simp_all add: exec_pass_seq [OF nf' seq] ni)
    next
      case src
      then have ns': "view_bytes r1 key \<noteq> str ''seq''" by (simp add: str_def)
      obtain v r2 where ns: "next_string r1 = (v, r2)" by (cases "next_string r1")
      have st: "stash_src b m (st\<lparr>g_inbound := x\<rparr>) = (stash_src b m st)\<lparr>g_inbound := x\<rparr>" for b m
        by (simp add: stash_src_def)
      show ?thesis
      proof (cases v)
        case None
        then show ?thesis by (simp add: exec_pass_src [OF nf' src] ns)
      next
        case (Some sv)
        from "1.IH"(2) [OF nf [symmetric] \<open>kv = Some key\<close> ns' src ns [symmetric] Some refl]
        show ?thesis by (simp add: exec_pass_src [OF nf' src] ns Some min_def st split: if_splits)
      qed
    next
      case other
      with "1.IH"(3) [OF nf [symmetric] Some other] show ?thesis by (simp add: exec_pass_other [OF nf' other])
    qed
  qed
qed

text \<open>A handler that leaves the connection up does not look at the unread bytes.\<close>

lemma dispatch_frame:
  assumes "g_socketConnected (dispatch_line buf len st)"
  shows "dispatch_line buf len (st\<lparr>g_inbound := x\<rparr>) = (dispatch_line buf len st)\<lparr>g_inbound := x\<rparr>"
proof -
  obtain ok r where e: "enter_object (new_reader buf len) = (ok, r)"
    by (cases "enter_object (new_reader buf len)")
  obtain ok2 r2 where e2: "enter_object (new_reader (take len buf) len) = (ok2, r2)"
    by (cases "enter_object (new_reader (take len buf) len)")
  obtain ok3 st' seq n where ex: "exec_pass r2 st 0 0 = (ok3, st', seq, n)" by (metis prod_cases4)
  then have exi: "exec_pass r2 (st\<lparr>g_inbound := x\<rparr>) 0 0 = (ok3, st'\<lparr>g_inbound := x\<rparr>, seq, n)"
    by (simp add: exec_pass_inbound)
  note d = dispatch_line_def e e2 ex exi Let_def
  show ?thesis
  proof (cases "type_pass r None")
    case None
    then show ?thesis by (cases ok) (simp_all add: d)
  next
    case (Some tp)
    have k: "type_name tp \<noteq> str ''kick''" if "ok" "\<not> len > saved_cap"
      using assms that Some by (auto simp: d close_socket_def str_def)
    show ?thesis
      by (cases ok; cases ok2; cases ok3; cases "ping_pass r2 0")
         (use k in \<open>simp_all add: d Some enqueue_pong_def enqueue_def\<close>)
  qed
qed

text \<open>What \<open>Recv\<close> appends when it fits.\<close>

definition arrive :: "bytes \<Rightarrow> bridge \<Rightarrow> bridge" where
  "arrive bs st = st\<lparr>g_inbound := g_inbound st @ bs\<rparr>"

lemma arrive_append [simp]: "arrive b (arrive a st) = arrive (a @ b) st"
  by (simp add: arrive_def)

lemma drain_arrive:
  "bs \<noteq> [] \<Longrightarrow> length (g_inbound st) + length bs \<le> kInboundCap \<Longrightarrow>
    drain_into_inbound (Received bs) st = (True, arrive bs st)"
  by (cases bs) (auto simp: drain_into_inbound_def arrive_def)

lemma find_newline_from_append:
  "find_newline_from i xs = Some k \<Longrightarrow> find_newline_from i (xs @ ys) = Some k"
  by (induction i xs rule: find_newline_from.induct) (auto split: if_splits)

lemma find_newline_arrive: "find_newline st = Some nl \<Longrightarrow> find_newline (arrive bs st) = Some nl"
  by (simp add: find_newline_def arrive_def find_newline_from_append)

lemma consume_line_drop: "consume_line nl st = st\<lparr>g_inbound := drop (nl + 1) (g_inbound st)\<rparr>"
  by (simp add: consume_line_def)

lemma inbound_update_self [simp]: "st\<lparr>g_inbound := g_inbound st\<rparr> = st"
  by simp

text \<open>The line a newline ends, as the worker copies it.\<close>

definition line_take :: "nat \<Rightarrow> nat" where
  "line_take nl = (if nl < line_buf_cap - 1 then nl else line_buf_cap - 1)"

lemma take_line_eq:
  "take_line nl st = dispatch_line (take (line_take nl) (g_inbound st) @ [0]) (line_take nl) (consume_line nl st)"
  by (simp add: take_line_def line_take_def Let_def)

lemma line_take_le: "find_newline st = Some nl \<Longrightarrow> line_take nl \<le> length (g_inbound st)"
  using find_newline_less [of st nl] by (simp add: line_take_def)

lemma take_line_arrive:
  assumes "find_newline st = Some nl" and "g_socketConnected (take_line nl st)"
  shows "take_line nl (arrive bs st) = arrive bs (take_line nl st)"
proof -
  let ?tk = "line_take nl"
  have nl: "nl < length (g_inbound st)" by (rule find_newline_less [OF assms(1)])
  have tk: "?tk \<le> length (g_inbound st)" by (rule line_take_le [OF assms(1)])
  let ?buf = "take ?tk (g_inbound st) @ [0]"
  let ?c = "consume_line nl st"
  have c: "consume_line nl (arrive bs st) = ?c\<lparr>g_inbound := g_inbound ?c @ bs\<rparr>"
    using nl by (simp add: consume_line_drop arrive_def)
  note t = take_line_eq [of nl st]
  have conn: "g_socketConnected (dispatch_line ?buf ?tk ?c)" using assms(2) t by simp
  have keep: "g_inbound (dispatch_line ?buf ?tk ?c) = g_inbound ?c"
    using dispatch_frame [OF conn, of "g_inbound ?c"]
    by (metis inbound_update_self bridge.select_convs(4) bridge.surjective bridge.update_convs(4))
  have "take ?tk (g_inbound (arrive bs st)) = take ?tk (g_inbound st)" using tk by (simp add: arrive_def)
  then have "take_line nl (arrive bs st) = dispatch_line ?buf ?tk (?c\<lparr>g_inbound := g_inbound ?c @ bs\<rparr>)"
    by (simp add: take_line_eq [of nl "arrive bs st"] c)
  also have "\<dots> = (dispatch_line ?buf ?tk ?c)\<lparr>g_inbound := g_inbound ?c @ bs\<rparr>"
    by (rule dispatch_frame [OF conn])
  finally show ?thesis by (simp add: t keep arrive_def)
qed

lemma take_line_stays_down:
  "find_newline st = Some nl \<Longrightarrow> g_socketConnected (take_line nl st) \<Longrightarrow> g_socketConnected st"
proof (rule ccontr)
  assume nl: "find_newline st = Some nl" and up: "g_socketConnected (take_line nl st)"
    and down: "\<not> g_socketConnected st"
  have "line_take nl \<le> length (take (line_take nl) (g_inbound st) @ [0])"
    using line_take_le [OF nl] by simp
  then show False
    using up down unfolding take_line_eq
    by (cases rule: dispatch_cases [of "line_take nl" "take (line_take nl) (g_inbound st) @ [0]" "consume_line nl st"])
       (auto simp: consume_line_drop stash_frame_def enqueue_pong_def enqueue_def close_socket_def)
qed

lemma process_lines_down: "g_socketConnected (process_lines st) \<Longrightarrow> g_socketConnected st"
proof (induction st rule: process_lines.induct)
  case (1 st)
  show ?case
  proof (cases "find_newline st")
    case None
    with "1.prems" show ?thesis by (simp add: process_lines_take)
  next
    case (Some nl)
    then have "g_socketConnected (take_line nl st)"
      using "1.IH" [OF Some refl refl] "1.prems"
      by (simp add: process_lines_take [of st] take_line_def [unfolded Let_def])
    with Some show ?thesis by (rule take_line_stays_down)
  qed
qed

lemma process_lines_arrive:
  "g_socketConnected (process_lines st) \<Longrightarrow>
    process_lines (arrive bs (process_lines st)) = process_lines (arrive bs st)"
proof (induction st rule: process_lines.induct)
  case (1 st)
  show ?case
  proof (cases "find_newline st")
    case None
    then show ?thesis by (simp add: process_lines_take [of st])
  next
    case (Some nl)
    have p: "process_lines st = process_lines (take_line nl st)"
      by (simp add: process_lines_take [of st] Some)
    have up: "g_socketConnected (take_line nl st)"
      using process_lines_down "1.prems" p by simp
    have "process_lines (arrive bs (process_lines (take_line nl st))) = process_lines (arrive bs (take_line nl st))"
      using "1.IH" [OF Some refl refl] "1.prems" p by (simp add: take_line_def Let_def)
    also have "\<dots> = process_lines (take_line nl (arrive bs st))"
      by (simp add: take_line_arrive [OF Some up])
    also have "\<dots> = process_lines (arrive bs st)"
      by (simp add: process_lines_take [of "arrive bs st"] find_newline_arrive [OF Some])
    finally show ?thesis by (simp add: p)
  qed
qed

end
