(* ===== verification/Remote_Claims.thy ===== *)
theory Remote_Claims
  imports Remote_Stream
begin

text \<open>
  The properties of the bridge as a whole: commands and answers end to end, what one pass
  of the inner loop does to the connection and that it is a run of the transition system, the
  reconnection schedule over any sequence of failed attempts, and two interleavings of the worker
  and the game thread that lose or misplace a line.
\<close>

section \<open>Rendered lines contain no newline\<close>

lemma escape_no_nl: "ch_nl \<notin> set (escape s)"
  by (induction s) (auto simp: escape_def escape_byte_def)

lemma dec_nat_no_nl: "ch_nl \<notin> set (dec_nat n)"
  using dec_nat_digits [of n] by (auto simp: is_digit_def)

lemma dec_int_no_nl: "ch_nl \<notin> set (dec_int i)"
  using dec_nat_no_nl by (simp add: dec_int_def)

lemma find_newline_first: "ch_nl \<notin> set xs \<Longrightarrow> find_newline_from i (xs @ ch_nl # ys) = Some (i + length xs)"
  by (induction xs arbitrary: i) auto

lemma find_newline_none: "ch_nl \<notin> set xs \<Longrightarrow> find_newline_from i xs = None"
  by (induction xs arbitrary: i) auto

lemma line_take_id: "n < line_buf_cap \<Longrightarrow> line_take n = n"
  by (auto simp: line_take_def)

lemma take_line_first:
  assumes "g_inbound st = line @ ch_nl # tl_bs" and "ch_nl \<notin> set line" and "length line < line_buf_cap"
  shows "find_newline st = Some (length line)"
    and "take_line (length line) st = dispatch_line (line @ [0]) (length line) (st\<lparr>g_inbound := tl_bs\<rparr>)"
  using assms by (simp_all add: find_newline_def find_newline_first take_line_eq line_take_id consume_line_drop)

text \<open>One line that arrives on a drained connection.\<close>

lemma process_one_line:
  assumes "g_inbound st = []" and "ch_nl \<notin> set line" and "length line < line_buf_cap"
    and "find_newline (dispatch_line (line @ [0]) (length line) st) = None"
  shows "process_lines (arrive (line @ [ch_nl]) st) = dispatch_line (line @ [0]) (length line) st"
proof -
  have i: "g_inbound (arrive (line @ [ch_nl]) st) = line @ ch_nl # []" using assms(1) by (simp add: arrive_def)
  have st: "(arrive (line @ [ch_nl]) st)\<lparr>g_inbound := []\<rparr> = st"
    using assms(1) by (simp add: arrive_def)
  show ?thesis
    using take_line_first [OF i assms(2,3)] assms(4)
    by (simp add: process_lines_take [of "arrive (line @ [ch_nl]) st"] st process_lines_take [of "dispatch_line (line @ [0]) (length line) st"])
qed

lemma quoted_no_nl: "ch_nl \<notin> set b \<Longrightarrow> ch_nl \<notin> set (quoted b)"
  by (simp add: quoted_def)

lemma render_field_no_nl: "ch_nl \<notin> set (fst f) \<Longrightarrow> ch_nl \<notin> set (render_field f)"
  by (cases "snd f")
     (simp_all add: render_field_def quoted_no_nl escape_no_nl dec_int_no_nl str_def)

lemma render_tail_no_nl: "\<forall>f \<in> set fs. ch_nl \<notin> set (fst f) \<Longrightarrow> ch_nl \<notin> set (render_tail fs)"
  by (induction fs) (simp_all add: render_field_no_nl)

lemma render_object_no_nl: "\<forall>f \<in> set fs. ch_nl \<notin> set (fst f) \<Longrightarrow> ch_nl \<notin> set (render_object fs)"
  by (cases fs) (simp_all add: render_object_Cons render_field_no_nl render_tail_no_nl, simp add: render_object_def)

text \<open>The two commands a peer sends, as it renders them.\<close>

definition ping_line :: "int \<Rightarrow> bytes" where
  "ping_line ts = render_object [(str ''t'', JStr (str ''ping'')), (str ''ts_ms'', JInt ts)]"

definition exec_line :: "int \<Rightarrow> bytes \<Rightarrow> bytes" where
  "exec_line seq src =
     render_object [(str ''t'', JStr (str ''lua_exec'')), (str ''seq'', JInt seq), (str ''src'', JStr src)]"

lemma line_no_nl: "ch_nl \<notin> set (ping_line ts)" "ch_nl \<notin> set (exec_line seq src)"
  unfolding ping_line_def exec_line_def by (rule render_object_no_nl; simp add: str_def)+

lemma line_fits_saved: "n < line_buf_cap \<Longrightarrow> n \<le> saved_cap"
  by (simp add: line_buf_cap_def saved_cap_def)

lemma dispatch_ping:
  "length (ping_line ts) < line_buf_cap \<Longrightarrow>
    dispatch_line (ping_line ts @ pad) (length (ping_line ts)) st = enqueue_pong (word_of_int ts) st"
  by (rule dispatch_ping_line) (simp_all add: ping_line_def line_fits_saved)

text \<open>The state once a command is stashed.\<close>

definition stashed :: "int \<Rightarrow> bytes \<Rightarrow> bridge \<Rightarrow> bridge" where
  "stashed seq src st =
     (stash_src src (min (length src) BufferSize) st)
       \<lparr>g_pendingLuaLen := min (length src) BufferSize, g_pendingSeq := word_of_int seq,
        g_readyForGameThread := True\<rparr>"

lemma dispatch_exec:
  "length (exec_line seq src) < line_buf_cap \<Longrightarrow>
    dispatch_line (exec_line seq src @ pad) (length (exec_line seq src)) st = stashed seq src st"
  unfolding stashed_def
  by (rule dispatch_exec_line) (simp_all add: exec_line_def line_fits_saved)

lemma stashed_simps [simp]:
  "g_inbound (stashed seq src st) = g_inbound st" "g_readyForGameThread (stashed seq src st)"
  "g_sendBuffer (stashed seq src st) = g_sendBuffer st" "g_wire (stashed seq src st) = g_wire st"
  "g_socketConnected (stashed seq src st) = g_socketConnected st"
  "pending_command (stashed seq src st) = (take BufferSize src, word_of_int seq)"
  by (simp_all add: stashed_def stash_src_def pending_command_def min_def)

lemma process_ping:
  assumes "g_inbound st = []" and "length (ping_line ts) < line_buf_cap"
  shows "process_lines (arrive (ping_line ts @ [ch_nl]) st) = enqueue_pong (word_of_int ts) st"
  using process_one_line [OF assms(1) line_no_nl(1) assms(2)] assms
  by (simp add: dispatch_ping find_newline_def enqueue_pong_def enqueue_def)

lemma process_exec:
  assumes "g_inbound st = []" and "length (exec_line seq src) < line_buf_cap"
  shows "process_lines (arrive (exec_line seq src @ [ch_nl]) st) = stashed seq src st"
  using process_one_line [OF assms(1) line_no_nl(2) assms(2)] assms
  by (simp add: dispatch_exec find_newline_def)

lemma command_processor_reply:
  "command_processor lua src seq = Some (lua_exec_reply seq
     (case lua src of Returned ok s \<Rightarrow> ok | LoadFailed \<Rightarrow> False)
     (case lua src of Returned ok s \<Rightarrow> s | LoadFailed \<Rightarrow> str ''error parsing buffer''))"
  by (simp add: command_processor_def split: lua_outcome.split)

section \<open>The worker loop and the transition system\<close>

text \<open>One pass of the inner loop, as the loop is written, is a run of the transition system.\<close>

lemma sys_lines:
  "sys_worker s = WLines \<Longrightarrow>
    sys_step\<^sup>*\<^sup>* s (s\<lparr>sys_bridge := process_lines (sys_bridge s), sys_worker := WPump\<rparr>)"
proof (induction "sys_bridge s" arbitrary: s rule: process_lines.induct)
  case 1
  show ?case
  proof (cases "find_newline (sys_bridge s)")
    case None
    with 1(2) have "sys_step s (s\<lparr>sys_worker := WPump\<rparr>)" by (intro sys_step.lines_done)
    with None show ?thesis by (simp add: process_lines_take [of "sys_bridge s"])
  next
    case (Some nl)
    let ?t = "s\<lparr>sys_bridge := take_line nl (sys_bridge s)\<rparr>"
    from 1(2) Some have st: "sys_step s ?t" by (intro sys_step.line)
    from 1(1) [OF Some refl refl, of ?t] 1(2)
    have "sys_step\<^sup>*\<^sup>* ?t (?t\<lparr>sys_bridge := process_lines (sys_bridge ?t), sys_worker := WPump\<rparr>)"
      by (simp add: take_line_def Let_def)
    with st show ?thesis
      by (simp add: process_lines_take [of "sys_bridge s"] Some converse_rtranclp_into_rtranclp)
  qed
qed

lemma sys_poll:
  assumes pc: "sys_worker s = WPoll" and up: "g_socketConnected (sys_bridge s)"
    and it: "poll_iteration p rets (sys_bridge s) = (go_on, b)"
  shows "sys_step\<^sup>*\<^sup>* s (s\<lparr>sys_bridge := b, sys_worker := (if go_on then WPoll else WOuter)\<rparr>)"
proof -
  have hang: "sys_step s (s\<lparr>sys_bridge := close_socket (sys_bridge s), sys_worker := WOuter\<rparr>)"
    using pc up by (rule sys_step.hangup)
  have pumped: "sys_step t (t\<lparr>sys_bridge := pump_outbound rets (sys_bridge t), sys_worker := WPoll\<rparr>)"
    if "sys_worker t = WPump" for t using that by (rule sys_step.pump)
  have quiet: "sys_step\<^sup>*\<^sup>* s (s\<lparr>sys_bridge := pump_outbound rets (sys_bridge s), sys_worker := WPoll\<rparr>)"
    using sys_step.quiet [OF pc up] pumped [of "s\<lparr>sys_worker := WPump\<rparr>"] by simp
  show ?thesis
  proof (cases p)
    case (PollReadable res)
    obtain ok b1 where d: "drain_into_inbound res (sys_bridge s) = (ok, b1)" by (metis surj_pair)
    show ?thesis
    proof (cases ok)
      case False
      with d it PollReadable sys_step.fin [OF pc up, of res b1] show ?thesis by (auto simp: poll_iteration_def)
    next
      case True
      let ?t = "s\<lparr>sys_bridge := b1, sys_worker := WLines\<rparr>"
      have "sys_step s ?t" using d True by (intro sys_step.readable [OF pc up]) simp
      also have "sys_step\<^sup>*\<^sup>* ?t (?t\<lparr>sys_bridge := process_lines b1, sys_worker := WPump\<rparr>)"
        using sys_lines [of ?t] by simp
      also have "sys_step \<dots> (s\<lparr>sys_bridge := pump_outbound rets (process_lines b1), sys_worker := WPoll\<rparr>)"
        using pumped [of "?t\<lparr>sys_bridge := process_lines b1, sys_worker := WPump\<rparr>"] by simp
      finally show ?thesis using d True it PollReadable by (auto simp: poll_iteration_def)
    qed
  qed (use it hang quiet in \<open>auto simp: poll_iteration_def\<close>)
qed

text \<open>What is left of a connection once it is torn down, and the two states it can be in.\<close>

definition torn_down :: "bridge \<Rightarrow> bool" where
  "torn_down st \<longleftrightarrow> \<not> g_socketConnected st \<and> g_socket st = -1 \<and> g_inbound st = [] \<and> g_sendBuffer st = [] \<and>
     \<not> g_readyForGameThread st"

definition up_or_down :: "bridge \<Rightarrow> bool" where
  "up_or_down st \<longleftrightarrow> g_socketConnected st \<and> 0 \<le> g_socket st \<or> torn_down st"

lemma close_tears_down: "0 \<le> g_socket st \<Longrightarrow> torn_down (close_socket st) \<and> g_wire (close_socket st) = g_wire st"
  by (simp add: torn_down_def close_socket_def)

lemma take_line_up_or_down:
  assumes "find_newline st = Some nl" and "up_or_down st"
  shows "up_or_down (take_line nl st)"
proof -
  have st: "g_socketConnected st" "0 \<le> g_socket st"
    using assms by (auto simp: up_or_down_def torn_down_def find_newline_def)
  have "line_take nl \<le> length (take (line_take nl) (g_inbound st) @ [0])" using line_take_le [OF assms(1)] by simp
  then show ?thesis
    unfolding take_line_eq using st
    by (cases rule: dispatch_cases [of "line_take nl" "take (line_take nl) (g_inbound st) @ [0]" "consume_line nl st"])
       (auto simp: up_or_down_def torn_down_def consume_line_drop stash_frame_def enqueue_pong_def enqueue_def close_socket_def)
qed

lemma process_lines_outcome:
  "up_or_down st \<Longrightarrow> up_or_down (process_lines st) \<and> find_newline (process_lines st) = None \<and>
    (g_socketConnected (process_lines st) \<longrightarrow> adds_lines st (process_lines st))"
proof (induction st rule: process_lines.induct)
  case (1 st)
  show ?case
  proof (cases "find_newline st")
    case None
    with 1 show ?thesis by (simp add: process_lines_take [of st] adds_lines_same)
  next
    case (Some nl)
    let ?t = "take_line nl st"
    have p: "process_lines st = process_lines ?t" by (simp add: process_lines_take [of st] Some)
    have IH: "up_or_down (process_lines ?t)" "find_newline (process_lines ?t) = None"
      "g_socketConnected (process_lines ?t) \<Longrightarrow> adds_lines ?t (process_lines ?t)"
      using "1.IH" [OF Some refl refl] take_line_up_or_down [OF Some "1.prems"] by (simp_all add: take_line_def Let_def)
    have "adds_lines st (process_lines ?t)" if up: "g_socketConnected (process_lines ?t)"
    proof -
      obtain ls where "\<forall>l \<in> set ls. line_shaped l" "outstream ?t = outstream st @ concat ls"
        using adds_lines_take_line [OF Some process_lines_down [OF up]] unfolding adds_lines_def by blast
      moreover obtain ls' where "\<forall>l \<in> set ls'. line_shaped l" "outstream (process_lines ?t) = outstream ?t @ concat ls'"
        using IH(3) [OF up] unfolding adds_lines_def by blast
      ultimately show ?thesis unfolding adds_lines_def by (intro exI [of _ "ls @ ls'"]) auto
    qed
    with IH p show ?thesis by simp
  qed
qed

lemma find_newline_inbound:
  assumes "find_newline st = None"
  shows "ch_nl \<notin> set (g_inbound st)"
proof
  have some: "ch_nl \<in> set bs \<Longrightarrow> find_newline_from i bs \<noteq> None" for bs i
    by (induction i bs rule: find_newline_from.induct) auto
  assume "ch_nl \<in> set (g_inbound st)"
  from some [OF this, of 0] assms show False by (simp add: find_newline_def)
qed

lemma pump_keeps:
  "g_socketConnected (pump_outbound rets st) = g_socketConnected st" "g_socket (pump_outbound rets st) = g_socket st"
  "g_inbound (pump_outbound rets st) = g_inbound st" "g_readyForGameThread (pump_outbound rets st) = g_readyForGameThread st"
  "g_sendBuffer st = [] \<Longrightarrow> g_sendBuffer (pump_outbound rets st) = []"
  by (simp_all add: pump_outbound_def split: prod.split)

lemma pump_up_or_down: "up_or_down st \<Longrightarrow> up_or_down (pump_outbound rets st)"
  by (auto simp: up_or_down_def torn_down_def pump_keeps)

lemma drain_keeps:
  "drain_into_inbound res st = (ok, st') \<Longrightarrow> (ok \<longleftrightarrow> res \<noteq> Received []) \<and> g_socketConnected st' = g_socketConnected st \<and>
    g_socket st' = g_socket st \<and> g_wire st' = g_wire st"
  by (cases res) (auto simp: drain_into_inbound_def Let_def split: if_splits)

section \<open>Properties\<close>

text \<open>
  C6: a ping line that arrives on a drained connection queues exactly one pong line, with
  the same 64-bit timestamp, and changes nothing else.
\<close>

theorem ping_answered:
  assumes "g_inbound st = []" and "length (ping_line ts) < line_buf_cap"
  shows "process_lines (arrive (ping_line ts @ [ch_nl]) st) =
    enqueue (take kCap (render_object
      [(str ''t'', JStr (str ''pong'')), (str ''ts_ms'', JInt (sint (word_of_int ts :: u64)))]) @ [ch_nl]) st"
  unfolding process_ping [OF assms] enqueue_pong_def make_buffer_object ..

theorem ping_answered_witness:
  "process_lines (arrive (ping_line 7 @ [ch_nl]) init_bridge) =
    enqueue (take kCap (render_object
      [(str ''t'', JStr (str ''pong'')), (str ''ts_ms'', JInt (sint (word_of_int 7 :: u64)))]) @ [ch_nl]) init_bridge"
proof -
  have "length (ping_line 7) < line_buf_cap"
    by (simp add: ping_line_def render_object_def render_field_def quoted_def escape_def escape_byte_def
        str_def dec_int_def dec_nat.simps line_buf_cap_def)
  then show ?thesis by (intro ping_answered) (simp_all add: init_bridge_def)
qed



text \<open>
  A source of more than 4096 bytes whose line still fits is cut without notice: an interpreter that
  answers with its source answers with the first 4096 bytes, reported as a success.
\<close>

theorem long_source_cut:
  assumes "g_inbound st = []" and "length (exec_line 1 src) < line_buf_cap" and "4096 < length src"
  shows "g_sendBuffer (multiworld_update (\<lambda>src. Returned True src)
      (process_lines (arrive (exec_line 1 src @ [ch_nl]) st))) = g_sendBuffer st @ [lua_exec_reply 1 True (take 4096 src)] \<and>
    take 4096 src \<noteq> src"
  using assms
  by (simp add: process_exec multiworld_update_def ProcessCommand_def command_processor_reply
      enqueue_def finish_command_def BufferSize_def)

theorem long_source_cut_witness:
  "g_sendBuffer (multiworld_update (\<lambda>src. Returned True src)
      (process_lines (arrive (exec_line 1 (replicate 5000 ch_a) @ [ch_nl]) init_bridge))) =
    [lua_exec_reply 1 True (replicate 4096 ch_a)]"
proof -
  have e: "escape (replicate n ch_a) = replicate n ch_a" for n
    by (induction n) (simp_all add: escape_def escape_byte_def)
  have len: "length (exec_line 1 (replicate 5000 ch_a)) < line_buf_cap"
    by (simp add: exec_line_def render_object_def render_field_def quoted_def e)
      (simp add: escape_def escape_byte_def str_def dec_int_def dec_nat.simps line_buf_cap_def)
  from long_source_cut [OF _ len, of init_bridge] show ?thesis by (simp add: init_bridge_def)
qed

text \<open>
  C3: how the peer's bytes are split into packets does not matter. Popping lines after the
  first part and again after the second leaves the bridge as it is when both parts arrive
  at once, as long as the first part does not contain a kick.
\<close>

theorem framing_chunk_independent:
  assumes "g_socketConnected (process_lines (arrive a st))"
  shows "process_lines (arrive b (process_lines (arrive a st))) = process_lines (arrive (a @ b) st)"
  using process_lines_arrive [OF assms, of b] by simp

theorem framing_chunk_independent_witness:
  "\<exists>st. g_socketConnected st \<and>
    process_lines (arrive [ch_rbrace, ch_nl] (process_lines (arrive [ch_lbrace] st))) =
      process_lines (arrive ([ch_lbrace] @ [ch_rbrace, ch_nl]) st)"
proof (intro exI conjI)
  let ?st = "init_bridge\<lparr>g_socketConnected := True\<rparr>"
  show "g_socketConnected ?st" by simp
  have "find_newline (arrive [ch_lbrace] ?st) = None" by (simp add: find_newline_def arrive_def init_bridge_def)
  then have "process_lines (arrive [ch_lbrace] ?st) = arrive [ch_lbrace] ?st"
    by (simp add: process_lines_take [of "arrive [ch_lbrace] ?st"])
  then have "g_socketConnected (process_lines (arrive [ch_lbrace] ?st))" by (simp add: arrive_def)
  then show "process_lines (arrive [ch_rbrace, ch_nl] (process_lines (arrive [ch_lbrace] ?st))) =
      process_lines (arrive ([ch_lbrace] @ [ch_rbrace, ch_nl]) ?st)"
    by (rule framing_chunk_independent)
qed

text \<open>
  C2: in every reachable state of the worker and the game thread the inbound buffer and the
  stashed command stay within their arrays, the connection flag agrees with the socket, the
  backoff index is a valid index of the schedule, every queued buffer is one non-empty line
  of at most the line capacity, and outside the inner loop the socket is closed.
\<close>

theorem bridge_invariant:
  assumes "sys_start s" and "sys_step\<^sup>*\<^sup>* s t"
  shows "length (g_inbound (sys_bridge t)) \<le> kInboundCap \<and> g_pendingLuaLen (sys_bridge t) \<le> BufferSize \<and>
    length (g_pendingLuaSrc (sys_bridge t)) = BufferSize \<and>
    (g_socketConnected (sys_bridge t) \<longleftrightarrow> 0 \<le> g_socket (sys_bridge t)) \<and>
    sys_backoff t < length kBackoffSchedule \<and>
    (\<forall>buf \<in> set (g_sendBuffer (sys_bridge t)). buf \<noteq> [] \<and> last buf = ch_nl \<and> length buf \<le> kCap + 1) \<and>
    (sys_worker t = WOuter \<longrightarrow> \<not> g_socketConnected (sys_bridge t))"
  using worker.reachable_keeps [OF assms] by (auto simp: sys_ok_def bridge_ok_def line_shaped_def)

theorem bridge_invariant_witness:
  "\<exists>s t. sys_start s \<and> sys_step\<^sup>*\<^sup>* s t \<and> sys_worker t = WPoll \<and> g_sendBuffer (sys_bridge t) \<noteq> [] \<and>
    list_all (\<lambda>buf. buf \<noteq> [] \<and> last buf = ch_nl \<and> length buf \<le> kCap + 1) (g_sendBuffer (sys_bridge t)) \<and>
    length (g_inbound (sys_bridge t)) \<le> kInboundCap \<and> length (g_pendingLuaSrc (sys_bridge t)) = BufferSize \<and>
    g_socketConnected (sys_bridge t) \<and> 0 \<le> g_socket (sys_bridge t) \<and> sys_backoff t < length kBackoffSchedule"
proof -
  let ?s = "\<lparr>sys_bridge = snd (Init init_bridge), sys_worker = WOuter, sys_backoff = 0, sys_game = GIdle\<rparr>"
  obtain b where c: "tcp_connect 3 True 0 (sys_bridge ?s) = (True, b)" by (simp add: tcp_connect_def Let_def)
  let ?s1 = "?s\<lparr>sys_bridge := b, sys_backoff := 0, sys_worker := WHello\<rparr>"
  let ?t = "?s1\<lparr>sys_bridge := sendHello [] [] (str '''') b, sys_worker := WPoll\<rparr>"
  have "sys_step ?s ?s1" using c by (intro sys_step.connected) simp_all
  moreover have "sys_step ?s1 ?t" using sys_step.hello [of ?s1] by simp
  ultimately have run: "sys_step\<^sup>*\<^sup>* ?s ?t" by (meson converse_rtranclp_into_rtranclp r_into_rtranclp)
  have start: "sys_start ?s" by (simp add: sys_start_def)
  have q: "g_sendBuffer (sys_bridge ?t) \<noteq> []" "g_socketConnected (sys_bridge ?t)"
    using c by (auto simp: sendHello_def enqueue_def tcp_connect_def Let_def)
  show ?thesis
    by (rule exI [of _ ?s], rule exI [of _ ?t])
      (use bridge_invariant [OF start run] start run q in \<open>simp add: list_all_iff\<close>)
qed

text \<open>
  C5: while the connection is up, every action of either thread leaves the bytes already
  sent or queued in place and adds whole lines after them, so two lines are never
  interleaved on the wire.
\<close>

theorem stream_grows_by_lines:
  assumes "sys_step s t" and "sys_worker s \<noteq> WOuter" and "g_socketConnected (sys_bridge t)"
  shows "\<exists>ls. (\<forall>l \<in> set ls. line_shaped l) \<and>
    g_wire (sys_bridge t) @ concat (g_sendBuffer (sys_bridge t)) =
      g_wire (sys_bridge s) @ concat (g_sendBuffer (sys_bridge s)) @ concat ls"
  using sys_step_stream [OF assms] by (simp add: adds_lines_def outstream_def)

theorem stream_grows_by_lines_witness:
  "\<exists>(t :: system) ls. sys_worker t = WPoll \<and> (\<forall>l \<in> set ls. line_shaped l) \<and>
    g_wire (sys_bridge t) @ concat (g_sendBuffer (sys_bridge t)) = concat ls \<and> ls \<noteq> []"
proof -
  let ?s = "\<lparr>sys_bridge = init_bridge\<lparr>g_socketConnected := True\<rparr>, sys_worker = WHello, sys_backoff = 0, sys_game = GIdle\<rparr>"
  let ?t = "?s\<lparr>sys_bridge := sendHello [] [] (str '''') (sys_bridge ?s), sys_worker := WPoll\<rparr>"
  have "sys_step ?s ?t" by (rule sys_step.hello) simp
  from stream_grows_by_lines [OF this] obtain ls where ls: "\<forall>l \<in> set ls. line_shaped l"
    "g_wire (sys_bridge ?t) @ concat (g_sendBuffer (sys_bridge ?t)) = concat ls"
    by (auto simp: sendHello_def enqueue_def init_bridge_def)
  moreover have "concat (g_sendBuffer (sys_bridge ?t)) \<noteq> []"
    by (simp add: sendHello_def enqueue_def make_buffer_object)
  ultimately have "ls \<noteq> []" by auto
  show ?thesis
    by (rule exI [of _ ?t], rule exI [of _ ls]) (use ls \<open>ls \<noteq> []\<close> in simp)
qed

text \<open>
  C4: the pump loses and reorders nothing. Whatever the successive \<open>Send\<close> calls accept, the
  bytes on the wire followed by the bytes still queued are what they were before.
\<close>

theorem pump_is_fifo:
  "g_wire (pump_outbound rets st) @ concat (g_sendBuffer (pump_outbound rets st)) =
    g_wire st @ concat (g_sendBuffer st)"
  using pump_outstream [of rets st] by (simp add: outstream_def)

text \<open>
  C7: one pass of the inner loop. The loop is left exactly on an error of \<open>Poll\<close>, a hangup or the
  peer's end of the stream, and then nothing is sent any more. Whenever the pass ends without a
  connection, a kick included, everything of the connection is torn down: the socket, the unread
  bytes, the queue and the flag of the pending command. Otherwise, whatever \<open>Recv\<close> and \<open>Send\<close>
  answer, the bytes sent or queued before stay in place and whole lines come after them, and no
  complete line is left unread when bytes have arrived.
\<close>

theorem inner_pass_outcome:
  assumes "g_socketConnected st" and "0 \<le> g_socket st" and "poll_iteration p rets st = (go_on, st')"
  shows "(go_on \<longleftrightarrow> p \<notin> {PollFailed, PollHangup, PollReadable (Received [])}) \<and>
    (\<not> go_on \<longrightarrow> \<not> g_socketConnected st' \<and> g_wire st' = g_wire st) \<and>
    (\<not> g_socketConnected st' \<longrightarrow> g_socket st' = -1 \<and> g_inbound st' = [] \<and> g_sendBuffer st' = [] \<and> \<not> g_readyForGameThread st') \<and>
    (g_socketConnected st' \<longrightarrow> 0 \<le> g_socket st' \<and>
       (\<exists>ls. (\<forall>l \<in> set ls. line_shaped l) \<and>
          g_wire st' @ concat (g_sendBuffer st') = g_wire st @ concat (g_sendBuffer st) @ concat ls) \<and>
       (\<forall>res. p = PollReadable res \<longrightarrow> ch_nl \<notin> set (g_inbound st')))"
proof -
  have adds: "(\<exists>ls. (\<forall>l \<in> set ls. line_shaped l) \<and>
      g_wire b @ concat (g_sendBuffer b) = g_wire a @ concat (g_sendBuffer a) @ concat ls) \<longleftrightarrow> adds_lines a b" for a b
    by (simp add: adds_lines_def outstream_def)
  have up: "up_or_down st" using assms(1,2) by (simp add: up_or_down_def)
  show ?thesis
  proof (cases p)
    case (PollReadable res)
    obtain ok b where d: "drain_into_inbound res st = (ok, b)" by (metis surj_pair)
    note k = drain_keeps [OF d]
    show ?thesis
    proof (cases ok)
      case False
      then have "st' = close_socket b" "\<not> go_on" using assms(3) d PollReadable by (simp_all add: poll_iteration_def)
      moreover have "torn_down (close_socket b)" "g_wire (close_socket b) = g_wire st" using close_tears_down [of b] k assms(2) by simp_all
      ultimately show ?thesis using False k PollReadable by (simp add: torn_down_def)
    next
      case True
      then have st': "st' = pump_outbound rets (process_lines b)" "go_on"
        using assms(3) d PollReadable by (simp_all add: poll_iteration_def)
      have "up_or_down b" using k assms(1,2) by (simp add: up_or_down_def)
      note o = process_lines_outcome [OF this]
      have "adds_lines st st'" if "g_socketConnected st'"
        using o that drain_outstream [OF d] by (simp add: st' pump_keeps adds_lines_def)
      moreover have "up_or_down st'" using o st' by (simp add: pump_up_or_down)
      moreover have "ch_nl \<notin> set (g_inbound st')" using find_newline_inbound o st' by (simp add: pump_keeps)
      ultimately show ?thesis unfolding adds using True k PollReadable st'(2) by (auto simp: up_or_down_def torn_down_def)
    qed
  qed (use assms close_tears_down [of st] pump_up_or_down [OF up, of rets] in
      \<open>auto simp: adds poll_iteration_def torn_down_def up_or_down_def pump_keeps intro!: adds_lines_same\<close>)
qed

theorem inner_pass_outcome_witness:
  "\<not> g_socketConnected (snd (poll_iteration PollHangup [] (init_bridge\<lparr>g_socketConnected := True, g_socket := 3, g_sendBuffer := [[ch_nl]]\<rparr>))) \<and>
   g_sendBuffer (snd (poll_iteration PollHangup [] (init_bridge\<lparr>g_socketConnected := True, g_socket := 3, g_sendBuffer := [[ch_nl]]\<rparr>))) = [] \<and>
   fst (poll_iteration (PollReadable (Received [ch_a])) [1] (init_bridge\<lparr>g_socketConnected := True, g_socket := 3, g_sendBuffer := [[ch_nl]]\<rparr>))"
proof -
  let ?st = "init_bridge\<lparr>g_socketConnected := True, g_socket := 3, g_sendBuffer := [[ch_nl]]\<rparr>"
  have up: "g_socketConnected ?st" "0 \<le> g_socket ?st" by simp_all
  note r = inner_pass_outcome [OF up prod.collapse [symmetric]]
  have "\<not> fst (poll_iteration PollHangup [] ?st)" "fst (poll_iteration (PollReadable (Received [ch_a])) [1] ?st)"
    using r [of PollHangup "[]"] r [of "PollReadable (Received [ch_a])" "[1]"] by simp_all
  then show ?thesis using r [of PollHangup "[]"] by blast
qed

text \<open>
  The outer loop up to the first connection: what \<open>resolveBridge\<close>, \<open>Socket\<close>, \<open>InetAton\<close>
  and \<open>Connect\<close> answer in each pass, and what a pass that does not get a connection is.
\<close>

type_synonym attempt = "bool \<times> int \<times> bool \<times> u32"

fun attempt_run :: "bytes \<Rightarrow> bytes \<Rightarrow> attempt list \<Rightarrow> nat \<Rightarrow> bridge \<Rightarrow> nat option list \<times> nat \<times> bridge" where
  "attempt_run mv dv [] idx st = ([], idx, st)"
| "attempt_run mv dv ((resolved, sock, aton, rc) # as) idx st =
     (case connect_attempt resolved sock aton rc mv dv idx st of (slept, idx1, st1) \<Rightarrow>
        (case attempt_run mv dv as idx1 st1 of (later, idx2, st2) \<Rightarrow> (slept # later, idx2, st2)))"

fun attempt_fails :: "attempt \<Rightarrow> bool" where
  "attempt_fails (resolved, sock, aton, rc) \<longleftrightarrow> \<not> resolved \<or> sock < 0 \<or> \<not> aton \<or> rc \<noteq> 0"

definition backoff_ms :: "nat \<Rightarrow> nat" where
  "backoff_ms k = (if k < 4 then [1000, 2000, 5000, 10000] ! k else 30000)"

lemma schedule_ms: "kBackoffSchedule ! min k 4 = backoff_ms k"
proof -
  consider "k = 0" | "k = 1" | "k = 2" | "k = 3" | "4 \<le> k" by linarith
  then show ?thesis by cases (simp_all add: kBackoffSchedule_def backoff_ms_def)
qed

lemma next_min: "next_backoff (min k 4) = min (Suc k) 4"
  by (auto simp: next_backoff_def kBackoffSchedule_def min_def)

lemma failed_attempt:
  "attempt_fails (resolved, sock, aton, rc) \<Longrightarrow>
    connect_attempt resolved sock aton rc mv dv idx st =
      (Some (kBackoffSchedule ! idx), next_backoff idx, (if resolved then st\<lparr>g_socket := -1\<rparr> else st))"
  by (auto simp: connect_attempt_def tcp_connect_def Let_def)

lemma failed_attempts:
  "list_all attempt_fails as \<Longrightarrow>
    attempt_run mv dv as (min k 4) st =
      (map (Some \<circ> backoff_ms) [k..<k + length as], min (k + length as) 4,
       (if list_ex fst as then st\<lparr>g_socket := -1\<rparr> else st))"
proof (induction as arbitrary: k st)
  case (Cons a as)
  obtain resolved sock aton rc where a: "a = (resolved, sock, aton, rc)" by (cases a)
  let ?st = "if resolved then st\<lparr>g_socket := -1\<rparr> else st"
  have f: "connect_attempt resolved sock aton rc mv dv (min k 4) st = (Some (backoff_ms k), min (Suc k) 4, ?st)"
    using failed_attempt [of resolved sock aton rc mv dv "min k 4" st] Cons.prems
    by (simp add: a schedule_ms next_min)
  have "[k..<k + length (a # as)] = k # [Suc k..<Suc k + length as]"
    using upt_conv_Cons [of k "k + length (a # as)"] by (simp del: upt_Suc)
  then show ?case using Cons.IH [of "Suc k" ?st] Cons.prems f by (simp add: a)
qed simp

text \<open>
  C13: however the attempts to get a connection fail, because the bridge is not resolved, no socket
  opens, the address is not accepted or \<open>Connect\<close> fails, in any order, the worker sleeps 1, 2, 5 and
  10 seconds and 30 seconds from then on, and changes nothing of the bridge but the closed
  socket; the attempt that gets a connection does not sleep and starts the schedule anew.
\<close>

theorem backoff_schedule:
  assumes "list_all attempt_fails as" and "list_all attempt_fails bs"
  shows "attempt_run mv dv as 0 st =
      (map (\<lambda>k. Some (if k < 4 then [1000, 2000, 5000, 10000] ! k else 30000)) [0..<length as], min (length as) 4,
       (if list_ex fst as then st\<lparr>g_socket := -1\<rparr> else st)) \<and>
    (case attempt_run mv dv (as @ (True, int n, True, 0) # bs) 0 st of (slept, idx, st') \<Rightarrow>
       slept = map (\<lambda>k. Some (if k < 4 then [1000, 2000, 5000, 10000] ! k else 30000)) [0..<length as] @ None #
         map (\<lambda>k. Some (if k < 4 then [1000, 2000, 5000, 10000] ! k else 30000)) [0..<length bs] \<and>
       idx = min (length bs) 4 \<and> g_socketConnected st')"
proof -
  have b: "Some \<circ> backoff_ms = (\<lambda>k. Some (if k < 4 then [1000, 2000, 5000, 10000] ! k else 30000))"
    by (simp add: fun_eq_iff backoff_ms_def)
  have append: "attempt_run mv dv (xs @ ys) idx st =
      (case attempt_run mv dv xs idx st of (s1, i1, st1) \<Rightarrow>
        (case attempt_run mv dv ys i1 st1 of (s2, i2, st2) \<Rightarrow> (s1 @ s2, i2, st2)))" for xs ys idx st
    by (induction mv dv xs idx st rule: attempt_run.induct) (auto split: prod.splits)
  have up: "\<exists>st1. connect_attempt True (int n) True 0 mv dv idx st = (None, 0, st1) \<and> g_socketConnected st1" for idx st
    by (simp add: connect_attempt_def tcp_connect_def sendHello_def enqueue_def Let_def)
  note fa = failed_attempts [OF assms(1), of mv dv 0, simplified min_0L add_0]
  obtain st1 where st1: "connect_attempt True (int n) True 0 mv dv (min (length as) 4) (if list_ex fst as then st\<lparr>g_socket := -1\<rparr> else st) =
      (None, 0, st1)" "g_socketConnected st1" using up by blast
  note fb = failed_attempts [OF assms(2), of mv dv 0 st1, simplified min_0L add_0]
  show ?thesis unfolding append fa prod.case attempt_run.simps st1(1) fb b using st1(2) by simp
qed

theorem backoff_schedule_witness:
  "fst (attempt_run [] [] ([(False, 0, True, 0), (True, -1, True, 0), (True, 3, False, 0), (True, 3, True, 111), (False, 0, True, 0), (True, 3, True, 111)]
      @ (True, int 3, True, 0) # [(True, 3, True, 111)]) 0 init_bridge) =
    [Some 1000, Some 2000, Some 5000, Some 10000, Some 30000, Some 30000, None, Some 1000]"
  using backoff_schedule [of "[(False, 0, True, 0), (True, -1, True, 0), (True, 3, False, 0), (True, 3, True, 111), (False, 0, True, 0), (True, 3, True, 111)]"
      "[(True, 3, True, 111)]" "[]" "[]" init_bridge 3]
  by (auto simp: upt_rec split: prod.splits)

text \<open>
  C14: a message whose first field is a number or a boolean other than the type is dropped,
  whatever its type: skipping such a value tries to read a string first, which raises the
  reader's sticky error, and the type field is never reached.
\<close>

theorem number_before_type_dropped:
  assumes "line = render_object ((k, v) # fs)" and "length line \<le> saved_cap"
    and "plain_key k" and "k \<noteq> str ''t''" and "\<nexists>s. v = JStr s"
  shows "dispatch_line line (length line) st = st"
  using dispatch_number_first [OF assms, of "[]"] by simp

theorem number_before_type_dropped_witness:
  "\<forall>st. dispatch_line (render_object [(str ''seq'', JInt 7), (str ''t'', JStr (str ''lua_exec'')), (str ''src'', JStr [])])
    (length (render_object [(str ''seq'', JInt 7), (str ''t'', JStr (str ''lua_exec'')), (str ''src'', JStr [])])) st = st"
  by (rule allI, rule number_before_type_dropped [OF refl])
     (simp_all add: plain_key_def render_object_def render_field_def quoted_def escape_def escape_byte_def
        str_def dec_int_def dec_nat.simps saved_cap_def)

text \<open>
  C15: a command that arrives while the game thread is still running the previous one can be
  lost: there is a run in which it is stashed, the previous reply is queued, and the game
  thread then clears the flag of the new command, which no later update runs or answers.
\<close>

theorem overlapping_command_lost:
  assumes "sys_worker s = WLines" and "sys_game s = GRunning src1 seq1"
    and "g_inbound (sys_bridge s) = exec_line seq src @ ch_nl # unread" and "length (exec_line seq src) < line_buf_cap"
    and "command_processor lua src1 seq1 = Some reply"
  shows "\<exists>t. sys_step\<^sup>*\<^sup>* s t \<and> sys_game t = GIdle \<and>
    pending_command (sys_bridge t) = (take BufferSize src, word_of_int seq) \<and>
    g_sendBuffer (sys_bridge t) = g_sendBuffer (sys_bridge s) @ [reply] \<and>
    (\<forall>lua'. multiworld_update lua' (sys_bridge t) = sys_bridge t)"
proof -
  let ?b1 = "stashed seq src ((sys_bridge s)\<lparr>g_inbound := unread\<rparr>)"
  let ?s1 = "s\<lparr>sys_bridge := ?b1\<rparr>"
  let ?s2 = "s\<lparr>sys_bridge := enqueue reply ?b1, sys_game := GFinishing\<rparr>"
  let ?t = "s\<lparr>sys_bridge := finish_command (enqueue reply ?b1), sys_game := GIdle\<rparr>"
  note nl = take_line_first [OF assms(3) line_no_nl(2) assms(4)]
  have "sys_step s ?s1" using sys_step.line [OF assms(1) nl(1)] nl(2) dispatch_exec [OF assms(4)] by simp
  moreover have "sys_step ?s1 ?s2" using sys_step.game_reply [of ?s1 src1 seq1 lua reply] assms by simp
  moreover have "sys_step ?s2 ?t" using sys_step.game_finish [of ?s2] by simp
  ultimately have "sys_step\<^sup>*\<^sup>* s ?t" by (meson converse_rtranclp_into_rtranclp r_into_rtranclp)
  moreover have "pending_command (finish_command (enqueue reply ?b1)) = pending_command ?b1"
    by (simp add: pending_command_def finish_command_def enqueue_def)
  ultimately show ?thesis
    by (intro exI [of _ ?t])
       (simp add: multiworld_update_def ProcessCommand_def finish_command_def enqueue_def)
qed

theorem overlapping_command_lost_witness:
  "\<exists>s t. sys_step\<^sup>*\<^sup>* s t \<and> sys_game t = GIdle \<and>
    pending_command (sys_bridge t) = (take BufferSize (str ''b''), word_of_int 2) \<and>
    (\<forall>lua'. multiworld_update lua' (sys_bridge t) = sys_bridge t)"
proof -
  have len: "length (exec_line 2 (str ''b'')) < line_buf_cap"
    by (simp add: exec_line_def render_object_def render_field_def quoted_def escape_def escape_byte_def
        str_def dec_int_def dec_nat.simps line_buf_cap_def)
  let ?s = "\<lparr>sys_bridge = init_bridge\<lparr>g_socketConnected := True, g_inbound := exec_line 2 (str ''b'') @ ch_nl # []\<rparr>,
    sys_worker = WLines, sys_backoff = 0, sys_game = GRunning (str ''a'') 1\<rparr>"
  from command_processor_shaped [of "\<lambda>_. LoadFailed" "str ''a''" 1]
  obtain reply where "command_processor (\<lambda>_. LoadFailed) (str ''a'') 1 = Some reply" by blast
  with overlapping_command_lost [of ?s, OF _ _ _ len] show ?thesis by fastforce
qed

text \<open>
  The reply of a command that is still running when the connection goes down is sent on
  the next connection, ahead of the hello line that should open it.
\<close>

theorem stale_reply_before_hello:
  assumes "sys_worker s = WOuter" and "sys_game s = GRunning src seq" and "g_sendBuffer (sys_bridge s) = []"
    and "command_processor lua src seq = Some reply"
  shows "\<exists>t hello. sys_step\<^sup>*\<^sup>* s t \<and> sys_worker t = WPoll \<and> g_socketConnected (sys_bridge t) \<and>
    g_sendBuffer (sys_bridge t) = [reply, hello] \<and> g_wire (sys_bridge t) = [] \<and>
    sendHello mod_ver disp_ver (str '''') init_bridge = enqueue hello init_bridge"
proof -
  let ?s1 = "s\<lparr>sys_bridge := enqueue reply (sys_bridge s), sys_game := GFinishing\<rparr>"
  obtain b where c: "tcp_connect 3 True 0 (sys_bridge ?s1) = (True, b)" by (simp add: tcp_connect_def Let_def)
  then have b: "g_sendBuffer b = [reply]" "g_wire b = []" "g_socketConnected b"
    using assms(3) by (auto simp: tcp_connect_def enqueue_def)
  let ?s2 = "?s1\<lparr>sys_bridge := b, sys_backoff := 0, sys_worker := WHello\<rparr>"
  let ?t = "?s2\<lparr>sys_bridge := sendHello mod_ver disp_ver (str '''') b, sys_worker := WPoll\<rparr>"
  have "sys_step s ?s1" by (rule sys_step.game_reply [OF assms(2,4)])
  moreover have "sys_step ?s1 ?s2" using c assms(1) by (intro sys_step.connected) simp_all
  moreover have "sys_step ?s2 ?t" using sys_step.hello [of ?s2] by simp
  ultimately have "sys_step\<^sup>*\<^sup>* s ?t" by (meson converse_rtranclp_into_rtranclp r_into_rtranclp)
  with b show ?thesis by (intro exI [of _ ?t]) (simp add: sendHello_def enqueue_def)
qed

theorem stale_reply_before_hello_witness:
  "\<exists>s t reply hello. sys_step\<^sup>*\<^sup>* s t \<and> g_sendBuffer (sys_bridge t) = [reply, hello] \<and>
    sendHello [] [] (str '''') init_bridge = enqueue hello init_bridge"
proof -
  let ?s = "\<lparr>sys_bridge = init_bridge, sys_worker = WOuter, sys_backoff = 0, sys_game = GRunning (str ''a'') 1\<rparr>"
  from command_processor_shaped [of "\<lambda>_. LoadFailed" "str ''a''" 1]
  obtain reply where r: "command_processor (\<lambda>_. LoadFailed) (str ''a'') 1 = Some reply" by blast
  from stale_reply_before_hello [of ?s, OF _ _ _ r]
  show ?thesis by (simp add: init_bridge_def) blast
qed

end
