(* ===== verification/C_Double.thy ===== *)
theory C_Double
  imports Prelude
begin

text \<open>
  What \<open>cJSON.c\<close> uses of C's \<open>double\<close> and of the C library on it: IEEE binary64 values
  with round-to-nearest-even, the conversions from and to \<open>int\<close>, comparison, subtraction
  and multiplication as \<open>compare_double\<close> uses them, \<open>strtod\<close> in the default locale on the
  characters a JSON number can contain, and \<open>sprintf\<close> with \<open>%d\<close> and \<open>%1.Pg\<close>.
  A finite value is a sign, a significand and a binary exponent. Positive rationals in
  between are pairs of naturals, so everything evaluates.
\<close>

section \<open>Values\<close>

datatype dbl = NaN | Inf bool | Fin bool nat int

definition INT_MAX :: int where
  "INT_MAX = 2147483647"

definition INT_MIN :: int where
  "INT_MIN = - 2147483648"

fun bits :: "nat \<Rightarrow> nat" where
  "bits n = (if n = 0 then 0 else Suc (bits (n div 2)))"

declare bits.simps [simp del]

text \<open>The exponent of the leading binary digit of \<open>n / d\<close>.\<close>

definition pow_ge :: "nat \<Rightarrow> nat \<Rightarrow> nat \<Rightarrow> int \<Rightarrow> bool" where
  "pow_ge b n d k \<longleftrightarrow> (if 0 \<le> k then d * b ^ nat k \<le> n else d \<le> n * b ^ nat (- k))"

definition ilog2 :: "nat \<Rightarrow> nat \<Rightarrow> int" where
  "ilog2 n d =
     (let k = int (bits n) - int (bits d) in if pow_ge 2 n d k then k else k - 1)"

text \<open>Division rounded to the nearest integer, ties to even.\<close>

definition div_rne :: "nat \<Rightarrow> nat \<Rightarrow> nat" where
  "div_rne n d =
     (let q = n div d; r = n mod d
      in if 2 * r > d \<or> 2 * r = d \<and> odd q then q + 1 else q)"

text \<open>The double nearest to \<open>n / d\<close>, with the sign given.\<close>

definition round_dbl :: "bool \<Rightarrow> nat \<Rightarrow> nat \<Rightarrow> dbl" where
  "round_dbl s n d =
     (if n = 0 then Fin s 0 0
      else let e = max (ilog2 n d - 52) (- 1074);
               m = (if 0 \<le> e then div_rne n (d * 2 ^ nat e) else div_rne (n * 2 ^ nat (- e)) d);
               me = (if m = 2 ^ 53 then (2 ^ 52, e + 1) else (m, e))
           in if 971 < snd me then Inf s else Fin s (fst me) (snd me))"

definition dbl_of_int :: "int \<Rightarrow> dbl" where
  "dbl_of_int i = round_dbl (i < 0) (nat \<bar>i\<bar>) 1"

definition is_nan :: "dbl \<Rightarrow> bool" where
  "is_nan d \<longleftrightarrow> d = NaN"

fun is_inf :: "dbl \<Rightarrow> bool" where
  "is_inf (Inf s) = True"
| "is_inf d = False"

section \<open>Arithmetic and comparison\<close>

text \<open>The value as a multiple of \<open>2 ^ e\<close>, for an exponent that is small enough.\<close>

definition scaled :: "int \<Rightarrow> bool \<Rightarrow> nat \<Rightarrow> int \<Rightarrow> int" where
  "scaled e s m me = (if s then -1 else 1) * int m * 2 ^ nat (me - e)"

fun dbl_le :: "dbl \<Rightarrow> dbl \<Rightarrow> bool" where
  "dbl_le NaN b = False"
| "dbl_le a NaN = False"
| "dbl_le (Inf s) (Inf t) = (s \<or> \<not> t)"
| "dbl_le (Inf s) (Fin t m e) = s"
| "dbl_le (Fin s m e) (Inf t) = (\<not> t)"
| "dbl_le (Fin s m e) (Fin t n f) = (let g = min e f in scaled g s m e \<le> scaled g t n f)"

definition dbl_eq :: "dbl \<Rightarrow> dbl \<Rightarrow> bool" where
  "dbl_eq a b \<longleftrightarrow> dbl_le a b \<and> dbl_le b a"

definition dbl_less :: "dbl \<Rightarrow> dbl \<Rightarrow> bool" where
  "dbl_less a b \<longleftrightarrow> dbl_le a b \<and> \<not> dbl_le b a"

fun dbl_abs :: "dbl \<Rightarrow> dbl" where
  "dbl_abs NaN = NaN"
| "dbl_abs (Inf s) = Inf False"
| "dbl_abs (Fin s m e) = Fin False m e"

definition round_scaled :: "int \<Rightarrow> int \<Rightarrow> dbl" where
  "round_scaled v e =
     (if 0 \<le> e then round_dbl (v < 0) (nat \<bar>v\<bar> * 2 ^ nat e) 1
      else round_dbl (v < 0) (nat \<bar>v\<bar>) (2 ^ nat (- e)))"

fun dbl_sub :: "dbl \<Rightarrow> dbl \<Rightarrow> dbl" where
  "dbl_sub NaN b = NaN"
| "dbl_sub a NaN = NaN"
| "dbl_sub (Inf s) (Inf t) = (if s = t then NaN else Inf s)"
| "dbl_sub (Inf s) (Fin t m e) = Inf s"
| "dbl_sub (Fin s m e) (Inf t) = Inf (\<not> t)"
| "dbl_sub (Fin s m e) (Fin t n f) =
     (let g = min e f in round_scaled (scaled g s m e - scaled g t n f) g)"

fun dbl_mul :: "dbl \<Rightarrow> dbl \<Rightarrow> dbl" where
  "dbl_mul NaN b = NaN"
| "dbl_mul a NaN = NaN"
| "dbl_mul (Inf s) (Inf t) = Inf (s \<noteq> t)"
| "dbl_mul (Inf s) (Fin t m e) = (if m = 0 then NaN else Inf (s \<noteq> t))"
| "dbl_mul (Fin s m e) (Inf t) = (if m = 0 then NaN else Inf (s \<noteq> t))"
| "dbl_mul (Fin s m e) (Fin t n f) =
     (if 0 \<le> e + f then round_dbl (s \<noteq> t) (m * n * 2 ^ nat (e + f)) 1
      else round_dbl (s \<noteq> t) (m * n) (2 ^ nat (- (e + f))))"

definition DBL_EPSILON :: dbl where
  "DBL_EPSILON = Fin False (2 ^ 52) (- 104)"

text \<open>
  Conversion to \<open>int\<close> truncates; outside the range of \<open>int\<close>, and for NaN, it is undefined.
\<close>

fun dbl_trunc :: "dbl \<Rightarrow> int option" where
  "dbl_trunc NaN = None"
| "dbl_trunc (Inf s) = None"
| "dbl_trunc (Fin s m e) =
     (let n = (if 0 \<le> e then m * 2 ^ nat e else m div 2 ^ nat (- e));
          i = (if s then - int n else int n)
      in if INT_MIN \<le> i \<and> i \<le> INT_MAX then Some i else None)"

section \<open>strtod\<close>

definition sign_len :: "bytes \<Rightarrow> nat" where
  "sign_len cs = (if cs \<noteq> [] \<and> (hd cs = ch_minus \<or> hd cs = ch_plus) then 1 else 0)"

text \<open>The digits of an exponent after \<open>e\<close>, with its sign, and how much text that is.\<close>

definition strtod_exp :: "bytes \<Rightarrow> int \<times> nat" where
  "strtod_exp cs =
     (if cs \<noteq> [] \<and> (hd cs = ch_e \<or> hd cs = ch_E) then
        let k = sign_len (tl cs); ds = takeWhile is_digit (drop k (tl cs))
        in if ds = [] then (0, 0)
           else ((if k = 1 \<and> hd (tl cs) = ch_minus then - int (digits_val 0 ds) else int (digits_val 0 ds)),
                 1 + k + length ds)
      else (0, 0))"

text \<open>The sign, the digits before and after the point, and how much text that is.\<close>

definition strtod_digits :: "bytes \<Rightarrow> bool \<times> bytes \<times> bytes \<times> nat" where
  "strtod_digits cs =
     (let k = sign_len cs;
          ip = takeWhile is_digit (drop k cs);
          r = drop (k + length ip) cs;
          dot = (r \<noteq> [] \<and> hd r = ch_dot);
          fp = (if dot then takeWhile is_digit (tl r) else [])
      in (k = 1 \<and> hd cs = ch_minus, ip, fp,
          k + length ip + (if dot \<and> \<not> (ip = [] \<and> fp = []) then 1 + length fp else 0)))"

text \<open>The value and the number of characters consumed; zero characters mean no conversion.\<close>

definition strtod :: "bytes \<Rightarrow> dbl \<times> nat" where
  "strtod cs =
     (case strtod_digits cs of (neg, ip, fp, n0) \<Rightarrow>
        if ip = [] \<and> fp = [] then (Fin False 0 0, 0)
        else case strtod_exp (drop n0 cs) of (x, xl) \<Rightarrow>
          let n = digits_val 0 (ip @ fp); t = x - int (length fp)
          in (if 0 \<le> t then round_dbl neg (n * 10 ^ nat t) 1 else round_dbl neg n (10 ^ nat (- t)),
              n0 + xl))"

section \<open>sprintf\<close>

definition ilog10 :: "nat \<Rightarrow> nat \<Rightarrow> int" where
  "ilog10 n d =
     (let k = int (length (dec_nat n)) - int (length (dec_nat d))
      in if pow_ge 10 n d k then k else k - 1)"

definition strip_zeros :: "bytes \<Rightarrow> bytes" where
  "strip_zeros ds = rev (dropWhile (\<lambda>c. c = ch_0) (rev ds))"

definition point :: "bytes \<Rightarrow> bytes" where
  "point fs = (if fs = [] then [] else ch_dot # fs)"

text \<open>\<open>p\<close> significant digits of \<open>n / d\<close>, correctly rounded, with the decimal exponent.\<close>

definition sig_digits :: "nat \<Rightarrow> nat \<Rightarrow> nat \<Rightarrow> nat \<times> int" where
  "sig_digits p n d =
     (let x = ilog10 n d; k = int p - 1 - x;
          q = (if 0 \<le> k then div_rne (n * 10 ^ nat k) d else div_rne n (d * 10 ^ nat (- k)))
      in if q = 10 ^ p then (10 ^ (p - 1), x + 1) else (q, x))"

definition exp_text :: "int \<Rightarrow> bytes" where
  "exp_text x =
     ch_e # (if x < 0 then ch_minus else ch_plus) #
       (let ds = dec_nat (nat \<bar>x\<bar>) in if length ds < 2 then ch_0 # ds else ds)"

definition g_text :: "nat \<Rightarrow> nat \<times> int \<Rightarrow> bytes" where
  "g_text p qx =
     (case qx of (q, x) \<Rightarrow>
       let ds = dec_nat q
       in if x < - 4 \<or> int p \<le> x then [hd ds] @ point (strip_zeros (tl ds)) @ exp_text x
          else if 0 \<le> x then take (nat x + 1) ds @ point (strip_zeros (drop (nat x + 1) ds))
          else [ch_0] @ point (strip_zeros (replicate (nat (- x) - 1) ch_0 @ ds)))"

fun sprintf_g :: "nat \<Rightarrow> dbl \<Rightarrow> bytes" where
  "sprintf_g p NaN = str ''nan''"
| "sprintf_g p (Inf s) = (if s then [ch_minus] else []) @ str ''inf''"
| "sprintf_g p (Fin s m e) =
     (if s then [ch_minus] else []) @
     (if m = 0 then [ch_0]
      else g_text p (if 0 \<le> e then sig_digits p (m * 2 ^ nat e) 1 else sig_digits p m (2 ^ nat (- e))))"

end
