(* ===== verification/CJson_Heap.thy ===== *)
theory CJson_Heap
  imports C_Double
begin

text \<open>
  The memory \<open>cJSON.c\<close> works on, and the functions every other part of it uses: the hooks,
  \<open>cJSON_New_Item\<close>, \<open>cJSON_strdup\<close>, \<open>cJSON_Delete\<close>, the string comparisons and the setters.

  A pointer is a natural number and 0 is \<open>NULL\<close>. The heap holds the \<open>cJSON\<close> nodes and
  the blocks of characters by address. Which allocation requests succeed is up to an
  arbitrary oracle, and a new block of characters holds arbitrary bytes. A C expression that
  would dereference \<open>NULL\<close>, use freed memory, free a block twice or run past the end of a
  block has the value \<open>None\<close>, as has one that does not return.
\<close>

section \<open>State\<close>

type_synonym ptr = nat

record cjson =
  cj_next :: ptr
  cj_prev :: ptr
  cj_child :: ptr
  cj_type :: u32
  cj_valuestring :: ptr
  cj_valueint :: int
  cj_valuedouble :: dbl
  cj_string :: ptr

abbreviation cJSON_Invalid :: u32 where "cJSON_Invalid \<equiv> 0"
abbreviation cJSON_False :: u32 where "cJSON_False \<equiv> 1"
abbreviation cJSON_True :: u32 where "cJSON_True \<equiv> 2"
abbreviation cJSON_NULL :: u32 where "cJSON_NULL \<equiv> 4"
abbreviation cJSON_Number :: u32 where "cJSON_Number \<equiv> 8"
abbreviation cJSON_String :: u32 where "cJSON_String \<equiv> 16"
abbreviation cJSON_Array :: u32 where "cJSON_Array \<equiv> 32"
abbreviation cJSON_Object :: u32 where "cJSON_Object \<equiv> 64"
abbreviation cJSON_Raw :: u32 where "cJSON_Raw \<equiv> 128"
abbreviation cJSON_IsReference :: u32 where "cJSON_IsReference \<equiv> 256"
abbreviation cJSON_StringIsConst :: u32 where "cJSON_StringIsConst \<equiv> 512"

text \<open>The three function pointers of the hooks; a user's functions are other numbers.\<close>

record internal_hooks =
  hk_allocate :: ptr
  hk_deallocate :: ptr
  hk_reallocate :: ptr

definition fn_malloc :: ptr where "fn_malloc = 1"
definition fn_free :: ptr where "fn_free = 2"
definition fn_realloc :: ptr where "fn_realloc = 3"

definition default_hooks :: internal_hooks where
  "default_hooks = \<lparr>hk_allocate = fn_malloc, hk_deallocate = fn_free, hk_reallocate = fn_realloc\<rparr>"

record heap =
  h_nodes :: "ptr \<Rightarrow> cjson option"
  h_strs :: "ptr \<Rightarrow> bytes option"
  h_fresh :: ptr
  h_count :: nat
  h_grants :: "nat \<Rightarrow> bool"
  h_junk :: "ptr \<Rightarrow> nat \<Rightarrow> u8"
  global_hooks :: internal_hooks
  global_error :: "ptr \<times> nat"

definition heap_start :: "(nat \<Rightarrow> bool) \<Rightarrow> (ptr \<Rightarrow> nat \<Rightarrow> u8) \<Rightarrow> heap" where
  "heap_start grants junk =
     \<lparr>h_nodes = (\<lambda>p. None), h_strs = (\<lambda>p. None), h_fresh = 1, h_count = 0, h_grants = grants,
      h_junk = junk, global_hooks = default_hooks, global_error = (0, 0)\<rparr>"

section \<open>Memory\<close>

definition load :: "ptr \<Rightarrow> heap \<Rightarrow> cjson option" where
  "load p h = (if p = 0 then None else h_nodes h p)"

definition store :: "ptr \<Rightarrow> (cjson \<Rightarrow> cjson) \<Rightarrow> heap \<Rightarrow> heap option" where
  "store p f h = (case load p h of None \<Rightarrow> None | Some n \<Rightarrow> Some (h\<lparr>h_nodes := (h_nodes h)(p \<mapsto> f n)\<rparr>))"

definition block :: "ptr \<Rightarrow> heap \<Rightarrow> bytes option" where
  "block p h = (if p = 0 then None else h_strs h p)"

definition zero_node :: cjson where
  "zero_node = \<lparr>cj_next = 0, cj_prev = 0, cj_child = 0, cj_type = 0, cj_valuestring = 0,
     cj_valueint = 0, cj_valuedouble = Fin False 0 0, cj_string = 0\<rparr>"

text \<open>A request to \<open>hooks->allocate\<close>: it gives 0, or a fresh block.\<close>

definition allocate :: "nat \<Rightarrow> heap \<Rightarrow> ptr \<times> heap" where
  "allocate n h =
     (let h1 = h\<lparr>h_count := Suc (h_count h)\<rparr>; p = h_fresh h
      in if h_grants h (h_count h)
         then (p, h1\<lparr>h_fresh := Suc p, h_strs := (h_strs h)(p \<mapsto> map (h_junk h p) [0..<n])\<rparr>)
         else (0, h1))"

definition deallocate :: "ptr \<Rightarrow> heap \<Rightarrow> heap option" where
  "deallocate p h =
     (if p = 0 then Some h
      else case h_strs h p of None \<Rightarrow> None | Some b \<Rightarrow> Some (h\<lparr>h_strs := (h_strs h)(p := None)\<rparr>))"

definition dealloc_node :: "ptr \<Rightarrow> heap \<Rightarrow> heap option" where
  "dealloc_node p h =
     (if p = 0 then Some h
      else case h_nodes h p of None \<Rightarrow> None | Some n \<Rightarrow> Some (h\<lparr>h_nodes := (h_nodes h)(p := None)\<rparr>))"

text \<open>\<open>strlen\<close> from an offset of a block, and the C string there.\<close>

definition strlen_at :: "ptr \<Rightarrow> nat \<Rightarrow> heap \<Rightarrow> nat option" where
  "strlen_at p off h = (case block p h of None \<Rightarrow> None | Some b \<Rightarrow> c_strlen (drop off b))"

definition string_at :: "ptr \<Rightarrow> heap \<Rightarrow> bytes option" where
  "string_at p h = (case block p h of None \<Rightarrow> None | Some b \<Rightarrow> if 0 \<in> set b then Some (cstr b) else None)"

text \<open>Comparisons read two blocks until they differ or end.\<close>

fun ci_cmp :: "bytes \<Rightarrow> bytes \<Rightarrow> int option" where
  "ci_cmp (c # cs) (d # ds) =
     (if c_tolower c \<noteq> c_tolower d then Some (int (unat (c_tolower c)) - int (unat (c_tolower d)))
      else if c = 0 then Some 0 else ci_cmp cs ds)"
| "ci_cmp cs ds = None"

definition case_insensitive_strcmp :: "ptr \<Rightarrow> ptr \<Rightarrow> heap \<Rightarrow> int option" where
  "case_insensitive_strcmp string1 string2 h =
     (if string1 = 0 \<or> string2 = 0 then Some 1
      else if string1 = string2 then Some 0
      else do { b1 \<leftarrow> block string1 h; b2 \<leftarrow> block string2 h; ci_cmp b1 b2 })"

fun cmp_bytes :: "bytes \<Rightarrow> bytes \<Rightarrow> int option" where
  "cmp_bytes (c # cs) (d # ds) =
     (if c \<noteq> d then Some (int (unat c) - int (unat d))
      else if c = 0 then Some 0 else cmp_bytes cs ds)"
| "cmp_bytes cs ds = None"

definition strcmp :: "ptr \<Rightarrow> ptr \<Rightarrow> heap \<Rightarrow> int option" where
  "strcmp p q h = do { b1 \<leftarrow> block p h; b2 \<leftarrow> block q h; cmp_bytes b1 b2 }"

section \<open>Hooks, errors and version\<close>

text \<open>\<open>cJSON_InitHooks\<close> gets \<open>NULL\<close> or the two function pointers of the user.\<close>

definition cJSON_InitHooks :: "(ptr \<times> ptr) option \<Rightarrow> heap \<Rightarrow> heap" where
  "cJSON_InitHooks hooks h =
     (case hooks of
        None \<Rightarrow> h\<lparr>global_hooks := default_hooks\<rparr>
      | Some (malloc_fn, free_fn) \<Rightarrow>
          let a = (if malloc_fn \<noteq> 0 then malloc_fn else fn_malloc);
              f = (if free_fn \<noteq> 0 then free_fn else fn_free);
              r = (if a = fn_malloc \<and> f = fn_free then fn_realloc else 0)
          in h\<lparr>global_hooks := \<lparr>hk_allocate = a, hk_deallocate = f, hk_reallocate = r\<rparr>\<rparr>)"

definition cJSON_GetErrorPtr :: "heap \<Rightarrow> ptr \<times> nat" where
  "cJSON_GetErrorPtr h = global_error h"

definition cJSON_Version :: bytes where
  "cJSON_Version = dec_int 1 @ [ch_dot] @ dec_int 7 @ [ch_dot] @ dec_int 15"

definition cJSON_malloc :: "nat \<Rightarrow> heap \<Rightarrow> ptr \<times> heap" where
  "cJSON_malloc n h = allocate n h"

definition cJSON_free :: "ptr \<Rightarrow> heap \<Rightarrow> heap option" where
  "cJSON_free p h = deallocate p h"

section \<open>Nodes and strings\<close>

definition cJSON_New_Item :: "heap \<Rightarrow> ptr \<times> heap" where
  "cJSON_New_Item h =
     (let h1 = h\<lparr>h_count := Suc (h_count h)\<rparr>; p = h_fresh h
      in if h_grants h (h_count h)
         then (p, h1\<lparr>h_fresh := Suc p, h_nodes := (h_nodes h)(p \<mapsto> zero_node)\<rparr>)
         else (0, h1))"

definition cJSON_strdup :: "ptr \<Rightarrow> heap \<Rightarrow> (ptr \<times> heap) option" where
  "cJSON_strdup string h =
     (if string = 0 then Some (0, h)
      else do {
        b \<leftarrow> block string h;
        n \<leftarrow> c_strlen b;
        case allocate (n + 1) h of (copy, h1) \<Rightarrow>
          if copy = 0 then Some (0, h1)
          else Some (copy, h1\<lparr>h_strs := (h_strs h1)(copy \<mapsto> take (n + 1) b)\<rparr>) })"

definition is_reference :: "cjson \<Rightarrow> bool" where
  "is_reference n \<longleftrightarrow> cj_type n AND cJSON_IsReference \<noteq> 0"

definition string_is_const :: "cjson \<Rightarrow> bool" where
  "string_is_const n \<longleftrightarrow> cj_type n AND cJSON_StringIsConst \<noteq> 0"

partial_function (option) cJSON_Delete :: "ptr \<Rightarrow> heap \<Rightarrow> heap option" where
  "cJSON_Delete item h =
     (if item = 0 then Some h
      else do {
        n \<leftarrow> load item h;
        h1 \<leftarrow> (if \<not> is_reference n \<and> cj_child n \<noteq> 0 then cJSON_Delete (cj_child n) h else Some h);
        h2 \<leftarrow> (if \<not> is_reference n \<and> cj_valuestring n \<noteq> 0 then deallocate (cj_valuestring n) h1 else Some h1);
        h3 \<leftarrow> (if \<not> string_is_const n \<and> cj_string n \<noteq> 0 then deallocate (cj_string n) h2 else Some h2);
        h4 \<leftarrow> dealloc_node item h3;
        cJSON_Delete (cj_next n) h4 })"

declare cJSON_Delete.simps [code]

section \<open>Types and values of an item\<close>

definition type_low :: "cjson \<Rightarrow> u32" where
  "type_low n = cj_type n AND 0xFF"

definition has_type :: "u32 \<Rightarrow> ptr \<Rightarrow> heap \<Rightarrow> bool option" where
  "has_type t item h = (if item = 0 then Some False else do { n \<leftarrow> load item h; Some (type_low n = t) })"

definition cJSON_IsInvalid :: "ptr \<Rightarrow> heap \<Rightarrow> bool option" where
  "cJSON_IsInvalid item h = has_type cJSON_Invalid item h"

definition cJSON_IsFalse :: "ptr \<Rightarrow> heap \<Rightarrow> bool option" where
  "cJSON_IsFalse item h = has_type cJSON_False item h"

definition cJSON_IsTrue :: "ptr \<Rightarrow> heap \<Rightarrow> bool option" where
  "cJSON_IsTrue item h = has_type cJSON_True item h"

definition cJSON_IsBool :: "ptr \<Rightarrow> heap \<Rightarrow> bool option" where
  "cJSON_IsBool item h =
     (if item = 0 then Some False
      else do { n \<leftarrow> load item h; Some (cj_type n AND (cJSON_True OR cJSON_False) \<noteq> 0) })"

definition cJSON_IsNull :: "ptr \<Rightarrow> heap \<Rightarrow> bool option" where
  "cJSON_IsNull item h = has_type cJSON_NULL item h"

definition cJSON_IsNumber :: "ptr \<Rightarrow> heap \<Rightarrow> bool option" where
  "cJSON_IsNumber item h = has_type cJSON_Number item h"

definition cJSON_IsString :: "ptr \<Rightarrow> heap \<Rightarrow> bool option" where
  "cJSON_IsString item h = has_type cJSON_String item h"

definition cJSON_IsArray :: "ptr \<Rightarrow> heap \<Rightarrow> bool option" where
  "cJSON_IsArray item h = has_type cJSON_Array item h"

definition cJSON_IsObject :: "ptr \<Rightarrow> heap \<Rightarrow> bool option" where
  "cJSON_IsObject item h = has_type cJSON_Object item h"

definition cJSON_IsRaw :: "ptr \<Rightarrow> heap \<Rightarrow> bool option" where
  "cJSON_IsRaw item h = has_type cJSON_Raw item h"

definition cJSON_GetStringValue :: "ptr \<Rightarrow> heap \<Rightarrow> ptr option" where
  "cJSON_GetStringValue item h =
     do { s \<leftarrow> cJSON_IsString item h;
          if \<not> s then Some 0 else do { n \<leftarrow> load item h; Some (cj_valuestring n) } }"

definition cJSON_GetNumberValue :: "ptr \<Rightarrow> heap \<Rightarrow> dbl option" where
  "cJSON_GetNumberValue item h =
     do { s \<leftarrow> cJSON_IsNumber item h;
          if \<not> s then Some NaN else do { n \<leftarrow> load item h; Some (cj_valuedouble n) } }"

text \<open>The conversion that three functions share: saturate, or truncate.\<close>

definition saturated_int :: "dbl \<Rightarrow> int option" where
  "saturated_int d =
     (if dbl_le (dbl_of_int INT_MAX) d then Some INT_MAX
      else if dbl_le d (dbl_of_int INT_MIN) then Some INT_MIN
      else dbl_trunc d)"

definition cJSON_SetNumberHelper :: "ptr \<Rightarrow> dbl \<Rightarrow> heap \<Rightarrow> (dbl \<times> heap) option" where
  "cJSON_SetNumberHelper obj number h =
     do { i \<leftarrow> saturated_int number;
          h1 \<leftarrow> store obj (\<lambda>n. n\<lparr>cj_valueint := i\<rparr>) h;
          h2 \<leftarrow> store obj (\<lambda>n. n\<lparr>cj_valuedouble := number\<rparr>) h1;
          Some (number, h2) }"

text \<open>\<open>strcpy\<close> into a block that is long enough; source and target must not overlap.\<close>

definition strcpy_over :: "ptr \<Rightarrow> ptr \<Rightarrow> heap \<Rightarrow> heap option" where
  "strcpy_over dst src h =
     (if dst = src then None
      else do {
        d \<leftarrow> block dst h; s \<leftarrow> string_at src h;
        if length s < length d
        then Some (h\<lparr>h_strs := (h_strs h)(dst \<mapsto> s @ 0 # drop (length s + 1) d)\<rparr>) else None })"

definition cJSON_SetValuestring :: "ptr \<Rightarrow> ptr \<Rightarrow> heap \<Rightarrow> (ptr \<times> heap) option" where
  "cJSON_SetValuestring obj valuestring h =
     do {
       n \<leftarrow> load obj h;
       if cj_type n AND cJSON_String = 0 \<or> is_reference n then Some (0, h)
       else do {
         l1 \<leftarrow> strlen_at valuestring 0 h;
         l2 \<leftarrow> strlen_at (cj_valuestring n) 0 h;
         if l1 \<le> l2 then do {
           h1 \<leftarrow> strcpy_over (cj_valuestring n) valuestring h;
           Some (cj_valuestring n, h1) }
         else do {
           r \<leftarrow> cJSON_strdup valuestring h;
           case r of (copy, h1) \<Rightarrow>
             if copy = 0 then Some (0, h1)
             else do {
               h2 \<leftarrow> (if cj_valuestring n \<noteq> 0 then cJSON_free (cj_valuestring n) h1 else Some h1);
               h3 \<leftarrow> store obj (\<lambda>m. m\<lparr>cj_valuestring := copy\<rparr>) h2;
               Some (copy, h3) } } } }"

end
