(* ===== verification/CJson_Parse.thy ===== *)
theory CJson_Parse
  imports CJson_Heap
begin

text \<open>
  The parser of \<open>cJSON.c\<close>. The parse buffer is a record over the memory its content pointer
  points to; a position is an index into that memory, and reading an index outside it is
  undefined. The functions that return a \<open>cJSON_bool\<close> return it with the updated buffer and
  heap. The mutual recursion of \<open>parse_value\<close>, \<open>parse_array\<close> and \<open>parse_object\<close> counts
  down a fuel argument.
\<close>

section \<open>The parse buffer\<close>

record parse_buffer =
  pb_content :: "bytes option"
  pb_length :: nat
  pb_offset :: nat
  pb_depth :: nat

definition CJSON_NESTING_LIMIT :: nat where
  "CJSON_NESTING_LIMIT = 1000"

definition can_read :: "parse_buffer \<Rightarrow> nat \<Rightarrow> bool" where
  "can_read b n \<longleftrightarrow> pb_offset b + n \<le> pb_length b"

definition can_access_at_index :: "parse_buffer \<Rightarrow> nat \<Rightarrow> bool" where
  "can_access_at_index b i \<longleftrightarrow> pb_offset b + i < pb_length b"

definition read_mem :: "bytes \<Rightarrow> nat \<Rightarrow> u8 option" where
  "read_mem m p = (if p < length m then Some (m ! p) else None)"

definition buffer_at :: "parse_buffer \<Rightarrow> nat \<Rightarrow> u8 option" where
  "buffer_at b i = do { m \<leftarrow> pb_content b; read_mem m (pb_offset b + i) }"

definition move :: "nat \<Rightarrow> parse_buffer \<Rightarrow> parse_buffer" where
  "move n b = b\<lparr>pb_offset := pb_offset b + n\<rparr>"

definition step_back :: "parse_buffer \<Rightarrow> parse_buffer" where
  "step_back b = b\<lparr>pb_offset := pb_offset b - 1\<rparr>"

text \<open>\<open>strncmp\<close> of memory with a literal, over the literal's length, as the test for 0.\<close>

fun strncmp_eq :: "bytes \<Rightarrow> bytes \<Rightarrow> bool option" where
  "strncmp_eq m [] = Some True"
| "strncmp_eq [] (d # l) = None"
| "strncmp_eq (c # m) (d # l) = (if c \<noteq> d then Some False else strncmp_eq m l)"

definition literal_at :: "parse_buffer \<Rightarrow> bytes \<Rightarrow> bool option" where
  "literal_at b l =
     (if can_read b (length l)
      then do { m \<leftarrow> pb_content b; strncmp_eq (drop (pb_offset b) m) l }
      else Some False)"

text \<open>The test \<open>can_access_at_index(b, 0) && buffer_at_offset(b)[0] == c\<close>.\<close>

definition char_at :: "parse_buffer \<Rightarrow> u8 \<Rightarrow> bool option" where
  "char_at b c = (if can_access_at_index b 0 then do { x \<leftarrow> buffer_at b 0; Some (x = c) } else Some False)"

function ws_loop :: "parse_buffer \<Rightarrow> parse_buffer option" where
  "ws_loop b =
     (if can_access_at_index b 0
      then do { c \<leftarrow> buffer_at b 0; if c \<le> 32 then ws_loop (move 1 b) else Some b }
      else Some b)"
  by pat_completeness auto
termination
  by (relation "measure (\<lambda>b. pb_length b - pb_offset b)") (auto simp: can_access_at_index_def move_def)

declare ws_loop.simps [simp del]

text \<open>The flag says whether the pointer the function returns is not \<open>NULL\<close>.\<close>

definition buffer_skip_whitespace :: "parse_buffer \<Rightarrow> (bool \<times> parse_buffer) option" where
  "buffer_skip_whitespace b =
     (if pb_content b = None then Some (False, b)
      else if \<not> can_access_at_index b 0 then Some (True, b)
      else do { b1 \<leftarrow> ws_loop b;
                Some (True, if pb_offset b1 = pb_length b1 then step_back b1 else b1) })"

definition skip_ws_buf :: "parse_buffer \<Rightarrow> parse_buffer option" where
  "skip_ws_buf b = map_option snd (buffer_skip_whitespace b)"

definition skip_utf8_bom :: "parse_buffer \<Rightarrow> (bool \<times> parse_buffer) option" where
  "skip_utf8_bom b =
     (if pb_content b = None \<or> pb_offset b \<noteq> 0 then Some (False, b)
      else if can_access_at_index b 4 then do {
        m \<leftarrow> pb_content b;
        e \<leftarrow> strncmp_eq (drop (pb_offset b) m) [0xEF, 0xBB, 0xBF];
        Some (True, if e then move 3 b else b) }
      else Some (True, b))"

section \<open>Numbers\<close>

definition get_decimal_point :: u8 where
  "get_decimal_point = ch_dot"

definition number_char :: "u8 \<Rightarrow> bool" where
  "number_char c \<longleftrightarrow> is_digit c \<or> c = ch_plus \<or> c = ch_minus \<or> c = ch_e \<or> c = ch_E \<or> c = ch_dot"

text \<open>The copy into \<open>number_c_string\<close>: at most 63 characters from index \<open>i\<close> on.\<close>

fun number_copy :: "nat \<Rightarrow> nat \<Rightarrow> parse_buffer \<Rightarrow> bytes option" where
  "number_copy 0 i b = Some []"
| "number_copy (Suc k) i b =
     (if can_access_at_index b i
      then do {
        c \<leftarrow> buffer_at b i;
        if number_char c
        then do { cs \<leftarrow> number_copy k (Suc i) b; Some ((if c = ch_dot then get_decimal_point else c) # cs) }
        else Some [] }
      else Some [])"

definition parse_number :: "ptr \<Rightarrow> parse_buffer \<Rightarrow> heap \<Rightarrow> (bool \<times> parse_buffer \<times> heap) option" where
  "parse_number item b h =
     (if pb_content b = None then Some (False, b, h)
      else do {
        cs \<leftarrow> number_copy 63 0 b;
        case strtod cs of (number, used) \<Rightarrow>
          if used = 0 then Some (False, b, h)
          else do {
            h1 \<leftarrow> store item (\<lambda>n. n\<lparr>cj_valuedouble := number\<rparr>) h;
            i \<leftarrow> saturated_int number;
            h2 \<leftarrow> store item (\<lambda>n. n\<lparr>cj_valueint := i\<rparr>) h1;
            h3 \<leftarrow> store item (\<lambda>n. n\<lparr>cj_type := cJSON_Number\<rparr>) h2;
            Some (True, move used b, h3) } })"

section \<open>Strings\<close>

text \<open>The value of one hexadecimal digit as the branches of the loop compute it.\<close>

definition hex4_digit :: "u8 \<Rightarrow> u32 option" where
  "hex4_digit c =
     (if ch_0 \<le> c \<and> c \<le> ch_9 then Some (ucast c - 0x30)
      else if ch_A \<le> c \<and> c \<le> ch_F then Some (10 + ucast c - 0x41)
      else if ch_a \<le> c \<and> c \<le> ch_f then Some (10 + ucast c - 0x61)
      else None)"

fun hex4_loop :: "bytes \<Rightarrow> nat \<Rightarrow> nat list \<Rightarrow> u32 \<Rightarrow> u32 option" where
  "hex4_loop m p [] hv = Some hv"
| "hex4_loop m p (i # is) hv =
     do { c \<leftarrow> read_mem m (p + i);
          case hex4_digit c of
            None \<Rightarrow> Some 0
          | Some v \<Rightarrow> hex4_loop m p is (if i < 3 then push_bit 4 (hv + v) else hv + v) }"

definition parse_hex4 :: "bytes \<Rightarrow> nat \<Rightarrow> u32 option" where
  "parse_hex4 m p = hex4_loop m p [0, 1, 2, 3] 0"

text \<open>The UTF-8 bytes of a code point, written from the last to the first.\<close>

fun utf8_tail :: "nat \<Rightarrow> u32 \<Rightarrow> bytes \<Rightarrow> u32 \<times> bytes" where
  "utf8_tail 0 cp acc = (cp, acc)"
| "utf8_tail (Suc k) cp acc = utf8_tail k (drop_bit 6 cp) (ucast ((cp OR 0x80) AND 0xBF) # acc)"

definition utf8_encode :: "u32 \<Rightarrow> bytes option" where
  "utf8_encode cp =
     (if cp < 0x80 then Some [ucast (cp AND 0x7F)]
      else if cp < 0x800 then
        (case utf8_tail 1 cp [] of (c, t) \<Rightarrow> Some (ucast ((c OR 0xC0) AND 0xFF) # t))
      else if cp < 0x10000 then
        (case utf8_tail 2 cp [] of (c, t) \<Rightarrow> Some (ucast ((c OR 0xE0) AND 0xFF) # t))
      else if cp \<le> 0x10FFFF then
        (case utf8_tail 3 cp [] of (c, t) \<Rightarrow> Some (ucast ((c OR 0xF0) AND 0xFF) # t))
      else None)"

text \<open>The sequence length, 0 for failure, and the bytes for the output pointer.\<close>

definition utf16_literal_to_utf8 :: "bytes \<Rightarrow> nat \<Rightarrow> nat \<Rightarrow> (nat \<times> bytes) option" where
  "utf16_literal_to_utf8 m fst_seq input_end =
     (if input_end < fst_seq + 6 then Some (0, [])
      else do {
        first_code \<leftarrow> parse_hex4 m (fst_seq + 2);
        if 0xDC00 \<le> first_code \<and> first_code \<le> 0xDFFF then Some (0, [])
        else if 0xD800 \<le> first_code \<and> first_code \<le> 0xDBFF then
          (let snd_seq = fst_seq + 6
           in if input_end < snd_seq + 6 then Some (0, [])
              else do {
                c0 \<leftarrow> read_mem m snd_seq;
                if c0 \<noteq> ch_bslash then Some (0, [])
                else do {
                  c1 \<leftarrow> read_mem m (snd_seq + 1);
                  if c1 \<noteq> ch_u then Some (0, [])
                  else do {
                    second_code \<leftarrow> parse_hex4 m (snd_seq + 2);
                    if second_code < 0xDC00 \<or> second_code > 0xDFFF then Some (0, [])
                    else (case utf8_encode (0x10000 + (push_bit 10 (first_code AND 0x3FF) OR (second_code AND 0x3FF))) of
                            None \<Rightarrow> Some (0, []) | Some bs \<Rightarrow> Some (12, bs)) } } })
        else (case utf8_encode first_code of None \<Rightarrow> Some (0, []) | Some bs \<Rightarrow> Some (6, bs)) })"

text \<open>
  The scan for the closing quote: \<open>Some None\<close> is the jump to \<open>fail\<close>, otherwise the end and
  the number of skipped bytes.
\<close>

function scan_end :: "bytes \<Rightarrow> nat \<Rightarrow> nat \<Rightarrow> nat \<Rightarrow> (nat \<times> nat) option option" where
  "scan_end m len i skipped =
     (if i < len
      then do {
        c \<leftarrow> read_mem m i;
        if c = ch_quote then Some (Some (i, skipped))
        else if c = ch_bslash then
          (if i + 1 \<ge> len then Some None else scan_end m len (i + 2) (skipped + 1))
        else scan_end m len (i + 1) skipped }
      else Some None)"
  by pat_completeness auto
termination
  by (relation "measure (\<lambda>(m, len, i, s). len - i)") auto

declare scan_end.simps [simp del]

definition put :: "bytes \<Rightarrow> nat \<Rightarrow> bytes \<Rightarrow> bytes option" where
  "put blk i cs =
     (if i + length cs \<le> length blk then Some (take i blk @ cs @ drop (i + length cs) blk) else None)"

definition one_char_escape :: "u8 \<Rightarrow> u8 option" where
  "one_char_escape c =
     (if c = ch_b then Some 8 else if c = ch_f then Some 12 else if c = ch_n then Some 10
      else if c = ch_r then Some 13 else if c = ch_t then Some 9
      else if c = ch_quote \<or> c = ch_bslash \<or> c = ch_slash then Some c else None)"

text \<open>
  The loop over the literal: \<open>ip\<close> is the input pointer, \<open>ie\<close> the input end, \<open>op\<close> the
  output pointer as an index into the output block. The flag is false at a jump to \<open>fail\<close>.
\<close>

function string_loop :: "bytes \<Rightarrow> nat \<Rightarrow> nat \<Rightarrow> bytes \<Rightarrow> nat \<Rightarrow> (bool \<times> nat \<times> bytes \<times> nat) option" where
  "string_loop m ip ie blk op =
     (if ip < ie
      then do {
        c \<leftarrow> read_mem m ip;
        if c \<noteq> ch_bslash then do { blk1 \<leftarrow> put blk op [c]; string_loop m (ip + 1) ie blk1 (op + 1) }
        else do {
          e \<leftarrow> read_mem m (ip + 1);
          (case one_char_escape e of
             Some x \<Rightarrow> do { blk1 \<leftarrow> put blk op [x]; string_loop m (ip + 2) ie blk1 (op + 1) }
           | None \<Rightarrow>
               if e = ch_u then do {
                 (n, bs) \<leftarrow> utf16_literal_to_utf8 m ip ie;
                 if n = 0 then Some (False, ip, blk, op)
                 else do { blk1 \<leftarrow> put blk op bs; string_loop m (ip + n) ie blk1 (op + length bs) } }
               else Some (False, ip, blk, op)) } }
      else Some (True, ip, blk, op))"
  by pat_completeness auto
termination
  by (relation "measure (\<lambda>(m, ip, ie, blk, op). ie - ip)") auto

declare string_loop.simps [simp del]

definition parse_string :: "ptr \<Rightarrow> parse_buffer \<Rightarrow> heap \<Rightarrow> (bool \<times> parse_buffer \<times> heap) option" where
  "parse_string item b h =
     do {
       m \<leftarrow> pb_content b;
       c \<leftarrow> buffer_at b 0;
       if c \<noteq> ch_quote then Some (False, move 1 b, h)
       else do {
         r \<leftarrow> scan_end m (pb_length b) (pb_offset b + 1) 0;
         (case r of
            None \<Rightarrow> Some (False, move 1 b, h)
          | Some (input_end, skipped) \<Rightarrow>
              (case allocate (input_end - pb_offset b - skipped + 1) h of (output, h1) \<Rightarrow>
                 if output = 0 then Some (False, move 1 b, h1)
                 else do {
                   blk \<leftarrow> block output h1;
                   (ok, ip, blk1, op) \<leftarrow> string_loop m (pb_offset b + 1) input_end blk 0;
                   if \<not> ok then do {
                     h2 \<leftarrow> deallocate output h1;
                     Some (False, b\<lparr>pb_offset := ip\<rparr>, h2) }
                   else do {
                     blk2 \<leftarrow> put blk1 op [0];
                     h2 \<leftarrow> store item (\<lambda>n. n\<lparr>cj_type := cJSON_String\<rparr>) (h1\<lparr>h_strs := (h_strs h1)(output \<mapsto> blk2)\<rparr>);
                     h3 \<leftarrow> store item (\<lambda>n. n\<lparr>cj_valuestring := output\<rparr>) h2;
                     Some (True, b\<lparr>pb_offset := input_end + 1\<rparr>, h3) } })) } }"

section \<open>Values\<close>

text \<open>Linking a new item to the list: the head, the current item and the heap after it.\<close>

definition link_item :: "ptr \<Rightarrow> ptr \<Rightarrow> ptr \<Rightarrow> heap \<Rightarrow> (ptr \<times> ptr \<times> heap) option" where
  "link_item head cur new h =
     (if head = 0 then Some (new, new, h)
      else do { h1 \<leftarrow> store cur (\<lambda>n. n\<lparr>cj_next := new\<rparr>) h;
                h2 \<leftarrow> store new (\<lambda>n. n\<lparr>cj_prev := cur\<rparr>) h1;
                Some (head, new, h2) })"

text \<open>The labels \<open>success\<close> and \<open>fail\<close> of \<open>parse_array\<close> and \<open>parse_object\<close>.\<close>

definition container_success ::
  "u32 \<Rightarrow> ptr \<Rightarrow> ptr \<Rightarrow> ptr \<Rightarrow> parse_buffer \<Rightarrow> heap \<Rightarrow> (bool \<times> parse_buffer \<times> heap) option" where
  "container_success ty item head cur b h =
     do { h1 \<leftarrow> (if head \<noteq> 0 then store head (\<lambda>n. n\<lparr>cj_prev := cur\<rparr>) h else Some h);
          h2 \<leftarrow> store item (\<lambda>n. n\<lparr>cj_type := ty\<rparr>) h1;
          h3 \<leftarrow> store item (\<lambda>n. n\<lparr>cj_child := head\<rparr>) h2;
          Some (True, move 1 (b\<lparr>pb_depth := pb_depth b - 1\<rparr>), h3) }"

definition container_fail :: "ptr \<Rightarrow> parse_buffer \<Rightarrow> heap \<Rightarrow> (bool \<times> parse_buffer \<times> heap) option" where
  "container_fail head b h =
     (if head \<noteq> 0 then do { h1 \<leftarrow> cJSON_Delete head h; Some (False, b, h1) } else Some (False, b, h))"

function (sequential) parse_value :: "nat \<Rightarrow> ptr \<Rightarrow> parse_buffer \<Rightarrow> heap \<Rightarrow> (bool \<times> parse_buffer \<times> heap) option"
  and parse_array :: "nat \<Rightarrow> ptr \<Rightarrow> parse_buffer \<Rightarrow> heap \<Rightarrow> (bool \<times> parse_buffer \<times> heap) option"
  and array_loop :: "nat \<Rightarrow> ptr \<Rightarrow> ptr \<Rightarrow> parse_buffer \<Rightarrow> heap \<Rightarrow> (bool \<times> ptr \<times> ptr \<times> parse_buffer \<times> heap) option"
  and parse_object :: "nat \<Rightarrow> ptr \<Rightarrow> parse_buffer \<Rightarrow> heap \<Rightarrow> (bool \<times> parse_buffer \<times> heap) option"
  and object_loop :: "nat \<Rightarrow> ptr \<Rightarrow> ptr \<Rightarrow> parse_buffer \<Rightarrow> heap \<Rightarrow> (bool \<times> ptr \<times> ptr \<times> parse_buffer \<times> heap) option"
where
  "parse_value 0 item b h = None"
| "parse_value (Suc k) item b h =
     (if pb_content b = None then Some (False, b, h)
      else do {
        is_null \<leftarrow> literal_at b (str ''null'');
        if is_null then do {
          h1 \<leftarrow> store item (\<lambda>n. n\<lparr>cj_type := cJSON_NULL\<rparr>) h;
          Some (True, move 4 b, h1) }
        else do {
        is_false \<leftarrow> literal_at b (str ''false'');
        if is_false then do {
          h1 \<leftarrow> store item (\<lambda>n. n\<lparr>cj_type := cJSON_False\<rparr>) h;
          Some (True, move 5 b, h1) }
        else do {
        is_true \<leftarrow> literal_at b (str ''true'');
        if is_true then do {
          h1 \<leftarrow> store item (\<lambda>n. n\<lparr>cj_type := cJSON_True\<rparr>) h;
          h2 \<leftarrow> store item (\<lambda>n. n\<lparr>cj_valueint := 1\<rparr>) h1;
          Some (True, move 4 b, h2) }
        else if \<not> can_access_at_index b 0 then Some (False, b, h)
        else do {
          c \<leftarrow> buffer_at b 0;
          if c = ch_quote then parse_string item b h
          else if c = ch_minus \<or> ch_0 \<le> c \<and> c \<le> ch_9 then parse_number item b h
          else if c = ch_lbrack then parse_array k item b h
          else if c = ch_lbrace then parse_object k item b h
          else Some (False, b, h) } } } })"
| "parse_array 0 item b h = None"
| "parse_array (Suc k) item b h =
     (if pb_depth b \<ge> CJSON_NESTING_LIMIT then Some (False, b, h)
      else let b1 = b\<lparr>pb_depth := pb_depth b + 1\<rparr>
      in do {
        c \<leftarrow> buffer_at b1 0;
        if c \<noteq> ch_lbrack then container_fail 0 b1 h
        else do {
          b2 \<leftarrow> skip_ws_buf (move 1 b1);
          empty \<leftarrow> char_at b2 ch_rbrack;
          if empty then container_success cJSON_Array item 0 0 b2 h
          else if \<not> can_access_at_index b2 0 then container_fail 0 (step_back b2) h
          else do {
            (ok, head, cur, b3, h1) \<leftarrow> array_loop k 0 0 (step_back b2) h;
            if \<not> ok then container_fail head b3 h1
            else do {
              closed \<leftarrow> char_at b3 ch_rbrack;
              if \<not> closed then container_fail head b3 h1
              else container_success cJSON_Array item head cur b3 h1 } } } })"
| "array_loop 0 head cur b h = None"
| "array_loop (Suc k) head cur b h =
     (case cJSON_New_Item h of (new_item, h1) \<Rightarrow>
        if new_item = 0 then Some (False, head, cur, b, h1)
        else do {
          (head1, cur1, h2) \<leftarrow> link_item head cur new_item h1;
          b1 \<leftarrow> skip_ws_buf (move 1 b);
          (ok, b2, h3) \<leftarrow> parse_value k cur1 b1 h2;
          if \<not> ok then Some (False, head1, cur1, b2, h3)
          else do {
            b3 \<leftarrow> skip_ws_buf b2;
            more \<leftarrow> char_at b3 ch_comma;
            if more then array_loop k head1 cur1 b3 h3
            else Some (True, head1, cur1, b3, h3) } })"
| "parse_object 0 item b h = None"
| "parse_object (Suc k) item b h =
     (if pb_depth b \<ge> CJSON_NESTING_LIMIT then Some (False, b, h)
      else let b1 = b\<lparr>pb_depth := pb_depth b + 1\<rparr>
      in do {
        opened \<leftarrow> char_at b1 ch_lbrace;
        if \<not> opened then container_fail 0 b1 h
        else do {
          b2 \<leftarrow> skip_ws_buf (move 1 b1);
          empty \<leftarrow> char_at b2 ch_rbrace;
          if empty then container_success cJSON_Object item 0 0 b2 h
          else if \<not> can_access_at_index b2 0 then container_fail 0 (step_back b2) h
          else do {
            (ok, head, cur, b3, h1) \<leftarrow> object_loop k 0 0 (step_back b2) h;
            if \<not> ok then container_fail head b3 h1
            else do {
              closed \<leftarrow> char_at b3 ch_rbrace;
              if \<not> closed then container_fail head b3 h1
              else container_success cJSON_Object item head cur b3 h1 } } } })"
| "object_loop 0 head cur b h = None"
| "object_loop (Suc k) head cur b h =
     (case cJSON_New_Item h of (new_item, h1) \<Rightarrow>
        if new_item = 0 then Some (False, head, cur, b, h1)
        else do {
          (head1, cur1, h2) \<leftarrow> link_item head cur new_item h1;
          b1 \<leftarrow> skip_ws_buf (move 1 b);
          (named, b2, h3) \<leftarrow> parse_string cur1 b1 h2;
          if \<not> named then Some (False, head1, cur1, b2, h3)
          else do {
            b3 \<leftarrow> skip_ws_buf b2;
            h4 \<leftarrow> store cur1 (\<lambda>n. n\<lparr>cj_string := cj_valuestring n\<rparr>) h3;
            h5 \<leftarrow> store cur1 (\<lambda>n. n\<lparr>cj_valuestring := 0\<rparr>) h4;
            colon \<leftarrow> char_at b3 ch_colon;
            if \<not> colon then Some (False, head1, cur1, b3, h5)
            else do {
              b4 \<leftarrow> skip_ws_buf (move 1 b3);
              (ok, b5, h6) \<leftarrow> parse_value k cur1 b4 h5;
              if \<not> ok then Some (False, head1, cur1, b5, h6)
              else do {
                b6 \<leftarrow> skip_ws_buf b5;
                more \<leftarrow> char_at b6 ch_comma;
                if more then object_loop k head1 cur1 b6 h6
                else Some (True, head1, cur1, b6, h6) } } } })"
  by pat_completeness auto
termination
  by (relation "measure (\<lambda>x. case x of
        Inl (Inl (k, _)) \<Rightarrow> k | Inl (Inr (k, _)) \<Rightarrow> k
      | Inr (Inl (k, _)) \<Rightarrow> k | Inr (Inr (Inl (k, _))) \<Rightarrow> k | Inr (Inr (Inr (k, _))) \<Rightarrow> k)")
     (simp_all (no_asm))

section \<open>Entry points\<close>

definition parse_fuel :: "nat \<Rightarrow> nat" where
  "parse_fuel len = 3 * len + 9"

text \<open>
  The label \<open>fail\<close>: the item is deleted, the error position recorded. The result is the
  null item, what is stored through \<open>return_parse_end\<close> (as an offset from \<open>value\<close>), the heap.
\<close>

definition error_position :: "parse_buffer \<Rightarrow> nat" where
  "error_position b =
     (if pb_offset b < pb_length b then pb_offset b
      else if 0 < pb_length b then pb_length b - 1 else 0)"

definition parse_fail :: "ptr \<Rightarrow> ptr \<Rightarrow> bool \<Rightarrow> parse_buffer \<Rightarrow> heap \<Rightarrow> (ptr \<times> nat option \<times> heap) option" where
  "parse_fail value item want_end b h =
     do { h1 \<leftarrow> (if item \<noteq> 0 then cJSON_Delete item h else Some h);
          if value = 0 then Some (0, None, h1)
          else Some (0, (if want_end then Some (error_position b) else None),
                     h1\<lparr>global_error := (value, error_position b)\<rparr>) }"

definition cJSON_ParseWithLengthOpts ::
  "ptr \<Rightarrow> nat \<Rightarrow> bool \<Rightarrow> bool \<Rightarrow> heap \<Rightarrow> (ptr \<times> nat option \<times> heap) option" where
  "cJSON_ParseWithLengthOpts value buffer_length want_end require_null_terminated h =
     (let h0 = h\<lparr>global_error := (0, 0)\<rparr>;
          nobuf = \<lparr>pb_content = None, pb_length = 0, pb_offset = 0, pb_depth = 0\<rparr>
      in if value = 0 \<or> buffer_length = 0 then parse_fail value 0 want_end nobuf h0
         else do {
           content \<leftarrow> block value h0;
           (let b = \<lparr>pb_content = Some content, pb_length = buffer_length, pb_offset = 0, pb_depth = 0\<rparr>
            in case cJSON_New_Item h0 of (item, h1) \<Rightarrow>
              if item = 0 then parse_fail value 0 want_end b h1
              else do {
                (some1, b1) \<leftarrow> skip_utf8_bom b;
                (some2, b2) \<leftarrow> (if some1 then buffer_skip_whitespace b1 else Some (False, b1));
                (ok, b3, h2) \<leftarrow> (if some2 then parse_value (parse_fuel buffer_length) item b2 h1 else Some (False, b2, h1));
                if \<not> ok then parse_fail value item want_end b3 h2
                else if \<not> require_null_terminated then
                  Some (item, (if want_end then Some (pb_offset b3) else None), h2)
                else do {
                  b4 \<leftarrow> skip_ws_buf b3;
                  if pb_offset b4 \<ge> pb_length b4 then parse_fail value item want_end b4 h2
                  else do {
                    c \<leftarrow> buffer_at b4 0;
                    if c \<noteq> 0 then parse_fail value item want_end b4 h2
                    else Some (item, (if want_end then Some (pb_offset b4) else None), h2) } } }) })"

definition cJSON_ParseWithOpts :: "ptr \<Rightarrow> bool \<Rightarrow> bool \<Rightarrow> heap \<Rightarrow> (ptr \<times> nat option \<times> heap) option" where
  "cJSON_ParseWithOpts value want_end require_null_terminated h =
     (if value = 0 then Some (0, None, h)
      else do { n \<leftarrow> strlen_at value 0 h;
                cJSON_ParseWithLengthOpts value (n + 1) want_end require_null_terminated h })"

definition cJSON_Parse :: "ptr \<Rightarrow> heap \<Rightarrow> (ptr \<times> heap) option" where
  "cJSON_Parse value h = map_option (\<lambda>(item, e, h'). (item, h')) (cJSON_ParseWithOpts value False False h)"

definition cJSON_ParseWithLength :: "ptr \<Rightarrow> nat \<Rightarrow> heap \<Rightarrow> (ptr \<times> heap) option" where
  "cJSON_ParseWithLength value buffer_length h =
     map_option (\<lambda>(item, e, h'). (item, h')) (cJSON_ParseWithLengthOpts value buffer_length False False h)"

end
