(* ===== verification/CJson_Print.thy ===== *)
theory CJson_Print
  imports CJson_Heap
begin

text \<open>
  The printer of \<open>cJSON.c\<close>. The print buffer is a record whose \<open>pr_buffer\<close> points to a
  block of the heap; what \<open>ensure\<close> returns is an offset into that block (\<open>None\<close> for
  \<open>NULL\<close>), and every character is written to the block with a bounds check. The functions
  return their \<open>cJSON_bool\<close> with the updated buffer and heap. The recursion of
  \<open>print_value\<close>, \<open>print_array\<close> and \<open>print_object\<close> counts down a fuel argument.
\<close>

section \<open>The print buffer\<close>

record printbuffer =
  pr_buffer :: ptr
  pr_length :: nat
  pr_offset :: nat
  pr_depth :: nat
  pr_noalloc :: bool
  pr_format :: bool
  pr_hooks :: internal_hooks

text \<open>Characters stored one after the other from an index of a block.\<close>

definition write_at :: "ptr \<Rightarrow> nat \<Rightarrow> bytes \<Rightarrow> heap \<Rightarrow> heap option" where
  "write_at p i cs h =
     do { b \<leftarrow> block p h;
          if i + length cs \<le> length b
          then Some (h\<lparr>h_strs := (h_strs h)(p \<mapsto> take i b @ cs @ drop (i + length cs) b)\<rparr>) else None }"

text \<open>\<open>realloc\<close>: a new block with the old contents, or failure with the old block kept.\<close>

definition reallocate :: "ptr \<Rightarrow> nat \<Rightarrow> heap \<Rightarrow> (ptr \<times> heap) option" where
  "reallocate p n h =
     do { b \<leftarrow> block p h;
          case allocate n h of (q, h1) \<Rightarrow>
            if q = 0 then Some (0, h1)
            else do {
              c \<leftarrow> block q h1;
              h2 \<leftarrow> deallocate p (h1\<lparr>h_strs := (h_strs h1)(q \<mapsto> take n b @ drop (length b) c)\<rparr>);
              Some (q, h2) } }"

definition forget_buffer :: "printbuffer \<Rightarrow> printbuffer" where
  "forget_buffer p = p\<lparr>pr_length := 0, pr_buffer := 0\<rparr>"

definition ensure :: "printbuffer \<Rightarrow> nat \<Rightarrow> heap \<Rightarrow> (nat option \<times> printbuffer \<times> heap) option" where
  "ensure p needed0 h =
     (if pr_buffer p = 0 then Some (None, p, h)
      else if 0 < pr_length p \<and> pr_length p \<le> pr_offset p then Some (None, p, h)
      else if int needed0 > INT_MAX then Some (None, p, h)
      else let needed = needed0 + pr_offset p + 1
      in if needed \<le> pr_length p then Some (Some (pr_offset p), p, h)
         else if pr_noalloc p then Some (None, p, h)
         else if int needed > INT_MAX div 2 \<and> int needed > INT_MAX then Some (None, p, h)
         else let newsize = (if int needed > INT_MAX div 2 then nat INT_MAX else needed * 2)
         in if hk_reallocate (pr_hooks p) \<noteq> 0 then do {
              (newbuffer, h1) \<leftarrow> reallocate (pr_buffer p) newsize h;
              if newbuffer = 0 then do {
                h2 \<leftarrow> deallocate (pr_buffer p) h1;
                Some (None, forget_buffer p, h2) }
              else Some (Some (pr_offset p), p\<lparr>pr_length := newsize, pr_buffer := newbuffer\<rparr>, h1) }
            else (case allocate newsize h of (newbuffer, h1) \<Rightarrow>
              if newbuffer = 0 then do {
                h2 \<leftarrow> deallocate (pr_buffer p) h1;
                Some (None, forget_buffer p, h2) }
              else do {
                b \<leftarrow> block (pr_buffer p) h1;
                if length b < pr_offset p + 1 then None
                else do {
                  h2 \<leftarrow> write_at newbuffer 0 (take (pr_offset p + 1) b) h1;
                  h3 \<leftarrow> deallocate (pr_buffer p) h2;
                  Some (Some (pr_offset p), p\<lparr>pr_length := newsize, pr_buffer := newbuffer\<rparr>, h3) } }))"

definition update_offset :: "printbuffer \<Rightarrow> heap \<Rightarrow> printbuffer option" where
  "update_offset p h =
     (if pr_buffer p = 0 then Some p
      else do { n \<leftarrow> strlen_at (pr_buffer p) (pr_offset p) h; Some (p\<lparr>pr_offset := pr_offset p + n\<rparr>) })"

text \<open>Room for \<open>needed\<close> characters, then these characters at the offset.\<close>

definition emit :: "printbuffer \<Rightarrow> nat \<Rightarrow> bytes \<Rightarrow> heap \<Rightarrow> (bool \<times> printbuffer \<times> heap) option" where
  "emit p needed cs h =
     do { (out, p1, h1) \<leftarrow> ensure p needed h;
          case out of
            None \<Rightarrow> Some (False, p1, h1)
          | Some i \<Rightarrow> do { h2 \<leftarrow> write_at (pr_buffer p1) i cs h1; Some (True, p1, h2) } }"

definition advance :: "nat \<Rightarrow> printbuffer \<Rightarrow> printbuffer" where
  "advance n p = p\<lparr>pr_offset := pr_offset p + n\<rparr>"

section \<open>Numbers\<close>

definition compare_double :: "dbl \<Rightarrow> dbl \<Rightarrow> bool" where
  "compare_double a b =
     (let maxVal = (if dbl_less (dbl_abs b) (dbl_abs a) then dbl_abs a else dbl_abs b)
      in dbl_le (dbl_abs (dbl_sub a b)) (dbl_mul maxVal DBL_EPSILON))"

text \<open>The text in \<open>number_buffer\<close>.\<close>

definition number_text :: "dbl \<Rightarrow> int \<Rightarrow> bytes" where
  "number_text d valueint =
     (if is_nan d \<or> is_inf d then str ''null''
      else if dbl_eq d (dbl_of_int valueint) then dec_int valueint
      else let t15 = sprintf_g 15 d
           in case strtod t15 of (test, used) \<Rightarrow>
                if used = 0 \<or> \<not> compare_double test d then sprintf_g 17 d else t15)"

definition decimal_point_char :: u8 where
  "decimal_point_char = ch_dot"

definition print_number :: "ptr \<Rightarrow> printbuffer \<Rightarrow> heap \<Rightarrow> (bool \<times> printbuffer \<times> heap) option" where
  "print_number item p h =
     do { n \<leftarrow> load item h;
          (let t = number_text (cj_valuedouble n) (cj_valueint n)
           in if length t > 25 then Some (False, p, h)
              else do {
                (ok, p1, h1) \<leftarrow> emit p (length t + 1)
                  (map (\<lambda>c. if c = decimal_point_char then ch_dot else c) t @ [0]) h;
                if \<not> ok then Some (False, p1, h1) else Some (True, advance (length t) p1, h1) }) }"

section \<open>Strings\<close>

definition hex_digit_lower :: "nat \<Rightarrow> u8" where
  "hex_digit_lower n = (if n < 10 then ch_0 + of_nat n else ch_a + of_nat (n - 10))"

text \<open>\<open>sprintf\<close> with \<open>u%04x\<close> of a byte.\<close>

definition u04x :: "u8 \<Rightarrow> bytes" where
  "u04x c = [ch_u, ch_0, ch_0, hex_digit_lower (unat c div 16), hex_digit_lower (unat c mod 16)]"

text \<open>The additional characters the first loop counts for a character.\<close>

definition escape_cost :: "u8 \<Rightarrow> nat" where
  "escape_cost c =
     (if c = ch_quote \<or> c = ch_bslash \<or> c = 8 \<or> c = 12 \<or> c = ch_nl \<or> c = ch_cr \<or> c = ch_tab then 1
      else if c < 32 then 5 else 0)"

text \<open>The characters the second loop writes for a character.\<close>

definition escaped_char :: "u8 \<Rightarrow> bytes" where
  "escaped_char c =
     (if c > 31 \<and> c \<noteq> ch_quote \<and> c \<noteq> ch_bslash then [c]
      else ch_bslash #
        (if c = ch_bslash then [ch_bslash] else if c = ch_quote then [ch_quote]
         else if c = 8 then [ch_b] else if c = 12 then [ch_f] else if c = ch_nl then [ch_n]
         else if c = ch_cr then [ch_r] else if c = ch_tab then [ch_t] else u04x c))"

text \<open>
  The writes of the copying branch: the opening quote, the characters one after the other
  (\<open>sprintf\<close> also writes a terminator behind a \<open>\\uXXXX\<close>), the closing quote and the
  terminator at the computed length.
\<close>

fun write_escaped :: "ptr \<Rightarrow> nat \<Rightarrow> bytes \<Rightarrow> heap \<Rightarrow> heap option" where
  "write_escaped q i [] h = Some h"
| "write_escaped q i (c # cs) h =
     do { h1 \<leftarrow> write_at q i (escaped_char c @ (if length (escaped_char c) = 6 then [0] else [])) h;
          write_escaped q (i + length (escaped_char c)) cs h1 }"

definition print_string_ptr :: "ptr \<Rightarrow> printbuffer \<Rightarrow> heap \<Rightarrow> (bool \<times> printbuffer \<times> heap) option" where
  "print_string_ptr input p h =
     (if input = 0 then emit p 3 [ch_quote, ch_quote, 0] h
      else do {
        s \<leftarrow> string_at input h;
        (let escape_characters = sum_list (map escape_cost s);
             output_length = length s + escape_characters
         in do {
           (out, p1, h1) \<leftarrow> ensure p (output_length + 3) h;
           case out of
             None \<Rightarrow> Some (False, p1, h1)
           | Some i \<Rightarrow>
               if escape_characters = 0 then do {
                 h2 \<leftarrow> write_at (pr_buffer p1) i (ch_quote # s @ [ch_quote, 0]) h1;
                 Some (True, p1, h2) }
               else do {
                 h2 \<leftarrow> write_at (pr_buffer p1) i [ch_quote] h1;
                 h3 \<leftarrow> write_escaped (pr_buffer p1) (i + 1) s h2;
                 h4 \<leftarrow> write_at (pr_buffer p1) (i + output_length + 1) [ch_quote, 0] h3;
                 Some (True, p1, h4) } }) })"

definition print_string :: "ptr \<Rightarrow> printbuffer \<Rightarrow> heap \<Rightarrow> (bool \<times> printbuffer \<times> heap) option" where
  "print_string item p h = do { n \<leftarrow> load item h; print_string_ptr (cj_valuestring n) p h }"

section \<open>Values\<close>

definition print_raw :: "cjson \<Rightarrow> printbuffer \<Rightarrow> heap \<Rightarrow> (bool \<times> printbuffer \<times> heap) option" where
  "print_raw n p h =
     (if cj_valuestring n = 0 then Some (False, p, h)
      else do { s \<leftarrow> string_at (cj_valuestring n) h; emit p (length s + 1) (s @ [0]) h })"

function (sequential) print_value :: "nat \<Rightarrow> ptr \<Rightarrow> printbuffer \<Rightarrow> heap \<Rightarrow> (bool \<times> printbuffer \<times> heap) option"
  and print_array :: "nat \<Rightarrow> ptr \<Rightarrow> printbuffer \<Rightarrow> heap \<Rightarrow> (bool \<times> printbuffer \<times> heap) option"
  and print_elements :: "nat \<Rightarrow> ptr \<Rightarrow> printbuffer \<Rightarrow> heap \<Rightarrow> (bool \<times> printbuffer \<times> heap) option"
  and print_object :: "nat \<Rightarrow> ptr \<Rightarrow> printbuffer \<Rightarrow> heap \<Rightarrow> (bool \<times> printbuffer \<times> heap) option"
  and print_members :: "nat \<Rightarrow> ptr \<Rightarrow> printbuffer \<Rightarrow> heap \<Rightarrow> (bool \<times> printbuffer \<times> heap) option"
where
  "print_value 0 item p h = None"
| "print_value (Suc k) item p h =
     (if item = 0 then Some (False, p, h)
      else do {
        n \<leftarrow> load item h;
        (let t = type_low n
         in if t = cJSON_NULL then emit p 5 (str ''null'' @ [0]) h
            else if t = cJSON_False then emit p 6 (str ''false'' @ [0]) h
            else if t = cJSON_True then emit p 5 (str ''true'' @ [0]) h
            else if t = cJSON_Number then print_number item p h
            else if t = cJSON_Raw then print_raw n p h
            else if t = cJSON_String then print_string item p h
            else if t = cJSON_Array then print_array k item p h
            else if t = cJSON_Object then print_object k item p h
            else Some (False, p, h)) })"
| "print_array 0 item p h = None"
| "print_array (Suc k) item p h =
     do {
       n \<leftarrow> load item h;
       (ok, p1, h1) \<leftarrow> emit p 1 [ch_lbrack] h;
       if \<not> ok then Some (False, p1, h1)
       else do {
         (ok2, p2, h2) \<leftarrow> print_elements k (cj_child n) ((advance 1 p1)\<lparr>pr_depth := pr_depth p1 + 1\<rparr>) h1;
         if \<not> ok2 then Some (False, p2, h2)
         else do {
           (ok3, p3, h3) \<leftarrow> emit p2 2 [ch_rbrack, 0] h2;
           if \<not> ok3 then Some (False, p3, h3)
           else Some (True, p3\<lparr>pr_depth := pr_depth p3 - 1\<rparr>, h3) } } }"
| "print_elements 0 current_element p h = None"
| "print_elements (Suc k) current_element p h =
     (if current_element = 0 then Some (True, p, h)
      else do {
        (ok, p1, h1) \<leftarrow> print_value k current_element p h;
        if \<not> ok then Some (False, p1, h1)
        else do {
          p2 \<leftarrow> update_offset p1 h1;
          n \<leftarrow> load current_element h1;
          if cj_next n \<noteq> 0 then do {
            (ok2, p3, h2) \<leftarrow> emit p2 ((if pr_format p2 then 2 else 1) + 1)
              (if pr_format p2 then [ch_comma, ch_space, 0] else [ch_comma, 0]) h1;
            if \<not> ok2 then Some (False, p3, h2)
            else print_elements k (cj_next n) (advance (if pr_format p3 then 2 else 1) p3) h2 }
          else print_elements k (cj_next n) p2 h1 } })"
| "print_object 0 item p h = None"
| "print_object (Suc k) item p h =
     do {
       n \<leftarrow> load item h;
       (ok, p1, h1) \<leftarrow> emit p ((if pr_format p then 2 else 1) + 1)
         (if pr_format p then [ch_lbrace, ch_nl] else [ch_lbrace]) h;
       if \<not> ok then Some (False, p1, h1)
       else do {
         (ok2, p2, h2) \<leftarrow> print_members k (cj_child n)
           ((advance (if pr_format p1 then 2 else 1) p1)\<lparr>pr_depth := pr_depth p1 + 1\<rparr>) h1;
         if \<not> ok2 then Some (False, p2, h2)
         else do {
           (ok3, p3, h3) \<leftarrow> emit p2 (if pr_format p2 then pr_depth p2 + 1 else 2)
             ((if pr_format p2 then replicate (pr_depth p2 - 1) ch_tab else []) @ [ch_rbrace, 0]) h2;
           if \<not> ok3 then Some (False, p3, h3)
           else Some (True, p3\<lparr>pr_depth := pr_depth p3 - 1\<rparr>, h3) } } }"
| "print_members 0 current_item p h = None"
| "print_members (Suc k) current_item p h =
     (if current_item = 0 then Some (True, p, h)
      else do {
        (ok0, p0, h0) \<leftarrow> (if pr_format p then emit p (pr_depth p) (replicate (pr_depth p) ch_tab) h
                         else Some (True, p, h));
        if \<not> ok0 then Some (False, p0, h0)
        else do {
        let p1 = (if pr_format p0 then advance (pr_depth p0) p0 else p0);
        n \<leftarrow> load current_item h0;
        (ok2, p2, h2) \<leftarrow> print_string_ptr (cj_string n) p1 h0;
        if \<not> ok2 then Some (False, p2, h2)
        else do {
        p3 \<leftarrow> update_offset p2 h2;
        (ok4, p4, h4) \<leftarrow> emit p3 (if pr_format p3 then 2 else 1)
          (if pr_format p3 then [ch_colon, ch_tab] else [ch_colon]) h2;
        if \<not> ok4 then Some (False, p4, h4)
        else do {
        (ok5, p5, h5) \<leftarrow> print_value k current_item (advance (if pr_format p4 then 2 else 1) p4) h4;
        if \<not> ok5 then Some (False, p5, h5)
        else do {
        p6 \<leftarrow> update_offset p5 h5;
        m \<leftarrow> load current_item h5;
        let len = (if pr_format p6 then 1 else 0) + (if cj_next m \<noteq> 0 then 1 else 0);
        (ok7, p7, h7) \<leftarrow> emit p6 (len + 1)
          ((if cj_next m \<noteq> 0 then [ch_comma] else []) @ (if pr_format p6 then [ch_nl] else []) @ [0]) h5;
        if \<not> ok7 then Some (False, p7, h7)
        else print_members k (cj_next m) (advance len p7) h7 } } } } })"
  by pat_completeness auto
termination
  by (relation "measure (\<lambda>x. case x of
        Inl (Inl (k, _)) \<Rightarrow> k | Inl (Inr (k, _)) \<Rightarrow> k
      | Inr (Inl (k, _)) \<Rightarrow> k | Inr (Inr (Inl (k, _))) \<Rightarrow> k | Inr (Inr (Inr (k, _))) \<Rightarrow> k)")
     (simp_all (no_asm))

section \<open>Entry points\<close>

text \<open>The fuel is an argument of the entry points; a tree with \<open>n\<close> items needs at most \<open>3 n + 3\<close>.\<close>

definition print_fail :: "printbuffer \<Rightarrow> ptr \<Rightarrow> heap \<Rightarrow> (ptr \<times> heap) option" where
  "print_fail buffer printed h =
     do { h1 \<leftarrow> (if pr_buffer buffer \<noteq> 0 then deallocate (pr_buffer buffer) h else Some h);
          h2 \<leftarrow> (if printed \<noteq> 0 then deallocate printed h1 else Some h1);
          Some (0, h2) }"

definition default_buffer_size :: nat where
  "default_buffer_size = 256"

definition print :: "nat \<Rightarrow> ptr \<Rightarrow> bool \<Rightarrow> heap \<Rightarrow> (ptr \<times> heap) option" where
  "print fuel item fmt h =
     (let hooks = global_hooks h
      in case allocate default_buffer_size h of (buf, h0) \<Rightarrow>
        let buffer = \<lparr>pr_buffer = buf, pr_length = default_buffer_size, pr_offset = 0, pr_depth = 0,
                      pr_noalloc = False, pr_format = fmt, pr_hooks = hooks\<rparr>
        in if buf = 0 then print_fail buffer 0 h0
           else do {
             (ok, b1, h1) \<leftarrow> print_value fuel item buffer h0;
             if \<not> ok then print_fail b1 0 h1
             else do {
               b2 \<leftarrow> update_offset b1 h1;
               if hk_reallocate hooks \<noteq> 0 then do {
                 (printed, h2) \<leftarrow> reallocate (pr_buffer b2) (pr_offset b2 + 1) h1;
                 if printed = 0 then print_fail b2 0 h2 else Some (printed, h2) }
               else (case allocate (pr_offset b2 + 1) h1 of (printed, h2) \<Rightarrow>
                 if printed = 0 then print_fail b2 0 h2
                 else do {
                   blk \<leftarrow> block (pr_buffer b2) h2;
                   if length blk < min (pr_length b2) (pr_offset b2 + 1) then None
                   else do {
                     h3 \<leftarrow> write_at printed 0 (take (min (pr_length b2) (pr_offset b2 + 1)) blk) h2;
                     h4 \<leftarrow> write_at printed (pr_offset b2) [0] h3;
                     h5 \<leftarrow> deallocate (pr_buffer b2) h4;
                     Some (printed, h5) } }) } })"

definition cJSON_Print :: "nat \<Rightarrow> ptr \<Rightarrow> heap \<Rightarrow> (ptr \<times> heap) option" where
  "cJSON_Print fuel item h = print fuel item True h"

definition cJSON_PrintUnformatted :: "nat \<Rightarrow> ptr \<Rightarrow> heap \<Rightarrow> (ptr \<times> heap) option" where
  "cJSON_PrintUnformatted fuel item h = print fuel item False h"

definition cJSON_PrintBuffered :: "nat \<Rightarrow> ptr \<Rightarrow> int \<Rightarrow> bool \<Rightarrow> heap \<Rightarrow> (ptr \<times> heap) option" where
  "cJSON_PrintBuffered fuel item prebuffer fmt h =
     (if prebuffer < 0 then Some (0, h)
      else case allocate (nat prebuffer) h of (buf, h1) \<Rightarrow>
        if buf = 0 then Some (0, h1)
        else let p = \<lparr>pr_buffer = buf, pr_length = nat prebuffer, pr_offset = 0, pr_depth = 0,
                      pr_noalloc = False, pr_format = fmt, pr_hooks = global_hooks h1\<rparr>
             in do {
               (ok, p1, h2) \<leftarrow> print_value fuel item p h1;
               if \<not> ok then do { h3 \<leftarrow> deallocate (pr_buffer p1) h2; Some (0, h3) }
               else Some (pr_buffer p1, h2) })"

definition cJSON_PrintPreallocated :: "nat \<Rightarrow> ptr \<Rightarrow> ptr \<Rightarrow> int \<Rightarrow> bool \<Rightarrow> heap \<Rightarrow> (bool \<times> heap) option" where
  "cJSON_PrintPreallocated fuel item buffer len fmt h =
     (if len < 0 \<or> buffer = 0 then Some (False, h)
      else let p = \<lparr>pr_buffer = buffer, pr_length = nat len, pr_offset = 0, pr_depth = 0,
                    pr_noalloc = True, pr_format = fmt, pr_hooks = global_hooks h\<rparr>
           in do { (ok, p1, h1) \<leftarrow> print_value fuel item p h; Some (ok, h1) })"

end
