(* ===== verification/CJson_Items.thy ===== *)
theory CJson_Items
  imports CJson_Heap
begin

text \<open>
  The functions of \<open>cJSON.c\<close> that create items and that read and change the linked lists
  under arrays and objects: one definition for each function, in the order of the file.
  A loop along \<open>next\<close> pointers is a partial function, so a cyclic list gives \<open>None\<close>.
\<close>

section \<open>Size and access\<close>

partial_function (option) size_loop :: "ptr \<Rightarrow> nat \<Rightarrow> heap \<Rightarrow> nat option" where
  "size_loop child n h =
     (if child = 0 then Some n
      else do { c \<leftarrow> load child h; size_loop (cj_next c) (n + 1) h })"

declare size_loop.simps [code]

definition cJSON_GetArraySize :: "ptr \<Rightarrow> heap \<Rightarrow> int option" where
  "cJSON_GetArraySize array h =
     (if array = 0 then Some 0
      else do { a \<leftarrow> load array h;
                n \<leftarrow> size_loop (cj_child a) 0 h;
                Some (sint (of_nat n :: u32)) })"

fun item_loop :: "ptr \<Rightarrow> nat \<Rightarrow> heap \<Rightarrow> ptr option" where
  "item_loop current_child 0 h = Some current_child"
| "item_loop current_child (Suc index) h =
     (if current_child = 0 then Some 0
      else do { c \<leftarrow> load current_child h; item_loop (cj_next c) index h })"

definition get_array_item :: "ptr \<Rightarrow> nat \<Rightarrow> heap \<Rightarrow> ptr option" where
  "get_array_item array index h =
     (if array = 0 then Some 0
      else do { a \<leftarrow> load array h; item_loop (cj_child a) index h })"

definition cJSON_GetArrayItem :: "ptr \<Rightarrow> int \<Rightarrow> heap \<Rightarrow> ptr option" where
  "cJSON_GetArrayItem array index h =
     (if index < 0 then Some 0 else get_array_item array (nat index) h)"

text \<open>The two search loops of \<open>get_object_item\<close>.\<close>

partial_function (option) search_sensitive :: "ptr \<Rightarrow> ptr \<Rightarrow> heap \<Rightarrow> ptr option" where
  "search_sensitive name cur h =
     (if cur = 0 then Some 0
      else do {
        c \<leftarrow> load cur h;
        if cj_string c = 0 then Some cur
        else do {
          d \<leftarrow> strcmp name (cj_string c) h;
          if d = 0 then Some cur else search_sensitive name (cj_next c) h } })"

partial_function (option) search_insensitive :: "ptr \<Rightarrow> ptr \<Rightarrow> heap \<Rightarrow> ptr option" where
  "search_insensitive name cur h =
     (if cur = 0 then Some 0
      else do {
        c \<leftarrow> load cur h;
        d \<leftarrow> case_insensitive_strcmp name (cj_string c) h;
        if d = 0 then Some cur else search_insensitive name (cj_next c) h })"

declare search_sensitive.simps [code] search_insensitive.simps [code]

definition get_object_item :: "ptr \<Rightarrow> ptr \<Rightarrow> bool \<Rightarrow> heap \<Rightarrow> ptr option" where
  "get_object_item obj name case_sensitive h =
     (if obj = 0 \<or> name = 0 then Some 0
      else do {
        ob \<leftarrow> load obj h;
        current_element \<leftarrow> (if case_sensitive then search_sensitive name (cj_child ob) h
                            else search_insensitive name (cj_child ob) h);
        if current_element = 0 then Some 0
        else do {
          c \<leftarrow> load current_element h;
          if cj_string c = 0 then Some 0 else Some current_element } })"

definition cJSON_GetItemName :: "ptr \<Rightarrow> heap \<Rightarrow> ptr option" where
  "cJSON_GetItemName item h = (if item = 0 then Some 0 else do { n \<leftarrow> load item h; Some (cj_string n) })"

definition cJSON_GetObjectItem :: "ptr \<Rightarrow> ptr \<Rightarrow> heap \<Rightarrow> ptr option" where
  "cJSON_GetObjectItem obj name h = get_object_item obj name False h"

definition cJSON_GetObjectItemCaseSensitive :: "ptr \<Rightarrow> ptr \<Rightarrow> heap \<Rightarrow> ptr option" where
  "cJSON_GetObjectItemCaseSensitive obj name h = get_object_item obj name True h"

definition cJSON_HasObjectItem :: "ptr \<Rightarrow> ptr \<Rightarrow> heap \<Rightarrow> bool option" where
  "cJSON_HasObjectItem obj name h = do { p \<leftarrow> cJSON_GetObjectItem obj name h; Some (p \<noteq> 0) }"

section \<open>Adding\<close>

definition suffix_object :: "ptr \<Rightarrow> ptr \<Rightarrow> heap \<Rightarrow> heap option" where
  "suffix_object prev item h =
     do { h1 \<leftarrow> store prev (\<lambda>n. n\<lparr>cj_next := item\<rparr>) h;
          store item (\<lambda>n. n\<lparr>cj_prev := prev\<rparr>) h1 }"

definition create_reference :: "ptr \<Rightarrow> heap \<Rightarrow> (ptr \<times> heap) option" where
  "create_reference item h =
     (if item = 0 then Some (0, h)
      else case cJSON_New_Item h of (reference, h1) \<Rightarrow>
        if reference = 0 then Some (0, h1)
        else do {
          n \<leftarrow> load item h1;
          h2 \<leftarrow> store reference (\<lambda>_. n) h1;
          h3 \<leftarrow> store reference (\<lambda>m. m\<lparr>cj_string := 0\<rparr>) h2;
          h4 \<leftarrow> store reference (\<lambda>m. m\<lparr>cj_type := cj_type m OR cJSON_IsReference\<rparr>) h3;
          h5 \<leftarrow> store reference (\<lambda>m. m\<lparr>cj_next := 0, cj_prev := 0\<rparr>) h4;
          Some (reference, h5) })"

definition add_item_to_array :: "ptr \<Rightarrow> ptr \<Rightarrow> heap \<Rightarrow> (bool \<times> heap) option" where
  "add_item_to_array array item h =
     (if item = 0 \<or> array = 0 \<or> array = item then Some (False, h)
      else do {
        a \<leftarrow> load array h;
        let child = cj_child a;
        if child = 0 then do {
          h1 \<leftarrow> store array (\<lambda>n. n\<lparr>cj_child := item\<rparr>) h;
          h2 \<leftarrow> store item (\<lambda>n. n\<lparr>cj_prev := item\<rparr>) h1;
          h3 \<leftarrow> store item (\<lambda>n. n\<lparr>cj_next := 0\<rparr>) h2;
          Some (True, h3) }
        else do {
          c \<leftarrow> load child h;
          if cj_prev c \<noteq> 0 then do {
            h1 \<leftarrow> suffix_object (cj_prev c) item h;
            a1 \<leftarrow> load array h1;
            h2 \<leftarrow> store (cj_child a1) (\<lambda>n. n\<lparr>cj_prev := item\<rparr>) h1;
            Some (True, h2) }
          else Some (True, h) } })"

definition cJSON_AddItemToArray :: "ptr \<Rightarrow> ptr \<Rightarrow> heap \<Rightarrow> (bool \<times> heap) option" where
  "cJSON_AddItemToArray array item h = add_item_to_array array item h"

definition add_item_to_object :: "ptr \<Rightarrow> ptr \<Rightarrow> ptr \<Rightarrow> bool \<Rightarrow> heap \<Rightarrow> (bool \<times> heap) option" where
  "add_item_to_object obj name item constant_key h =
     (if obj = 0 \<or> name = 0 \<or> item = 0 \<or> obj = item then Some (False, h)
      else do {
        n \<leftarrow> load item h;
        (new_key, new_type, h1) \<leftarrow>
          (if constant_key then Some (name, cj_type n OR cJSON_StringIsConst, h)
           else do { (k, h') \<leftarrow> cJSON_strdup name h;
                     Some (k, cj_type n AND NOT cJSON_StringIsConst, h') });
        if new_key = 0 then Some (False, h1)
        else do {
          h2 \<leftarrow> (if \<not> string_is_const n \<and> cj_string n \<noteq> 0 then deallocate (cj_string n) h1 else Some h1);
          h3 \<leftarrow> store item (\<lambda>m. m\<lparr>cj_string := new_key\<rparr>) h2;
          h4 \<leftarrow> store item (\<lambda>m. m\<lparr>cj_type := new_type\<rparr>) h3;
          add_item_to_array obj item h4 } })"

definition cJSON_AddItemToObject :: "ptr \<Rightarrow> ptr \<Rightarrow> ptr \<Rightarrow> heap \<Rightarrow> (bool \<times> heap) option" where
  "cJSON_AddItemToObject obj name item h = add_item_to_object obj name item False h"

definition cJSON_AddItemToObjectCS :: "ptr \<Rightarrow> ptr \<Rightarrow> ptr \<Rightarrow> heap \<Rightarrow> (bool \<times> heap) option" where
  "cJSON_AddItemToObjectCS obj name item h = add_item_to_object obj name item True h"

definition cJSON_AddItemReferenceToArray :: "ptr \<Rightarrow> ptr \<Rightarrow> heap \<Rightarrow> (bool \<times> heap) option" where
  "cJSON_AddItemReferenceToArray array item h =
     (if array = 0 then Some (False, h)
      else do { (reference, h1) \<leftarrow> create_reference item h; add_item_to_array array reference h1 })"

definition cJSON_AddItemReferenceToObject :: "ptr \<Rightarrow> ptr \<Rightarrow> ptr \<Rightarrow> heap \<Rightarrow> (bool \<times> heap) option" where
  "cJSON_AddItemReferenceToObject obj name item h =
     (if obj = 0 \<or> name = 0 then Some (False, h)
      else do { (reference, h1) \<leftarrow> create_reference item h; add_item_to_object obj name reference False h1 })"

section \<open>Creating\<close>

text \<open>A new item with its first fields set, or \<open>NULL\<close>.\<close>

definition create_with :: "(cjson \<Rightarrow> cjson) \<Rightarrow> heap \<Rightarrow> (ptr \<times> heap) option" where
  "create_with f h =
     (case cJSON_New_Item h of (item, h1) \<Rightarrow>
        if item = 0 then Some (0, h1) else do { h2 \<leftarrow> store item f h1; Some (item, h2) })"

definition cJSON_CreateNull :: "heap \<Rightarrow> (ptr \<times> heap) option" where
  "cJSON_CreateNull h = create_with (\<lambda>n. n\<lparr>cj_type := cJSON_NULL\<rparr>) h"

definition cJSON_CreateTrue :: "heap \<Rightarrow> (ptr \<times> heap) option" where
  "cJSON_CreateTrue h = create_with (\<lambda>n. n\<lparr>cj_type := cJSON_True\<rparr>) h"

definition cJSON_CreateFalse :: "heap \<Rightarrow> (ptr \<times> heap) option" where
  "cJSON_CreateFalse h = create_with (\<lambda>n. n\<lparr>cj_type := cJSON_False\<rparr>) h"

definition cJSON_CreateBool :: "bool \<Rightarrow> heap \<Rightarrow> (ptr \<times> heap) option" where
  "cJSON_CreateBool boolean h =
     create_with (\<lambda>n. n\<lparr>cj_type := (if boolean then cJSON_True else cJSON_False)\<rparr>) h"

definition cJSON_CreateNumber :: "dbl \<Rightarrow> heap \<Rightarrow> (ptr \<times> heap) option" where
  "cJSON_CreateNumber num h =
     (case cJSON_New_Item h of (item, h1) \<Rightarrow>
        if item = 0 then Some (0, h1)
        else do {
          h2 \<leftarrow> store item (\<lambda>n. n\<lparr>cj_type := cJSON_Number, cj_valuedouble := num\<rparr>) h1;
          i \<leftarrow> saturated_int num;
          h3 \<leftarrow> store item (\<lambda>n. n\<lparr>cj_valueint := i\<rparr>) h2;
          Some (item, h3) })"

text \<open>The body that \<open>cJSON_CreateString\<close> and \<open>cJSON_CreateRaw\<close> share.\<close>

definition create_text :: "u32 \<Rightarrow> ptr \<Rightarrow> heap \<Rightarrow> (ptr \<times> heap) option" where
  "create_text ty txt h =
     (case cJSON_New_Item h of (item, h1) \<Rightarrow>
        if item = 0 then Some (0, h1)
        else do {
          h2 \<leftarrow> store item (\<lambda>n. n\<lparr>cj_type := ty\<rparr>) h1;
          (copy, h3) \<leftarrow> cJSON_strdup txt h2;
          h4 \<leftarrow> store item (\<lambda>n. n\<lparr>cj_valuestring := copy\<rparr>) h3;
          if copy = 0 then do { h5 \<leftarrow> cJSON_Delete item h4; Some (0, h5) }
          else Some (item, h4) })"

definition cJSON_CreateString :: "ptr \<Rightarrow> heap \<Rightarrow> (ptr \<times> heap) option" where
  "cJSON_CreateString txt h = create_text cJSON_String txt h"

definition cJSON_CreateStringReference :: "ptr \<Rightarrow> heap \<Rightarrow> (ptr \<times> heap) option" where
  "cJSON_CreateStringReference txt h =
     create_with (\<lambda>n. n\<lparr>cj_type := cJSON_String OR cJSON_IsReference, cj_valuestring := txt\<rparr>) h"

definition cJSON_CreateObjectReference :: "ptr \<Rightarrow> heap \<Rightarrow> (ptr \<times> heap) option" where
  "cJSON_CreateObjectReference child h =
     create_with (\<lambda>n. n\<lparr>cj_type := cJSON_Object OR cJSON_IsReference, cj_child := child\<rparr>) h"

definition cJSON_CreateArrayReference :: "ptr \<Rightarrow> heap \<Rightarrow> (ptr \<times> heap) option" where
  "cJSON_CreateArrayReference child h =
     create_with (\<lambda>n. n\<lparr>cj_type := cJSON_Array OR cJSON_IsReference, cj_child := child\<rparr>) h"

definition cJSON_CreateRaw :: "ptr \<Rightarrow> heap \<Rightarrow> (ptr \<times> heap) option" where
  "cJSON_CreateRaw raw h = create_text cJSON_Raw raw h"

definition cJSON_CreateArray :: "heap \<Rightarrow> (ptr \<times> heap) option" where
  "cJSON_CreateArray h = create_with (\<lambda>n. n\<lparr>cj_type := cJSON_Array\<rparr>) h"

definition cJSON_CreateObject :: "heap \<Rightarrow> (ptr \<times> heap) option" where
  "cJSON_CreateObject h = create_with (\<lambda>n. n\<lparr>cj_type := cJSON_Object\<rparr>) h"

text \<open>
  The four array constructors have one loop: \<open>mk\<close> creates the item of an element, \<open>p\<close> is
  the previous item (0 before the first). The result is the array and the last item \<open>n\<close>.
\<close>

fun array_fill :: "('a \<Rightarrow> heap \<Rightarrow> (ptr \<times> heap) option) \<Rightarrow> ptr \<Rightarrow> ptr \<Rightarrow> 'a list \<Rightarrow> heap \<Rightarrow> (bool \<times> ptr \<times> heap) option" where
  "array_fill mk a p [] h = Some (True, p, h)"
| "array_fill mk a p (x # xs) h =
     do {
       (n, h1) \<leftarrow> mk x h;
       if n = 0 then do { h2 \<leftarrow> cJSON_Delete a h1; Some (False, 0, h2) }
       else do {
         h2 \<leftarrow> (if p = 0 then store a (\<lambda>m. m\<lparr>cj_child := n\<rparr>) h1 else suffix_object p n h1);
         array_fill mk a n xs h2 } }"

definition create_array_of ::
  "('a \<Rightarrow> heap \<Rightarrow> (ptr \<times> heap) option) \<Rightarrow> 'a list option \<Rightarrow> int \<Rightarrow> heap \<Rightarrow> (ptr \<times> heap) option" where
  "create_array_of mk elements count h =
     (case elements of
        None \<Rightarrow> Some (0, h)
      | Some xs \<Rightarrow>
          if count < 0 then Some (0, h)
          else if length xs < nat count then None
          else do {
            (a, h1) \<leftarrow> cJSON_CreateArray h;
            if a = 0 then Some (0, h1)
            else do {
              (ok, n, h2) \<leftarrow> array_fill mk a 0 (take (nat count) xs) h1;
              if \<not> ok then Some (0, h2)
              else do {
                am \<leftarrow> load a h2;
                if cj_child am \<noteq> 0 then do {
                  h3 \<leftarrow> store (cj_child am) (\<lambda>m. m\<lparr>cj_prev := n\<rparr>) h2;
                  Some (a, h3) }
                else Some (a, h2) } } })"

text \<open>
  The elements are what the pointer points to, \<open>None\<close> for \<open>NULL\<close>; a count beyond them reads
  past their end. A \<open>float\<close> is given by the \<open>double\<close> it converts to.
\<close>

definition cJSON_CreateIntArray :: "int list option \<Rightarrow> int \<Rightarrow> heap \<Rightarrow> (ptr \<times> heap) option" where
  "cJSON_CreateIntArray numbers count h =
     create_array_of (\<lambda>i. cJSON_CreateNumber (dbl_of_int i)) numbers count h"

definition cJSON_CreateFloatArray :: "dbl list option \<Rightarrow> int \<Rightarrow> heap \<Rightarrow> (ptr \<times> heap) option" where
  "cJSON_CreateFloatArray numbers count h = create_array_of cJSON_CreateNumber numbers count h"

definition cJSON_CreateDoubleArray :: "dbl list option \<Rightarrow> int \<Rightarrow> heap \<Rightarrow> (ptr \<times> heap) option" where
  "cJSON_CreateDoubleArray numbers count h = create_array_of cJSON_CreateNumber numbers count h"

definition cJSON_CreateStringArray :: "ptr list option \<Rightarrow> int \<Rightarrow> heap \<Rightarrow> (ptr \<times> heap) option" where
  "cJSON_CreateStringArray strings count h = create_array_of cJSON_CreateString strings count h"

section \<open>Creating and adding in one step\<close>

text \<open>What the nine \<open>cJSON_AddXToObject\<close> functions do with the item they created.\<close>

definition add_new_to_object :: "ptr \<Rightarrow> ptr \<Rightarrow> (ptr \<times> heap) option \<Rightarrow> (ptr \<times> heap) option" where
  "add_new_to_object obj name created =
     do { (item, h1) \<leftarrow> created;
          (added, h2) \<leftarrow> add_item_to_object obj name item False h1;
          if added then Some (item, h2)
          else do { h3 \<leftarrow> cJSON_Delete item h2; Some (0, h3) } }"

definition cJSON_AddNullToObject :: "ptr \<Rightarrow> ptr \<Rightarrow> heap \<Rightarrow> (ptr \<times> heap) option" where
  "cJSON_AddNullToObject obj name h = add_new_to_object obj name (cJSON_CreateNull h)"

definition cJSON_AddTrueToObject :: "ptr \<Rightarrow> ptr \<Rightarrow> heap \<Rightarrow> (ptr \<times> heap) option" where
  "cJSON_AddTrueToObject obj name h = add_new_to_object obj name (cJSON_CreateTrue h)"

definition cJSON_AddFalseToObject :: "ptr \<Rightarrow> ptr \<Rightarrow> heap \<Rightarrow> (ptr \<times> heap) option" where
  "cJSON_AddFalseToObject obj name h = add_new_to_object obj name (cJSON_CreateFalse h)"

definition cJSON_AddBoolToObject :: "ptr \<Rightarrow> ptr \<Rightarrow> bool \<Rightarrow> heap \<Rightarrow> (ptr \<times> heap) option" where
  "cJSON_AddBoolToObject obj name boolean h = add_new_to_object obj name (cJSON_CreateBool boolean h)"

definition cJSON_AddNumberToObject :: "ptr \<Rightarrow> ptr \<Rightarrow> dbl \<Rightarrow> heap \<Rightarrow> (ptr \<times> heap) option" where
  "cJSON_AddNumberToObject obj name number h = add_new_to_object obj name (cJSON_CreateNumber number h)"

definition cJSON_AddStringToObject :: "ptr \<Rightarrow> ptr \<Rightarrow> ptr \<Rightarrow> heap \<Rightarrow> (ptr \<times> heap) option" where
  "cJSON_AddStringToObject obj name txt h = add_new_to_object obj name (cJSON_CreateString txt h)"

definition cJSON_AddRawToObject :: "ptr \<Rightarrow> ptr \<Rightarrow> ptr \<Rightarrow> heap \<Rightarrow> (ptr \<times> heap) option" where
  "cJSON_AddRawToObject obj name raw h = add_new_to_object obj name (cJSON_CreateRaw raw h)"

definition cJSON_AddObjectToObject :: "ptr \<Rightarrow> ptr \<Rightarrow> heap \<Rightarrow> (ptr \<times> heap) option" where
  "cJSON_AddObjectToObject obj name h = add_new_to_object obj name (cJSON_CreateObject h)"

definition cJSON_AddArrayToObject :: "ptr \<Rightarrow> ptr \<Rightarrow> heap \<Rightarrow> (ptr \<times> heap) option" where
  "cJSON_AddArrayToObject obj name h = add_new_to_object obj name (cJSON_CreateArray h)"

section \<open>Detaching and deleting\<close>

definition cJSON_DetachItemViaPointer :: "ptr \<Rightarrow> ptr \<Rightarrow> heap \<Rightarrow> (ptr \<times> heap) option" where
  "cJSON_DetachItemViaPointer parent item h =
     (if parent = 0 \<or> item = 0 then Some (0, h)
      else do {
        pn \<leftarrow> load parent h;
        i0 \<leftarrow> load item h;
        h1 \<leftarrow> (if item \<noteq> cj_child pn then store (cj_prev i0) (\<lambda>n. n\<lparr>cj_next := cj_next i0\<rparr>) h else Some h);
        i1 \<leftarrow> load item h1;
        h2 \<leftarrow> (if cj_next i1 \<noteq> 0 then store (cj_next i1) (\<lambda>n. n\<lparr>cj_prev := cj_prev i1\<rparr>) h1 else Some h1);
        p2 \<leftarrow> load parent h2;
        i2 \<leftarrow> load item h2;
        h3 \<leftarrow> (if item = cj_child p2 then store parent (\<lambda>n. n\<lparr>cj_child := cj_next i2\<rparr>) h2
               else if cj_next i2 = 0 then store (cj_child p2) (\<lambda>n. n\<lparr>cj_prev := cj_prev i2\<rparr>) h2
               else Some h2);
        h4 \<leftarrow> store item (\<lambda>n. n\<lparr>cj_prev := 0\<rparr>) h3;
        h5 \<leftarrow> store item (\<lambda>n. n\<lparr>cj_next := 0\<rparr>) h4;
        Some (item, h5) })"

definition cJSON_DetachItemFromArray :: "ptr \<Rightarrow> int \<Rightarrow> heap \<Rightarrow> (ptr \<times> heap) option" where
  "cJSON_DetachItemFromArray array which h =
     (if which < 0 then Some (0, h)
      else do { p \<leftarrow> get_array_item array (nat which) h; cJSON_DetachItemViaPointer array p h })"

definition cJSON_DeleteItemFromArray :: "ptr \<Rightarrow> int \<Rightarrow> heap \<Rightarrow> heap option" where
  "cJSON_DeleteItemFromArray array which h =
     do { (p, h1) \<leftarrow> cJSON_DetachItemFromArray array which h; cJSON_Delete p h1 }"

definition cJSON_DetachItemFromObject :: "ptr \<Rightarrow> ptr \<Rightarrow> heap \<Rightarrow> (ptr \<times> heap) option" where
  "cJSON_DetachItemFromObject obj name h =
     do { to_detach \<leftarrow> cJSON_GetObjectItem obj name h; cJSON_DetachItemViaPointer obj to_detach h }"

definition cJSON_DetachItemFromObjectCaseSensitive :: "ptr \<Rightarrow> ptr \<Rightarrow> heap \<Rightarrow> (ptr \<times> heap) option" where
  "cJSON_DetachItemFromObjectCaseSensitive obj name h =
     do { to_detach \<leftarrow> cJSON_GetObjectItemCaseSensitive obj name h; cJSON_DetachItemViaPointer obj to_detach h }"

definition cJSON_DeleteItemFromObject :: "ptr \<Rightarrow> ptr \<Rightarrow> heap \<Rightarrow> heap option" where
  "cJSON_DeleteItemFromObject obj name h =
     do { (p, h1) \<leftarrow> cJSON_DetachItemFromObject obj name h; cJSON_Delete p h1 }"

definition cJSON_DeleteItemFromObjectCaseSensitive :: "ptr \<Rightarrow> ptr \<Rightarrow> heap \<Rightarrow> heap option" where
  "cJSON_DeleteItemFromObjectCaseSensitive obj name h =
     do { (p, h1) \<leftarrow> cJSON_DetachItemFromObjectCaseSensitive obj name h; cJSON_Delete p h1 }"

section \<open>Inserting and replacing\<close>

definition cJSON_InsertItemInArray :: "ptr \<Rightarrow> int \<Rightarrow> ptr \<Rightarrow> heap \<Rightarrow> (bool \<times> heap) option" where
  "cJSON_InsertItemInArray array which newitem h =
     (if which < 0 then Some (False, h)
      else do {
        after_inserted \<leftarrow> get_array_item array (nat which) h;
        if after_inserted = 0 then add_item_to_array array newitem h
        else do {
          h1 \<leftarrow> store newitem (\<lambda>n. n\<lparr>cj_next := after_inserted\<rparr>) h;
          a \<leftarrow> load after_inserted h1;
          h2 \<leftarrow> store newitem (\<lambda>n. n\<lparr>cj_prev := cj_prev a\<rparr>) h1;
          h3 \<leftarrow> store after_inserted (\<lambda>n. n\<lparr>cj_prev := newitem\<rparr>) h2;
          arr \<leftarrow> load array h3;
          if after_inserted = cj_child arr then do {
            h4 \<leftarrow> store array (\<lambda>n. n\<lparr>cj_child := newitem\<rparr>) h3;
            Some (True, h4) }
          else do {
            nw \<leftarrow> load newitem h3;
            h4 \<leftarrow> store (cj_prev nw) (\<lambda>n. n\<lparr>cj_next := newitem\<rparr>) h3;
            Some (True, h4) } } })"

definition cJSON_ReplaceItemViaPointer :: "ptr \<Rightarrow> ptr \<Rightarrow> ptr \<Rightarrow> heap \<Rightarrow> (bool \<times> heap) option" where
  "cJSON_ReplaceItemViaPointer parent item replacement h =
     (if parent = 0 \<or> replacement = 0 \<or> item = 0 then Some (False, h)
      else if replacement = item then Some (True, h)
      else do {
        i0 \<leftarrow> load item h;
        h1 \<leftarrow> store replacement (\<lambda>n. n\<lparr>cj_next := cj_next i0\<rparr>) h;
        i1 \<leftarrow> load item h1;
        h2 \<leftarrow> store replacement (\<lambda>n. n\<lparr>cj_prev := cj_prev i1\<rparr>) h1;
        r2 \<leftarrow> load replacement h2;
        h3 \<leftarrow> (if cj_next r2 \<noteq> 0 then store (cj_next r2) (\<lambda>n. n\<lparr>cj_prev := replacement\<rparr>) h2 else Some h2);
        p3 \<leftarrow> load parent h3;
        h4 \<leftarrow> (if cj_child p3 = item then do {
                  c3 \<leftarrow> load (cj_child p3) h3;
                  h' \<leftarrow> (if cj_prev c3 = cj_child p3 then store replacement (\<lambda>n. n\<lparr>cj_prev := replacement\<rparr>) h3
                         else Some h3);
                  store parent (\<lambda>n. n\<lparr>cj_child := replacement\<rparr>) h' }
                else do {
                  r3 \<leftarrow> load replacement h3;
                  h' \<leftarrow> (if cj_prev r3 \<noteq> 0 then store (cj_prev r3) (\<lambda>n. n\<lparr>cj_next := replacement\<rparr>) h3 else Some h3);
                  r' \<leftarrow> load replacement h';
                  if cj_next r' = 0 then do {
                    p' \<leftarrow> load parent h';
                    store (cj_child p') (\<lambda>n. n\<lparr>cj_prev := replacement\<rparr>) h' }
                  else Some h' });
        h5 \<leftarrow> store item (\<lambda>n. n\<lparr>cj_next := 0\<rparr>) h4;
        h6 \<leftarrow> store item (\<lambda>n. n\<lparr>cj_prev := 0\<rparr>) h5;
        h7 \<leftarrow> cJSON_Delete item h6;
        Some (True, h7) })"

definition cJSON_ReplaceItemInArray :: "ptr \<Rightarrow> int \<Rightarrow> ptr \<Rightarrow> heap \<Rightarrow> (bool \<times> heap) option" where
  "cJSON_ReplaceItemInArray array which newitem h =
     (if which < 0 then Some (False, h)
      else do { p \<leftarrow> get_array_item array (nat which) h; cJSON_ReplaceItemViaPointer array p newitem h })"

definition replace_item_in_object :: "ptr \<Rightarrow> ptr \<Rightarrow> ptr \<Rightarrow> bool \<Rightarrow> heap \<Rightarrow> (bool \<times> heap) option" where
  "replace_item_in_object obj name replacement case_sensitive h =
     (if replacement = 0 \<or> name = 0 then Some (False, h)
      else do {
        r \<leftarrow> load replacement h;
        h1 \<leftarrow> (if \<not> string_is_const r \<and> cj_string r \<noteq> 0 then cJSON_free (cj_string r) h else Some h);
        (copy, h2) \<leftarrow> cJSON_strdup name h1;
        h3 \<leftarrow> store replacement (\<lambda>n. n\<lparr>cj_string := copy\<rparr>) h2;
        h4 \<leftarrow> store replacement (\<lambda>n. n\<lparr>cj_type := cj_type n AND NOT cJSON_StringIsConst\<rparr>) h3;
        p \<leftarrow> get_object_item obj name case_sensitive h4;
        cJSON_ReplaceItemViaPointer obj p replacement h4 })"

definition cJSON_ReplaceItemInObject :: "ptr \<Rightarrow> ptr \<Rightarrow> ptr \<Rightarrow> heap \<Rightarrow> (bool \<times> heap) option" where
  "cJSON_ReplaceItemInObject obj name newitem h = replace_item_in_object obj name newitem False h"

definition cJSON_ReplaceItemInObjectCaseSensitive :: "ptr \<Rightarrow> ptr \<Rightarrow> ptr \<Rightarrow> heap \<Rightarrow> (bool \<times> heap) option" where
  "cJSON_ReplaceItemInObjectCaseSensitive obj name newitem h = replace_item_in_object obj name newitem True h"

end
