(* ===== verification/CJson_Tree.thy ===== *)
theory CJson_Tree
  imports CJson_Parse CJson_Print CJson_Items
begin

text \<open>
  The operations of \<open>cJSON.c\<close> on whole trees: \<open>cJSON_Duplicate\<close> and \<open>cJSON_Compare\<close>, whose
  recursion counts down a fuel argument, and \<open>cJSON_Minify\<close>, which rewrites a text in place.
\<close>

section \<open>Duplication\<close>

definition duplicate_fail :: "ptr \<Rightarrow> heap \<Rightarrow> (ptr \<times> heap) option" where
  "duplicate_fail newitem h =
     (if newitem \<noteq> 0 then do { h1 \<leftarrow> cJSON_Delete newitem h; Some (0, h1) } else Some (0, h))"

text \<open>
  The copies of \<open>valuestring\<close> and \<open>string\<close> in turn; the flag is false at a jump to \<open>fail\<close>.
\<close>

definition duplicate_strings :: "ptr \<Rightarrow> ptr \<Rightarrow> heap \<Rightarrow> (bool \<times> heap) option" where
  "duplicate_strings item newitem h =
     do {
       n \<leftarrow> load item h;
       (ok, h1) \<leftarrow>
         (if cj_valuestring n \<noteq> 0 then do {
            (copy, h') \<leftarrow> cJSON_strdup (cj_valuestring n) h;
            h'' \<leftarrow> store newitem (\<lambda>m. m\<lparr>cj_valuestring := copy\<rparr>) h';
            Some (copy \<noteq> 0, h'') }
          else Some (True, h));
       if \<not> ok then Some (False, h1)
       else if cj_string n \<noteq> 0 then do {
         (copy, h') \<leftarrow> (if string_is_const n then Some (cj_string n, h1) else cJSON_strdup (cj_string n) h1);
         h'' \<leftarrow> store newitem (\<lambda>m. m\<lparr>cj_string := copy\<rparr>) h';
         Some (copy \<noteq> 0, h'') }
       else Some (True, h1) }"

function (sequential) cJSON_Duplicate :: "nat \<Rightarrow> ptr \<Rightarrow> bool \<Rightarrow> heap \<Rightarrow> (ptr \<times> heap) option"
  and duplicate_children :: "nat \<Rightarrow> ptr \<Rightarrow> ptr \<Rightarrow> ptr \<Rightarrow> ptr \<Rightarrow> heap \<Rightarrow> (bool \<times> ptr \<times> heap) option"
where
  "cJSON_Duplicate 0 item recurse h = None"
| "cJSON_Duplicate (Suc k) item recurse h =
     (if item = 0 then duplicate_fail 0 h
      else case cJSON_New_Item h of (newitem, h0) \<Rightarrow>
        if newitem = 0 then duplicate_fail 0 h0
        else do {
          n \<leftarrow> load item h0;
          h1 \<leftarrow> store newitem (\<lambda>m. m\<lparr>cj_type := cj_type n AND NOT cJSON_IsReference,
                 cj_valueint := cj_valueint n, cj_valuedouble := cj_valuedouble n\<rparr>) h0;
          (ok, h2) \<leftarrow> duplicate_strings item newitem h1;
          if \<not> ok then duplicate_fail newitem h2
          else if \<not> recurse then Some (newitem, h2)
          else do {
            n2 \<leftarrow> load item h2;
            (ok2, newchild, h3) \<leftarrow> duplicate_children k newitem (cj_child n2) 0 0 h2;
            if \<not> ok2 then duplicate_fail newitem h3
            else do {
              m \<leftarrow> load newitem h3;
              if cj_child m \<noteq> 0 then do {
                h4 \<leftarrow> store (cj_child m) (\<lambda>c. c\<lparr>cj_prev := newchild\<rparr>) h3;
                Some (newitem, h4) }
              else Some (newitem, h3) } } })"
| "duplicate_children 0 newitem child next newchild h = None"
| "duplicate_children (Suc k) newitem child next newchild h =
     (if child = 0 then Some (True, newchild, h)
      else do {
        (nc, h1) \<leftarrow> cJSON_Duplicate k child True h;
        if nc = 0 then Some (False, nc, h1)
        else do {
          h2 \<leftarrow> (if next \<noteq> 0 then do {
                   h' \<leftarrow> store next (\<lambda>m. m\<lparr>cj_next := nc\<rparr>) h1;
                   store nc (\<lambda>m. m\<lparr>cj_prev := next\<rparr>) h' }
                 else store newitem (\<lambda>m. m\<lparr>cj_child := nc\<rparr>) h1);
          c \<leftarrow> load child h2;
          duplicate_children k newitem (cj_next c) nc nc h2 } })"
  by pat_completeness auto
termination
  by (relation "measure (\<lambda>x. case x of Inl (k, _) \<Rightarrow> k | Inr (k, _) \<Rightarrow> k)") (simp_all (no_asm))

section \<open>Comparison\<close>

definition valid_type :: "u32 \<Rightarrow> bool" where
  "valid_type t \<longleftrightarrow> t \<in> {cJSON_False, cJSON_True, cJSON_NULL, cJSON_Number, cJSON_String, cJSON_Raw, cJSON_Array, cJSON_Object}"

function (sequential) cJSON_Compare :: "nat \<Rightarrow> ptr \<Rightarrow> ptr \<Rightarrow> bool \<Rightarrow> heap \<Rightarrow> bool option"
  and compare_arrays :: "nat \<Rightarrow> ptr \<Rightarrow> ptr \<Rightarrow> bool \<Rightarrow> heap \<Rightarrow> bool option"
  and compare_members :: "nat \<Rightarrow> ptr \<Rightarrow> ptr \<Rightarrow> bool \<Rightarrow> heap \<Rightarrow> bool option"
where
  "cJSON_Compare 0 a b case_sensitive h = None"
| "cJSON_Compare (Suc k) a b case_sensitive h =
     (if a = 0 \<or> b = 0 then Some False
      else do {
        na \<leftarrow> load a h;
        nb \<leftarrow> load b h;
        (let t = type_low na
         in if t \<noteq> type_low nb then Some False
            else if \<not> valid_type t then Some False
            else if a = b then Some True
            else if t = cJSON_False \<or> t = cJSON_True \<or> t = cJSON_NULL then Some True
            else if t = cJSON_Number then Some (compare_double (cj_valuedouble na) (cj_valuedouble nb))
            else if t = cJSON_String \<or> t = cJSON_Raw then
              (if cj_valuestring na = 0 \<or> cj_valuestring nb = 0 then Some False
               else do { d \<leftarrow> strcmp (cj_valuestring na) (cj_valuestring nb) h; Some (d = 0) })
            else if t = cJSON_Array then compare_arrays k (cj_child na) (cj_child nb) case_sensitive h
            else do {
              sub \<leftarrow> compare_members k (cj_child na) b case_sensitive h;
              if \<not> sub then Some False else compare_members k (cj_child nb) a case_sensitive h }) })"
| "compare_arrays 0 a_element b_element case_sensitive h = None"
| "compare_arrays (Suc k) a_element b_element case_sensitive h =
     (if a_element \<noteq> 0 \<and> b_element \<noteq> 0 then do {
        same \<leftarrow> cJSON_Compare k a_element b_element case_sensitive h;
        if \<not> same then Some False
        else do {
          na \<leftarrow> load a_element h;
          nb \<leftarrow> load b_element h;
          compare_arrays k (cj_next na) (cj_next nb) case_sensitive h } }
      else Some (a_element = b_element))"
| "compare_members 0 element other case_sensitive h = None"
| "compare_members (Suc k) element other case_sensitive h =
     (if element = 0 then Some True
      else do {
        n \<leftarrow> load element h;
        found \<leftarrow> get_object_item other (cj_string n) case_sensitive h;
        if found = 0 then Some False
        else do {
          same \<leftarrow> cJSON_Compare k element found case_sensitive h;
          if \<not> same then Some False
          else compare_members k (cj_next n) other case_sensitive h } })"
  by pat_completeness auto
termination
  by (relation "measure (\<lambda>x. case x of Inl (k, _) \<Rightarrow> k | Inr (Inl (k, _)) \<Rightarrow> k | Inr (Inr (k, _)) \<Rightarrow> k)")
     (simp_all (no_asm))

section \<open>Minification\<close>

text \<open>
  The two pointers \<open>json\<close> and \<open>into\<close> are indexes \<open>ip\<close> and \<open>op\<close> into the block \<open>m\<close>, which
  is read and written in place.
\<close>

definition write_mem :: "bytes \<Rightarrow> nat \<Rightarrow> u8 \<Rightarrow> bytes option" where
  "write_mem m i c = (if i < length m then Some (m[i := c]) else None)"

lemma read_mem_less: "read_mem m i = Some c \<Longrightarrow> i < length m"
  by (simp add: read_mem_def split: if_splits)

lemma write_mem_length: "write_mem m i c = Some m' \<Longrightarrow> length m' = length m"
  by (auto simp: write_mem_def split: if_splits)

function oneline_loop :: "bytes \<Rightarrow> nat \<Rightarrow> nat option" where
  "oneline_loop m ip =
     do { c \<leftarrow> read_mem m ip;
          if c = 0 then Some ip else if c = ch_nl then Some (ip + 1) else oneline_loop m (ip + 1) }"
  by pat_completeness auto
termination
  by (relation "measure (\<lambda>(m, ip). length m - ip)") (auto dest!: read_mem_less)

definition skip_oneline_comment :: "bytes \<Rightarrow> nat \<Rightarrow> nat option" where
  "skip_oneline_comment m ip = oneline_loop m (ip + 2)"

function multiline_loop :: "bytes \<Rightarrow> nat \<Rightarrow> nat option" where
  "multiline_loop m ip =
     do { c \<leftarrow> read_mem m ip;
          if c = 0 then Some ip
          else if c = ch_star then do {
            d \<leftarrow> read_mem m (ip + 1);
            if d = ch_slash then Some (ip + 2) else multiline_loop m (ip + 1) }
          else multiline_loop m (ip + 1) }"
  by pat_completeness auto
termination
  by (relation "measure (\<lambda>(m, ip). length m - ip)") (auto dest!: read_mem_less)

definition skip_multiline_comment :: "bytes \<Rightarrow> nat \<Rightarrow> nat option" where
  "skip_multiline_comment m ip = multiline_loop m (ip + 2)"

function minify_string_loop :: "bytes \<Rightarrow> nat \<Rightarrow> nat \<Rightarrow> (bytes \<times> nat \<times> nat) option" where
  "minify_string_loop m ip op =
     do {
       c \<leftarrow> read_mem m ip;
       if c = 0 then Some (m, ip, op)
       else do {
         m1 \<leftarrow> write_mem m op c;
         c1 \<leftarrow> read_mem m1 ip;
         if c1 = ch_quote then do { m2 \<leftarrow> write_mem m1 op ch_quote; Some (m2, ip + 1, op + 1) }
         else if c1 = ch_bslash then do {
           d \<leftarrow> read_mem m1 (ip + 1);
           if d = ch_quote then do {
             m2 \<leftarrow> write_mem m1 (op + 1) d;
             minify_string_loop m2 (ip + 2) (op + 2) }
           else minify_string_loop m1 (ip + 1) (op + 1) }
         else minify_string_loop m1 (ip + 1) (op + 1) } }"
  by pat_completeness auto
termination
  by (relation "measure (\<lambda>(m, ip, op). length m - ip)") (auto dest!: read_mem_less write_mem_length)

definition minify_string :: "bytes \<Rightarrow> nat \<Rightarrow> nat \<Rightarrow> (bytes \<times> nat \<times> nat) option" where
  "minify_string m ip op =
     do { c \<leftarrow> read_mem m ip;
          m1 \<leftarrow> write_mem m op c;
          minify_string_loop m1 (ip + 1) (op + 1) }"

declare oneline_loop.simps [simp del] multiline_loop.simps [simp del] minify_string_loop.simps [simp del]

lemma oneline_loop_ge: "oneline_loop m ip = Some ip' \<Longrightarrow> ip \<le> ip'"
proof (induction m ip rule: oneline_loop.induct)
  case (1 m ip)
  show ?case
  proof (cases "read_mem m ip")
    case None
    with "1.prems" show ?thesis by (subst (asm) oneline_loop.simps) simp
  next
    case (Some c)
    from "1.prems" Some show ?thesis
      by (subst (asm) oneline_loop.simps) (use "1.IH" [OF Some] in \<open>fastforce split: if_splits\<close>)
  qed
qed

lemma multiline_loop_ge: "multiline_loop m ip = Some ip' \<Longrightarrow> ip \<le> ip'"
proof (induction m ip rule: multiline_loop.induct)
  case (1 m ip)
  show ?case
  proof (cases "read_mem m ip")
    case None
    with "1.prems" show ?thesis by (subst (asm) multiline_loop.simps) simp
  next
    case (Some c)
    show ?thesis
    proof (cases "read_mem m (ip + 1)")
      case None
      with "1.prems" Some "1.IH"(2) [OF Some] show ?thesis
        by (subst (asm) multiline_loop.simps) (fastforce split: if_splits)
    next
      case d: (Some d)
      from "1.prems" Some d show ?thesis
        by (subst (asm) multiline_loop.simps)
           (use "1.IH"(1) [OF Some _ _ d] "1.IH"(2) [OF Some] in \<open>fastforce split: if_splits\<close>)
    qed
  qed
qed

lemma minify_string_loop_bounds:
  "minify_string_loop m ip op = Some (m', ip', op') \<Longrightarrow> ip \<le> ip' \<and> length m' = length m"
proof (induction m ip op rule: minify_string_loop.induct)
  case (1 m ip op)
  obtain c where c: "read_mem m ip = Some c" using "1.prems"
    by (subst (asm) minify_string_loop.simps) (auto simp: bind_eq_Some_conv)
  show ?case
  proof (cases "c = 0")
    case True
    with "1.prems" c show ?thesis by (subst (asm) minify_string_loop.simps) simp
  next
    case False
    obtain m1 where m1: "write_mem m op c = Some m1" using "1.prems" c False
      by (subst (asm) minify_string_loop.simps) (auto simp: bind_eq_Some_conv)
    obtain c1 where c1: "read_mem m1 ip = Some c1" using "1.prems" c False m1
      by (subst (asm) minify_string_loop.simps) (auto simp: bind_eq_Some_conv)
    note l1 = write_mem_length [OF m1]
    show ?thesis
    proof (cases "c1 = ch_quote")
      case True
      with "1.prems" c False m1 c1 l1 show ?thesis
        by (subst (asm) minify_string_loop.simps) (auto simp: bind_eq_Some_conv dest: write_mem_length)
    next
      case nq: False
      show ?thesis
      proof (cases "c1 = ch_bslash")
        case nb: False
        with "1.prems" c False m1 c1 l1 nq "1.IH"(3) [OF c False m1 c1 nq nb] show ?thesis
          by (subst (asm) minify_string_loop.simps) auto
      next
        case True
        obtain d where d: "read_mem m1 (ip + 1) = Some d" using "1.prems" c False m1 c1 nq True
          by (subst (asm) minify_string_loop.simps) (auto simp: bind_eq_Some_conv)
        show ?thesis
        proof (cases "d = ch_quote")
          case False': False
          with "1.prems" c False m1 c1 l1 nq True d "1.IH"(2) [OF c False m1 c1 nq True d False'] show ?thesis
            by (subst (asm) minify_string_loop.simps) auto
        next
          case dq: True
          obtain m2 where m2: "write_mem m1 (op + 1) d = Some m2" using "1.prems" c False m1 c1 nq True d dq
            by (subst (asm) minify_string_loop.simps) (auto simp: bind_eq_Some_conv)
          have "minify_string_loop m2 (ip + 2) (op + 2) = Some (m', ip', op')"
            using "1.prems" c False m1 c1 nq True d dq m2 by (subst (asm) minify_string_loop.simps) simp
          with "1.IH"(1) [OF c False m1 c1 nq True d dq m2] write_mem_length [OF m2] l1 show ?thesis by simp
        qed
      qed
    qed
  qed
qed

lemma minify_string_bounds:
  "minify_string m ip op = Some (m', ip', op') \<Longrightarrow> ip < ip' \<and> length m' = length m"
  by (auto simp: minify_string_def bind_eq_Some_conv dest!: minify_string_loop_bounds write_mem_length)

text \<open>The loop of \<open>cJSON_Minify\<close>; it gives the block and the final \<open>into\<close>.\<close>

function minify_loop :: "bytes \<Rightarrow> nat \<Rightarrow> nat \<Rightarrow> (bytes \<times> nat) option" where
  "minify_loop m ip op =
     do {
       c \<leftarrow> read_mem m ip;
       if c = 0 then Some (m, op)
       else if c = ch_space \<or> c = ch_tab \<or> c = ch_cr \<or> c = ch_nl then minify_loop m (ip + 1) op
       else if c = ch_slash then do {
         d \<leftarrow> read_mem m (ip + 1);
         if d = ch_slash then do { ip' \<leftarrow> skip_oneline_comment m ip; minify_loop m ip' op }
         else if d = ch_star then do { ip' \<leftarrow> skip_multiline_comment m ip; minify_loop m ip' op }
         else minify_loop m (ip + 1) op }
       else if c = ch_quote then do {
         (m', ip', op') \<leftarrow> minify_string m ip op;
         minify_loop m' ip' op' }
       else do { m' \<leftarrow> write_mem m op c; minify_loop m' (ip + 1) (op + 1) } }"
  by pat_completeness auto
termination
  by (relation "measure (\<lambda>(m, ip, op). length m - ip)")
     (auto dest!: read_mem_less write_mem_length minify_string_bounds
       simp: skip_oneline_comment_def skip_multiline_comment_def
       dest: oneline_loop_ge multiline_loop_ge)

declare minify_loop.simps [simp del]

definition minify_block :: "bytes \<Rightarrow> bytes option" where
  "minify_block m = do { (m', op) \<leftarrow> minify_loop m 0 0; write_mem m' op 0 }"

definition cJSON_Minify :: "ptr \<Rightarrow> heap \<Rightarrow> heap option" where
  "cJSON_Minify json h =
     (if json = 0 then Some h
      else do { m \<leftarrow> block json h;
                m' \<leftarrow> minify_block m;
                Some (h\<lparr>h_strs := (h_strs h)(json \<mapsto> m')\<rparr>) })"

end
