(* ===== verification/CJson_Grammar.thy ===== *)
theory CJson_Grammar
  imports CJson_Parse
begin

text \<open>
  The language \<open>cJSON.c\<close> accepts, without buffers, pointers or memory: a reader on a list of
  bytes that gives a value and the bytes after it. It states what \<open>parse_value\<close> and what it calls
  are for; the peculiarities of the code are written out where they differ from the
  standard: every byte up to 32 is white space, four characters after \<open>\\u\<close> that are not
  all hexadecimal digits stand for the code 0, a string ends at its first zero, a number is what
  \<open>strtod\<close> takes of at most 63 characters.
\<close>

section \<open>Values\<close>

text \<open>\<open>JsOther\<close> is what no text stands for: the value of a node of another type.\<close>

datatype json =
    JsNull
  | JsBool bool
  | JsNum dbl
  | JsStr bytes
  | JsArr "json list"
  | JsObj "(bytes \<times> json) list"
  | JsOther

section \<open>Strings\<close>

text \<open>The characters of a literal up to its closing quote, and the bytes after it.\<close>

fun str_body :: "bytes \<Rightarrow> (bytes \<times> bytes) option" where
  "str_body [] = None"
| "str_body (c # cs) =
     (if c = ch_quote then Some ([], cs)
      else if c = ch_bslash then
        (case cs of [] \<Rightarrow> None | d # ds \<Rightarrow> map_option (\<lambda>(l, r). (c # d # l, r)) (str_body ds))
      else map_option (\<lambda>(l, r). (c # l, r)) (str_body cs))"

definition simple_escapes :: "(u8 \<times> u8) list" where
  "simple_escapes = [(ch_b, 8), (ch_f, 12), (ch_n, 10), (ch_r, 13), (ch_t, 9), (ch_quote, ch_quote),
     (ch_bslash, ch_bslash), (ch_slash, ch_slash)]"

definition hex_val :: "u8 \<Rightarrow> nat option" where
  "hex_val c =
     (if is_digit c then Some (digit_val c)
      else if ch_A \<le> c \<and> c \<le> ch_F then Some (unat c - 55)
      else if ch_a \<le> c \<and> c \<le> ch_f then Some (unat c - 87)
      else None)"

definition hex4 :: "bytes \<Rightarrow> nat" where
  "hex4 cs =
     (if \<forall>c \<in> set cs. hex_val c \<noteq> None then foldl (\<lambda>v c. 16 * v + the (hex_val c)) 0 cs else 0)"

definition utf8 :: "nat \<Rightarrow> bytes" where
  "utf8 n =
     (if n < 0x80 then [of_nat n]
      else if n < 0x800 then [of_nat (0xC0 + n div 64), of_nat (0x80 + n mod 64)]
      else if n < 0x10000 then
        [of_nat (0xE0 + n div 4096), of_nat (0x80 + n div 64 mod 64), of_nat (0x80 + n mod 64)]
      else [of_nat (0xF0 + n div 262144), of_nat (0x80 + n div 4096 mod 64),
            of_nat (0x80 + n div 64 mod 64), of_nat (0x80 + n mod 64)])"

text \<open>A \<open>\\u\<close> sequence or a surrogate pair of them: how much it takes, and its bytes.\<close>

definition unicode_escape :: "bytes \<Rightarrow> (nat \<times> bytes) option" where
  "unicode_escape t =
     (if length t < 6 then None
      else let a = hex4 (take 4 (drop 2 t))
        in if a < 0xD800 \<or> 0xDFFF < a then Some (6, utf8 a)
           else if 0xDC00 \<le> a \<or> length t < 12 \<or> t ! 6 \<noteq> ch_bslash \<or> t ! 7 \<noteq> ch_u then None
           else let b = hex4 (take 4 (drop 8 t))
             in if b < 0xDC00 \<or> 0xDFFF < b then None
                else Some (12, utf8 (0x10000 + (a - 0xD800) * 0x400 + (b - 0xDC00))))"

text \<open>
  The bytes a literal stands for. The characters of a bad \<open>\\u\<close> sequence can split a
  pair; then the literal ends in a backslash, which takes the closing quote with it.
\<close>

function unescape :: "bytes \<Rightarrow> bytes option" where
  "unescape t =
     (if t = [] then Some []
      else if hd t \<noteq> ch_bslash then map_option ((#) (hd t)) (unescape (drop 1 t))
      else let e = (if length t < 2 then ch_quote else t ! 1)
        in case map_of simple_escapes e of
             Some x \<Rightarrow> map_option ((#) x) (unescape (drop 2 t))
           | None \<Rightarrow>
               if e \<noteq> ch_u then None
               else (case unicode_escape t of
                       None \<Rightarrow> None
                     | Some (k, bs) \<Rightarrow> if k = 0 then None else map_option ((@) bs) (unescape (drop k t))))"
  by pat_completeness auto
termination
  by (relation "measure length") auto

declare unescape.simps [simp del]

definition read_string :: "bytes \<Rightarrow> (bytes \<times> bytes) option" where
  "read_string t =
     (if t = [] \<or> hd t \<noteq> ch_quote then None
      else case str_body (tl t) of
             None \<Rightarrow> None
           | Some (l, r) \<Rightarrow> map_option (\<lambda>s. (cstr s, r)) (unescape l))"

section \<open>Numbers and white space\<close>

definition read_number :: "bytes \<Rightarrow> (dbl \<times> bytes) option" where
  "read_number t =
     (case strtod (takeWhile number_char (take 63 t)) of (x, n) \<Rightarrow>
        if n = 0 then None else Some (x, drop n t))"

definition json_ws :: "bytes \<Rightarrow> bytes" where
  "json_ws t = dropWhile (\<lambda>c. c \<le> 32) t"

lemma json_ws_length: "length (json_ws t) \<le> length t"
  by (simp add: json_ws_def length_dropWhile_le)

lemma json_ws_idem [simp]: "json_ws (json_ws t) = json_ws t"
  by (simp add: json_ws_def dropWhile_idem)

lemma hd_json_ws: "json_ws t \<noteq> [] \<Longrightarrow> \<not> hd (json_ws t) \<le> 32"
  by (induction t) (auto simp: json_ws_def)

lemma str_body_length: "str_body t = Some (l, r) \<Longrightarrow> length r < length t"
  by (induction t arbitrary: l r rule: str_body.induct)
    (fastforce split: if_splits list.splits)+

lemma read_string_length: "read_string t = Some (s, r) \<Longrightarrow> length r < length t"
  by (cases t) (auto simp: read_string_def split: if_splits option.splits dest: str_body_length)

lemma read_number_length: "read_number t = Some (x, r) \<Longrightarrow> t \<noteq> [] \<Longrightarrow> length r < length t"
  by (auto simp: read_number_def split: if_splits prod.splits)

section \<open>Values\<close>

text \<open>
  The depth is the number of containers around the value. That the rest of an element is
  shorter than what it was read from is tested to have the recursion end; the test never fails.
\<close>

function read_value :: "nat \<Rightarrow> bytes \<Rightarrow> (json \<times> bytes) option"
  and read_elems :: "nat \<Rightarrow> bytes \<Rightarrow> (json list \<times> bytes) option"
  and read_members :: "nat \<Rightarrow> bytes \<Rightarrow> ((bytes \<times> json) list \<times> bytes) option"
where
  "read_value d t =
     (if take 4 t = str ''null'' then Some (JsNull, drop 4 t)
      else if take 5 t = str ''false'' then Some (JsBool False, drop 5 t)
      else if take 4 t = str ''true'' then Some (JsBool True, drop 4 t)
      else if t = [] then None
      else if hd t = ch_quote then map_option (apfst JsStr) (read_string t)
      else if hd t = ch_minus \<or> is_digit (hd t) then map_option (apfst JsNum) (read_number t)
      else if hd t = ch_lbrack \<and> d < CJSON_NESTING_LIMIT then
        (let t1 = json_ws (tl t)
         in if t1 \<noteq> [] \<and> hd t1 = ch_rbrack then Some (JsArr [], tl t1)
            else do { (vs, r) \<leftarrow> read_elems (Suc d) t1;
                      if r \<noteq> [] \<and> hd r = ch_rbrack then Some (JsArr vs, tl r) else None })
      else if hd t = ch_lbrace \<and> d < CJSON_NESTING_LIMIT then
        (let t1 = json_ws (tl t)
         in if t1 \<noteq> [] \<and> hd t1 = ch_rbrace then Some (JsObj [], tl t1)
            else do { (vs, r) \<leftarrow> read_members (Suc d) t1;
                      if r \<noteq> [] \<and> hd r = ch_rbrace then Some (JsObj vs, tl r) else None })
      else None)"
| "read_elems d t =
     do { (v, r) \<leftarrow> read_value d (json_ws t);
          let r1 = json_ws r
          in if r1 \<noteq> [] \<and> hd r1 = ch_comma \<and> length r < length t
             then map_option (apfst ((#) v)) (read_elems d (tl r1))
             else Some ([v], r1) }"
| "read_members d t =
     do { (s, r) \<leftarrow> read_string (json_ws t);
          let r1 = json_ws r
          in if r1 = [] \<or> hd r1 \<noteq> ch_colon then None
             else do {
               (v, r2) \<leftarrow> read_value d (json_ws (tl r1));
               let r3 = json_ws r2
               in if r3 \<noteq> [] \<and> hd r3 = ch_comma \<and> length r2 < length t
                  then map_option (apfst ((#) (s, v))) (read_members d (tl r3))
                  else Some ([(s, v)], r3) } }"
  by pat_completeness auto

lemma json_ws_tl_length: "json_ws t \<noteq> [] \<Longrightarrow> length (tl (json_ws t)) < length t"
  using json_ws_length [of t] by (cases "json_ws t") auto

lemma json_ws_less: "length t < n \<Longrightarrow> Suc (2 * length (json_ws t)) < 2 * n"
  using json_ws_length [of t] by linarith

lemma json_ws_le: "length t \<le> n \<Longrightarrow> 2 * length (json_ws t) < Suc (2 * n)"
  using json_ws_length [of t] by linarith

lemma json_ws_tl_less: "length t < n \<Longrightarrow> length (json_ws t) - Suc 0 < n"
  using json_ws_length [of t] by linarith

termination read_value
proof (relation "measure (\<lambda>x. case x of Inl (d, t) \<Rightarrow> 2 * length t | Inr (Inl (d, t)) \<Rightarrow> 2 * length t + 1
    | Inr (Inr (d, t)) \<Rightarrow> 2 * length t + 1)", goal_cases)
  case (6 d t p s r r1)
  then have "length (tl r1) < length t"
    using read_string_length [of "json_ws t" s r] json_ws_length [of t] json_ws_tl_length [of r] by auto
  then show ?case using json_ws_le [of "tl r1" "length t"] by simp
qed (use json_ws_less [of "tl _"] json_ws_le json_ws_tl_less in \<open>auto dest!: read_string_length\<close>)

declare read_value.simps [simp del] read_elems.simps [simp del] read_members.simps [simp del]

text \<open>What is read is not empty.\<close>

lemma read_shrinks:
  "read_value d t = Some (v, r) \<Longrightarrow> length r < length t"
  "read_elems d t = Some (vs, r) \<Longrightarrow> length r < length t"
  "read_members d t = Some (ms, r) \<Longrightarrow> length r < length t"
proof (induction d t and d t and d t arbitrary: v r and vs r and ms r rule: read_value_read_elems_read_members.induct)
  case (1 d t)
  have l: "length (json_ws (tl t)) < length t" if "t \<noteq> []" using that json_ws_length [of "tl t"] by (cases t) auto
  have lit: "length (drop n t) < length t" if "take n t = c" "c \<noteq> []" "0 < n" for c :: bytes and n
    using that by (cases t) auto
  from "1.prems" consider "take 4 t = str ''null''" "r = drop 4 t" | "take 5 t = str ''false''" "r = drop 5 t"
    | "take 4 t = str ''true''" "r = drop 4 t" | s where "t \<noteq> []" "read_string t = Some (s, r)"
    | x where "t \<noteq> []" "read_number t = Some (x, r)"
    | "t \<noteq> []" "json_ws (tl t) \<noteq> []" "r = tl (json_ws (tl t))"
    | vs r' where "t \<noteq> []" "read_elems (Suc d) (json_ws (tl t)) = Some (vs, r')" "r = tl r'" "length r' < length (json_ws (tl t))"
    | ms r' where "t \<noteq> []" "read_members (Suc d) (json_ws (tl t)) = Some (ms, r')" "r = tl r'" "length r' < length (json_ws (tl t))"
    apply (subst (asm) read_value.simps)
    using "1.IH" by (auto split: if_splits simp: Let_def bind_eq_Some_conv)
  then show ?case
  proof cases
    case 1
    then show ?thesis using lit [of 4 "str ''null''"] by (simp add: str_def)
  next
    case 2
    then show ?thesis using lit [of 5 "str ''false''"] by (simp add: str_def)
  next
    case 3
    then show ?thesis using lit [of 4 "str ''true''"] by (simp add: str_def)
  next
    case 6
    then show ?thesis using l by (cases "json_ws (tl t)") auto
  qed (use l in \<open>auto dest: read_string_length read_number_length\<close>)
next
  case (2 d t)
  from "2.prems" obtain v r0 where v: "read_value d (json_ws t) = Some (v, r0)"
    by (subst (asm) read_elems.simps) (auto simp: bind_eq_Some_conv)
  have r0: "length r0 < length t" using "2.IH"(1) [OF v] json_ws_length [of t] by linarith
  have "r = json_ws r0 \<or> (\<exists>vs'. json_ws r0 \<noteq> [] \<and> read_elems d (tl (json_ws r0)) = Some (vs', r) \<and> length r < length (tl (json_ws r0)))"
    using "2.prems" v "2.IH"(2) [OF v]
    by (subst (asm) read_elems.simps) (auto simp: Let_def split: if_splits)
  then show ?case using r0 json_ws_length [of r0] json_ws_tl_less [OF r0] by auto
next
  case (3 d t)
  from "3.prems" obtain s r0 v r2 where s: "read_string (json_ws t) = Some (s, r0)" and c: "\<not> (json_ws r0 = [] \<or> hd (json_ws r0) \<noteq> ch_colon)"
    and v: "read_value d (json_ws (tl (json_ws r0))) = Some (v, r2)"
    by (subst (asm) read_members.simps) (auto simp: bind_eq_Some_conv Let_def split: if_splits)
  have "length r2 < length (json_ws (tl (json_ws r0)))" using "3.IH"(1) [OF s _ refl c v] by simp
  then have r2: "length r2 < length t"
    using read_string_length [OF s] json_ws_length [of t] json_ws_length [of "tl (json_ws r0)"] json_ws_length [of r0] by simp
  have "r = json_ws r2 \<or> (\<exists>ms'. json_ws r2 \<noteq> [] \<and> read_members d (tl (json_ws r2)) = Some (ms', r) \<and> length r < length (tl (json_ws r2)))"
    using "3.prems" s c v "3.IH"(2) [OF s _ refl c v]
    by (subst (asm) read_members.simps) (auto simp: Let_def split: if_splits)
  then show ?case using r2 json_ws_length [of r2] json_ws_tl_less [OF r2] by auto
qed

section \<open>Equations without the test\<close>

lemma read_elems_eq:
  "read_elems d t =
     do { (v, r) \<leftarrow> read_value d (json_ws t);
          if json_ws r \<noteq> [] \<and> hd (json_ws r) = ch_comma
          then map_option (apfst ((#) v)) (read_elems d (tl (json_ws r)))
          else Some ([v], json_ws r) }"
proof (cases "read_value d (json_ws t)")
  case (Some vr)
  obtain v r where vr: "vr = (v, r)" by (cases vr)
  have "length r < length t" using read_shrinks(1) [of d "json_ws t" v r] Some vr json_ws_length [of t] by simp
  then show ?thesis using Some vr by (subst read_elems.simps) (simp add: Let_def)
qed (simp add: read_elems.simps [of d t])

lemma read_members_eq:
  "read_members d t =
     do { (s, r) \<leftarrow> read_string (json_ws t);
          if json_ws r = [] \<or> hd (json_ws r) \<noteq> ch_colon then None
          else do {
            (v, r2) \<leftarrow> read_value d (json_ws (tl (json_ws r)));
            if json_ws r2 \<noteq> [] \<and> hd (json_ws r2) = ch_comma
            then map_option (apfst ((#) (s, v))) (read_members d (tl (json_ws r2)))
            else Some ([(s, v)], json_ws r2) } }"
proof (cases "read_string (json_ws t)")
  case (Some sr)
  obtain s r where sr: "sr = (s, r)" by (cases sr)
  note l = read_string_length [of "json_ws t" s r] json_ws_length [of t] json_ws_length [of r]
  show ?thesis
  proof (cases "json_ws r \<noteq> [] \<and> hd (json_ws r) = ch_colon")
    case True
    have "length r2 < length t" if "read_value d (json_ws (tl (json_ws r))) = Some (v, r2)" for v r2
      using read_shrinks(1) [OF that] l Some sr json_ws_length [of "tl (json_ws r)"] by simp
    then show ?thesis using Some sr True
      by (subst read_members.simps) (auto simp: Let_def split: bind_splits)
  qed (use Some sr in \<open>simp add: read_members.simps [of d t]\<close>)
qed (simp add: read_members.simps [of d t])

text \<open>Arrays and objects differ in the closing bracket and in what is between the commas.\<close>

definition read_container ::
  "u8 \<Rightarrow> (nat \<Rightarrow> bytes \<Rightarrow> ('a list \<times> bytes) option) \<Rightarrow> ('a list \<Rightarrow> json) \<Rightarrow> nat \<Rightarrow> bytes \<Rightarrow> (json \<times> bytes) option" where
  "read_container close rd mk d t =
     (let t1 = json_ws (tl t)
      in if t1 \<noteq> [] \<and> hd t1 = close then Some (mk [], tl t1)
         else do { (vs, r) \<leftarrow> rd (Suc d) t1;
                   if r \<noteq> [] \<and> hd r = close then Some (mk vs, tl r) else None })"

abbreviation no_literal :: "bytes \<Rightarrow> bool" where
  "no_literal t \<equiv> take 4 t \<noteq> str ''null'' \<and> take 5 t \<noteq> str ''false'' \<and> take 4 t \<noteq> str ''true''"

lemma no_literalI: "hd t \<notin> {ch_n, ch_f, ch_t} \<Longrightarrow> no_literal t"
  by (cases t) (auto simp: str_def)

lemma read_value_cases:
  assumes "no_literal t"
  shows "read_value d t =
     (if t = [] then None
      else if hd t = ch_quote then map_option (apfst JsStr) (read_string t)
      else if hd t = ch_minus \<or> is_digit (hd t) then map_option (apfst JsNum) (read_number t)
      else if hd t = ch_lbrack then
        (if d < CJSON_NESTING_LIMIT then read_container ch_rbrack read_elems JsArr d t else None)
      else if hd t = ch_lbrace then
        (if d < CJSON_NESTING_LIMIT then read_container ch_rbrace read_members JsObj d t else None)
      else None)"
  using assms by (subst read_value.simps) (simp add: read_container_def)

end
