(* ===== verification/CJson_Escapes.thy ===== *)
theory CJson_Escapes
  imports CJson_Grammar
begin

text \<open>
  The escapes of a string literal: the code's hexadecimal digits, its UTF-16 decoder, its UTF-8
  encoder, the scan for the closing quote and the loop that writes the characters, each proved
  to do on memory what the reader does on a list of bytes.
\<close>

section \<open>UTF-8\<close>

lemma bit_lt_8: "(i :: nat) < 8 \<longleftrightarrow> i \<in> {0, 1, 2, 3, 4, 5, 6, 7}"
  by auto

lemma or_plus: "a AND b = 0 \<Longrightarrow> a OR b = a + b" for a b :: "'a::len word"
  by (simp add: disjunctive_add_eq_or)

lemma low_bits: "(of_nat (unat cp mod 64) :: u8) = ucast (cp AND 0x3F)" for cp :: u32
proof -
  have "cp AND 0x3F = cp mod 64" using take_bit_eq_mask [of 6 cp] by (simp add: take_bit_eq_mod mask_numeral)
  then have "unat cp mod 64 = unat (cp AND 0x3F)" by (simp add: unat_mod)
  then show ?thesis by simp
qed

lemma tail_byte: "(ucast ((cp OR 0x80) AND 0xBF) :: u8) = of_nat (0x80 + unat cp mod 64)" for cp :: u32
proof -
  have "(ucast ((cp OR 0x80) AND 0xBF) :: u8) = 0x80 OR ucast (cp AND 0x3F)"
    by (rule bit_word_eqI) (auto simp: bit_simps bit_lt_8)
  also have "\<dots> = 0x80 + ucast (cp AND 0x3F)"
    by (rule or_plus, rule bit_word_eqI) (auto simp: bit_simps bit_lt_8)
  finally show ?thesis by (simp flip: low_bits)
qed

lemma ucast_plus_down: "(ucast (a + b) :: u8) = ucast a + ucast b" for a b :: u32
proof -
  have m: "(of_nat (x mod 4294967296) :: u8) = of_nat x" for x
    by (simp only: word_of_nat_eq_iff take_bit_eq_mod) (simp add: mod_mod_cancel)
  have "(ucast (a + b) :: u8) = of_nat (unat (a + b))" by simp
  also have "\<dots> = of_nat ((unat a + unat b) mod 4294967296)" by (simp only: unat_word_ariths) simp
  also have "\<dots> = ucast a + ucast b" unfolding m by simp
  finally show ?thesis .
qed

lemma mask_id: "unat c < 2 ^ k \<Longrightarrow> c AND mask k = c" for c :: u32
proof -
  assume "unat c < 2 ^ k"
  then have "unat (take_bit k c) = unat c" by (simp add: unsigned_take_bit_eq take_bit_nat_eq_self)
  then show ?thesis by (simp add: take_bit_eq_mask word_unat_eq_iff)
qed

lemma head_byte:
  fixes c h :: u32
  assumes "unat c < 2 ^ k" and "mask k AND h = 0"
  shows "(ucast ((c OR h) AND 0xFF) :: u8) = of_nat (unat h + unat c)"
proof -
  have "c AND mask k = c" using assms(1) by (rule mask_id)
  then have "c AND h = (c AND mask k) AND h" by simp
  also have "\<dots> = 0" using assms(2) by (simp add: and.assoc)
  finally have "c OR h = c + h" by (rule or_plus)
  moreover have "(ucast ((c OR h) AND 0xFF) :: u8) = ucast (c OR h)"
    by (rule bit_word_eqI) (auto simp: bit_simps bit_lt_8)
  ultimately show ?thesis by (simp add: ucast_plus_down add.commute)
qed

lemma unat_drop6: "unat (drop_bit 6 cp) = unat cp div 64" for cp :: u32
  by (simp add: drop_bit_eq_div unat_div)

lemma utf8_tail_steps:
  "utf8_tail 1 cp acc = (drop_bit 6 cp, ucast ((cp OR 0x80) AND 0xBF) # acc)"
  "utf8_tail 2 cp acc = utf8_tail 1 (drop_bit 6 cp) (ucast ((cp OR 0x80) AND 0xBF) # acc)"
  "utf8_tail 3 cp acc = utf8_tail 2 (drop_bit 6 cp) (ucast ((cp OR 0x80) AND 0xBF) # acc)"
  by (simp_all only: numeral_2_eq_2 numeral_3_eq_3 One_nat_def utf8_tail.simps)

text \<open>The code's encoder gives the standard's bytes.\<close>

lemma utf8_encode_eq: "utf8_encode cp = (if cp \<le> 0x10FFFF then Some (utf8 (unat cp)) else None)"
proof -
  have d: "unat cp div 64 div 64 = unat cp div 4096" "unat cp div 4096 div 64 = unat cp div 262144" by (simp_all add: div_mult2_eq [symmetric])
  consider "cp < 0x80" | "\<not> cp < 0x80" "cp < 0x800" | "\<not> cp < 0x800" "cp < 0x10000" | "\<not> cp < 0x10000" "cp \<le> 0x10FFFF" | "\<not> cp \<le> 0x10FFFF"
    by blast
  then show ?thesis
  proof cases
    case 1
    then have "cp AND mask 7 = cp" by (intro mask_id) (simp add: word_less_nat_alt)
    then show ?thesis using 1 by (simp add: utf8_encode_def utf8_def word_less_nat_alt word_le_nat_alt mask_numeral)
  next
    case 2
    then have b: "unat cp < 0x800" "\<not> unat cp < 0x80" "cp \<le> 0x10FFFF" by (simp_all add: word_less_nat_alt word_le_nat_alt)
    have "unat (drop_bit 6 cp) < 2 ^ 5" using b by (simp add: unat_drop6)
    from head_byte [OF this, where h = "0xC0"] show ?thesis using 2 b
      by (simp add: utf8_encode_def utf8_def utf8_tail_steps tail_byte unat_drop6 mask_numeral)
  next
    case 3
    then have b: "unat cp < 0x10000" "\<not> unat cp < 0x800" "\<not> unat cp < 0x80" "\<not> cp < 0x80" "cp \<le> 0x10FFFF" by (simp_all add: word_less_nat_alt word_le_nat_alt)
    have "unat (drop_bit 6 (drop_bit 6 cp)) < 2 ^ 4" using b(1) unfolding unat_drop6 d by simp
    from head_byte [OF this, where h = "0xE0"] show ?thesis using 3 b
      by (simp add: utf8_encode_def utf8_def utf8_tail_steps tail_byte unat_drop6 mask_numeral d del: drop_bit_drop_bit)
  next
    case 4
    then have b: "unat cp \<le> 0x10FFFF" "\<not> unat cp < 0x10000" "\<not> unat cp < 0x800" "\<not> unat cp < 0x80" "\<not> cp < 0x800" "\<not> cp < 0x80"
      by (simp_all add: word_less_nat_alt word_le_nat_alt)
    have "unat (drop_bit 6 (drop_bit 6 (drop_bit 6 cp))) < 2 ^ 3" using b(1) unfolding unat_drop6 d by simp
    from head_byte [OF this, where h = "0xF0"] show ?thesis using 4 b
      by (simp add: utf8_encode_def utf8_def utf8_tail_steps tail_byte unat_drop6 mask_numeral d del: drop_bit_drop_bit)
  next
    case 5
    then show ?thesis by (simp add: utf8_encode_def) unat_arith
  qed
qed

section \<open>Hexadecimal digits\<close>

lemma u8_range: "a \<le> c \<Longrightarrow> c \<le> b \<Longrightarrow> unat a \<le> unat c \<and> unat c \<le> unat b" for a b c :: u8
  by (simp add: word_le_nat_alt)

lemma hex4_digit_eq: "hex4_digit c = map_option of_nat (hex_val c)"
proof -
  have e: "hex4_digit c = (if is_digit c then Some (ucast c - 0x30) else if ch_A \<le> c \<and> c \<le> ch_F then Some (ucast c - 55)
      else if ch_a \<le> c \<and> c \<le> ch_f then Some (ucast c - 87) else None)"
    by (simp add: hex4_digit_def is_digit_def)
  have sub: "(ucast c - of_nat k :: u32) = of_nat (unat c - k)" if "k \<le> unat c" for k
    using that by (simp add: of_nat_diff)
  show ?thesis unfolding e hex_val_def
    using u8_range [of ch_0 c ch_9] u8_range [of ch_A c ch_F] u8_range [of ch_a c ch_f] sub [of 48] sub [of 55] sub [of 87]
    by (auto simp: digit_val_def is_digit_def unat_sub)
qed

lemma hex_val_less: "hex_val c = Some v \<Longrightarrow> v < 16"
  using u8_range [of ch_0 c ch_9] u8_range [of ch_A c ch_F] u8_range [of ch_a c ch_f]
  by (auto simp: hex_val_def digit_val_def is_digit_def unat_sub split: if_splits)

lemma take_4: "p + 3 < length m \<Longrightarrow> take 4 (drop p m) = [m ! p, m ! (p + 1), m ! (p + 2), m ! (p + 3)]"
  by (rule nth_equalityI) (auto simp: numeral_eq_Suc less_Suc_eq nth_Cons split: nat.split)

lemma push_4: "push_bit 4 x = 16 * x" for x :: u32
  by (simp add: push_bit_eq_mult)

lemma parse_hex4_eq:
  assumes "p + 3 < length m"
  shows "parse_hex4 m p = Some (of_nat (hex4 (take 4 (drop p m))))"
proof -
  have r: "read_mem m (p + i) = Some (m ! (p + i))" if "i < 4" for i using that assms by (simp add: read_mem_def)
  show ?thesis
    unfolding take_4 [OF assms] parse_hex4_def hex4_def hex4_loop.simps hex4_digit_eq
    using r [of 0] r [of 1] r [of 2] r [of 3]
    by (auto simp: push_4 split: option.splits)
qed

lemma hex4_less: "length cs = 4 \<Longrightarrow> hex4 cs < 0x10000"
proof -
  assume "length cs = 4"
  then obtain a b c d where cs: "cs = [a, b, c, d]" by (auto simp: numeral_eq_Suc length_Suc_conv)
  show ?thesis
  proof (cases "\<forall>c \<in> set cs. hex_val c \<noteq> None")
    case True
    then obtain v0 v1 v2 v3 where v: "hex_val a = Some v0" "hex_val b = Some v1" "hex_val c = Some v2" "hex_val d = Some v3"
      unfolding cs by auto
    note hex_val_less [OF v(1)] hex_val_less [OF v(2)] hex_val_less [OF v(3)] hex_val_less [OF v(4)]
    then show ?thesis using True v unfolding cs hex4_def by simp
  qed (auto simp: hex4_def)
qed

section \<open>Unicode escapes\<close>

text \<open>The text of a literal that ends at \<open>ie\<close>, from a position on.\<close>

definition lit_from :: "bytes \<Rightarrow> nat \<Rightarrow> nat \<Rightarrow> bytes" where
  "lit_from m ip ie = drop ip (take ie m)"

lemma lit_from_simps:
  assumes "ie < length m"
  shows "length (lit_from m ip ie) = ie - ip" "ip + i < ie \<Longrightarrow> lit_from m ip ie ! i = m ! (ip + i)"
    "drop k (lit_from m ip ie) = lit_from m (ip + k) ie" "ip + k \<le> ie \<Longrightarrow> take k (lit_from m ip ie) = take k (drop ip m)"
    "lit_from m ip ie = [] \<longleftrightarrow> ie \<le> ip"
  using assms by (auto simp: lit_from_def add.commute take_drop)

lemma surrogate_pair:
  assumes "0xD800 \<le> a" "a < 0xDC00" "0xDC00 \<le> b" "b \<le> 0xDFFF"
  shows "0x10000 + (push_bit 10 (of_nat a AND 0x3FF) OR (of_nat b AND 0x3FF)) = (of_nat (0x10000 + (a - 0xD800) * 0x400 + (b - 0xDC00)) :: u32)"
proof -
  have m: "(of_nat n AND 0x3FF :: u32) = of_nat (n mod 0x400)" for n :: nat
  proof -
    have "(of_nat n AND 0x3FF :: u32) = take_bit 10 (of_nat n)" by (simp add: take_bit_eq_mask mask_numeral)
    also have "\<dots> = of_nat (take_bit 10 n)" by (simp only: take_bit_of_nat)
    finally show ?thesis by (simp only: take_bit_eq_mod) simp
  qed
  have p: "(push_bit 10 (of_nat x) OR of_nat y :: u32) = of_nat (x * 0x400 + y)" if y: "y < 0x400" for x y :: nat
  proof -
    have c: "mask 10 AND (of_nat y :: u32) = of_nat y"
      using y mask_id [of "of_nat y" 10] by (simp add: unsigned_of_nat take_bit_nat_eq_self and.commute)
    have "(push_bit 10 (of_nat x) AND (mask 10 AND of_nat y) :: u32) = 0"
      by (rule bit_word_eqI) (simp add: bit_simps)
    then have "(push_bit 10 (of_nat x) AND of_nat y :: u32) = 0" unfolding c .
    then show ?thesis by (simp add: or_plus push_bit_eq_mult)
  qed
  have md: "n mod 0x400 = n - k * 0x400" if "k * 0x400 \<le> n" "n < k * 0x400 + 0x400" for n k :: nat
  proof -
    have "n mod 0x400 = (n - k * 0x400 + k * 0x400) mod 0x400" using that(1) by simp
    also have "\<dots> = n - k * 0x400" using that by (simp only: mod_mult_self1) simp
    finally show ?thesis .
  qed
  have "a mod 0x400 = a - 0xD800" "b mod 0x400 = b - 0xDC00" using assms md [of 54 a] md [of 55 b] by simp_all
  then show ?thesis using assms unfolding m by (subst p) simp_all
qed

text \<open>On a literal inside a block, the code's decoder does what the reader does.\<close>

lemma utf16_eq:
  assumes "ie < length m" and "ip < ie"
  shows "utf16_literal_to_utf8 m ip ie = Some (case unicode_escape (lit_from m ip ie) of None \<Rightarrow> (0, []) | Some r \<Rightarrow> r)"
proof (cases "ie < ip + 6")
  case True
  then have "length (lit_from m ip ie) < 6" using assms by (simp add: lit_from_simps)
  then show ?thesis using True by (simp add: utf16_literal_to_utf8_def unicode_escape_def)
next
  case l6: False
  let ?t = "lit_from m ip ie"
  note lf = lit_from_simps [OF assms(1)]
  define a where "a = hex4 (take 4 (drop 2 ?t))"
  have a: "parse_hex4 m (ip + 2) = Some (of_nat a)"
    using l6 assms parse_hex4_eq [of "ip + 2" m] by (simp add: a_def lf)
  have al: "a < 0x10000" unfolding a_def using l6 assms by (intro hex4_less) (simp add: lf min_def)
  have un: "unat (of_nat n :: u32) = n" if "n < 0x200000" for n
    using that by (simp add: unsigned_of_nat take_bit_nat_eq_self)
  have cmp: "k \<le> (of_nat n :: u32) \<longleftrightarrow> unat k \<le> n" "(of_nat n :: u32) \<le> k \<longleftrightarrow> n \<le> unat k"
    "k < (of_nat n :: u32) \<longleftrightarrow> unat k < n" "(of_nat n :: u32) < k \<longleftrightarrow> n < unat k" if "n < 0x10000" for n k
    using that un [of n] by (simp_all add: word_le_nat_alt word_less_nat_alt)
  have l: "length ?t = ie - ip" "\<not> length ?t < 6" using l6 by (simp_all add: lf)
  note unf = utf16_literal_to_utf8_def unicode_escape_def a_def [symmetric] Let_def
  consider "a < 0xD800 \<or> 0xDFFF < a" | "0xDC00 \<le> a" "a \<le> 0xDFFF" | "0xD800 \<le> a" "a < 0xDC00" by linarith
  then show ?thesis
  proof cases
    case 1
    have le: "(of_nat a :: u32) \<le> 0x10FFFF" using al by (simp add: cmp)
    show ?thesis using 1 l6 l al le a by (auto simp: unf utf8_encode_eq cmp un)
  next
    case 2
    then show ?thesis using l6 l al a by (simp add: unf cmp)
  next
    case 3
    show ?thesis
    proof (cases "ie < ip + 12")
      case True
      then have "length ?t < 12" using assms(2) by (simp add: lf)
      then show ?thesis using True 3 l6 l(2) al a by (simp add: unf cmp)
    next
      case l12: False
      have t67: "?t ! 6 = m ! (ip + 6)" "?t ! 7 = m ! (ip + 7)" using l12 by (simp_all add: lf)
      have rd: "read_mem m (ip + 6) = Some (m ! (ip + 6))" "read_mem m (ip + 6 + 1) = Some (m ! (ip + 7))"
        using l12 assms by (simp_all add: read_mem_def add.commute)
      define b where "b = hex4 (take 4 (drop 8 ?t))"
      have b: "parse_hex4 m (ip + 6 + 2) = Some (of_nat b)"
        using l12 assms parse_hex4_eq [of "ip + 8" m] by (simp add: b_def lf add.commute)
      have bl: "b < 0x10000" unfolding b_def using l12 assms by (intro hex4_less) (simp add: lf min_def)
      have l12': "\<not> length ?t < 12" "\<not> ie < ip + 6 + 6" using l l12 by simp_all
      show ?thesis
      proof (cases "m ! (ip + 6) \<noteq> ch_bslash \<or> m ! (ip + 7) \<noteq> ch_u \<or> b < 0xDC00 \<or> 0xDFFF < b")
        case True
        then show ?thesis using 3 l6 l(2) l12' al bl a b rd t67
          by (auto simp: unf b_def [symmetric] cmp)
      next
        case False
        let ?cp = "0x10000 + (a - 0xD800) * 0x400 + (b - 0xDC00)"
        have cl: "?cp \<le> 0x10FFFF" using 3 False by linarith
        then have "unat (of_nat ?cp :: u32) = ?cp" by (intro un) linarith
        moreover note cl
        ultimately have e: "utf8_encode (of_nat ?cp) = Some (utf8 ?cp)"
          by (simp only: utf8_encode_eq word_le_nat_alt) simp
        have sp: "0x10000 + (push_bit 10 (of_nat a AND 0x3FF) OR (of_nat b AND 0x3FF)) = (of_nat ?cp :: u32)"
          using 3 False by (intro surrogate_pair) simp_all
        have c1: "\<not> (0xDC00 \<le> (of_nat a :: u32) \<and> (of_nat a :: u32) \<le> 0xDFFF)" "0xD800 \<le> (of_nat a :: u32) \<and> (of_nat a :: u32) \<le> 0xDBFF"
          "\<not> ((of_nat b :: u32) < 0xDC00 \<or> (of_nat b :: u32) > 0xDFFF)"
          using 3 False al bl by (auto simp: cmp)
        have "utf16_literal_to_utf8 m ip ie = Some (12, utf8 ?cp)"
          using c1 l6 l12'(2) rd False
          by (simp only: de_Morgan_disj not_not utf16_literal_to_utf8_def Let_def a b if_False if_True simp_thms bind.bind_lunit sp e option.case)
        moreover have "unicode_escape ?t = Some (12, utf8 ?cp)"
          using 3 False l(2) l12' t67 by (simp add: unf b_def [symmetric])
        ultimately show ?thesis by simp
      qed
    qed
  qed
qed

section \<open>Literals\<close>

lemma one_char_escape_eq: "one_char_escape c = map_of simple_escapes c"
  by (simp add: one_char_escape_def simple_escapes_def)

lemma put_prefix: "put blk op bs = Some b \<Longrightarrow> take (op + length bs) b = take op blk @ bs"
  by (auto simp: put_def split: if_splits)

lemma unicode_escape_pos: "unicode_escape t = Some (k, bs) \<Longrightarrow> 0 < k"
  by (auto simp: unicode_escape_def Let_def split: if_splits)

lemma map_cons: "map_option ((#) c) x = map_option ((@) [c]) x"
  by (cases x) simp_all

lemma string_loop_eq:
  assumes "ie < length m" and "m ! ie = ch_quote"
  shows "string_loop m ip ie blk op = Some (ok, ip', b, op') \<Longrightarrow>
    (case unescape (lit_from m ip ie) of
       None \<Rightarrow> \<not> ok
     | Some s \<Rightarrow> ok \<and> op' = op + length s \<and> take op' b = take op blk @ s)"
proof (induction "ie - ip" arbitrary: ip blk op rule: less_induct)
  case less
  let ?t = "lit_from m ip ie"
  note lf = lit_from_simps [OF assms(1)]
  show ?case
  proof (cases "ip < ie")
    case False
    then have "?t = []" "string_loop m ip ie blk op = Some (True, ip, blk, op)"
      by (simp_all add: lf string_loop.simps [of m ip])
    then show ?thesis using less.prems by (simp add: unescape.simps)
  next
    case ip: True
    then have ne: "?t \<noteq> []" and hd: "hd ?t = m ! ip" using lf(2) [of ip 0] by (auto simp: lf hd_conv_nth)
    have rd: "read_mem m ip = Some (m ! ip)" "read_mem m (ip + 1) = Some (m ! (ip + 1))"
      using ip assms(1) by (simp_all add: read_mem_def)
    have step: ?thesis if u: "unescape ?t = map_option ((@) bs) (unescape (lit_from m (ip + k) ie))" and k: "0 < k"
      and r: "put blk op bs \<bind> (\<lambda>b1. string_loop m (ip + k) ie b1 (op + length bs)) = Some (ok, ip', b, op')" for bs k
    proof -
      from r obtain b1 where b1: "put blk op bs = Some b1" "string_loop m (ip + k) ie b1 (op + length bs) = Some (ok, ip', b, op')"
        by (auto simp: bind_eq_Some_conv)
      have "ie - (ip + k) < ie - ip" using ip k by simp
      from less.hyps [OF this b1(2)] put_prefix [OF b1(1)] show ?thesis
        unfolding u by (auto split: option.splits)
    qed
    show ?thesis
    proof (cases "m ! ip = ch_bslash")
      case False
      then have "unescape ?t = map_option ((@) [m ! ip]) (unescape (lit_from m (ip + 1) ie))"
        using ne hd lf(3) [of 1] by (subst unescape.simps) (simp add: map_cons)
      then show ?thesis
        by (rule step) (use less.prems ip False rd in \<open>simp_all add: string_loop.simps [of m ip]\<close>)
    next
      case esc: True
      let ?e = "m ! (ip + 1)"
      have e: "(if length ?t < 2 then ch_quote else ?t ! 1) = ?e"
      proof (cases "ip + 1 = ie")
        case True
        then show ?thesis using assms(2) by (simp add: lf)
      next
        case False
        then have "\<not> length ?t < 2" "?t ! 1 = ?e" using ip lf(2) [of ip 1] by (simp_all add: lf)
        then show ?thesis by simp
      qed
      show ?thesis
      proof (cases "one_char_escape ?e")
        case (Some x)
        then have "unescape ?t = map_option ((@) [x]) (unescape (lit_from m (ip + 2) ie))"
          using ne hd esc lf(3) [of 2] e
          by (subst unescape.simps) (simp add: Let_def one_char_escape_eq [symmetric] map_cons)
        then show ?thesis
          by (rule step) (use less.prems ip esc rd Some in \<open>simp_all add: string_loop.simps [of m ip]\<close>)
      next
        case None
        show ?thesis
        proof (cases "?e = ch_u")
          case False
          then have "unescape ?t = None" using ne hd esc e None
            by (subst unescape.simps) (simp add: Let_def one_char_escape_eq [symmetric])
          moreover have "\<not> ok" using less.prems ip esc rd None False by (simp add: string_loop.simps [of m ip])
          ultimately show ?thesis by simp
        next
          case True
          have un: "unescape ?t = (case unicode_escape ?t of None \<Rightarrow> None
              | Some (k, bs) \<Rightarrow> map_option ((@) bs) (unescape (lit_from m (ip + k) ie)))"
            using ne hd esc e None True unicode_escape_pos [of ?t]
            by (subst unescape.simps) (auto simp: Let_def one_char_escape_eq [symmetric] lf(3) split: option.splits)
          have lo: "string_loop m ip ie blk op = (case unicode_escape ?t of None \<Rightarrow> Some (False, ip, blk, op)
              | Some (k, bs) \<Rightarrow> put blk op bs \<bind> (\<lambda>b1. string_loop m (ip + k) ie b1 (op + length bs)))"
            using ip esc rd None True utf16_eq [OF assms(1) ip] unicode_escape_pos [of ?t]
            by (auto simp: string_loop.simps [of m ip] split: option.splits)
          show ?thesis
          proof (cases "unicode_escape ?t")
            case None
            then show ?thesis using less.prems un lo by simp
          next
            case (Some kb)
            obtain k bs where kb: "kb = (k, bs)" by (cases kb)
            show ?thesis by (rule step [of bs k]) (use un lo Some kb unicode_escape_pos [of ?t] less.prems in simp_all)
          qed
        qed
      qed
    qed
  qed
qed

text \<open>The scan for the closing quote.\<close>

lemma scan_end_eq:
  assumes "len \<le> length m"
  shows "scan_end m len i s = Some None \<Longrightarrow> str_body (drop i (take len m)) = None"
    and "scan_end m len i s = Some (Some (e, k)) \<Longrightarrow>
      i \<le> e \<and> e < len \<and> str_body (drop i (take len m)) = Some (drop i (take e m), drop (e + 1) (take len m))"
proof -
  have "(scan_end m len i s = Some None \<longrightarrow> str_body (drop i (take len m)) = None) \<and>
    (\<forall>e k. scan_end m len i s = Some (Some (e, k)) \<longrightarrow>
      i \<le> e \<and> e < len \<and> str_body (drop i (take len m)) = Some (drop i (take e m), drop (e + 1) (take len m)))"
  proof (induction "len - i" arbitrary: i s rule: less_induct)
    case less
    show ?case
    proof (cases "i < len")
      case False
      then show ?thesis by (simp add: scan_end.simps [of m len i])
    next
      case i: True
      have rd: "read_mem m i = Some (m ! i)" using i assms by (simp add: read_mem_def)
      have d: "drop j (take n m) = m ! j # drop (Suc j) (take n m)" if "j < n" "n \<le> len" for j n
        using that assms Cons_nth_drop_Suc [of j "take n m"] by simp
      show ?thesis
      proof (cases "m ! i = ch_quote")
        case True
        then show ?thesis using i rd d [OF i] by (simp add: scan_end.simps [of m len i])
      next
        case nq: False
        show ?thesis
        proof (cases "m ! i = ch_bslash")
          case True
          show ?thesis
          proof (cases "i + 1 < len")
            case False
            then show ?thesis using i rd d [OF i] True by (simp add: scan_end.simps [of m len i])
          next
            case i1: True
            have "len - (i + 2) < len - i" using i by simp
            from less.hyps [OF this, of "s + 1"] show ?thesis
              using i i1 rd d [OF i] d [of "Suc i" len] d [of i] d [of "Suc i"] True
              by (auto simp: scan_end.simps [of m len i])
          qed
        next
          case False
          have "len - (i + 1) < len - i" using i by simp
          from less.hyps [OF this, of s] show ?thesis
            using i rd d [OF i] d [of i] nq False by (auto simp: scan_end.simps [of m len i])
        qed
      qed
    qed
  qed
  then show "scan_end m len i s = Some None \<Longrightarrow> str_body (drop i (take len m)) = None"
    "scan_end m len i s = Some (Some (e, k)) \<Longrightarrow>
      i \<le> e \<and> e < len \<and> str_body (drop i (take len m)) = Some (drop i (take e m), drop (e + 1) (take len m))"
    by blast+
qed

end
