(* ===== verification/CJson_Input.thy ===== *)
theory CJson_Input
  imports CJson_Tree CJson_Escapes
begin

text \<open>
  The input side of the parser. A buffer is well formed when its last byte is the terminator
  and its offset is inside; every token that is accepted leaves it well formed and moves it
  forward, so no read leaves the text. The unescaping of a string fits the block that the
  first scan sized.
\<close>

section \<open>Well-formed buffers\<close>

definition bwf :: "parse_buffer \<Rightarrow> bool" where
  "bwf b \<longleftrightarrow> (\<exists>m. pb_content b = Some m \<and> pb_length b \<le> length m \<and>
     pb_offset b < pb_length b \<and> m ! (pb_length b - 1) = 0)"

definition same_text :: "parse_buffer \<Rightarrow> parse_buffer \<Rightarrow> bool" where
  "same_text b b' \<longleftrightarrow> pb_content b' = pb_content b \<and> pb_length b' = pb_length b"

definition text_of :: "parse_buffer \<Rightarrow> bytes" where
  "text_of b = the (pb_content b)"

abbreviation byte_here :: "parse_buffer \<Rightarrow> u8" where
  "byte_here b \<equiv> text_of b ! pb_offset b"

lemma bwfD:
  assumes "bwf b"
  shows "pb_content b = Some (text_of b)" "pb_length b \<le> length (text_of b)" "pb_offset b < pb_length b"
    "text_of b ! (pb_length b - 1) = 0"
  using assms by (auto simp: bwf_def text_of_def)

lemma bwfI:
  "pb_content b = Some m \<Longrightarrow> pb_length b \<le> length m \<Longrightarrow> pb_offset b < pb_length b \<Longrightarrow>
    m ! (pb_length b - 1) = 0 \<Longrightarrow> bwf b"
  by (auto simp: bwf_def)

lemma same_text_refl [simp]: "same_text b b"
  by (simp add: same_text_def)

lemma same_text_trans: "same_text a b \<Longrightarrow> same_text b c \<Longrightarrow> same_text a c"
  by (simp add: same_text_def)

lemma same_text_update [simp]:
  "same_text b (move n b)" "same_text b (step_back b)" "same_text b (b\<lparr>pb_offset := k\<rparr>)"
  "same_text b (b\<lparr>pb_depth := d\<rparr>)" "same_text b (move n (b\<lparr>pb_depth := d\<rparr>))"
  by (simp_all add: same_text_def move_def step_back_def)

lemma bwf_same: "bwf b \<Longrightarrow> same_text b b' \<Longrightarrow> pb_offset b' < pb_length b \<Longrightarrow> bwf b'"
  by (auto simp: bwf_def same_text_def)

lemma bwf_depth [simp]: "bwf (b\<lparr>pb_depth := d\<rparr>) = bwf b"
  by (simp add: bwf_def)

lemma bwf_step_back: "bwf b \<Longrightarrow> bwf (step_back b)"
  by (rule bwf_same) (auto simp: step_back_def dest: bwfD)

lemma offset_simps [simp]:
  "pb_offset (move n b) = pb_offset b + n" "pb_offset (step_back b) = pb_offset b - 1"
  "pb_length (move n b) = pb_length b" "pb_length (step_back b) = pb_length b"
  "text_of (move n b) = text_of b" "text_of (step_back b) = text_of b"
  "text_of (b\<lparr>pb_depth := d\<rparr>) = text_of b"
  by (simp_all add: move_def step_back_def text_of_def)

lemma can_access_bwf [simp]: "bwf b \<Longrightarrow> can_access_at_index b 0"
  by (simp add: can_access_at_index_def bwfD)

lemma buffer_at_bwf: "bwf b \<Longrightarrow> buffer_at b 0 = Some (byte_here b)"
  using bwfD [of b] by (simp add: buffer_at_def read_mem_def)

lemma char_at_bwf: "bwf b \<Longrightarrow> char_at b c = Some (byte_here b = c)"
  by (simp add: char_at_def buffer_at_bwf)

text \<open>A byte that is not the terminator can be stepped over.\<close>

lemma bwf_move1: "bwf b \<Longrightarrow> byte_here b \<noteq> 0 \<Longrightarrow> bwf (move 1 b)"
proof (rule bwf_same [of b])
  assume b: "bwf b" and nz: "byte_here b \<noteq> 0"
  have "pb_offset b \<noteq> pb_length b - 1" using bwfD(4) [OF b] nz by metis
  then show "pb_offset (move 1 b) < pb_length b" using bwfD(3) [OF b] by simp
qed simp_all

text \<open>The text that is left, without the terminator.\<close>

definition body :: "parse_buffer \<Rightarrow> bytes" where
  "body b = drop (pb_offset b) (take (pb_length b - 1) (text_of b))"

lemma body_move [simp]: "body (move n b) = drop n (body b)"
  by (simp add: body_def add.commute)

lemma body_depth [simp]: "body (b\<lparr>pb_depth := d\<rparr>) = body b"
  by (simp add: body_def)

lemma body_same: "same_text b b' \<Longrightarrow> pb_offset b' = pb_offset b \<Longrightarrow> body b' = body b"
  by (simp add: same_text_def body_def text_of_def)

lemma body_nth: "bwf b \<Longrightarrow> pb_offset b + i < pb_length b - 1 \<Longrightarrow> body b ! i = text_of b ! (pb_offset b + i)"
  using bwfD(2) [of b] by (simp add: body_def)

lemma body_length: "bwf b \<Longrightarrow> length (body b) = pb_length b - 1 - pb_offset b"
  using bwfD(2) [of b] by (simp add: body_def)

lemma byte_here_body: "bwf b \<Longrightarrow> byte_here b = (if body b = [] then 0 else hd (body b))"
proof -
  assume b: "bwf b"
  show ?thesis
  proof (cases "pb_offset b = pb_length b - 1")
    case True
    then show ?thesis using bwfD(4) [OF b] by (simp add: body_def)
  next
    case False
    then have l: "pb_offset b + 0 < pb_length b - 1" using bwfD(3) [OF b] by simp
    then have "body b \<noteq> []" using body_length [OF b] by auto
    then show ?thesis using body_nth [OF b l] by (simp add: hd_conv_nth)
  qed
qed

lemma byte_here_iff: "bwf b \<Longrightarrow> c \<noteq> 0 \<Longrightarrow> byte_here b = c \<longleftrightarrow> body b \<noteq> [] \<and> hd (body b) = c"
  by (simp add: byte_here_body)

section \<open>White space\<close>

lemma ws_loop_total:
  assumes "pb_content b = Some m" and "pb_length b \<le> length m" and "pb_offset b \<le> pb_length b"
  shows "\<exists>b'. ws_loop b = Some b' \<and> same_text b b' \<and> pb_offset b \<le> pb_offset b' \<and>
    pb_offset b' \<le> pb_length b \<and> pb_depth b' = pb_depth b"
  using assms
proof (induction b rule: ws_loop.induct)
  case (1 b)
  show ?case
  proof (cases "can_access_at_index b 0")
    case False
    with "1.prems" show ?thesis by (subst ws_loop.simps) simp
  next
    case True
    with "1.prems" have c: "buffer_at b 0 = Some (m ! pb_offset b)"
      by (simp add: buffer_at_def read_mem_def can_access_at_index_def)
    show ?thesis
    proof (cases "m ! pb_offset b \<le> 32")
      case False
      with True c "1.prems" show ?thesis by (subst ws_loop.simps) simp
    next
      case le: True
      have "\<exists>b'. ws_loop (move 1 b) = Some b' \<and> same_text (move 1 b) b' \<and> pb_offset (move 1 b) \<le> pb_offset b' \<and>
          pb_offset b' \<le> pb_length (move 1 b) \<and> pb_depth b' = pb_depth (move 1 b)"
        using True "1.prems" by (intro "1.IH" [OF True c le]) (auto simp: move_def can_access_at_index_def)
      then obtain b' where "ws_loop (move 1 b) = Some b'" "same_text b b'" "pb_offset b \<le> pb_offset b'"
        "pb_offset b' \<le> pb_length b" "pb_depth b' = pb_depth b"
        by (auto simp: same_text_def move_def)
      then show ?thesis using True c le by (subst ws_loop.simps) simp
    qed
  qed
qed

lemma skip_ws_buf_bwf:
  assumes "bwf b"
  obtains b' where "skip_ws_buf b = Some b'" "buffer_skip_whitespace b = Some (True, b')" "bwf b'" "same_text b b'"
    "pb_offset b \<le> pb_offset b'" "pb_depth b' = pb_depth b"
proof -
  note b = bwfD [OF assms]
  from ws_loop_total [OF b(1,2)] b(3) obtain b1 where w: "ws_loop b = Some b1" "same_text b b1"
    "pb_offset b \<le> pb_offset b1" "pb_offset b1 \<le> pb_length b" "pb_depth b1 = pb_depth b" by auto
  let ?b' = "if pb_offset b1 = pb_length b1 then step_back b1 else b1"
  have s: "buffer_skip_whitespace b = Some (True, ?b')"
    using assms b(1) w(1) by (simp add: buffer_skip_whitespace_def)
  have st: "same_text b ?b'" using w(2) by (auto intro: same_text_trans)
  have l: "pb_length b1 = pb_length b" using w(2) by (simp add: same_text_def)
  have "bwf ?b'" using b(3) w(4) l by (intro bwf_same [OF assms st]) auto
  then show thesis
    by (intro that [of ?b'] st) (use s w b l in \<open>auto simp: skip_ws_buf_def step_back_def\<close>)
qed

lemma ws_loop_body:
  assumes "pb_content b = Some m" and "pb_length b \<le> length m" and "m ! (pb_length b - 1) = 0" and "0 < pb_length b"
  shows "ws_loop b = Some b' \<Longrightarrow> pb_offset b < pb_length b \<Longrightarrow>
    body (if pb_offset b' = pb_length b' then step_back b' else b') = json_ws (body b)"
  using assms
proof (induction b rule: ws_loop.induct)
  case (1 b)
  have t: "text_of b = m" using "1.prems" by (simp add: text_of_def)
  have w: "bwf b" using "1.prems" by (intro bwfI) simp_all
  have acc: "can_access_at_index b 0" using w by simp
  have c: "buffer_at b 0 = Some (m ! pb_offset b)" using "1.prems" by (simp add: buffer_at_def read_mem_def)
  show ?case
  proof (cases "m ! pb_offset b \<le> 32")
    case False
    then have "b' = b" using "1.prems" acc c by (subst (asm) ws_loop.simps) simp
    moreover have "json_ws (body b) = body b"
      using byte_here_body [OF w] False t by (cases "body b") (simp_all add: json_ws_def)
    ultimately show ?thesis using "1.prems"(2) by simp
  next
    case le: True
    have w1: "ws_loop (move 1 b) = Some b'" using "1.prems" acc c le by (subst (asm) ws_loop.simps) simp
    show ?thesis
    proof (cases "pb_offset b = pb_length b - 1")
      case True
      then have "\<not> can_access_at_index (move 1 b) 0" by (simp add: can_access_at_index_def)
      then have b': "b' = move 1 b" using w1 by (subst (asm) ws_loop.simps) simp
      have "body b = []" using True body_length [OF w] by simp
      moreover have "step_back (move 1 b) = b" by (simp add: step_back_def move_def)
      ultimately show ?thesis using b' True "1.prems" by (simp add: json_ws_def)
    next
      case False
      then have "pb_offset b + 0 < pb_length b - 1" using "1.prems"(2) by simp
      then have ne: "body b \<noteq> []" using body_length [OF w] by auto
      then have h: "hd (body b) = m ! pb_offset b" using byte_here_body [OF w] t by simp
      have "body (if pb_offset b' = pb_length b' then step_back b' else b') = json_ws (body (move 1 b))"
        by (rule "1.IH" [OF acc c le w1]) (use False "1.prems" in \<open>auto simp: move_def\<close>)
      moreover have "json_ws (body (move 1 b)) = json_ws (body b)"
        using ne h le by (cases "body b") (simp_all add: json_ws_def)
      ultimately show ?thesis by simp
    qed
  qed
qed

lemma skip_ws_body: "bwf b \<Longrightarrow> skip_ws_buf b = Some b' \<Longrightarrow> body b' = json_ws (body b)"
  using bwfD [of b] ws_loop_body [of b "text_of b"]
  by (auto simp: skip_ws_buf_def buffer_skip_whitespace_def bind_eq_Some_conv)

lemma skip_ws_body': "bwf b \<Longrightarrow> buffer_skip_whitespace b = Some (f, b') \<Longrightarrow> body b' = json_ws (body b)"
  by (rule skip_ws_body) (simp_all add: skip_ws_buf_def)

section \<open>Literals\<close>

lemma strncmp_eq_Some: "length l \<le> length m \<Longrightarrow> strncmp_eq m l = Some (take (length l) m = l)"
  by (induction m l rule: strncmp_eq.induct) auto

lemma literal_at_bwf:
  assumes "bwf b"
  shows "literal_at b l = Some (can_read b (length l) \<and> take (length l) (drop (pb_offset b) (text_of b)) = l)"
  using bwfD [OF assms] by (auto simp: literal_at_def can_read_def strncmp_eq_Some)

lemma literal_at_body:
  assumes "bwf b" and "0 \<notin> set l" and "l \<noteq> []"
  shows "literal_at b l = Some (take (length l) (body b) = l)"
proof -
  note b = bwfD [OF assms(1)]
  let ?m = "text_of b" and ?o = "pb_offset b" and ?n = "length l"
  have "(can_read b ?n \<and> take ?n (drop ?o ?m) = l) \<longleftrightarrow> take ?n (body b) = l"
  proof (cases "?o + ?n \<le> pb_length b - 1")
    case True
    then have "take ?n (body b) = take ?n (drop ?o ?m)" by (simp add: body_def take_drop min_def add.commute)
    moreover have "can_read b ?n" using True by (simp add: can_read_def)
    ultimately show ?thesis by simp
  next
    case False
    then have "length (take ?n (body b)) < ?n" using body_length [OF assms(1)] b(3) by simp
    then have "take ?n (body b) \<noteq> l" by auto
    moreover have "\<not> (can_read b ?n \<and> take ?n (drop ?o ?m) = l)"
    proof
      assume a: "can_read b ?n \<and> take ?n (drop ?o ?m) = l"
      then have e: "?o + (?n - 1) = pb_length b - 1" using False assms(3) by (cases l) (auto simp: can_read_def)
      have n: "?n - 1 < ?n" "?o \<le> length ?m" using assms(3) b(2,3) by simp_all
      have "l ! (?n - 1) = take ?n (drop ?o ?m) ! (?n - 1)" using a by simp
      also have "\<dots> = ?m ! (?o + (?n - 1))" using n by simp
      finally have "l ! (?n - 1) = ?m ! (?o + (?n - 1))" .
      then have "l ! (?n - 1) = 0" unfolding e using b(4) by simp
      then show False using assms(2,3) by (metis diff_less length_greater_0_conv nth_mem zero_less_one)
    qed
    ultimately show ?thesis by blast
  qed
  then show ?thesis using literal_at_bwf [OF assms(1), of l] by simp
qed

lemma bwf_move_literal:
  assumes "bwf b" and "literal_at b l = Some True" and "0 \<notin> set l" and "l \<noteq> []"
  shows "bwf (move (length l) b)"
proof (rule bwf_same [OF assms(1)])
  from assms literal_at_bwf have l: "pb_offset b + length l \<le> pb_length b"
    "take (length l) (drop (pb_offset b) (text_of b)) = l" by (auto simp: can_read_def)
  have "pb_offset b + length l \<noteq> pb_length b"
  proof
    assume e: "pb_offset b + length l = pb_length b"
    then have "pb_length b - 1 = pb_offset b + (length l - 1)" using assms(4) by (cases l) auto
    moreover have "l ! (length l - 1) = text_of b ! (pb_offset b + (length l - 1))"
      using l bwfD [OF assms(1)] assms(4)
      by (metis (no_types) diff_less length_greater_0_conv less_or_eq_imp_le nth_drop nth_take order_less_le_trans
          add_leD1 zero_less_one)
    ultimately have "l ! (length l - 1) = 0" using bwfD(4) [OF assms(1)] by simp
    with assms(3,4) show False by (metis diff_less length_greater_0_conv nth_mem zero_less_one)
  qed
  with l show "pb_offset (move (length l) b) < pb_length b" by simp
qed simp

section \<open>Numbers\<close>

lemma round_dbl_not_NaN [simp]: "round_dbl s n d \<noteq> NaN"
  by (simp add: round_dbl_def Let_def)

lemma strtod_not_NaN: "strtod cs = (x, n) \<Longrightarrow> x \<noteq> NaN"
  unfolding strtod_def Let_def by (auto split: if_splits prod.splits)

lemma sign_len_le: "sign_len cs \<le> length cs"
  by (cases cs) (simp_all add: sign_len_def)

lemma strtod_exp_le: "snd (strtod_exp cs) \<le> length cs"
proof (cases cs)
  case (Cons c t)
  have "length (takeWhile is_digit (drop k t)) \<le> length t - k" for k
    using length_takeWhile_le [of is_digit "drop k t"] by simp
  from this [of "sign_len t"] sign_len_le [of t] Cons show ?thesis
    by (auto simp: strtod_exp_def Let_def)
qed (simp add: strtod_exp_def)

lemma frac_le:
  "(if (r \<noteq> [] \<and> hd r = c) \<and> P then 1 + length (if r \<noteq> [] \<and> hd r = c then takeWhile is_digit (tl r) else []) else 0)
    \<le> length r"
  using length_takeWhile_le [of is_digit "tl r"] by (cases r) (auto simp: less_Suc_eq_le)

lemma strtod_digits_le: "strtod_digits cs = (neg, ip, fp, n0) \<Longrightarrow> n0 \<le> length cs"
proof -
  assume s: "strtod_digits cs = (neg, ip, fp, n0)"
  let ?k = "sign_len cs"
  let ?ip = "takeWhile is_digit (drop ?k cs)"
  let ?r = "drop (?k + length ?ip) cs"
  have ip: "?k + length ?ip \<le> length cs"
    using length_takeWhile_le [of is_digit "drop ?k cs"] sign_len_le [of cs] by simp
  let ?dot = "?r \<noteq> [] \<and> hd ?r = ch_dot"
  let ?fp = "if ?dot then takeWhile is_digit (tl ?r) else []"
  let ?x = "if ?dot \<and> \<not> (?ip = [] \<and> ?fp = []) then 1 + length ?fp else 0"
  have n0: "n0 = ?k + length ?ip + ?x"
    using s unfolding strtod_digits_def Let_def prod.inject by blast
  have x: "?x \<le> length ?r" by (rule frac_le)
  have r: "length ?r = length cs - (?k + length ?ip)" by (rule length_drop)
  from n0 x r ip show "n0 \<le> length cs" by linarith
qed

lemma strtod_le:
  assumes "strtod cs = (x, n)"
  shows "n \<le> length cs"
proof -
  obtain neg ip fp n0 where d: "strtod_digits cs = (neg, ip, fp, n0)" by (metis prod_cases4)
  obtain ex xl where e: "strtod_exp (drop n0 cs) = (ex, xl)" by (metis surj_pair)
  have "xl \<le> length cs - n0" using strtod_exp_le [of "drop n0 cs"] e by simp
  then show ?thesis using assms d e strtod_digits_le [OF d] by (auto simp: strtod_def Let_def split: if_splits)
qed

text \<open>The saturating conversion is defined on every number but NaN.\<close>

lemma dbl_INT_MAX: "dbl_of_int INT_MAX = Fin False (2147483647 * 2 ^ 22) (- 22)"
  by (simp add: dbl_of_int_def INT_MAX_def round_dbl_def ilog2_def bits.simps pow_ge_def div_rne_def Let_def)

lemma dbl_INT_MIN: "dbl_of_int INT_MIN = Fin True (2 ^ 31 * 2 ^ 21) (- 21)"
  by (simp add: dbl_of_int_def INT_MIN_def round_dbl_def ilog2_def bits.simps pow_ge_def div_rne_def Let_def)

definition trunc_nat :: "nat \<Rightarrow> int \<Rightarrow> nat" where
  "trunc_nat m e = (if 0 \<le> e then m * 2 ^ nat e else m div 2 ^ nat (- e))"

text \<open>An integer bound on the truncation is a bound on the number.\<close>

lemma pow_split: "0 \<le> a \<Longrightarrow> 0 \<le> b \<Longrightarrow> c = a + b \<Longrightarrow> (2 :: nat) ^ nat a * 2 ^ nat b = 2 ^ nat c"
  by (simp add: nat_add_distrib power_add)

lemma trunc_nat_scaled:
  assumes "M \<le> trunc_nat m e" and "g \<le> e" and "g \<le> - k" and "0 \<le> k"
  shows "M * 2 ^ nat k * 2 ^ nat (- k - g) \<le> m * 2 ^ nat (e - g)"
proof -
  have "M * 2 ^ nat (- g) \<le> m * 2 ^ nat (e - g)"
  proof (cases "0 \<le> e")
    case True
    have "M * 2 ^ nat (- g) \<le> m * 2 ^ nat e * 2 ^ nat (- g)" using assms(1) True by (simp add: trunc_nat_def)
    also have "\<dots> = m * 2 ^ nat (e - g)"
      using pow_split [of e "- g" "e - g"] True assms(3,4) by (simp add: mult.assoc)
    finally show ?thesis .
  next
    case False
    have "M * 2 ^ nat (- e) \<le> m div 2 ^ nat (- e) * 2 ^ nat (- e)"
      using assms(1) False by (simp add: trunc_nat_def)
    also have "\<dots> \<le> m" by (rule div_times_less_eq_dividend)
    finally have "M * 2 ^ nat (- e) * 2 ^ nat (e - g) \<le> m * 2 ^ nat (e - g)" by (rule mult_le_mono1)
    then show ?thesis using pow_split [of "- e" "e - g" "- g"] False assms(2) by (simp add: mult.assoc)
  qed
  then show ?thesis using pow_split [of k "- k - g" "- g"] assms(3,4) by (simp add: mult.assoc)
qed

lemma saturated_int_total:
  assumes "d \<noteq> NaN"
  obtains i where "saturated_int d = Some i" "INT_MIN \<le> i" "i \<le> INT_MAX"
proof (cases d)
  case NaN
  with assms show ?thesis by simp
next
  case (Inf s)
  have "saturated_int d = Some (if s then INT_MIN else INT_MAX)"
    by (simp add: saturated_int_def Inf dbl_INT_MAX dbl_INT_MIN)
  then show ?thesis by (rule that) (simp_all add: INT_MIN_def INT_MAX_def)
next
  case (Fin s m e)
  show ?thesis
  proof (cases "dbl_le (dbl_of_int INT_MAX) d \<or> dbl_le d (dbl_of_int INT_MIN)")
    case True
    then show ?thesis by (intro that [of "if dbl_le (dbl_of_int INT_MAX) d then INT_MAX else INT_MIN"])
        (auto simp: saturated_int_def INT_MIN_def INT_MAX_def)
  next
    case False
    have t: "int (trunc_nat m e) < (if s then - INT_MIN else INT_MAX)"
    proof (rule ccontr)
      assume na: "\<not> int (trunc_nat m e) < (if s then - INT_MIN else INT_MAX)"
      then show False
      proof (cases s)
        case True
        with na have "2 ^ 31 \<le> trunc_nat m e" by (simp add: INT_MIN_def)
        from trunc_nat_scaled [OF this, of "min e (- 21)" 21]
        have "2 ^ 31 * 2 ^ 21 * 2 ^ nat (- 21 - min e (- 21)) \<le> m * 2 ^ nat (e - min e (- 21))" by simp
        then have "int (2 ^ 31 * 2 ^ 21 * 2 ^ nat (- 21 - min e (- 21))) \<le> int (m * 2 ^ nat (e - min e (- 21)))"
          by (simp only: of_nat_le_iff)
        then have "dbl_le d (dbl_of_int INT_MIN)"
          by (simp add: Fin True dbl_INT_MIN Let_def scaled_def)
        with False show False by simp
      next
        case False': False
        with na have "2147483647 \<le> trunc_nat m e" by (simp add: INT_MAX_def)
        from trunc_nat_scaled [OF this, of "min (- 22) e" 22]
        have "2147483647 * 2 ^ 22 * 2 ^ nat (- 22 - min (- 22) e) \<le> m * 2 ^ nat (e - min (- 22) e)" by simp
        then have "int (2147483647 * 2 ^ 22 * 2 ^ nat (- 22 - min (- 22) e)) \<le> int (m * 2 ^ nat (e - min (- 22) e))"
          by (simp only: of_nat_le_iff)
        then have "dbl_le (dbl_of_int INT_MAX) d"
          by (simp add: Fin False' dbl_INT_MAX Let_def scaled_def)
        with False show False by simp
      qed
    qed
    let ?i = "if s then - int (trunc_nat m e) else int (trunc_nat m e)"
    have "INT_MIN \<le> ?i" "?i \<le> INT_MAX" using t by (auto simp: INT_MIN_def INT_MAX_def split: if_splits)
    moreover have "saturated_int d = Some ?i"
      using False calculation by (auto simp: saturated_int_def Fin trunc_nat_def Let_def)
    ultimately show ?thesis by (intro that)
  qed
qed

lemma number_char_nz: "number_char c \<Longrightarrow> c \<noteq> 0"
  by (auto simp: number_char_def is_digit_def)

lemma number_copy_bwf:
  assumes "bwf b" and "pb_offset b + i < pb_length b"
  shows "\<exists>cs. number_copy k i b = Some cs \<and> pb_offset b + i + length cs < pb_length b"
  using assms(2)
proof (induction k arbitrary: i)
  case 0
  then show ?case by simp
next
  case (Suc k)
  let ?c = "text_of b ! (pb_offset b + i)"
  have c: "buffer_at b i = Some ?c" "can_access_at_index b i"
    using bwfD [OF assms(1)] Suc.prems by (simp_all add: buffer_at_def read_mem_def can_access_at_index_def)
  show ?case
  proof (cases "number_char ?c")
    case False
    with c Suc.prems show ?thesis by simp
  next
    case True
    then have "pb_offset b + i \<noteq> pb_length b - 1"
      using bwfD(4) [OF assms(1)] number_char_nz by metis
    then have "pb_offset b + Suc i < pb_length b" using Suc.prems by simp
    from Suc.IH [OF this] obtain cs where "number_copy k (Suc i) b = Some cs"
      "pb_offset b + Suc i + length cs < pb_length b" by blast
    with True c show ?thesis by (simp add: get_decimal_point_def)
  qed
qed

lemma number_copy_body:
  assumes "bwf b"
  shows "pb_offset b + i < pb_length b \<Longrightarrow> number_copy k i b = Some (takeWhile number_char (take k (drop i (body b))))"
proof (induction k arbitrary: i)
  case 0
  then show ?case by simp
next
  case (Suc k)
  let ?c = "text_of b ! (pb_offset b + i)"
  have c: "buffer_at b i = Some ?c" "can_access_at_index b i"
    using bwfD [OF assms(1)] Suc.prems by (simp_all add: buffer_at_def read_mem_def can_access_at_index_def)
  show ?case
  proof (cases "pb_offset b + i = pb_length b - 1")
    case True
    then have "drop i (body b) = []" "?c = 0" using body_length [OF assms] bwfD(4) [OF assms] by simp_all
    moreover have "\<not> number_char 0" using number_char_nz by blast
    ultimately show ?thesis using c by simp
  next
    case False
    then have l: "pb_offset b + i < pb_length b - 1" using Suc.prems by simp
    then have d: "drop i (body b) = ?c # drop (Suc i) (body b)"
      using body_nth [OF assms l] body_length [OF assms] by (simp add: Cons_nth_drop_Suc [symmetric])
    have "pb_offset b + Suc i < pb_length b" using l by simp
    then show ?thesis using c d Suc.IH [of "Suc i"] by (simp add: get_decimal_point_def)
  qed
qed

text \<open>A number is read without leaving the text, and is stored with a saturated integer.\<close>

lemma parse_number_bwf:
  assumes "bwf b" and "load item h = Some n"
  obtains (fail) "parse_number item b h = Some (False, b, h)" "read_number (body b) = None"
  | (number) d i used where "parse_number item b h = Some (True, move used b,
       h\<lparr>h_nodes := (h_nodes h)(item \<mapsto> n\<lparr>cj_valuedouble := d, cj_valueint := i, cj_type := cJSON_Number\<rparr>)\<rparr>)"
     "bwf (move used b)" "0 < used" "read_number (body b) = Some (d, body (move used b))" "saturated_int d = Some i"
proof -
  from number_copy_bwf [OF assms(1), of 0 63] bwfD(3) [OF assms(1)] obtain cs where
    cs: "number_copy 63 0 b = Some cs" "pb_offset b + length cs < pb_length b" by auto
  have csb: "cs = takeWhile number_char (take 63 (body b))"
    using cs(1) number_copy_body [OF assms(1), of 0 63] bwfD(3) [OF assms(1)] by simp
  obtain d used where s: "strtod cs = (d, used)" by (metis surj_pair)
  obtain i where i: "saturated_int d = Some i" using saturated_int_total strtod_not_NaN [OF s] by metis
  note b = bwfD(1) [OF assms(1)]
  show thesis
  proof (cases "used = 0")
    case True
    then show thesis using b cs(1) s csb by (intro fail) (simp_all add: parse_number_def read_number_def)
  next
    case False
    have "bwf (move used b)"
      using cs(2) strtod_le [OF s] by (intro bwf_same [OF assms(1)]) simp_all
    moreover have "parse_number item b h = Some (True, move used b,
       h\<lparr>h_nodes := (h_nodes h)(item \<mapsto> n\<lparr>cj_valuedouble := d, cj_valueint := i, cj_type := cJSON_Number\<rparr>)\<rparr>)"
      using b cs(1) s i assms(2) False by (auto simp: parse_number_def store_def load_def split: if_splits)
    moreover have "read_number (body b) = Some (d, body (move used b))"
      using s csb False by (simp add: read_number_def)
    ultimately show thesis using False i by (intro number) simp_all
  qed
qed

section \<open>Escapes\<close>

lemma read_mem_Some [simp]: "p < length m \<Longrightarrow> read_mem m p = Some (m ! p)"
  by (simp add: read_mem_def)

lemma hex4_digit_bslash: "hex4_digit ch_bslash = None"
  by (simp add: hex4_digit_def)

text \<open>A code other than 0 was read from four hexadecimal digits.\<close>

lemma parse_hex4_total:
  assumes "p + 3 < length m"
  obtains v where "parse_hex4 m p = Some v" "v \<noteq> 0 \<longrightarrow> (\<forall>i < 4. m ! (p + i) \<noteq> ch_bslash)"
proof -
  have i4: "(\<forall>i < 4. Q i) \<longleftrightarrow> Q 0 \<and> Q 1 \<and> Q 2 \<and> Q (3 :: nat)" for Q
    by (auto simp: numeral_eq_Suc less_Suc_eq)
  show thesis
  proof (cases "\<forall>i < 4. hex4_digit (m ! (p + i)) \<noteq> None")
    case True
    then have "\<forall>i < 4. m ! (p + i) \<noteq> ch_bslash" using hex4_digit_bslash by metis
    moreover have "\<exists>v. parse_hex4 m p = Some v"
      using True assms unfolding i4 by (auto simp: parse_hex4_def)
    ultimately show thesis using that by blast
  next
    case False
    then have "parse_hex4 m p = Some 0"
      using assms unfolding i4 by (auto simp: parse_hex4_def split: option.split)
    then show thesis by (rule that) simp
  qed
qed

lemma utf8_encode_length: "utf8_encode cp = Some bs \<Longrightarrow> 1 \<le> length bs \<and> length bs \<le> 4"
  by (auto simp: utf8_encode_def numeral_eq_Suc split: if_splits)

lemma utf8_encode_0: "utf8_encode 0 = Some bs \<Longrightarrow> length bs = 1"
  by (auto simp: utf8_encode_def)

text \<open>How much a \<open>\\u\<close> sequence reads and writes.\<close>

lemma utf16_total:
  assumes "ie < length m"
  obtains (fail) "utf16_literal_to_utf8 m ip ie = Some (0, [])"
  | (zero) bs where "utf16_literal_to_utf8 m ip ie = Some (6, bs)" "ip + 6 \<le> ie" "length bs = 1"
  | (one) bs where "utf16_literal_to_utf8 m ip ie = Some (6, bs)" "ip + 6 \<le> ie" "length bs \<le> 4"
      "\<forall>i < 4. m ! (ip + 2 + i) \<noteq> ch_bslash"
  | (two) bs where "utf16_literal_to_utf8 m ip ie = Some (12, bs)" "ip + 12 \<le> ie" "length bs \<le> 4"
proof (cases "ie < ip + 6")
  case True
  then show thesis by (intro fail) (simp add: utf16_literal_to_utf8_def)
next
  case l1: False
  have "ip + 2 + 3 < length m" using l1 assms by simp
  then obtain c1 where c1: "parse_hex4 m (ip + 2) = Some c1" "c1 \<noteq> 0 \<longrightarrow> (\<forall>i < 4. m ! (ip + 2 + i) \<noteq> ch_bslash)"
    using parse_hex4_total by blast
  show thesis
  proof (cases "0xD800 \<le> c1 \<and> c1 \<le> 0xDFFF")
    case False
    then have "\<not> (0xDC00 \<le> c1 \<and> c1 \<le> 0xDFFF)" "\<not> (0xD800 \<le> c1 \<and> c1 \<le> 0xDBFF)"
      by (simp_all add: word_le_nat_alt) linarith+
    then have e: "utf16_literal_to_utf8 m ip ie = (case utf8_encode c1 of None \<Rightarrow> Some (0, []) | Some bs \<Rightarrow> Some (6, bs))"
      using l1 by (simp only: utf16_literal_to_utf8_def c1(1) if_False bind.bind_lunit)
    show thesis
    proof (cases "utf8_encode c1")
      case None
      with e show thesis by (intro fail) simp
    next
      case (Some bs)
      with e l1 c1(2) utf8_encode_length [OF Some] utf8_encode_0 [of bs] show thesis
        by (cases "c1 = 0") (auto intro: zero one)
    qed
  next
    case True
    have "(\<exists>bs. utf16_literal_to_utf8 m ip ie = Some (12, bs) \<and> ip + 12 \<le> ie \<and> length bs \<le> 4) \<or>
      utf16_literal_to_utf8 m ip ie = Some (0, [])"
    proof (cases "0xDC00 \<le> c1 \<or> ie < ip + 12 \<or> m ! (ip + 6) \<noteq> ch_bslash \<or> m ! (ip + 7) \<noteq> ch_u")
      case early: True
      have lo: "c1 \<le> 0xDBFF" if "\<not> 0xDC00 \<le> c1" using that True by unat_arith
      have "ip + 6 < length m" using l1 assms by simp
      with early consider "0xDC00 \<le> c1" | "\<not> 0xDC00 \<le> c1" "ie < ip + 12"
        | "\<not> 0xDC00 \<le> c1" "\<not> ie < ip + 12" "m ! (ip + 6) \<noteq> ch_bslash"
        | "\<not> 0xDC00 \<le> c1" "\<not> ie < ip + 12" "m ! (ip + 6) = ch_bslash" "m ! (ip + 7) \<noteq> ch_u" by blast
      then have "utf16_literal_to_utf8 m ip ie = Some (0, [])"
        using lo True l1 assms c1(1) by cases (simp_all add: utf16_literal_to_utf8_def Let_def ac_simps)
      then show ?thesis by blast
    next
      case False
      have "ip + 8 + 3 < length m" using False assms by simp
      then obtain c2 where c2: "parse_hex4 m (ip + 8) = Some c2" using parse_hex4_total by blast
      have h: "c1 \<le> 0xDBFF" using False True by unat_arith
      let ?cp = "0x10000 + (push_bit 10 (c1 AND 0x3FF) OR (c2 AND 0x3FF))"
      have "\<not> (0xDC00 \<le> c1 \<and> c1 \<le> 0xDFFF)" "0xD800 \<le> c1 \<and> c1 \<le> 0xDBFF" using False True h by auto
      moreover have "read_mem m (ip + 6) = Some ch_bslash" "read_mem m (ip + 6 + 1) = Some ch_u"
        using False assms by (simp_all add: add.commute)
      moreover have "ip + 6 + 2 = ip + 8" "\<not> ie < ip + 6 + 6" using False by simp_all
      ultimately have e: "utf16_literal_to_utf8 m ip ie =
          (if c2 < 0xDC00 \<or> c2 > 0xDFFF then Some (0, [])
           else case utf8_encode ?cp of None \<Rightarrow> Some (0, []) | Some bs \<Rightarrow> Some (12, bs))"
        using l1 by (simp only: utf16_literal_to_utf8_def Let_def c1(1) c2 if_False if_True simp_thms bind.bind_lunit)
      show ?thesis
      proof (cases "(c2 < 0xDC00 \<or> c2 > 0xDFFF) \<or> utf8_encode ?cp = None")
        case True
        then show ?thesis unfolding e by (auto split: option.split)
      next
        case enc: False
        then obtain bs where bs: "utf8_encode ?cp = Some bs" by blast
        with enc False utf8_encode_length [OF bs] show ?thesis unfolding e by auto
      qed
    qed
    then show thesis using fail two by blast
  qed
qed


section \<open>Strings\<close>

text \<open>
  The first scan finds the closing quote and skips pairs that start with a backslash. Its
  pairs do not overlap.
\<close>

definition pairs :: "bytes \<Rightarrow> nat \<Rightarrow> nat set \<Rightarrow> bool" where
  "pairs m e P \<longleftrightarrow> (\<forall>j \<in> P. Suc j < e \<and> m ! j = ch_bslash \<and> Suc j \<notin> P)"

lemma pairs_finite: "pairs m e P \<Longrightarrow> finite P"
  by (rule finite_subset [of P "{..<e}"]) (auto simp: pairs_def)

lemma scan_end_total:
  assumes "len \<le> length m"
  obtains (fail) "scan_end m len i s = Some None"
  | (quote) e k P where "scan_end m len i s = Some (Some (e, k))" "i \<le> e" "e < len" "m ! e = ch_quote"
      "pairs m e P" "P \<subseteq> {i..}" "k = s + card P"
proof -
  have "scan_end m len i s = Some None \<or> (\<exists>e k P. scan_end m len i s = Some (Some (e, k)) \<and> i \<le> e \<and>
      e < len \<and> m ! e = ch_quote \<and> pairs m e P \<and> P \<subseteq> {i..} \<and> k = s + card P)" (is "?R i s")
  proof (induction "len - i" arbitrary: i s rule: less_induct)
    case less
    show ?case
    proof (cases "i < len")
      case False
      then show ?thesis by (subst scan_end.simps) simp
    next
      case i: True
      then have c: "read_mem m i = Some (m ! i)" using assms by simp
      consider "m ! i = ch_quote" | "m ! i = ch_bslash" "len \<le> i + 1" | "m ! i = ch_bslash" "i + 1 < len"
        | "m ! i \<noteq> ch_quote" "m ! i \<noteq> ch_bslash" by fastforce
      then show ?thesis
      proof cases
        case 1
        then have "scan_end m len i s = Some (Some (i, s))" using i c by (subst scan_end.simps) simp
        with 1 i show ?thesis by (intro disjI2 exI [of _ i] exI [of _ s] exI [of _ "{}"]) (simp add: pairs_def)
      next
        case 2
        then show ?thesis using i c by (subst scan_end.simps) simp
      next
        case 3
        have eq: "scan_end m len i s = scan_end m len (i + 2) (s + 1)"
          using 3 i c by (subst scan_end.simps) simp
        have "?R (i + 2) (s + 1)" using i by (intro less) simp
        then show ?thesis
        proof (elim disjE exE conjE)
          fix e k P
          assume a: "scan_end m len (i + 2) (s + 1) = Some (Some (e, k))" "i + 2 \<le> e" "e < len" "m ! e = ch_quote"
            "pairs m e P" "P \<subseteq> {i + 2..}" "k = s + 1 + card P"
          have "pairs m e (insert i P)" using a 3 by (auto simp: pairs_def)
          moreover have "card (insert i P) = card P + 1"
            using a(6) pairs_finite [OF a(5)] by (subst card_insert_disjoint) auto
          ultimately show ?thesis using a eq
            by (intro disjI2 exI [of _ e] exI [of _ k] exI [of _ "insert i P"]) auto
        qed (simp add: eq)
      next
        case 4
        have eq: "scan_end m len i s = scan_end m len (i + 1) s"
          using 4 i c by (subst scan_end.simps) simp
        have "?R (i + 1) s" using i by (intro less) simp
        then show ?thesis
        proof (elim disjE exE conjE)
          fix e k P
          assume "scan_end m len (i + 1) s = Some (Some (e, k))" "i + 1 \<le> e" "e < len" "m ! e = ch_quote"
            "pairs m e P" "P \<subseteq> {i + 1..}" "k = s + card P"
          then show ?thesis using eq by (intro disjI2 exI [of _ e] exI [of _ k] exI [of _ P]) auto
        qed (simp add: eq)
      qed
    qed
  qed
  then show thesis using fail quote by blast
qed

text \<open>The pairs that start at a position or later.\<close>

definition ahead :: "nat set \<Rightarrow> nat \<Rightarrow> nat" where
  "ahead P i = card {j \<in> P. i \<le> j}"

lemma pairs_window:
  assumes "\<forall>j \<in> P. Suc j \<notin> P"
  shows "card (P \<inter> {a..<a + 2 * k}) \<le> k"
proof (induction k)
  case (Suc k)
  let ?x = "a + 2 * k"
  have "P \<inter> {a..<a + 2 * Suc k} = P \<inter> {a..<?x} \<union> P \<inter> {?x, Suc ?x}" by auto
  then have "card (P \<inter> {a..<a + 2 * Suc k}) \<le> card (P \<inter> {a..<?x}) + card (P \<inter> {?x, Suc ?x})"
    by (metis card_Un_le)
  moreover have "P \<inter> {?x, Suc ?x} \<subseteq> (if ?x \<in> P then {?x} else {Suc ?x})" using assms by auto
  then have "card (P \<inter> {?x, Suc ?x}) \<le> card (if ?x \<in> P then {?x} else {Suc ?x})" by (intro card_mono) auto
  ultimately show ?case using Suc.IH by (auto split: if_splits)
qed simp

lemma ahead_step:
  assumes "finite P" and "P \<inter> {i..<j} \<subseteq> W" and "finite W" and "card (P \<inter> W) \<le> n"
  shows "ahead P i \<le> ahead P j + n"
proof -
  have "{k \<in> P. i \<le> k} \<subseteq> {k \<in> P. j \<le> k} \<union> P \<inter> W" using assms(2) by (auto simp: not_le)
  then have "card {k \<in> P. i \<le> k} \<le> card ({k \<in> P. j \<le> k} \<union> P \<inter> W)" using assms(1) by (intro card_mono) auto
  also have "\<dots> \<le> card {k \<in> P. j \<le> k} + card (P \<inter> W)" by (rule card_Un_le)
  finally show ?thesis using assms(4) by (simp add: ahead_def)
qed

lemma ahead_window:
  assumes "pairs m e P"
  shows "ahead P i \<le> ahead P (i + 2 * k) + k"
  by (rule ahead_step [OF pairs_finite [OF assms], where W = "{i..<i + 2 * k}"])
    (use assms in \<open>auto intro: pairs_window simp: pairs_def\<close>)

lemma ahead_le: "pairs m e P \<Longrightarrow> ahead P i \<le> e - i"
proof -
  assume "pairs m e P"
  then have "{j \<in> P. i \<le> j} \<subseteq> {i..<e}" by (auto simp: pairs_def)
  then have "card {j \<in> P. i \<le> j} \<le> card {i..<e}" by (intro card_mono) auto
  then show ?thesis by (simp add: ahead_def)
qed

lemma put_Some: "i + length cs \<le> length blk \<Longrightarrow> \<exists>b. put blk i cs = Some b \<and> length b = length blk"
  by (simp add: put_def)


text \<open>
  The block sized by the first scan is large enough: every byte that is written is paid for
  by the input it stands for, pairs counting one byte less.
\<close>

definition room :: "nat set \<Rightarrow> nat \<Rightarrow> nat \<Rightarrow> bytes \<Rightarrow> nat \<Rightarrow> bool" where
  "room P ip ie blk op \<longleftrightarrow> op + (ie - ip) + 1 \<le> length blk + ahead P ip"

lemma room_step:
  assumes "room P ip ie blk op" and "ip < ie" and "ahead P ip \<le> ahead P ip' + n"
    and "ie - ip' + l + n \<le> ie - ip" and "pairs m ie P"
  shows "op + l < length blk" and "length b = length blk \<Longrightarrow> room P ip' ie b (op + l)"
  using assms ahead_le [OF assms(5), of ip'] by (auto simp: room_def)

lemma string_loop_total:
  assumes "ie < length m" and "pairs m ie P" and "room P ip ie blk op"
  shows "\<exists>ok ip' b op'. string_loop m ip ie blk op = Some (ok, ip', b, op') \<and> length b = length blk \<and>
    (ok \<longrightarrow> op' < length b)"
  using assms(3)
proof (induction "ie - ip" arbitrary: ip blk op rule: less_induct)
  case less
  note rm = less.prems
  show ?case
  proof (cases "ip < ie")
    case False
    then show ?thesis using rm assms(2) ahead_le [OF assms(2), of ip]
      by (intro exI [of _ True], subst string_loop.simps) (simp add: room_def)
  next
    case ip: True
    note c = read_mem_Some [of ip m] read_mem_Some [of "ip + 1" m]
    have step: ?thesis if "put blk op bs \<bind> (\<lambda>b. string_loop m ip' ie b (op + length bs)) = string_loop m ip ie blk op"
      and "ahead P ip \<le> ahead P ip' + n" "ie - ip' + length bs + n \<le> ie - ip" "ip < ip'" for bs ip' n
    proof -
      note r = room_step [OF rm ip that(2,3) assms(2)]
      obtain b where b: "put blk op bs = Some b" "length b = length blk"
        using put_Some [of op bs blk] r(1) by auto
      from less.hyps [OF _ r(2) [OF b(2)]] ip that(4)
      have "\<exists>ok ip'' b' op'. string_loop m ip' ie b (op + length bs) = Some (ok, ip'', b', op') \<and>
        length b' = length b \<and> (ok \<longrightarrow> op' < length b')" by simp
      with b that(1) show ?thesis by auto
    qed
    show ?thesis
    proof (cases "m ! ip = ch_bslash")
      case False
      have "P \<inter> {ip..<ip + 1} \<subseteq> {}" using False assms(2) by (auto simp: pairs_def)
      then have "ahead P ip \<le> ahead P (ip + 1) + 0"
        by (rule ahead_step [OF pairs_finite [OF assms(2)]]) simp_all
      moreover have "put blk op [m ! ip] \<bind> (\<lambda>b. string_loop m (ip + 1) ie b (op + length [m ! ip])) =
          string_loop m ip ie blk op"
        using ip assms(1) False c by (subst (2) string_loop.simps) simp
      ultimately show ?thesis using ip by (intro step [of "[m ! ip]" "ip + 1" 0]) simp_all
    next
      case esc: True
      have w1: "ahead P ip \<le> ahead P (ip + 2) + 1" using ahead_window [OF assms(2), of ip 1] by simp
      have unf: "string_loop m ip ie blk op =
          (case one_char_escape (m ! (ip + 1)) of
             Some x \<Rightarrow> put blk op [x] \<bind> (\<lambda>b. string_loop m (ip + 2) ie b (op + length [x]))
           | None \<Rightarrow> if m ! (ip + 1) = ch_u then
               utf16_literal_to_utf8 m ip ie \<bind> (\<lambda>(n, bs). if n = 0 then Some (False, ip, blk, op)
                 else put blk op bs \<bind> (\<lambda>b. string_loop m (ip + n) ie b (op + length bs)))
             else Some (False, ip, blk, op))"
          using ip assms(1) esc c by (subst string_loop.simps, cases "one_char_escape (m ! (ip + 1))") simp_all
      show ?thesis
      proof (cases "one_char_escape (m ! (ip + 1))")
        case (Some x)
        show ?thesis
        proof (cases "ip + 1 < ie")
          case True
          show ?thesis by (rule step [of "[x]" "ip + 2" 1]) (use unf Some w1 True in simp_all)
        next
          case False
          have "P \<inter> {ip..<ip + 2} \<subseteq> {}" using False assms(2) by (auto simp: pairs_def)
          then have "ahead P ip \<le> ahead P (ip + 2) + 0"
            by (rule ahead_step [OF pairs_finite [OF assms(2)]]) simp_all
          then show ?thesis by (intro step [of "[x]" "ip + 2" 0]) (use unf Some ip in simp_all)
        qed
      next
        case None
        show ?thesis
        proof (cases "m ! (ip + 1) = ch_u")
          case False
          with None unf show ?thesis by auto
        next
          case u: True
          with None unf have unf': "string_loop m ip ie blk op =
               utf16_literal_to_utf8 m ip ie \<bind> (\<lambda>(n, bs). if n = 0 then Some (False, ip, blk, op)
                 else put blk op bs \<bind> (\<lambda>b. string_loop m (ip + n) ie b (op + length bs)))" by simp
          from assms(1) show ?thesis
          proof (cases rule: utf16_total [of ie m ip])
            case fail
            with unf' show ?thesis by auto
          next
            case (zero bs)
            have "ahead P ip \<le> ahead P (ip + 6) + 3" using ahead_window [OF assms(2), of ip 3] by simp
            then show ?thesis by (intro step [of bs "ip + 6" 3]) (use unf' zero ip in simp_all)
          next
            case (one bs)
            have "\<forall>j. ip + 2 \<le> j \<and> j < ip + 6 \<longrightarrow> m ! j \<noteq> ch_bslash"
            proof (intro allI impI)
              fix j assume "ip + 2 \<le> j \<and> j < ip + 6"
              then have "ip + 2 + (j - (ip + 2)) = j" "j - (ip + 2) < 4" by linarith+
              then show "m ! j \<noteq> ch_bslash" using one(4) [rule_format, of "j - (ip + 2)"] by metis
            qed
            then have "P \<inter> {ip..<ip + 6} \<subseteq> {ip..<ip + 2 * 1}"
              using assms(2) unfolding pairs_def by (auto simp: not_less)
            then have "ahead P ip \<le> ahead P (ip + 6) + 1"
              by (rule ahead_step [OF pairs_finite [OF assms(2)]])
                (use assms(2) pairs_window [of P ip 1] in \<open>simp_all add: pairs_def\<close>)
            then show ?thesis by (intro step [of bs "ip + 6" 1]) (use unf' one ip in simp_all)
          next
            case (two bs)
            have "ahead P ip \<le> ahead P (ip + 12) + 6" using ahead_window [OF assms(2), of ip 6] by simp
            then show ?thesis by (intro step [of bs "ip + 12" 6]) (use unf' two ip in simp_all)
          qed
        qed
      qed
    qed
  qed
qed


text \<open>
  Parsing a string: when it fails, the node is as it was and no block is left behind; when it
  succeeds, the node holds a new block.
\<close>

definition same_mem :: "heap \<Rightarrow> heap \<Rightarrow> bool" where
  "same_mem h h' \<longleftrightarrow> h_nodes h' = h_nodes h \<and> h_strs h' = h_strs h \<and> h_grants h' = h_grants h"

text \<open>No request is refused.\<close>

definition all_granted :: "heap \<Rightarrow> bool" where
  "all_granted h \<longleftrightarrow> (\<forall>k. h_grants h k)"

lemma str_body_nul: "str_body (t @ [0]) = map_option (\<lambda>(l, r). (l, r @ [0])) (str_body t)"
  by (induction t rule: str_body.induct) (auto simp: option.map_comp comp_def case_prod_unfold split: list.split)

lemma read_string_body:
  assumes b: "bwf b" and q: "byte_here b = ch_quote"
  shows "scan_end (text_of b) (pb_length b) (pb_offset b + 1) 0 = Some None \<Longrightarrow> read_string (body b) = None"
    and "scan_end (text_of b) (pb_length b) (pb_offset b + 1) 0 = Some (Some (e, k)) \<Longrightarrow>
      read_string (body b) = map_option (\<lambda>s. (cstr s, body (b\<lparr>pb_offset := e + 1\<rparr>))) (unescape (lit_from (text_of b) (pb_offset b + 1) e))"
proof -
  note bw = bwfD [OF b]
  have ne: "body b \<noteq> []" "hd (body b) = ch_quote" using byte_here_iff [OF b, of ch_quote] q by simp_all
  have o: "pb_offset b + 1 \<le> pb_length b - 1" using ne(1) body_length [OF b] by (cases "pb_length b - 1 - pb_offset b") auto
  have tl: "tl (body b) = drop (pb_offset b + 1) (take (pb_length b - 1) (text_of b))"
    by (simp add: body_def tl_drop [symmetric] drop_Suc flip: drop_tl)
  have z: "drop i (take (pb_length b) (text_of b)) = drop i (take (pb_length b - 1) (text_of b)) @ [0]" if "i < pb_length b" for i
    using that bw(2-4) take_Suc_conv_app_nth [of "pb_length b - 1" "text_of b"] by simp
  have sb: "str_body (drop (pb_offset b + 1) (take (pb_length b) (text_of b))) = map_option (\<lambda>(l, r). (l, r @ [0])) (str_body (tl (body b)))"
    unfolding tl using o z [of "pb_offset b + 1"] by (simp add: str_body_nul)
  show "scan_end (text_of b) (pb_length b) (pb_offset b + 1) 0 = Some None \<Longrightarrow> read_string (body b) = None"
    using scan_end_eq(1) [OF bw(2)] ne sb by (fastforce simp: read_string_def)
  assume "scan_end (text_of b) (pb_length b) (pb_offset b + 1) 0 = Some (Some (e, k))"
  from scan_end_eq(2) [OF bw(2) this] sb obtain l r where
    l: "e < pb_length b" "str_body (tl (body b)) = Some (l, r)" "l = lit_from (text_of b) (pb_offset b + 1) e"
      "r @ [0] = drop (e + 1) (take (pb_length b) (text_of b))"
    by (cases "str_body (tl (body b))") (auto simp: lit_from_def)
  then have "e + 1 < pb_length b" by (cases "e + 1 < pb_length b") auto
  from z [OF this] l(4) have "r = body (b\<lparr>pb_offset := e + 1\<rparr>)" by (simp add: body_def text_of_def)
  then show "read_string (body b) = map_option (\<lambda>s. (cstr s, body (b\<lparr>pb_offset := e + 1\<rparr>))) (unescape (lit_from (text_of b) (pb_offset b + 1) e))"
    using ne l(2,3) by (simp add: read_string_def)
qed

lemma cstr_append_0: "cstr (s @ 0 # t) = cstr s"
  by (induction s) (auto simp: cstr_def)

lemma parse_string_bwf:
  assumes b: "bwf b" and n: "load item h = Some n" and fresh: "\<forall>p \<ge> h_fresh h. h_strs h p = None" "0 < h_fresh h"
  obtains (fail) b' h' where "parse_string item b h = Some (False, b', h')" "same_text b b'" "same_mem h h'"
      "h_fresh h \<le> h_fresh h'" "all_granted h \<longrightarrow> read_string (body b) = None"
  | (string) b' h' blk where "parse_string item b h = Some (True, b', h')" "bwf b'" "same_text b b'"
      "pb_offset b < pb_offset b'" "pb_depth b' = pb_depth b" "h_fresh h' = Suc (h_fresh h)"
      "h_nodes h' = (h_nodes h)(item \<mapsto> n\<lparr>cj_type := cJSON_String, cj_valuestring := h_fresh h\<rparr>)"
      "h_strs h' = (h_strs h)(h_fresh h \<mapsto> blk)" "0 \<in> set blk" "h_grants h' = h_grants h" "read_string (body b) = Some (cstr blk, body b')"
proof -
  note bw = bwfD [OF b]
  let ?m = "text_of b"
  have at: "buffer_at b 0 = Some (byte_here b)" by (rule buffer_at_bwf [OF b])
  show thesis
  proof (cases "byte_here b = ch_quote")
    case False
    then have "read_string (body b) = None" using byte_here_iff [OF b, of ch_quote] by (auto simp: read_string_def)
    then show thesis using False bw(1) at by (intro fail [of "move 1 b" h]) (simp_all add: parse_string_def same_mem_def)
  next
    case True
    from bw(2) show thesis
    proof (cases rule: scan_end_total [of "pb_length b" ?m "pb_offset b + 1" 0])
      case se: fail
      then show thesis using bw(1) at True read_string_body(1) [OF b True se]
        by (intro fail [of "move 1 b" h]) (simp_all add: parse_string_def same_mem_def)
    next
      case (quote e k P)
      let ?n = "e - pb_offset b - k + 1"
      obtain out h1 where al: "allocate ?n h = (out, h1)" by (metis surj_pair)
      have unf: "parse_string item b h =
         (if out = 0 then Some (False, move 1 b, h1)
          else do {
            blk \<leftarrow> block out h1;
            (ok, ip, blk1, op) \<leftarrow> string_loop ?m (pb_offset b + 1) e blk 0;
            if \<not> ok then do { h2 \<leftarrow> deallocate out h1; Some (False, b\<lparr>pb_offset := ip\<rparr>, h2) }
            else do {
              blk2 \<leftarrow> put blk1 op [0];
              h2 \<leftarrow> store item (\<lambda>n. n\<lparr>cj_type := cJSON_String\<rparr>) (h1\<lparr>h_strs := (h_strs h1)(out \<mapsto> blk2)\<rparr>);
              h3 \<leftarrow> store item (\<lambda>n. n\<lparr>cj_valuestring := out\<rparr>) h2;
              Some (True, b\<lparr>pb_offset := e + 1\<rparr>, h3) } })"
        using bw(1) at True quote(1) al by (simp add: parse_string_def)
      show thesis
      proof (cases "h_grants h (h_count h)")
        case False
        then have "out = 0" "same_mem h h1" "h_fresh h1 = h_fresh h" "\<not> all_granted h"
          using al by (auto simp: allocate_def Let_def same_mem_def all_granted_def)
        then show thesis using unf by (intro fail [of "move 1 b" h1]) simp_all
      next
        case grant: True
        let ?blk = "map (h_junk h (h_fresh h)) [0..<?n]"
        have out: "out = h_fresh h" "out \<noteq> 0" "h_nodes h1 = h_nodes h" "h_strs h1 = (h_strs h)(out \<mapsto> ?blk)"
          "h_fresh h1 = Suc (h_fresh h)" "h_grants h1 = h_grants h"
          using al grant fresh(2) by (auto simp: allocate_def Let_def)
        have room0: "room P (pb_offset b + 1) e ?blk 0"
        proof -
          have "ahead P (pb_offset b + 1) = card P"
            using quote(6) by (auto simp: ahead_def intro: arg_cong [of _ _ card])
          then show ?thesis using quote(2,7) by (simp add: room_def)
        qed
        have el: "e < length ?m" using quote(3) bw(2) by simp
        from string_loop_total [OF this quote(5) room0] obtain ok ip blk1 op where sl:
          "string_loop ?m (pb_offset b + 1) e ?blk 0 = Some (ok, ip, blk1, op)" "ok \<Longrightarrow> op < length blk1" by blast
        note un = string_loop_eq [OF el quote(4) sl(1)]
        note rd = read_string_body(2) [OF b True quote(1)]
        have bl: "block out h1 = Some ?blk" using out by (simp add: block_def)
        show thesis
        proof (cases ok)
          case False
          let ?h2 = "h1\<lparr>h_strs := (h_strs h1)(out := None)\<rparr>"
          have "deallocate out h1 = Some ?h2" using out by (simp add: deallocate_def)
          with unf out(2) bl sl(1) False have "parse_string item b h = Some (False, b\<lparr>pb_offset := ip\<rparr>, ?h2)" by simp
          moreover have "same_mem h ?h2" using out(1-5) fresh(1) by (auto simp: same_mem_def fun_eq_iff out(6))
          moreover have "read_string (body b) = None" using rd un False by (cases "unescape (lit_from ?m (pb_offset b + 1) e)") auto
          ultimately show thesis using out(5) by (intro fail [of "b\<lparr>pb_offset := ip\<rparr>" ?h2]) simp_all
        next
          case ok: True
          obtain blk2 where b2: "put blk1 op [0] = Some blk2" "0 \<in> set blk2" "blk2 = take op blk1 @ 0 # drop (op + 1) blk1"
            using sl(2) ok by (auto simp: put_def)
          from un ok obtain s where s: "unescape (lit_from ?m (pb_offset b + 1) e) = Some s" "take op blk1 = s"
            by (auto split: option.splits)
          have "cstr blk2 = cstr s" unfolding b2(3) s(2) by (rule cstr_append_0)
          then have rs: "read_string (body b) = Some (cstr blk2, body (b\<lparr>pb_offset := e + 1\<rparr>))" using rd s(1) by simp
          let ?h3 = "h1\<lparr>h_strs := (h_strs h1)(out \<mapsto> blk2),
            h_nodes := (h_nodes h1)(item \<mapsto> n\<lparr>cj_type := cJSON_String, cj_valuestring := out\<rparr>)\<rparr>"
          have "parse_string item b h = Some (True, b\<lparr>pb_offset := e + 1\<rparr>, ?h3)"
            using unf out(2,3) bl sl(1) ok b2(1) n by (auto simp: store_def load_def split: if_splits)
          moreover have "e \<noteq> pb_length b - 1" using quote(4) bw(4) by auto
          then have "bwf (b\<lparr>pb_offset := e + 1\<rparr>)" using quote(3) by (intro bwf_same [OF b]) simp_all
          ultimately show thesis using out quote(2) b2(2) rs by (intro string [of "b\<lparr>pb_offset := e + 1\<rparr>" ?h3 blk2]) simp_all
        qed
      qed
    qed
  qed
qed

end
