(* ===== verification/CJson_Shape.thy ===== *)
theory CJson_Shape
  imports CJson_Tree
begin

text \<open>
  The shape of \<open>cJSON\<close> structures in the heap: lists of siblings, each with its node record
  and its children, linked by \<open>next\<close> and \<open>child\<close>. The predicates say which nodes and which
  blocks such a list owns; \<open>cJSON_Delete\<close> is proved to free exactly these.
\<close>

section \<open>Items and segments\<close>

datatype item = Item (it_ptr: ptr) (it_node: cjson) (it_kids: "item list")

definition first_or :: "ptr \<Rightarrow> item list \<Rightarrow> ptr" where
  "first_or q is = (case is of [] \<Rightarrow> q | i # _ \<Rightarrow> it_ptr i)"

lemma first_or_simps [simp]: "first_or q [] = q" "first_or q (i # is) = it_ptr i"
  by (simp_all add: first_or_def)

lemma first_or_append [simp]: "first_or q (is @ js) = first_or (first_or q js) is"
  by (cases "is") simp_all

definition node_strs :: "cjson \<Rightarrow> ptr list" where
  "node_strs n = filter (\<lambda>s. s \<noteq> 0) [cj_valuestring n, cj_string n]"

definition owned_node :: "cjson \<Rightarrow> bool" where
  "owned_node n \<longleftrightarrow> \<not> is_reference n \<and> \<not> string_is_const n"

fun nodes_of :: "item list \<Rightarrow> ptr list" where
  "nodes_of [] = []"
| "nodes_of (Item p n cs # is) = p # nodes_of cs @ nodes_of is"

fun strs_of :: "item list \<Rightarrow> ptr list" where
  "strs_of [] = []"
| "strs_of (Item p n cs # is) = node_strs n @ strs_of cs @ strs_of is"

text \<open>A list of siblings whose last \<open>next\<close> pointer is \<open>q\<close>.\<close>

fun seg :: "heap \<Rightarrow> ptr \<Rightarrow> item list \<Rightarrow> bool" where
  "seg h q [] \<longleftrightarrow> True"
| "seg h q (Item p n cs # is) \<longleftrightarrow>
     p \<noteq> 0 \<and> h_nodes h p = Some n \<and> cj_next n = first_or q is \<and> cj_child n = first_or 0 cs \<and>
     owned_node n \<and> (\<forall>s \<in> set (node_strs n). string_at s h \<noteq> None) \<and> seg h 0 cs \<and> seg h q is"

definition apart :: "item list \<Rightarrow> bool" where
  "apart is \<longleftrightarrow> distinct (nodes_of is) \<and> distinct (strs_of is)"

lemma nodes_of_append [simp]: "nodes_of (is @ js) = nodes_of is @ nodes_of js"
  by (induction "is" rule: nodes_of.induct) simp_all

lemma strs_of_append [simp]: "strs_of (is @ js) = strs_of is @ strs_of js"
  by (induction "is" rule: strs_of.induct) simp_all

lemma seg_append [simp]: "seg h q (is @ js) \<longleftrightarrow> seg h (first_or q js) is \<and> seg h q js"
  by (induction h q "is" rule: seg.induct) auto

lemma seg_frame:
  assumes "seg h q is" and "\<forall>p \<in> set (nodes_of is). h_nodes h' p = h_nodes h p"
    and "\<forall>s \<in> set (strs_of is). string_at s h' \<noteq> None"
  shows "seg h' q is"
  using assms by (induction h q "is" rule: seg.induct) auto

lemma seg_nodes: "seg h q is \<Longrightarrow> p \<in> set (nodes_of is) \<Longrightarrow> p \<noteq> 0 \<and> h_nodes h p \<noteq> None"
  by (induction h q "is" rule: seg.induct) auto

lemma seg_strings: "seg h q is \<Longrightarrow> s \<in> set (strs_of is) \<Longrightarrow> string_at s h \<noteq> None"
  by (induction h q "is" rule: seg.induct) auto

lemma string_at_block: "string_at s h \<noteq> None \<Longrightarrow> s \<noteq> 0 \<and> h_strs h s \<noteq> None"
  by (auto simp: string_at_def block_def split: if_splits option.splits)

lemma string_at_same: "h_strs h' s = h_strs h s \<Longrightarrow> string_at s h' = string_at s h"
  by (simp add: string_at_def block_def)

lemma seg_frame_eq:
  assumes "seg h q is" and "\<forall>p \<in> set (nodes_of is). h_nodes h' p = h_nodes h p"
    and "\<forall>s \<in> set (strs_of is). h_strs h' s = h_strs h s"
  shows "seg h' q is"
  using assms seg_strings [OF assms(1)] string_at_same [of h' _ h] by (intro seg_frame [OF assms(1,2)]) metis

lemma seg_strs: "seg h q is \<Longrightarrow> s \<in> set (strs_of is) \<Longrightarrow> s \<noteq> 0 \<and> h_strs h s \<noteq> None"
  using seg_strings string_at_block by blast

lemma seg_first: "seg h q is \<Longrightarrow> is \<noteq> [] \<Longrightarrow> first_or r is \<noteq> 0"
  by (cases "is" rule: nodes_of.cases) auto

section \<open>cJSON_Delete\<close>

definition without :: "heap \<Rightarrow> ptr set \<Rightarrow> ptr set \<Rightarrow> heap" where
  "without h N S = h\<lparr>h_nodes := h_nodes h |` (- N), h_strs := h_strs h |` (- S)\<rparr>"

lemma without_simps [simp]:
  "h_nodes (without h N S) = h_nodes h |` (- N)" "h_strs (without h N S) = h_strs h |` (- S)"
  "h_fresh (without h N S) = h_fresh h" "h_count (without h N S) = h_count h"
  "h_grants (without h N S) = h_grants h" "h_junk (without h N S) = h_junk h"
  "global_hooks (without h N S) = global_hooks h" "global_error (without h N S) = global_error h"
  by (simp_all add: without_def)

lemma without_without: "without (without h N S) N' S' = without h (N \<union> N') (S \<union> S')"
  by (simp add: without_def Int_commute)

lemma without_empty [simp]: "without h {} {} = h"
  by (simp add: without_def restrict_map_def)

lemma deallocate_without:
  "s \<noteq> 0 \<Longrightarrow> h_strs h s \<noteq> None \<Longrightarrow> s \<notin> S \<Longrightarrow>
    deallocate s (without h N S) = Some (without h N (insert s S))"
  by (auto simp: deallocate_def without_def restrict_map_def fun_eq_iff split: option.split)

lemma dealloc_node_without:
  "p \<noteq> 0 \<Longrightarrow> h_nodes h p \<noteq> None \<Longrightarrow> p \<notin> N \<Longrightarrow>
    dealloc_node p (without h N S) = Some (without h (insert p N) S)"
  by (auto simp: dealloc_node_def without_def restrict_map_def fun_eq_iff split: option.split)

lemma delete_seg:
  "seg (without h N S) 0 is \<Longrightarrow> apart is \<Longrightarrow> set (nodes_of is) \<inter> N = {} \<Longrightarrow> set (strs_of is) \<inter> S = {} \<Longrightarrow>
    cJSON_Delete (first_or 0 is) (without h N S) =
      Some (without h (N \<union> set (nodes_of is)) (S \<union> set (strs_of is)))"
proof (induction "is" arbitrary: N S rule: nodes_of.induct)
  case 1
  then show ?case by (simp add: cJSON_Delete.simps)
next
  case (2 p n cs "is")
  let ?h = "without h N S"
  let ?Nc = "N \<union> set (nodes_of cs)" and ?Sc = "S \<union> set (strs_of cs)"
  from "2.prems"(1) have p: "p \<noteq> 0" "h_nodes ?h p = Some n" "cj_next n = first_or 0 is"
    "cj_child n = first_or 0 cs" "owned_node n" and segs: "seg ?h 0 cs" "seg ?h 0 is"
    and "\<forall>s \<in> set (node_strs n). string_at s ?h \<noteq> None" by auto
  then have ns: "\<forall>s \<in> set (node_strs n). h_strs ?h s \<noteq> None" using string_at_block by blast
  have child: "(if \<not> is_reference n \<and> cj_child n \<noteq> 0 then cJSON_Delete (cj_child n) ?h else Some ?h) =
      Some (without h ?Nc ?Sc)"
  proof (cases cs rule: nodes_of.cases)
    case 1
    then show ?thesis using p by simp
  next
    case (2 p' n' cs' "is'")
    have "cJSON_Delete (first_or 0 cs) ?h = Some (without h ?Nc ?Sc)"
      using "2.prems" segs(1) by (intro "2.IH"(1)) (auto simp: apart_def)
    then show ?thesis using p seg_first [OF segs(1)] 2 by (simp add: owned_node_def)
  qed
  let ?v = "cj_valuestring n" and ?s = "cj_string n"
  let ?Sv = "?Sc \<union> (if ?v = 0 then {} else {?v})"
  let ?Ss = "?Sv \<union> (if ?s = 0 then {} else {?s})"
  have vs: "?v \<noteq> 0 \<Longrightarrow> h_strs h ?v \<noteq> None \<and> ?v \<notin> ?Sc" "?s \<noteq> 0 \<Longrightarrow> h_strs h ?s \<noteq> None \<and> ?s \<notin> ?Sv"
    using "2.prems"(2,4) ns by (auto simp: apart_def node_strs_def restrict_map_def split: if_splits)
  have v: "(if \<not> is_reference n \<and> ?v \<noteq> 0 then deallocate ?v (without h ?Nc ?Sc) else Some (without h ?Nc ?Sc)) =
      Some (without h ?Nc ?Sv)"
    using p(5) vs(1) deallocate_without [of ?v h ?Sc ?Nc] by (simp add: owned_node_def)
  have s: "(if \<not> string_is_const n \<and> ?s \<noteq> 0 then deallocate ?s (without h ?Nc ?Sv) else Some (without h ?Nc ?Sv)) =
      Some (without h ?Nc ?Ss)"
    using p(5) vs(2) deallocate_without [of ?s h ?Sv ?Nc] by (simp add: owned_node_def)
  have d: "dealloc_node p (without h ?Nc ?Ss) = Some (without h (insert p ?Nc) ?Ss)"
    using p(1,2) "2.prems"(2,3)
    by (intro dealloc_node_without) (auto simp: apart_def restrict_map_def split: if_splits)
  have ss: "?Ss = ?Sc \<union> set (node_strs n)" by (auto simp: node_strs_def)
  have fr: "seg (without h (insert p ?Nc) ?Ss) 0 is"
  proof (rule seg_frame [OF segs(2)])
    show "\<forall>q \<in> set (nodes_of is). h_nodes (without h (insert p ?Nc) ?Ss) q = h_nodes ?h q"
      using "2.prems"(2,3) by (auto simp: apart_def restrict_map_def)
    show "\<forall>s \<in> set (strs_of is). string_at s (without h (insert p ?Nc) ?Ss) \<noteq> None"
    proof
      fix s assume s: "s \<in> set (strs_of is)"
      then have "h_strs (without h (insert p ?Nc) ?Ss) s = h_strs ?h s"
        using "2.prems"(2,4) unfolding ss by (auto simp: apart_def restrict_map_def)
      then show "string_at s (without h (insert p ?Nc) ?Ss) \<noteq> None"
        using seg_strings [OF segs(2) s] string_at_same by metis
    qed
  qed
  have "cJSON_Delete (first_or 0 is) (without h (insert p ?Nc) ?Ss) =
      Some (without h (insert p ?Nc \<union> set (nodes_of is)) (?Ss \<union> set (strs_of is)))"
    using "2.prems" fr by (intro "2.IH"(2)) (auto simp: apart_def ss)
  moreover have "insert p ?Nc \<union> set (nodes_of is) = N \<union> set (nodes_of (Item p n cs # is))"
    "?Ss \<union> set (strs_of is) = S \<union> set (strs_of (Item p n cs # is))" unfolding ss by auto
  moreover have "cJSON_Delete p ?h = cJSON_Delete (cj_next n) (without h (insert p ?Nc) ?Ss)"
  proof -
    have l: "load p ?h = Some n" using p(1,2) by (simp add: load_def)
    show ?thesis
      by (subst cJSON_Delete.simps) (simp only: p(1) l child v s d if_False bind.bind_lunit)
  qed
  ultimately show ?case using p(3) by (simp only: first_or_simps item.sel)
qed

theorem delete_frees_list:
  assumes "seg h 0 is" and "apart is"
  shows "cJSON_Delete (first_or 0 is) h = Some (without h (set (nodes_of is)) (set (strs_of is)))"
  using delete_seg [of h "{}" "{}" "is"] assms by simp

end
