(* ===== verification/CJson_Value.thy ===== *)
theory CJson_Value
  imports CJson_Input CJson_Shape
begin

text \<open>
  The value a structure of \<open>cJSON\<close> nodes stands for: its type decides which of the node's
  fields count, and the links between the nodes do not. A number whose \<open>valueint\<close> is not the
  saturated \<open>valuedouble\<close>, a raw item and an invalid one stand for no value.
\<close>

definition text_at :: "heap \<Rightarrow> ptr \<Rightarrow> bytes" where
  "text_at h s = (case string_at s h of None \<Rightarrow> [] | Some t \<Rightarrow> t)"

fun item_value :: "heap \<Rightarrow> item \<Rightarrow> json" where
  "item_value h (Item p n cs) =
     (let t = type_low n
      in if t = cJSON_NULL then JsNull
         else if t = cJSON_False then JsBool False
         else if t = cJSON_True then JsBool True
         else if t = cJSON_Number then
           (if saturated_int (cj_valuedouble n) = Some (cj_valueint n) then JsNum (cj_valuedouble n) else JsOther)
         else if t = cJSON_String then JsStr (text_at h (cj_valuestring n))
         else if t = cJSON_Array then JsArr (map (item_value h) cs)
         else if t = cJSON_Object then JsObj (map (\<lambda>i. (text_at h (cj_string (it_node i)), item_value h i)) cs)
         else JsOther)"

definition named_value :: "heap \<Rightarrow> item \<Rightarrow> bytes \<times> json" where
  "named_value h i = (text_at h (cj_string (it_node i)), item_value h i)"

text \<open>What depends on the strings of an item, and not on its links.\<close>

definition reads_item :: "(heap \<Rightarrow> item \<Rightarrow> 'a) \<Rightarrow> bool" where
  "reads_item va \<longleftrightarrow>
     (\<forall>h h' i. (\<forall>s \<in> set (strs_of [i]). h_strs h' s = h_strs h s) \<longrightarrow> va h' i = va h i) \<and>
     (\<forall>h p n cs q. va h (Item p (n\<lparr>cj_next := q\<rparr>) cs) = va h (Item p n cs) \<and>
        va h (Item p (n\<lparr>cj_prev := q\<rparr>) cs) = va h (Item p n cs))"

lemma text_at_same: "s \<noteq> 0 \<longrightarrow> h_strs h' s = h_strs h s \<Longrightarrow> text_at h' s = text_at h s"
  by (simp add: text_at_def string_at_def block_def)

lemma strs_of_member: "i \<in> set is \<Longrightarrow> set (strs_of [i]) \<subseteq> set (strs_of is)"
  by (induction "is" rule: strs_of.induct) (cases i, auto)

lemma node_strs_mem: "s \<noteq> 0 \<Longrightarrow> s = cj_valuestring n \<or> s = cj_string n \<Longrightarrow> s \<in> set (node_strs n)"
  by (auto simp: node_strs_def)

lemma item_value_frame:
  "\<forall>s \<in> set (strs_of [i]). h_strs h' s = h_strs h s \<Longrightarrow> item_value h' i = item_value h i"
proof (induction i)
  case (Item p n cs)
  have v: "text_at h' (cj_valuestring n) = text_at h (cj_valuestring n)"
    using Item.prems node_strs_mem [of _ n] by (intro text_at_same) auto
  have c: "\<forall>s \<in> set (strs_of [i]). h_strs h' s = h_strs h s" if "i \<in> set cs" for i
    using Item.prems strs_of_member [OF that] by auto
  have s: "text_at h' (cj_string (it_node i)) = text_at h (cj_string (it_node i))" if "i \<in> set cs" for i
    using c [OF that] node_strs_mem [of _ "it_node i"] by (cases i) (intro text_at_same, auto)
  show ?case using v s Item.IH [OF _ c] by (simp add: Let_def)
qed

lemma reads_item_value: "reads_item item_value"
  unfolding reads_item_def using item_value_frame by (auto simp: type_low_def Let_def)

lemma reads_named_value: "reads_item named_value"
proof -
  have "named_value h' i = named_value h i" if "\<forall>s \<in> set (strs_of [i]). h_strs h' s = h_strs h s" for h h' i
    using that item_value_frame [OF that] node_strs_mem [of _ "it_node i"]
    by (cases i) (auto simp: named_value_def intro!: text_at_same)
  then show ?thesis unfolding reads_item_def named_value_def by (auto simp: type_low_def Let_def)
qed

text \<open>Items whose strings are as they were have the values they had.\<close>

lemma values_kept:
  assumes "reads_item va" and "\<forall>s \<in> set (strs_of is). h_strs h' s = h_strs h s"
  shows "map (va h') is = map (va h) is"
proof -
  have "va h' i = va h i" if "i \<in> set is" for i
    using assms strs_of_member [OF that] unfolding reads_item_def by blast
  then show ?thesis by simp
qed

end
