(* ===== verification/CJson_Safety.thy ===== *)
theory CJson_Safety
  imports CJson_Value
begin

text \<open>
  The parser on a text with its terminator: it returns, it never leaves the text or the
  heap, and what it builds is a well-linked structure of new nodes. When it fails it leaves
  no node and no block behind. The fuel is bounded by the length of the text.
\<close>

section \<open>What a parse may change\<close>

definition fresh_ok :: "heap \<Rightarrow> bool" where
  "fresh_ok h \<longleftrightarrow> 0 < h_fresh h \<and> (\<forall>p \<ge> h_fresh h. h_nodes h p = None \<and> h_strs h p = None)"

definition frame :: "ptr set \<Rightarrow> ptr set \<Rightarrow> heap \<Rightarrow> heap \<Rightarrow> bool" where
  "frame N S h h' \<longleftrightarrow> (\<forall>p. p \<notin> N \<longrightarrow> h_nodes h' p = h_nodes h p) \<and>
     (\<forall>s. s \<notin> S \<longrightarrow> h_strs h' s = h_strs h s) \<and> h_fresh h \<le> h_fresh h' \<and> h_grants h' = h_grants h"

text \<open>The \<open>prev\<close> pointers of a list whose first item points back to \<open>q\<close>.\<close>

fun prev_chain :: "ptr \<Rightarrow> item list \<Rightarrow> bool" where
  "prev_chain q [] \<longleftrightarrow> True"
| "prev_chain q (Item p n cs # is) \<longleftrightarrow> cj_prev n = q \<and> prev_chain p is"

definition last_or :: "ptr \<Rightarrow> item list \<Rightarrow> ptr" where
  "last_or q is = (if is = [] then q else it_ptr (last is))"

text \<open>The first child points back to the last one, at every level.\<close>

fun tidy :: "item list \<Rightarrow> bool" where
  "tidy [] \<longleftrightarrow> True"
| "tidy (Item p n cs # is) \<longleftrightarrow> prev_chain (last_or 0 cs) cs \<and> tidy cs \<and> tidy is"

fun levels :: "item list \<Rightarrow> nat" where
  "levels [] = 0"
| "levels (Item p n cs # is) = max (Suc (levels cs)) (levels is)"

definition good_list :: "heap \<Rightarrow> item list \<Rightarrow> bool" where
  "good_list h is \<longleftrightarrow> seg h 0 is \<and> apart is \<and> prev_chain 0 is \<and> tidy is \<and> fresh_ok h"

definition grows :: "heap \<Rightarrow> item list \<Rightarrow> heap \<Rightarrow> item list \<Rightarrow> bool" where
  "grows h is h' is' \<longleftrightarrow> frame (set (nodes_of is')) (set (strs_of is')) h h' \<and>
     set (nodes_of is) \<subseteq> set (nodes_of is') \<and> set (nodes_of is') \<subseteq> set (nodes_of is) \<union> {h_fresh h..} \<and>
     set (strs_of is) \<subseteq> set (strs_of is') \<and> set (strs_of is') \<subseteq> set (strs_of is) \<union> {h_fresh h..}"

definition value_strs :: "cjson \<Rightarrow> ptr list" where
  "value_strs n = filter (\<lambda>s. s \<noteq> 0) [cj_valuestring n]"

text \<open>The item gets a value: its node, its children and its string are all the change.\<close>

definition filled :: "heap \<Rightarrow> heap \<Rightarrow> ptr \<Rightarrow> cjson \<Rightarrow> cjson \<Rightarrow> item list \<Rightarrow> bool" where
  "filled h h' item n n' cs \<longleftrightarrow>
     h_nodes h' item = Some n' \<and> cj_next n' = cj_next n \<and> cj_prev n' = cj_prev n \<and> cj_string n' = cj_string n \<and>
     owned_node n' \<and> cj_child n' = first_or 0 cs \<and> seg h' 0 cs \<and>
     distinct (nodes_of cs) \<and> distinct (value_strs n' @ strs_of cs) \<and>
     frame (insert item (set (nodes_of cs))) (set (value_strs n' @ strs_of cs)) h h' \<and>
     set (nodes_of cs) \<subseteq> {h_fresh h..} \<and> set (value_strs n' @ strs_of cs) \<subseteq> {h_fresh h..} \<and>
     (\<forall>s \<in> set (value_strs n'). string_at s h' \<noteq> None)"

text \<open>An item that has no value yet.\<close>

definition blank :: "ptr \<Rightarrow> cjson \<Rightarrow> heap \<Rightarrow> bool" where
  "blank item n h \<longleftrightarrow> load item h = Some n \<and> cj_child n = 0 \<and> cj_valuestring n = 0 \<and> owned_node n \<and>
     item < h_fresh h"

lemma prev_chain_append: "prev_chain q (is @ js) \<longleftrightarrow> prev_chain q is \<and> prev_chain (last_or q is) js"
  by (induction q "is" rule: prev_chain.induct) (auto simp: last_or_def)

lemma tidy_append: "tidy (is @ js) \<longleftrightarrow> tidy is \<and> tidy js"
  by (induction "is" rule: tidy.induct) auto

lemma levels_append: "levels (is @ js) = max (levels is) (levels js)"
  by (induction "is" rule: levels.induct) auto

lemma last_or_simps [simp]: "last_or q [] = q" "last_or q (is @ [i]) = it_ptr i"
  by (simp_all add: last_or_def)

lemma frame_refl: "frame N S h h"
  by (simp add: frame_def)

lemma frame_trans:
  assumes "frame N S h h'" and "frame N' S' h' h''" and "N \<subseteq> N'" and "S \<subseteq> S'"
  shows "frame N' S' h h''"
proof -
  have "h_nodes h'' p = h_nodes h p" if "p \<notin> N'" for p
    using that assms(1,2) subsetD [OF assms(3), of p] by (auto simp: frame_def)
  moreover have "h_strs h'' p = h_strs h p" if "p \<notin> S'" for p
    using that assms(1,2) subsetD [OF assms(4), of p] by (auto simp: frame_def)
  ultimately show ?thesis using assms(1,2) by (simp add: frame_def)
qed

lemma grows_refl: "grows h is h is"
  by (simp add: grows_def frame_refl)

lemma grows_trans:
  assumes "grows h is h1 is1" and "grows h1 is1 h2 is2"
  shows "grows h is h2 is2"
proof -
  have "h_fresh h \<le> h_fresh h1" using assms(1) by (simp add: grows_def frame_def)
  then have f: "{h_fresh h1..} \<subseteq> {h_fresh h..}" by simp
  note g = assms [unfolded grows_def]
  have u: "A \<subseteq> C \<union> {h_fresh h..}" if "A \<subseteq> B \<union> {h_fresh h1..}" "B \<subseteq> C \<union> {h_fresh h..}" for A B C
    by (rule order_trans [OF that(1)]) (rule Un_least [OF that(2) le_supI2 [OF f]])
  have "frame (set (nodes_of is2)) (set (strs_of is2)) h h2"
    by (rule frame_trans [of "set (nodes_of is1)" "set (strs_of is1)" h h1]) (use g in simp_all)
  moreover have "set (nodes_of is2) \<subseteq> set (nodes_of is) \<union> {h_fresh h..}"
    by (rule u [of _ "set (nodes_of is1)"]) (use g in simp_all)
  moreover have "set (strs_of is2) \<subseteq> set (strs_of is) \<union> {h_fresh h..}"
    by (rule u [of _ "set (strs_of is1)"]) (use g in simp_all)
  moreover have "set (nodes_of is) \<subseteq> set (nodes_of is2)" "set (strs_of is) \<subseteq> set (strs_of is2)"
    using g by (meson order_trans)+
  ultimately show ?thesis by (simp add: grows_def)
qed

lemma fresh_ok_same_mem: "fresh_ok h \<Longrightarrow> same_mem h h' \<Longrightarrow> h_fresh h \<le> h_fresh h' \<Longrightarrow> fresh_ok h'"
  by (simp add: fresh_ok_def same_mem_def)

lemma seg_fresh:
  assumes "seg h q is" and "fresh_ok h"
  shows "set (nodes_of is) \<subseteq> {..<h_fresh h}" "set (strs_of is) \<subseteq> {..<h_fresh h}"
proof -
  show "set (nodes_of is) \<subseteq> {..<h_fresh h}"
  proof
    fix p assume "p \<in> set (nodes_of is)"
    from seg_nodes [OF assms(1) this] assms(2) have "\<not> h_fresh h \<le> p" by (auto simp: fresh_ok_def)
    then show "p \<in> {..<h_fresh h}" by simp
  qed
  show "set (strs_of is) \<subseteq> {..<h_fresh h}"
  proof
    fix p assume "p \<in> set (strs_of is)"
    from seg_strs [OF assms(1) this] assms(2) have "\<not> h_fresh h \<le> p" by (auto simp: fresh_ok_def)
    then show "p \<in> {..<h_fresh h}" by simp
  qed
qed

lemma node_strs_split: "set (node_strs n) = set (value_strs n) \<union> (if cj_string n = 0 then {} else {cj_string n})"
  by (auto simp: node_strs_def value_strs_def)

section \<open>Linking a new item\<close>

lemma New_Item_cases:
  assumes "fresh_ok h"
  obtains (none) h1 where "cJSON_New_Item h = (0, h1)" "same_mem h h1" "h_fresh h1 = h_fresh h" "\<not> all_granted h"
  | (item) h1 where "cJSON_New_Item h = (h_fresh h, h1)" "h_nodes h1 = (h_nodes h)(h_fresh h \<mapsto> zero_node)"
     "h_strs h1 = h_strs h" "h_fresh h1 = Suc (h_fresh h)" "h_grants h1 = h_grants h"
  by (cases "h_grants h (h_count h)") (auto simp: cJSON_New_Item_def Let_def same_mem_def all_granted_def)


lemma seg_last: "seg h q (js @ [Item c nc ks]) \<Longrightarrow>
    c \<noteq> 0 \<and> h_nodes h c = Some nc \<and> cj_next nc = q \<and> owned_node nc \<and> seg h c js"
  by simp

text \<open>Changing the links of the last node of a list.\<close>

lemma good_link:
  assumes g: "good_list h is" and new: "cJSON_New_Item h = (h_fresh h, h1)"
    "h_nodes h1 = (h_nodes h)(h_fresh h \<mapsto> zero_node)" "h_strs h1 = h_strs h" "h_fresh h1 = Suc (h_fresh h)" "h_grants h1 = h_grants h"
    and va: "reads_item va"
  obtains h2 is1 n where "link_item (first_or 0 is) (last_or 0 is) (h_fresh h) h1 = Some (first_or 0 (is1 @ [Item (h_fresh h) n []]), h_fresh h, h2)"
    "good_list h2 (is1 @ [Item (h_fresh h) n []])" "grows h is h2 (is1 @ [Item (h_fresh h) n []])"
    "blank (h_fresh h) n h2" "cj_string n = 0" "levels is1 = levels is" "map (va h2) is1 = map (va h) is"
proof -
  let ?p = "h_fresh h"
  have fr: "fresh_ok h" "seg h 0 is" "apart is" using g by (simp_all add: good_list_def)
  have p: "?p \<noteq> 0" "?p \<notin> set (nodes_of is)" using fr(1) seg_fresh(1) [OF fr(2,1)] by (auto simp: fresh_ok_def)
  have zs: "node_strs (zero_node\<lparr>cj_prev := q\<rparr>) = []" "owned_node (zero_node\<lparr>cj_prev := q\<rparr>)" for q
    by (simp_all add: node_strs_def zero_node_def owned_node_def is_reference_def string_is_const_def)
  show thesis
  proof (cases "is" rule: rev_cases)
    case Nil
    have zn: "zero_node = zero_node\<lparr>cj_prev := 0\<rparr>" by (simp add: zero_node_def)
    have "good_list h1 ([] @ [Item ?p zero_node []])"
      using p new fr(1) zs [of 0] zn
      by (auto simp: good_list_def apart_def fresh_ok_def zero_node_def)
    moreover have "grows h is h1 ([] @ [Item ?p zero_node []])"
      using new Nil zs [of 0] zn by (auto simp: grows_def frame_def)
    moreover have "blank ?p zero_node h1"
      using p new zs(2) [of 0] zn by (simp add: blank_def load_def zero_node_def)
    ultimately show thesis
      using Nil by (intro that [of "[]" zero_node h1]) (simp_all add: link_item_def zero_node_def)
  next
    case (snoc js i)
    obtain c nc ks where i: "i = Item c nc ks" by (cases i)
    let ?nc = "nc\<lparr>cj_next := ?p\<rparr>" and ?n = "zero_node\<lparr>cj_prev := c\<rparr>"
    let ?h2 = "h1\<lparr>h_nodes := (h_nodes h1)(c \<mapsto> ?nc, ?p \<mapsto> ?n)\<rparr>"
    let ?is = "(js @ [Item c ?nc ks]) @ [Item ?p ?n []]"
    have sg: "seg h 0 (js @ [Item c nc ks])" using fr(2) snoc i by simp
    note c = seg_last [OF sg]
    have cp: "c \<noteq> ?p" using p(2) snoc i by auto
    have ns: "node_strs ?nc = node_strs nc" "owned_node ?nc = owned_node nc"
      by (simp_all add: node_strs_def owned_node_def is_reference_def string_is_const_def)
    have no: "nodes_of ?is = nodes_of is @ [?p]" "strs_of ?is = strs_of is"
      using snoc i ns zs by simp_all
    have nonempty: "first_or 0 is \<noteq> 0" using seg_first [OF fr(2)] snoc by simp
    have dist: "c \<notin> set (nodes_of js)" "c \<notin> set (nodes_of ks)" using fr(3) snoc i by (auto simp: apart_def)
    have pj: "?p \<notin> set (nodes_of js)" "?p \<notin> set (nodes_of ks)" using p(2) snoc i by auto
    have li: "link_item (first_or 0 is) (last_or 0 is) ?p h1 = Some (first_or 0 ?is, ?p, ?h2)"
    proof -
      have "last_or 0 is = c" "first_or 0 ?is = first_or 0 is" using snoc i by simp_all
      then show ?thesis using nonempty c cp p(1) new(2) by (simp add: link_item_def store_def load_def)
    qed
    have "seg ?h2 c js"
      by (rule seg_frame_eq [of h]) (use c dist pj new seg_strs [OF conjunct2 [OF conjunct2 [OF conjunct2 [OF conjunct2 [OF c]]]]] in auto)
    moreover have "seg ?h2 0 ks"
      by (rule seg_frame_eq [of h]) (use sg dist pj new seg_strs [of h 0 ks] in auto)
    moreover have "string_at s ?h2 = string_at s h" for s by (rule string_at_same) (simp add: new)
    ultimately have "seg ?h2 0 ?is" using sg cp p(1) new ns zs by (simp add: zero_node_def)
    moreover have "apart ?is" using fr(3) p(2) unfolding apart_def no by simp
    moreover have "prev_chain 0 ?is" using g snoc i by (simp add: good_list_def prev_chain_append zero_node_def)
    moreover have "tidy ?is" using g snoc i by (simp add: good_list_def tidy_append)
    moreover have "fresh_ok ?h2" using fr(1) new c cp seg_fresh(1) [OF fr(2,1)] snoc i by (auto simp: fresh_ok_def)
    ultimately have "good_list ?h2 ?is" by (simp only: good_list_def)
    moreover have "grows h is ?h2 ?is"
      unfolding grows_def no frame_def using new snoc i by auto
    moreover have "blank ?p ?n ?h2" using p new zs(2) by (simp add: blank_def load_def zero_node_def)
    moreover have "map (va ?h2) (js @ [Item c ?nc ks]) = map (va h) is"
    proof -
      have "map (va ?h2) is = map (va h) is" by (rule values_kept [OF va]) (simp add: new)
      moreover have "va ?h2 (Item c ?nc ks) = va ?h2 (Item c nc ks)" using va by (simp add: reads_item_def)
      ultimately show ?thesis using snoc i by simp
    qed
    ultimately show thesis
      using li snoc i by (intro that [of "js @ [Item c ?nc ks]" ?n ?h2]) (simp_all add: zero_node_def levels_append)
  qed
qed


section \<open>Giving the last item its value\<close>

lemma good_renode:
  assumes g: "good_list h (js @ [Item p n []])" and n': "h_nodes h' p = Some n'" "cj_next n' = cj_next n"
      "cj_prev n' = cj_prev n" "owned_node n'" "cj_child n' = first_or 0 cs"
    and cs: "seg h' 0 cs" "distinct (nodes_of cs)" "set (nodes_of cs) \<subseteq> {h_fresh h..}"
    and ss: "distinct (node_strs n' @ strs_of cs)" "set (node_strs n' @ strs_of cs) = set (node_strs n) \<union> S"
      "S \<subseteq> {h_fresh h..}" "\<forall>s \<in> set (node_strs n'). string_at s h' \<noteq> None"
    and fr: "frame (insert p (set (nodes_of cs))) S h h'" "fresh_ok h'"
    and ti: "prev_chain (last_or 0 cs) cs" "tidy cs"
  shows "good_list h' (js @ [Item p n' cs])" and "grows h (js @ [Item p n []]) h' (js @ [Item p n' cs])"
proof -
  have sg: "seg h p js" "p \<noteq> 0" "cj_next n = 0" and ap: "apart (js @ [Item p n []])" and f: "fresh_ok h"
    using g by (simp_all add: good_list_def)
  note lo = seg_fresh [OF sg(1) f]
  have sn: "set (node_strs n) \<subseteq> {..<h_fresh h}"
    using g seg_fresh(2) [of h 0 "js @ [Item p n []]"] by (simp add: good_list_def)
  have pl: "p < h_fresh h" using g seg_fresh(1) [of h 0 "js @ [Item p n []]"] by (simp add: good_list_def)
  have dj: "set (nodes_of cs) \<inter> set (nodes_of js) = {}" "p \<notin> set (nodes_of cs)" "S \<inter> set (strs_of js) = {}"
    using lo cs(3) ss(3) pl by force+
  have "seg h' p js"
  proof (rule seg_frame_eq [OF sg(1)])
    show "\<forall>q \<in> set (nodes_of js). h_nodes h' q = h_nodes h q"
      using fr(1) dj(1) ap by (auto simp: frame_def apart_def)
    show "\<forall>s \<in> set (strs_of js). h_strs h' s = h_strs h s"
      using fr(1) dj(3) by (fastforce simp: frame_def)
  qed
  then have 1: "seg h' 0 (js @ [Item p n' cs])" using sg(2,3) n' ss(4) cs(1) by simp
  have "set (strs_of js) \<inter> set (node_strs n' @ strs_of cs) = {}"
    unfolding ss(2) using dj(3) ap by (auto simp: apart_def)
  then have 2: "apart (js @ [Item p n' cs])"
    using ap dj cs(2) ss(1) by (simp add: apart_def) blast
  have 3: "prev_chain 0 (js @ [Item p n' cs])" "tidy (js @ [Item p n' cs])"
    using g n'(3) ti by (simp_all add: good_list_def prev_chain_append tidy_append)
  from 1 2 3 fr(2) show "good_list h' (js @ [Item p n' cs])" by (simp add: good_list_def)
  have no: "set (nodes_of (js @ [Item p n' cs])) = set (nodes_of (js @ [Item p n []])) \<union> set (nodes_of cs)" by auto
  have st: "set (strs_of (js @ [Item p n' cs])) = set (strs_of (js @ [Item p n []])) \<union> S"
    using ss(2) by auto
  have "frame (set (nodes_of (js @ [Item p n' cs]))) (set (strs_of (js @ [Item p n' cs]))) h h'"
    unfolding no st using fr(1) by (auto simp: frame_def)
  then show "grows h (js @ [Item p n []]) h' (js @ [Item p n' cs])"
    unfolding grows_def using cs(3) ss(3) unfolding no st by blast
qed

lemma old_values_kept:
  assumes "seg h q js" and "fresh_ok h" and "frame N S h h'" and "S \<subseteq> {h_fresh h..}" and "reads_item va"
  shows "map (va h') js = map (va h) js"
proof (rule values_kept [OF assms(5)], rule ballI)
  fix s assume "s \<in> set (strs_of js)"
  then have "s \<notin> S" using seg_fresh(2) [OF assms(1,2)] assms(4) by fastforce
  then show "h_strs h' s = h_strs h s" using assms(3) by (simp add: frame_def)
qed

lemma all_granted_frame: "frame N S h h' \<Longrightarrow> all_granted h' = all_granted h"
  by (simp add: all_granted_def frame_def)

lemma good_fill:
  assumes g: "good_list h (js @ [Item p n []])" and b: "blank p n h" and fi: "filled h h' p n n' cs"
    and f: "fresh_ok h'" and ti: "prev_chain (last_or 0 cs) cs" "tidy cs"
  shows "good_list h' (js @ [Item p n' cs])" and "grows h (js @ [Item p n []]) h' (js @ [Item p n' cs])"
proof -
  have sn: "set (node_strs n) \<subseteq> {..<h_fresh h}" "\<forall>s \<in> set (node_strs n). string_at s h \<noteq> None"
    using g seg_fresh(2) [of h 0 "js @ [Item p n []]"] by (simp_all add: good_list_def)
  have v: "node_strs n = (if cj_string n = 0 then [] else [cj_string n])"
    using b by (simp add: blank_def node_strs_def)
  have "cj_string n' = cj_string n" using fi by (simp only: filled_def)
  then have v': "node_strs n' = value_strs n' @ node_strs n"
    unfolding v by (simp add: node_strs_def value_strs_def)
  let ?S = "set (value_strs n' @ strs_of cs)"
  have S: "?S \<subseteq> {h_fresh h..}" and dS: "distinct (value_strs n' @ strs_of cs)" and fr: "frame (insert p (set (nodes_of cs))) ?S h h'"
    using fi by (simp_all add: filled_def)
  have nS: "set (node_strs n) \<inter> ?S = {}" using sn(1) S by force
  have "distinct (node_strs n' @ strs_of cs)" using dS nS unfolding v' by (auto simp: v)
  moreover have "set (node_strs n' @ strs_of cs) = set (node_strs n) \<union> ?S" unfolding v' by auto
  moreover have "\<forall>s \<in> set (node_strs n'). string_at s h' \<noteq> None"
  proof
    fix s assume "s \<in> set (node_strs n')"
    then consider "s \<in> set (value_strs n')" | "s \<in> set (node_strs n)" "s \<notin> ?S" using nS v' by auto
    then show "string_at s h' \<noteq> None"
    proof cases
      case 1
      then show ?thesis using fi unfolding filled_def by blast
    next
      case 2
      then have "h_strs h' s = h_strs h s" using fr by (simp add: frame_def)
      then show ?thesis using sn(2) 2(1) string_at_same by metis
    qed
  qed
  ultimately show "good_list h' (js @ [Item p n' cs])" "grows h (js @ [Item p n []]) h' (js @ [Item p n' cs])"
    using good_renode [OF g, of h' n' cs ?S] fi f S ti by (simp_all only: filled_def)
qed


lemma new_string: "fresh_ok h \<Longrightarrow> h_strs h' = (h_strs h)(h_fresh h \<mapsto> blk) \<Longrightarrow> 0 \<in> set blk \<Longrightarrow>
    string_at (h_fresh h) h' \<noteq> None"
  by (simp add: string_at_def block_def fresh_ok_def)

lemma good_name:
  assumes g: "good_list h (js @ [Item p n []])" and b: "blank p n h" "cj_string n = 0"
    and h': "h_nodes h' = (h_nodes h)(p \<mapsto> n\<lparr>cj_type := cJSON_String, cj_string := h_fresh h, cj_valuestring := 0\<rparr>)"
      "h_strs h' = (h_strs h)(h_fresh h \<mapsto> blk)" "h_fresh h' = Suc (h_fresh h)" "0 \<in> set blk" "h_grants h' = h_grants h"
  shows "good_list h' (js @ [Item p (n\<lparr>cj_type := cJSON_String, cj_string := h_fresh h, cj_valuestring := 0\<rparr>) []])"
    and "grows h (js @ [Item p n []]) h'
          (js @ [Item p (n\<lparr>cj_type := cJSON_String, cj_string := h_fresh h, cj_valuestring := 0\<rparr>) []])"
    and "blank p (n\<lparr>cj_type := cJSON_String, cj_string := h_fresh h, cj_valuestring := 0\<rparr>) h'"
proof -
  let ?n = "n\<lparr>cj_type := cJSON_String, cj_string := h_fresh h, cj_valuestring := 0\<rparr>"
  have f: "fresh_ok h" using g by (simp add: good_list_def)
  have o: "owned_node ?n" by (simp add: owned_node_def is_reference_def string_is_const_def)
  have b': "p \<noteq> 0" "p < h_fresh h" "cj_valuestring n = 0" "cj_child n = 0"
    using b by (auto simp: blank_def load_def split: if_splits)
  have ns: "node_strs n = []" "node_strs ?n = [h_fresh h]" using b b' by (simp_all add: node_strs_def)
  have fr: "frame (insert p (set (nodes_of []))) {h_fresh h} h h'" using h' by (simp add: frame_def)
  have f': "fresh_ok h'" using f h' b'(2) by (auto simp: fresh_ok_def)
  have "string_at (h_fresh h) h' \<noteq> None" using new_string f h'(2,4) by simp
  then show "good_list h' (js @ [Item p ?n []])" "grows h (js @ [Item p n []]) h' (js @ [Item p ?n []])"
    by (intro good_renode [OF g _ _ _ o _ _ _ _ _ _ _ _ fr f'], use h' b' ns in simp_all)+
  show "blank p ?n h'" using b' h' o by (simp add: blank_def load_def)
qed

section \<open>Leaf values\<close>

lemma filled_leaf:
  assumes "blank item n h" and "h_nodes h' = (h_nodes h)(item \<mapsto> n')" and "h_strs h' = h_strs h" and "h_fresh h \<le> h_fresh h'" and "h_grants h' = h_grants h"
    and "n' = n\<lparr>cj_type := t, cj_valueint := i, cj_valuedouble := d\<rparr>" and "t AND 0x300 = 0"
  shows "filled h h' item n n' []"
proof -
  have "t AND 0x100 = (t AND 0x300) AND 0x100" "t AND 0x200 = (t AND 0x300) AND 0x200"
    by (simp_all add: and.assoc)
  then have "owned_node n'" using assms(6,7) by (simp add: owned_node_def is_reference_def string_is_const_def)
  then show ?thesis using assms(1-6) by (simp add: filled_def blank_def value_strs_def frame_def)
qed

lemma filled_string:
  assumes "blank item n h" and "h_nodes h' = (h_nodes h)(item \<mapsto> n\<lparr>cj_type := cJSON_String, cj_valuestring := h_fresh h\<rparr>)"
    and "h_strs h' = (h_strs h)(h_fresh h \<mapsto> blk)" and "h_fresh h' = Suc (h_fresh h)" and "0 \<in> set blk" and "fresh_ok h" and "h_grants h' = h_grants h"
  shows "filled h h' item n (n\<lparr>cj_type := cJSON_String, cj_valuestring := h_fresh h\<rparr>) []"
  using assms new_string [OF assms(6,3,5)] by (simp add: filled_def blank_def value_strs_def frame_def fresh_ok_def owned_node_def
      is_reference_def string_is_const_def)

lemma fresh_ok_fill: "fresh_ok h \<Longrightarrow> item < h_fresh h \<Longrightarrow> h_nodes h' = (h_nodes h)(item \<mapsto> n') \<Longrightarrow>
    h_strs h' = h_strs h \<Longrightarrow> h_fresh h' = h_fresh h \<Longrightarrow> fresh_ok h'"
  by (auto simp: fresh_ok_def)

section \<open>The end of a container\<close>

definition head_prev :: "ptr \<Rightarrow> item list \<Rightarrow> item list" where
  "head_prev q is = (case is of [] \<Rightarrow> [] | Item p n cs # js \<Rightarrow> Item p (n\<lparr>cj_prev := q\<rparr>) cs # js)"

lemma head_prev_simps [simp]:
  "nodes_of (head_prev q is) = nodes_of is" "strs_of (head_prev q is) = strs_of is"
  "levels (head_prev q is) = levels is" "tidy (head_prev q is) = tidy is"
  "first_or r (head_prev q is) = first_or r is" "last_or r (head_prev q is) = last_or r is"
  by (cases "is" rule: nodes_of.cases; simp add: head_prev_def node_strs_def last_or_def)+

lemma prev_chain_head_prev: "prev_chain q is \<Longrightarrow> prev_chain r (head_prev r is)"
  by (cases "is" rule: nodes_of.cases) (simp_all add: head_prev_def)

lemma seg_head_prev:
  assumes "seg h 0 (Item p n cs # js)" and "apart (Item p n cs # js)"
    and "h_nodes h' = (h_nodes h)(p \<mapsto> n\<lparr>cj_prev := q\<rparr>)" and "h_strs h' = h_strs h"
  shows "seg h' 0 (head_prev q (Item p n cs # js))"
proof -
  have "seg h' 0 js" "seg h' 0 cs"
    by (rule seg_frame_eq [of h], use assms seg_strs [of h 0 js] seg_strs [of h 0 cs] in \<open>auto simp: apart_def\<close>)+
  moreover have "string_at s h' = string_at s h" for s by (rule string_at_same) (simp add: assms(4))
  moreover have "node_strs (n\<lparr>cj_prev := q\<rparr>) = node_strs n" by (simp add: node_strs_def)
  ultimately show ?thesis
    using assms by (simp add: head_prev_def owned_node_def is_reference_def string_is_const_def)
qed

lemma container_fail_mem:
  assumes g: "good_list h' is" and gr: "grows h [] h' is" and f: "fresh_ok h"
  obtains h'' where "container_fail (first_or 0 is) b h' = Some (False, b, h'')" "same_mem h h''"
    "h_fresh h \<le> h_fresh h''"
proof -
  have sa: "seg h' 0 is" "apart is" using g by (simp_all add: good_list_def)
  let ?h = "without h' (set (nodes_of is)) (set (strs_of is))"
  have "container_fail (first_or 0 is) b h' = Some (False, b, ?h)"
  proof (cases "first_or 0 is = 0")
    case True
    then have "is = []" using seg_first [OF sa(1), of 0] by blast
    then show ?thesis by (simp add: container_fail_def)
  next
    case False
    then show ?thesis using delete_frees_list [OF sa] by (simp add: container_fail_def)
  qed
  moreover have "h_nodes ?h p = h_nodes h p" for p
    using gr f by (cases "p \<in> set (nodes_of is)") (auto simp: grows_def frame_def fresh_ok_def subset_iff)
  moreover have "h_strs ?h s = h_strs h s" for s
    using gr f by (cases "s \<in> set (strs_of is)") (auto simp: grows_def frame_def fresh_ok_def subset_iff)
  ultimately show thesis using gr by (intro that [of ?h]) (auto simp: same_mem_def grows_def frame_def)
qed


lemma seg_same_nodes:
  "seg h q is \<Longrightarrow> \<forall>p \<in> set (nodes_of is). h_nodes h' p = h_nodes h p \<Longrightarrow> h_strs h' = h_strs h \<Longrightarrow> seg h' q is"
  by (rule seg_frame_eq [of h]) auto

lemma container_success_filled:
  assumes b: "blank item n h" and g: "good_list h' is" and gr: "grows h [] h' is" and f: "fresh_ok h"
    and ty: "ty AND 0x300 = 0" and va: "reads_item va"
  obtains h'' n' cs where
    "container_success ty item (first_or 0 is) (last_or 0 is) b h' =
       Some (True, move 1 (b\<lparr>pb_depth := pb_depth b - 1\<rparr>), h'')"
    "filled h h'' item n n' cs" "fresh_ok h''" "prev_chain (last_or 0 cs) cs" "tidy cs" "levels cs = levels is"
    "cj_type n' = ty" "h_fresh h \<le> h_fresh h''" "map (va h'') cs = map (va h') is"
proof -
  let ?cs = "head_prev (last_or 0 is) is"
  let ?h1 = "case is of [] \<Rightarrow> h' | Item p m ks # js \<Rightarrow> h'\<lparr>h_nodes := (h_nodes h')(p \<mapsto> m\<lparr>cj_prev := last_or 0 is\<rparr>)\<rparr>"
  let ?n = "n\<lparr>cj_type := ty, cj_child := first_or 0 is\<rparr>"
  let ?h = "?h1\<lparr>h_nodes := (h_nodes ?h1)(item \<mapsto> ?n)\<rparr>"
  have it: "item \<noteq> 0" "h_nodes h item = Some n" "item < h_fresh h" "cj_valuestring n = 0"
    using b by (auto simp: blank_def load_def split: if_splits)
  have sa: "seg h' 0 is" "apart is" "prev_chain 0 is" "tidy is" "fresh_ok h'" using g by (simp_all add: good_list_def)
  have fr: "frame (set (nodes_of is)) (set (strs_of is)) h h'" "set (nodes_of is) \<subseteq> {h_fresh h..}"
    "set (strs_of is) \<subseteq> {h_fresh h..}" using gr by (simp_all add: grows_def)
  have ni: "item \<notin> set (nodes_of is)" using fr(2) it(3) by auto
  have n1: "h_nodes ?h1 item = Some n"
    using fr(1) ni it(2) by (cases "is" rule: nodes_of.cases) (auto simp: frame_def)
  have st: "(if first_or 0 is \<noteq> 0 then store (first_or 0 is) (\<lambda>n. n\<lparr>cj_prev := last_or 0 is\<rparr>) h' else Some h') = Some ?h1"
    using sa(1) by (cases "is" rule: nodes_of.cases) (simp_all add: store_def load_def)
  have h1: "h_strs ?h1 = h_strs h'" "h_fresh ?h1 = h_fresh h'"
    by (cases "is" rule: nodes_of.cases; simp)+
  have "seg ?h1 0 ?cs"
  proof (cases "is" rule: nodes_of.cases)
    case 1
    then show ?thesis by (simp add: head_prev_def)
  next
    case (2 p m ks js)
    have "seg ?h1 0 (head_prev (last_or 0 is) (Item p m ks # js))"
      by (rule seg_head_prev [of h']) (use sa 2 in simp_all)
    then show ?thesis using 2 by simp
  qed
  then have sg: "seg ?h 0 ?cs" using ni by (rule_tac seg_same_nodes [of ?h1]) auto
  have "container_success ty item (first_or 0 is) (last_or 0 is) b h' =
      Some (True, move 1 (b\<lparr>pb_depth := pb_depth b - 1\<rparr>), ?h)"
    unfolding container_success_def st using n1 it(1) by (simp add: store_def load_def)
  moreover have "filled h ?h item n ?n ?cs"
  proof -
    have "owned_node ?n"
    proof -
      have "ty AND 0x100 = (ty AND 0x300) AND 0x100" "ty AND 0x200 = (ty AND 0x300) AND 0x200"
        by (simp_all add: and.assoc)
      then show ?thesis using ty by (simp add: owned_node_def is_reference_def string_is_const_def)
    qed
    moreover have "frame (insert item (set (nodes_of ?cs))) (set (strs_of ?cs)) h ?h"
      using fr(1) by (cases "is" rule: nodes_of.cases) (auto simp: frame_def)
    moreover have "value_strs ?n = []" using it(4) by (simp add: value_strs_def)
    ultimately show ?thesis using sa(2) fr(2,3) sg by (simp add: filled_def apart_def)
  qed
  moreover have "fresh_ok ?h"
  proof -
    have "\<forall>p \<in> set (nodes_of is). p < h_fresh h'" using seg_fresh(1) [OF sa(1,5)] by auto
    moreover have "h_fresh h \<le> h_fresh h'" using fr(1) by (simp add: frame_def)
    ultimately show ?thesis using sa(5) it(3) by (cases "is" rule: nodes_of.cases) (auto simp: fresh_ok_def)
  qed
  moreover have "h_fresh h \<le> h_fresh ?h" using fr(1) h1 by (simp add: frame_def)
  moreover have "map (va ?h) ?cs = map (va h') is"
  proof -
    have "map (va ?h) is = map (va h') is" by (rule values_kept [OF va]) (simp add: h1)
    moreover have "map (va ?h) ?cs = map (va ?h) is"
      using va by (cases "is" rule: nodes_of.cases) (simp_all add: head_prev_def reads_item_def)
    ultimately show ?thesis by simp
  qed
  ultimately show thesis
    using sa(3,4) prev_chain_head_prev by (intro that [of ?h ?n ?cs]) simp_all
qed

end
