(* ===== verification/CJson_Parse_Safe.thy ===== *)
theory CJson_Parse_Safe
  imports CJson_Safety
begin

text \<open>
  The induction over the mutual recursion of \<open>parse_value\<close>, \<open>parse_array\<close> and
  \<open>parse_object\<close>, and what it gives for \<open>cJSON_Parse\<close>.
\<close>

section \<open>Results of the parse functions\<close>

definition remaining :: "parse_buffer \<Rightarrow> nat" where
  "remaining b = pb_length b - pb_offset b"

definition advanced :: "parse_buffer \<Rightarrow> parse_buffer \<Rightarrow> bool" where
  "advanced b b' \<longleftrightarrow> bwf b' \<and> same_text b b' \<and> pb_offset b < pb_offset b' \<and> pb_depth b' = pb_depth b"

text \<open>
  A parse function agrees with a reader of the language: when it succeeds, the reader accepts
  the same text, with the value the new structure holds and the same rest; when it fails
  although no request for memory was refused, the reader rejects the text.
\<close>

definition value_result :: "parse_buffer \<Rightarrow> ptr \<Rightarrow> cjson \<Rightarrow> heap \<Rightarrow> (bool \<times> parse_buffer \<times> heap) option \<Rightarrow> bool" where
  "value_result b item n h r \<longleftrightarrow>
     (\<exists>b' h'. r = Some (False, b', h') \<and> same_mem h h' \<and> h_fresh h \<le> h_fresh h' \<and>
        (all_granted h \<longrightarrow> read_value (pb_depth b) (body b) = None)) \<or>
     (\<exists>b' h' n' cs. r = Some (True, b', h') \<and> advanced b b' \<and> fresh_ok h' \<and> filled h h' item n n' cs \<and>
        prev_chain (last_or 0 cs) cs \<and> tidy cs \<and> levels cs + pb_depth b \<le> CJSON_NESTING_LIMIT \<and>
        read_value (pb_depth b) (body b) = Some (item_value h' (Item item n' cs), body b'))"

definition loop_result ::
  "(nat \<Rightarrow> bytes \<Rightarrow> ('a list \<times> bytes) option) \<Rightarrow> (heap \<Rightarrow> item \<Rightarrow> 'a) \<Rightarrow> parse_buffer \<Rightarrow> heap \<Rightarrow> item list \<Rightarrow>
    (bool \<times> ptr \<times> ptr \<times> parse_buffer \<times> heap) option \<Rightarrow> bool" where
  "loop_result rd va b h is r \<longleftrightarrow>
     (\<exists>ok cur b' h' is'. r = Some (ok, first_or 0 is', cur, b', h') \<and> good_list h' is' \<and> grows h is h' is' \<and>
        (ok \<longrightarrow> cur = last_or 0 is' \<and> advanced b b' \<and> levels is' + pb_depth b \<le> Suc CJSON_NESTING_LIMIT \<and>
           (\<exists>vs. rd (pb_depth b) (body (move 1 b)) = Some (vs, body b') \<and> map (va h') is' = map (va h) is @ vs)) \<and>
        (\<not> ok \<longrightarrow> all_granted h \<longrightarrow> rd (pb_depth b) (body (move 1 b)) = None))"

definition ok_value :: "nat \<Rightarrow> bool" where
  "ok_value k \<longleftrightarrow> (\<forall>item n b h. bwf b \<longrightarrow> blank item n h \<longrightarrow> fresh_ok h \<longrightarrow>
     pb_depth b \<le> CJSON_NESTING_LIMIT \<longrightarrow> 3 * remaining b \<le> k \<longrightarrow> value_result b item n h (parse_value k item b h))"

text \<open>The functions for the containers are called at their opening bracket.\<close>

definition ok_array :: "nat \<Rightarrow> bool" where
  "ok_array k \<longleftrightarrow> (\<forall>item n b h. bwf b \<longrightarrow> byte_here b = ch_lbrack \<longrightarrow> blank item n h \<longrightarrow> fresh_ok h \<longrightarrow>
     pb_depth b \<le> CJSON_NESTING_LIMIT \<longrightarrow> 3 * remaining b \<le> Suc k \<longrightarrow> value_result b item n h (parse_array k item b h))"

definition ok_object :: "nat \<Rightarrow> bool" where
  "ok_object k \<longleftrightarrow> (\<forall>item n b h. bwf b \<longrightarrow> byte_here b = ch_lbrace \<longrightarrow> blank item n h \<longrightarrow> fresh_ok h \<longrightarrow>
     pb_depth b \<le> CJSON_NESTING_LIMIT \<longrightarrow> 3 * remaining b \<le> Suc k \<longrightarrow> value_result b item n h (parse_object k item b h))"

definition ok_loop ::
  "(nat \<Rightarrow> bytes \<Rightarrow> ('a list \<times> bytes) option) \<Rightarrow> (heap \<Rightarrow> item \<Rightarrow> 'a) \<Rightarrow>
    (ptr \<Rightarrow> ptr \<Rightarrow> parse_buffer \<Rightarrow> heap \<Rightarrow> (bool \<times> ptr \<times> ptr \<times> parse_buffer \<times> heap) option) \<Rightarrow> nat \<Rightarrow> bool" where
  "ok_loop rd va f k \<longleftrightarrow> (\<forall>is b h. bwf (move 1 b) \<longrightarrow> good_list h is \<longrightarrow> pb_depth b \<le> CJSON_NESTING_LIMIT \<longrightarrow>
     levels is + pb_depth b \<le> Suc CJSON_NESTING_LIMIT \<longrightarrow>
     3 * remaining (move 1 b) + 1 \<le> k \<longrightarrow> loop_result rd va b h is (f (first_or 0 is) (last_or 0 is) b h))"

lemma ok_loopD:
  "ok_loop rd va f k \<Longrightarrow> bwf (move 1 b) \<Longrightarrow> good_list h is \<Longrightarrow> pb_depth b \<le> CJSON_NESTING_LIMIT \<Longrightarrow>
    levels is + pb_depth b \<le> Suc CJSON_NESTING_LIMIT \<Longrightarrow> 3 * remaining (move 1 b) + 1 \<le> k \<Longrightarrow>
    loop_result rd va b h is (f (first_or 0 is) (last_or 0 is) b h)"
  by (simp add: ok_loop_def)

lemma remaining_pos: "bwf b \<Longrightarrow> 0 < remaining b"
  by (simp add: remaining_def bwfD)

lemma remaining_mono: "same_text b b' \<Longrightarrow> pb_offset b \<le> pb_offset b' \<Longrightarrow> remaining b' \<le> remaining b"
  by (simp add: remaining_def same_text_def)

lemma same_text_here: "same_text b b' \<Longrightarrow> pb_offset b' = pb_offset b \<Longrightarrow> byte_here b' = byte_here b"
  by (simp add: same_text_def text_of_def)

lemma good_same_mem: "good_list h is \<Longrightarrow> same_mem h h' \<Longrightarrow> h_fresh h \<le> h_fresh h' \<Longrightarrow> good_list h' is"
  using fresh_ok_same_mem [of h h'] seg_same_nodes [of h 0 "is" h'] by (simp add: good_list_def same_mem_def)

lemma grows_same_mem: "same_mem h h' \<Longrightarrow> h_fresh h \<le> h_fresh h' \<Longrightarrow> grows h is h' is"
  by (simp add: grows_def frame_def same_mem_def)

lemma blank_same_mem: "blank p n h \<Longrightarrow> same_mem h h' \<Longrightarrow> h_fresh h \<le> h_fresh h' \<Longrightarrow> blank p n h'"
  by (auto simp: blank_def same_mem_def load_def split: if_splits)

lemma value_fail: "r = Some (False, b', h') \<Longrightarrow> same_mem h h' \<Longrightarrow> h_fresh h \<le> h_fresh h' \<Longrightarrow>
    (all_granted h \<Longrightarrow> read_value (pb_depth b) (body b) = None) \<Longrightarrow> value_result b item n h r"
  by (auto simp: value_result_def)

lemma loop_ok: "r = Some (True, first_or 0 is', last_or 0 is', b', h') \<Longrightarrow> good_list h' is' \<Longrightarrow> grows h is h' is' \<Longrightarrow>
    advanced b b' \<Longrightarrow> levels is' + pb_depth b \<le> Suc CJSON_NESTING_LIMIT \<Longrightarrow>
    rd (pb_depth b) (body (move 1 b)) = Some (vs, body b') \<Longrightarrow> map (va h') is' = map (va h) is @ vs \<Longrightarrow> loop_result rd va b h is r"
  unfolding loop_result_def by blast

lemma loop_fail: "r = Some (False, first_or 0 is', cur, b', h') \<Longrightarrow> good_list h' is' \<Longrightarrow> grows h is h' is' \<Longrightarrow>
    (all_granted h \<Longrightarrow> rd (pb_depth b) (body (move 1 b)) = None) \<Longrightarrow> loop_result rd va b h is r"
  by (auto simp: loop_result_def)

lemma loop_resultE:
  assumes "loop_result rd va b h is r"
  obtains (ok) b' h' is' vs where "r = Some (True, first_or 0 is', last_or 0 is', b', h')" "good_list h' is'" "grows h is h' is'"
     "advanced b b'" "levels is' + pb_depth b \<le> Suc CJSON_NESTING_LIMIT"
     "rd (pb_depth b) (body (move 1 b)) = Some (vs, body b')" "map (va h') is' = map (va h) is @ vs"
  | (fail) cur b' h' is' where "r = Some (False, first_or 0 is', cur, b', h')" "good_list h' is'" "grows h is h' is'"
     "all_granted h \<Longrightarrow> rd (pb_depth b) (body (move 1 b)) = None"
proof -
  from assms obtain ok cur b' h' is' where r: "r = Some (ok, first_or 0 is', cur, b', h')" "good_list h' is'" "grows h is h' is'"
    "ok \<longrightarrow> cur = last_or 0 is' \<and> advanced b b' \<and> levels is' + pb_depth b \<le> Suc CJSON_NESTING_LIMIT \<and>
           (\<exists>vs. rd (pb_depth b) (body (move 1 b)) = Some (vs, body b') \<and> map (va h') is' = map (va h) is @ vs)"
    "\<not> ok \<longrightarrow> all_granted h \<longrightarrow> rd (pb_depth b) (body (move 1 b)) = None"
    unfolding loop_result_def by (elim exE conjE) (rule that)
  show thesis
  proof (cases ok)
    case True
    with r obtain vs where "rd (pb_depth b) (body (move 1 b)) = Some (vs, body b')" "map (va h') is' = map (va h) is @ vs" by auto
    then show thesis using r True by (intro ok) simp_all
  next
    case False
    then show thesis using r by (intro fail) simp_all
  qed
qed

lemma value_if: "value_result b item n h r \<Longrightarrow> value_result b item n h s \<Longrightarrow> value_result b item n h (if c then r else s)"
  by simp

section \<open>One value\<close>

lemma value_leaf:
  assumes "blank item n h" and "fresh_ok h" and "pb_depth b \<le> CJSON_NESTING_LIMIT" and "advanced b b'"
    and "r = Some (True, b', h\<lparr>h_nodes := (h_nodes h)(item \<mapsto> n\<lparr>cj_type := t, cj_valueint := i, cj_valuedouble := d\<rparr>)\<rparr>)"
    and "t AND 0x300 = 0" and "\<And>h. read_value (pb_depth b) (body b) = Some (item_value h (Item item (n\<lparr>cj_type := t, cj_valueint := i, cj_valuedouble := d\<rparr>) []), body b')"
  shows "value_result b item n h r"
proof -
  let ?n = "n\<lparr>cj_type := t, cj_valueint := i, cj_valuedouble := d\<rparr>"
  let ?h = "h\<lparr>h_nodes := (h_nodes h)(item \<mapsto> ?n)\<rparr>"
  have "filled h ?h item n ?n []" by (rule filled_leaf [OF assms(1) _ _ _ _ refl assms(6)]) simp_all
  moreover have "fresh_ok ?h"
    using assms(1) by (intro fresh_ok_fill [OF assms(2), of item ?h ?n]) (simp_all add: blank_def)
  ultimately show ?thesis using assms(3-5,7) unfolding value_result_def
    by (intro disjI2 exI [of _ b'] exI [of _ ?h] exI [of _ ?n] exI [of _ "[]"]) simp
qed

lemma advanced_literal:
  "bwf b \<Longrightarrow> literal_at b l = Some True \<Longrightarrow> 0 \<notin> set l \<Longrightarrow> l \<noteq> [] \<Longrightarrow> advanced b (move (length l) b)"
  using bwf_move_literal [of b l] by (simp add: advanced_def move_def same_text_def)

lemma lit_lengths: "length (str ''null'') = 4" "length (str ''false'') = 5" "length (str ''true'') = 4"
  by simp_all

lemma ok_value_step:
  assumes "ok_array k" and "ok_object k"
  shows "ok_value (Suc k)"
  unfolding ok_value_def
proof (intro allI impI)
  fix item n b h
  assume b: "bwf b" and bl: "blank item n h" and f: "fresh_ok h" and d: "pb_depth b \<le> CJSON_NESTING_LIMIT"
    and k: "3 * remaining b \<le> Suc k"
  have ld: "load item h = Some n" and nz: "item \<noteq> 0" "h_nodes h item = Some n"
    using bl by (auto simp: blank_def load_def split: if_splits)
  have c: "pb_content b = Some (text_of b)" by (rule bwfD(1) [OF b])
  define n1 n2 n3 where ns: "n1 = (take 4 (body b) = str ''null'')" "n2 = (take 5 (body b) = str ''false'')" "n3 = (take 4 (body b) = str ''true'')"
  have z: "0 \<notin> set (str ''null'')" "0 \<notin> set (str ''false'')" "0 \<notin> set (str ''true'')"
    "str ''null'' \<noteq> []" "str ''false'' \<noteq> []" "str ''true'' \<noteq> []" by (simp_all add: byte_simps)
  have l: "literal_at b (str ''null'') = Some n1" "literal_at b (str ''false'') = Some n2" "literal_at b (str ''true'') = Some n3"
    using literal_at_body [OF b z(1,4)] literal_at_body [OF b z(2,5)] literal_at_body [OF b z(3,6)]
    by (simp_all only: ns lit_lengths)
  note leaf = value_leaf [OF bl f d]
  note val = read_value.simps type_low_def Let_def ns [symmetric]
  show "value_result b item n h (parse_value (Suc k) item b h)"
  proof (cases "n1 \<or> n2 \<or> n3")
    case True
    then consider n1 | "\<not> n1" n2 | "\<not> n1" "\<not> n2" n3 by blast
    then show ?thesis
    proof cases
      case 1
      have "advanced b (move 4 b)" using advanced_literal [OF b, of "str ''null''"] l(1) 1 z by (simp add: str_def numeral_eq_Suc)
      then show ?thesis
        by (rule leaf [where t = cJSON_NULL and i = "cj_valueint n" and d = "cj_valuedouble n"])
          (use c l 1 ld nz in \<open>simp_all add: store_def val\<close>)
    next
      case 2
      have "advanced b (move 5 b)" using advanced_literal [OF b, of "str ''false''"] l(2) 2 z by (simp add: str_def numeral_eq_Suc)
      then show ?thesis
        by (rule leaf [where t = cJSON_False and i = "cj_valueint n" and d = "cj_valuedouble n"])
          (use c l 2 ld nz in \<open>simp_all add: store_def val\<close>)
    next
      case 3
      have "advanced b (move 4 b)" using advanced_literal [OF b, of "str ''true''"] l(3) 3 z by (simp add: str_def numeral_eq_Suc)
      then show ?thesis
        by (rule leaf [where t = cJSON_True and i = 1 and d = "cj_valuedouble n"])
          (use c l 3 ld nz in \<open>simp_all add: store_def load_def val\<close>)
    qed
  next
    case False
    then have rv: "read_value (pb_depth b) (body b) =
       (if body b = [] then None
        else if hd (body b) = ch_quote then map_option (apfst JsStr) (read_string (body b))
        else if hd (body b) = ch_minus \<or> is_digit (hd (body b)) then map_option (apfst JsNum) (read_number (body b))
        else if hd (body b) = ch_lbrack then
          (if pb_depth b < CJSON_NESTING_LIMIT then read_container ch_rbrack read_elems JsArr (pb_depth b) (body b) else None)
        else if hd (body b) = ch_lbrace then
          (if pb_depth b < CJSON_NESTING_LIMIT then read_container ch_rbrace read_members JsObj (pb_depth b) (body b) else None)
        else None)"
      unfolding ns by (intro read_value_cases) blast
    from False have unf: "parse_value (Suc k) item b h =
       (if byte_here b = ch_quote then parse_string item b h
        else if byte_here b = ch_minus \<or> is_digit (byte_here b) then parse_number item b h
        else if byte_here b = ch_lbrack then parse_array k item b h
        else if byte_here b = ch_lbrace then parse_object k item b h
        else Some (False, b, h))"
      using c l b buffer_at_bwf [OF b] by (simp add: is_digit_def)
    note hb = byte_here_body [OF b]
    consider (s) "byte_here b = ch_quote" | (n) "byte_here b = ch_minus \<or> is_digit (byte_here b)"
      | (a) "byte_here b = ch_lbrack" | (o) "byte_here b = ch_lbrace"
      | (x) "byte_here b \<noteq> ch_quote" "\<not> (byte_here b = ch_minus \<or> is_digit (byte_here b))" "byte_here b \<noteq> ch_lbrack" "byte_here b \<noteq> ch_lbrace"
      by blast
    then show ?thesis
    proof cases
      case s
      then have rv: "read_value (pb_depth b) (body b) = map_option (apfst JsStr) (read_string (body b))"
        using rv hb by (auto split: if_splits)
      have fr: "\<forall>p \<ge> h_fresh h. h_strs h p = None" "0 < h_fresh h" using f by (simp_all add: fresh_ok_def)
      have "parse_value (Suc k) item b h = parse_string item b h" using unf s by simp
      moreover from b ld fr have "value_result b item n h (parse_string item b h)"
      proof (cases rule: parse_string_bwf [of b item h n])
        case (fail b' h')
        then show ?thesis using rv by (intro value_fail) simp_all
      next
        case (string b' h' blk)
        let ?n = "n\<lparr>cj_type := cJSON_String, cj_valuestring := h_fresh h\<rparr>"
        have "fresh_ok h'" using f string(6-8) bl by (auto simp: fresh_ok_def blank_def)
        moreover have "advanced b b'" using string by (simp add: advanced_def)
        moreover have "text_at h' (h_fresh h) = cstr blk"
          using string(8,9) fr(2) by (simp add: text_at_def string_at_def block_def)
        then have "read_value (pb_depth b) (body b) = Some (item_value h' (Item item ?n []), body b')"
          using rv string(11) by (simp add: type_low_def Let_def)
        ultimately show ?thesis
          using string(1) d filled_string [OF bl string(7,8,6,9) f string(10)] unfolding value_result_def
          by (intro disjI2 exI [of _ b'] exI [of _ h'] exI [of _ ?n] exI [of _ "[]"]) simp
      qed
      ultimately show ?thesis by simp
    next
      case n
      then have nq: "byte_here b \<noteq> ch_quote" "byte_here b \<noteq> 0" by (auto simp: is_digit_def)
      then have rv: "read_value (pb_depth b) (body b) = map_option (apfst JsNum) (read_number (body b))"
        using rv hb n by (auto split: if_splits)
      have "parse_value (Suc k) item b h = parse_number item b h" using unf n nq by simp
      moreover from b ld have "value_result b item n h (parse_number item b h)"
      proof (cases rule: parse_number_bwf [of b item h n])
        case fail
        show ?thesis by (rule value_fail [OF fail(1)]) (simp_all add: same_mem_def rv fail(2))
      next
        case (number dd i used)
        have ad: "advanced b (move used b)" using number by (simp add: advanced_def move_def same_text_def)
        have eq: "n\<lparr>cj_valuedouble := dd, cj_valueint := i, cj_type := cJSON_Number\<rparr> =
            n\<lparr>cj_type := cJSON_Number, cj_valueint := i, cj_valuedouble := dd\<rparr>" by (cases n) simp
        show ?thesis
          by (rule leaf [OF ad, where t = cJSON_Number and i = i and d = dd])
            (simp_all only: number(1) eq, simp_all add: rv number(4,5) type_low_def Let_def)
      qed
      ultimately show ?thesis by simp
    next
      case a
      have "value_result b item n h (parse_array k item b h)"
        using assms(1) b bl f d k a unfolding ok_array_def by blast
      then show ?thesis using unf a by (simp add: is_digit_def)
    next
      case o
      have "value_result b item n h (parse_object k item b h)"
        using assms(2) b bl f d k o unfolding ok_object_def by blast
      then show ?thesis using unf o by (simp add: is_digit_def)
    next
      case x
      then have "read_value (pb_depth b) (body b) = None" using rv hb by (auto split: if_splits)
      then show ?thesis using unf x by (intro value_fail [of _ b h]) (simp_all add: same_mem_def)
    qed
  qed
qed


section \<open>Containers\<close>

lemma empty_good: "fresh_ok h \<Longrightarrow> good_list h []"
  by (simp add: good_list_def apart_def)

text \<open>What \<open>parse_array\<close> and \<open>parse_object\<close> do after their first character.\<close>

definition container_body ::
  "u8 \<Rightarrow> u32 \<Rightarrow> (ptr \<Rightarrow> ptr \<Rightarrow> parse_buffer \<Rightarrow> heap \<Rightarrow> (bool \<times> ptr \<times> ptr \<times> parse_buffer \<times> heap) option) \<Rightarrow>
    ptr \<Rightarrow> parse_buffer \<Rightarrow> heap \<Rightarrow> (bool \<times> parse_buffer \<times> heap) option" where
  "container_body close ty loop item b1 h =
     do {
       b2 \<leftarrow> skip_ws_buf (move 1 b1);
       empty \<leftarrow> char_at b2 close;
       if empty then container_success ty item 0 0 b2 h
       else if \<not> can_access_at_index b2 0 then container_fail 0 (step_back b2) h
       else do {
         (ok, head, cur, b3, h1) \<leftarrow> loop 0 0 (step_back b2) h;
         if \<not> ok then container_fail head b3 h1
         else do {
           closed \<leftarrow> char_at b3 close;
           if \<not> closed then container_fail head b3 h1
           else container_success ty item head cur b3 h1 } } }"

lemma container_close:
  assumes "blank item n h" and "good_list h' is" and "grows h [] h' is" and "fresh_ok h" and "ty AND 0x300 = 0" and "reads_item va"
    and "bwf b'" and "byte_here b' = close" and "close \<noteq> 0" and "same_text b b'" and "pb_offset b \<le> pb_offset b'"
    and "pb_depth b' = Suc (pb_depth b)" and "levels is + Suc (pb_depth b) \<le> Suc CJSON_NESTING_LIMIT"
    and mk: "\<And>h p n cs. cj_type n = ty \<Longrightarrow> item_value h (Item p n cs) = mk (map (va h) cs)"
    and rd: "read_value (pb_depth b) (body b) = Some (mk (map (va h') is), tl (body b'))"
  shows "value_result b item n h (container_success ty item (first_or 0 is) (last_or 0 is) b' h')"
  using assms(1-6)
proof (cases rule: container_success_filled [of item n h h' "is" ty va b'])
  case (1 h'' n' cs)
  have "bwf (move 1 (b'\<lparr>pb_depth := pb_depth b' - 1\<rparr>))"
    using assms(7-9) by (intro bwf_move1) simp_all
  then have "advanced b (move 1 (b'\<lparr>pb_depth := pb_depth b' - 1\<rparr>))"
    using assms(10-12) by (simp add: advanced_def same_text_def move_def)
  moreover have "read_value (pb_depth b) (body b) =
      Some (item_value h'' (Item item n' cs), body (move 1 (b'\<lparr>pb_depth := pb_depth b' - 1\<rparr>)))"
    using rd mk [OF 1(7), of h'' item cs] 1(9) by (simp add: drop_Suc)
  ultimately show ?thesis using 1 assms(13) unfolding value_result_def
    by (intro disjI2 exI [of _ "move 1 (b'\<lparr>pb_depth := pb_depth b' - 1\<rparr>)"] exI [of _ h''] exI [of _ n'] exI [of _ cs]) simp
qed

lemma container_stop:
  assumes "good_list h' is" and "grows h [] h' is" and "fresh_ok h"
    and "all_granted h \<Longrightarrow> read_value (pb_depth b) (body b) = None"
  shows "value_result b item n h (container_fail (first_or 0 is) b' h')"
  using assms(1-3) by (rule container_fail_mem [of h' "is" h b']) (rule value_fail [OF _ _ _ assms(4)])

lemma container_body_result:
  assumes b: "bwf b" and bl: "blank item n h" and f: "fresh_ok h" and d: "pb_depth b < CJSON_NESTING_LIMIT"
    and loop: "ok_loop rd va loop k" "3 * remaining b \<le> k + 2" and nz: "byte_here b \<noteq> 0" "close \<noteq> 0" "ty AND 0x300 = 0"
    and va: "reads_item va" and mk: "\<And>h p n cs. cj_type n = ty \<Longrightarrow> item_value h (Item p n cs) = mk (map (va h) cs)"
    and rd: "read_value (pb_depth b) (body b) = read_container close rd mk (pb_depth b) (body b)"
  shows "value_result b item n h (container_body close ty loop item (b\<lparr>pb_depth := pb_depth b + 1\<rparr>) h)"
proof -
  let ?b1 = "b\<lparr>pb_depth := pb_depth b + 1\<rparr>"
  have b1: "bwf (move 1 ?b1)" using b nz(1) by (intro bwf_move1) simp_all
  then obtain b2 where b2: "skip_ws_buf (move 1 ?b1) = Some b2" "bwf b2" "same_text (move 1 ?b1) b2"
    "pb_offset (move 1 ?b1) \<le> pb_offset b2" "pb_depth b2 = pb_depth (move 1 ?b1)" by (rule skip_ws_buf_bwf)
  have st: "same_text b b2" using b2(3) by (simp add: same_text_def move_def)
  have o: "pb_offset b < pb_offset b2" "pb_depth b2 = Suc (pb_depth b)" using b2(4,5) by (simp_all add: move_def)
  have t1: "json_ws (tl (body b)) = body b2" using skip_ws_body [OF b1 b2(1)] by (simp add: drop_Suc)
  let ?b = "step_back b2"
  have m: "move 1 ?b = b2" using o(1) by (simp add: move_def step_back_def)
  note e = empty_good [OF f] grows_refl [of h "[]"]
  note unf = container_body_def [of close ty loop item ?b1 h]
  show ?thesis
  proof (cases "byte_here b2 = close")
    case True
    then have "container_body close ty loop item ?b1 h = container_success ty item 0 0 b2 h"
      unfolding unf b2(1) using char_at_bwf [OF b2(2), of close] by simp
    moreover have "read_value (pb_depth b) (body b) = Some (mk (map (va h) []), tl (body b2))"
      unfolding rd read_container_def t1 using True byte_here_iff [OF b2(2) nz(2)] by simp
    ultimately show ?thesis
      using container_close [OF bl e f nz(3) va b2(2) True nz(2) st less_imp_le [OF o(1)] o(2) _ mk] d by simp
  next
    case False
    then have rd': "read_value (pb_depth b) (body b) =
        do { (vs, r) \<leftarrow> rd (Suc (pb_depth b)) (body b2); if r \<noteq> [] \<and> hd r = close then Some (mk vs, tl r) else None }"
      unfolding rd read_container_def t1 using byte_here_iff [OF b2(2) nz(2)] by auto
    from False have eq: "container_body close ty loop item ?b1 h =
        loop 0 0 ?b h \<bind> (\<lambda>(ok, head, cur, b3, h1). if \<not> ok then container_fail head b3 h1
         else char_at b3 close \<bind> (\<lambda>closed. if \<not> closed then container_fail head b3 h1
           else container_success ty item head cur b3 h1))"
      unfolding unf b2(1) using b2(2) char_at_bwf [OF b2(2), of close] by simp
    have "remaining b2 < remaining b" using o(1) st bwfD(3) [OF b] by (simp add: remaining_def same_text_def)
    then have "3 * remaining b2 + 1 \<le> k" using loop(2) by linarith
    moreover have db: "pb_depth ?b = Suc (pb_depth b)" using o(2) by (simp add: step_back_def)
    ultimately have "loop_result rd va ?b h [] (loop (first_or 0 []) (last_or 0 []) ?b h)"
      using d m b2(2) by (intro ok_loopD [OF loop(1) _ e(1)]) simp_all
    then show ?thesis
    proof (cases rule: loop_resultE)
      case (fail cur b3 h3 is')
      have "read_value (pb_depth b) (body b) = None" if "all_granted h"
        using fail(4) [OF that] unfolding rd' m db by simp
      from container_stop [OF fail(2,3) f this] show ?thesis using eq fail(1) by simp
    next
      case (ok b3 h3 is' vs)
      have w3: "bwf b3" using ok(4) by (simp add: advanced_def)
      have r: "rd (Suc (pb_depth b)) (body b2) = Some (map (va h3) is', body b3)" using ok(6,7) unfolding m db by simp
      show ?thesis
      proof (cases "byte_here b3 = close")
        case False
        then have "read_value (pb_depth b) (body b) = None"
          unfolding rd' using r byte_here_iff [OF w3 nz(2)] by auto
        from container_stop [OF ok(2,3) f this] show ?thesis using False eq ok(1) char_at_bwf [OF w3, of close] by simp
      next
        case cl: True
        have b3: "same_text b b3" "pb_offset b \<le> pb_offset b3" "pb_depth b3 = Suc (pb_depth b)"
          using ok(4) st o by (auto simp: advanced_def same_text_def step_back_def)
        have lv: "levels is' + Suc (pb_depth b) \<le> Suc CJSON_NESTING_LIMIT" using ok(5) o(2) by (simp add: step_back_def)
        have "read_value (pb_depth b) (body b) = Some (mk (map (va h3) is'), tl (body b3))"
          unfolding rd' using r cl byte_here_iff [OF w3 nz(2)] by simp
        from container_close [OF bl ok(2,3) f nz(3) va w3 cl nz(2) b3 lv mk this]
        show ?thesis using eq ok(1) cl char_at_bwf [OF w3, of close] by simp
      qed
    qed
  qed
qed

lemma ok_array_step:
  assumes "ok_loop read_elems item_value (array_loop k) k"
  shows "ok_array (Suc k)"
  unfolding ok_array_def
proof (intro allI impI)
  fix item n b h
  assume b: "bwf b" and br: "byte_here b = ch_lbrack" and bl: "blank item n h" and f: "fresh_ok h" and d: "pb_depth b \<le> CJSON_NESTING_LIMIT"
    and k: "3 * remaining b \<le> Suc (Suc k)"
  let ?b1 = "b\<lparr>pb_depth := pb_depth b + 1\<rparr>"
  have c: "buffer_at ?b1 0 = Some ch_lbrack" using b br buffer_at_bwf [of ?b1] by simp
  have h: "body b \<noteq> []" "hd (body b) = ch_lbrack" using byte_here_iff [OF b, of ch_lbrack] br by simp_all
  then have rv: "read_value (pb_depth b) (body b) =
      (if pb_depth b < CJSON_NESTING_LIMIT then read_container ch_rbrack read_elems JsArr (pb_depth b) (body b) else None)"
    by (subst read_value_cases) (simp_all add: no_literalI is_digit_def)
  show "value_result b item n h (parse_array (Suc k) item b h)"
  proof (cases "pb_depth b \<ge> CJSON_NESTING_LIMIT")
    case True
    then show ?thesis using rv by (intro value_fail [of _ b h]) (simp_all add: same_mem_def)
  next
    case False
    then have "parse_array (Suc k) item b h = container_body ch_rbrack cJSON_Array (array_loop k) item ?b1 h"
      using c by (simp add: Let_def container_body_def)
    moreover have "value_result b item n h (container_body ch_rbrack cJSON_Array (array_loop k) item ?b1 h)"
      by (rule container_body_result [OF b bl f _ assms _ _ _ _ reads_item_value, where mk = JsArr])
        (use False k br rv in \<open>simp_all add: type_low_def Let_def\<close>)
    ultimately show ?thesis by simp
  qed
qed

lemma ok_object_step:
  assumes "ok_loop read_members named_value (object_loop k) k"
  shows "ok_object (Suc k)"
  unfolding ok_object_def
proof (intro allI impI)
  fix item n b h
  assume b: "bwf b" and br: "byte_here b = ch_lbrace" and bl: "blank item n h" and f: "fresh_ok h" and d: "pb_depth b \<le> CJSON_NESTING_LIMIT"
    and k: "3 * remaining b \<le> Suc (Suc k)"
  let ?b1 = "b\<lparr>pb_depth := pb_depth b + 1\<rparr>"
  have c: "char_at ?b1 ch_lbrace = Some True" using b br char_at_bwf [of ?b1] by simp
  have h: "body b \<noteq> []" "hd (body b) = ch_lbrace" using byte_here_iff [OF b, of ch_lbrace] br by simp_all
  then have rv: "read_value (pb_depth b) (body b) =
      (if pb_depth b < CJSON_NESTING_LIMIT then read_container ch_rbrace read_members JsObj (pb_depth b) (body b) else None)"
    by (subst read_value_cases) (simp_all add: no_literalI is_digit_def)
  show "value_result b item n h (parse_object (Suc k) item b h)"
  proof (cases "pb_depth b \<ge> CJSON_NESTING_LIMIT")
    case True
    then show ?thesis using rv by (intro value_fail [of _ b h]) (simp_all add: same_mem_def)
  next
    case False
    then have "parse_object (Suc k) item b h = container_body ch_rbrace cJSON_Object (object_loop k) item ?b1 h"
      using c by (simp add: Let_def container_body_def)
    moreover have "value_result b item n h (container_body ch_rbrace cJSON_Object (object_loop k) item ?b1 h)"
      by (rule container_body_result [OF b bl f _ assms _ _ _ _ reads_named_value, where mk = JsObj])
        (use False k br rv in \<open>simp_all add: type_low_def Let_def named_value_def\<close>)
    ultimately show ?thesis by simp
  qed
qed


section \<open>The loops over the elements\<close>

definition loop_tail ::
  "(ptr \<Rightarrow> ptr \<Rightarrow> parse_buffer \<Rightarrow> heap \<Rightarrow> (bool \<times> ptr \<times> ptr \<times> parse_buffer \<times> heap) option) \<Rightarrow> nat \<Rightarrow>
    ptr \<Rightarrow> ptr \<Rightarrow> parse_buffer \<Rightarrow> heap \<Rightarrow> (bool \<times> ptr \<times> ptr \<times> parse_buffer \<times> heap) option" where
  "loop_tail f k head cur b h =
     do {
       (ok, b2, h3) \<leftarrow> parse_value k cur b h;
       if \<not> ok then Some (False, head, cur, b2, h3)
       else do {
         b3 \<leftarrow> skip_ws_buf b2;
         more \<leftarrow> char_at b3 ch_comma;
         if more then f head cur b3 h3 else Some (True, head, cur, b3, h3) } }"

text \<open>What the reader does from an element's value on; \<open>wr\<close> wraps the value.\<close>

definition read_tail ::
  "(nat \<Rightarrow> bytes \<Rightarrow> ('a list \<times> bytes) option) \<Rightarrow> (json \<Rightarrow> 'a) \<Rightarrow> nat \<Rightarrow> bytes \<Rightarrow> ('a list \<times> bytes) option" where
  "read_tail rd wr d t =
     do { (v, r) \<leftarrow> read_value d t;
          if json_ws r \<noteq> [] \<and> hd (json_ws r) = ch_comma
          then map_option (apfst ((#) (wr v))) (rd d (tl (json_ws r)))
          else Some ([wr v], json_ws r) }"

lemma read_elems_tail: "read_elems d t = read_tail read_elems (\<lambda>v. v) d (json_ws t)"
  by (subst read_elems_eq) (simp add: read_tail_def)

lemma read_members_tail:
  "read_members d t =
     do { (s, r) \<leftarrow> read_string (json_ws t);
          if json_ws r = [] \<or> hd (json_ws r) \<noteq> ch_colon then None
          else read_tail read_members (Pair s) d (json_ws (tl (json_ws r))) }"
  unfolding read_tail_def by (rule read_members_eq)

lemma loop_tail_result:
  assumes v: "ok_value k" and l: "ok_loop rd va f k" and b1: "bwf b1" "same_text b b1" "pb_offset b < pb_offset b1" "pb_depth b1 = pb_depth b"
    and d: "pb_depth b \<le> CJSON_NESTING_LIMIT" "levels js + pb_depth b \<le> Suc CJSON_NESTING_LIMIT" and k: "3 * remaining b1 \<le> k"
    and g: "good_list h1 (js @ [Item p n []])" "grows h is h1 (js @ [Item p n []])" and bl: "blank p n h1"
    and va: "reads_item va" and js: "map (va h1) js = map (va h) is"
    and rd: "rd (pb_depth b) (body (move 1 b)) = read_tail rd wr (pb_depth b) (body b1)"
    and wr: "\<And>h2 n' cs. filled h1 h2 p n n' cs \<Longrightarrow> va h2 (Item p n' cs) = wr (item_value h2 (Item p n' cs))"
  shows "loop_result rd va b h is (loop_tail f k (first_or 0 (js @ [Item p n []])) p b1 h1)"
proof -
  have f: "fresh_ok h1" using g(1) by (simp add: good_list_def)
  have gra: "all_granted h1 = all_granted h" using g(2) all_granted_frame by (auto simp: grows_def)
  have "value_result b1 p n h1 (parse_value k p b1 h1)" using v b1 bl f d k by (simp add: ok_value_def)
  then consider (fail) b2 h2 where "parse_value k p b1 h1 = Some (False, b2, h2)" "same_mem h1 h2" "h_fresh h1 \<le> h_fresh h2"
      "all_granted h1 \<longrightarrow> read_value (pb_depth b1) (body b1) = None"
    | (ok) b2 h2 n' cs where "parse_value k p b1 h1 = Some (True, b2, h2)" "advanced b1 b2" "fresh_ok h2"
      "filled h1 h2 p n n' cs" "prev_chain (last_or 0 cs) cs" "tidy cs" "levels cs + pb_depth b1 \<le> CJSON_NESTING_LIMIT"
      "read_value (pb_depth b1) (body b1) = Some (item_value h2 (Item p n' cs), body b2)"
    unfolding value_result_def by blast
  then show ?thesis
  proof cases
    case fail
    show ?thesis
    proof (rule loop_fail)
      show "loop_tail f k (first_or 0 (js @ [Item p n []])) p b1 h1 = Some (False, first_or 0 (js @ [Item p n []]), p, b2, h2)"
        using fail(1) by (simp add: loop_tail_def)
      show "good_list h2 (js @ [Item p n []])" by (rule good_same_mem [OF g(1) fail(2,3)])
      show "grows h is h2 (js @ [Item p n []])" by (rule grows_trans [OF g(2) grows_same_mem [OF fail(2,3)]])
      show "rd (pb_depth b) (body (move 1 b)) = None" if "all_granted h"
        unfolding rd read_tail_def using fail(4) that gra b1(4) by simp
    qed
  next
    case ok
    let ?is = "js @ [Item p n' cs]"
    note gf = good_fill [OF g(1) bl ok(4,3,5,6)]
    have gr: "grows h is h2 ?is" by (rule grows_trans [OF g(2) gf(2)])
    have gra2: "all_granted h2 = all_granted h" using gr all_granted_frame by (auto simp: grows_def)
    have fo: "first_or 0 (js @ [Item p n []]) = first_or 0 ?is" and la: "last_or 0 ?is = p" by simp_all
    have lv: "levels ?is + pb_depth b \<le> Suc CJSON_NESTING_LIMIT" using d(2) ok(7) b1(4) by (simp add: levels_append)
    have "map (va h2) js = map (va h1) js"
    proof (rule old_values_kept [OF _ f _ _ va])
      show "seg h1 p js" using g(1) by (simp add: good_list_def)
      show "frame (insert p (set (nodes_of cs))) (set (value_strs n' @ strs_of cs)) h1 h2" "set (value_strs n' @ strs_of cs) \<subseteq> {h_fresh h1..}"
        using ok(4) by (simp_all add: filled_def)
    qed
    then have vals: "map (va h2) ?is = map (va h) is @ [wr (item_value h2 (Item p n' cs))]" using js wr [OF ok(4)] by simp
    have b2: "bwf b2" "same_text b1 b2" "pb_offset b1 < pb_offset b2" "pb_depth b2 = pb_depth b1"
      using ok(2) by (simp_all add: advanced_def)
    then obtain b3 where b3: "skip_ws_buf b2 = Some b3" "bwf b3" "same_text b2 b3" "pb_offset b2 \<le> pb_offset b3"
      "pb_depth b3 = pb_depth b2" by (metis skip_ws_buf_bwf)
    have ad: "advanced b b3" using b1 b2 b3 by (auto simp: advanced_def same_text_def)
    have unf: "loop_tail f k (first_or 0 (js @ [Item p n []])) p b1 h1 =
        (if byte_here b3 = ch_comma then f (first_or 0 ?is) (last_or 0 ?is) b3 h2
         else Some (True, first_or 0 ?is, last_or 0 ?is, b3, h2))"
      unfolding fo la loop_tail_def using ok(1) b3(1) char_at_bwf [OF b3(2), of ch_comma] by simp
    have rt: "rd (pb_depth b) (body (move 1 b)) =
        (if byte_here b3 = ch_comma
         then map_option (apfst ((#) (wr (item_value h2 (Item p n' cs))))) (rd (pb_depth b) (body (move 1 b3)))
         else Some ([wr (item_value h2 (Item p n' cs))], body b3))"
      unfolding rd read_tail_def using ok(8) b1(4) skip_ws_body [OF b2(1) b3(1)] byte_here_iff [OF b3(2), of ch_comma]
      by (simp add: drop_Suc)
    show ?thesis
    proof (cases "byte_here b3 = ch_comma")
      case False
      then show ?thesis unfolding unf using rt vals by (intro loop_ok [OF _ gf(1) gr ad lv]) simp_all
    next
      case True
      have m: "bwf (move 1 b3)" using bwf_move1 [OF b3(2)] True by simp
      have "remaining (move 1 b3) < remaining b1"
        using b2(2,3) b3(3,4) bwfD(3) [OF b1(1)] by (simp add: remaining_def same_text_def)
      then have "3 * remaining (move 1 b3) + 1 \<le> k" using k by linarith
      moreover have pd: "pb_depth b3 = pb_depth b" using ad by (simp add: advanced_def)
      ultimately have "loop_result rd va b3 h2 ?is (f (first_or 0 ?is) (last_or 0 ?is) b3 h2)"
        using d(1) lv by (intro ok_loopD [OF l m gf(1)]) simp_all
      then show ?thesis
      proof (cases rule: loop_resultE)
        case more: (ok b4 h4 is' vs)
        have "advanced b b4" using more(4) ad by (auto simp: advanced_def intro: same_text_trans)
        then show ?thesis unfolding unf
          using True more rt pd vals grows_trans [OF gr more(3)]
          by (intro loop_ok [where vs = "wr (item_value h2 (Item p n' cs)) # vs"]) simp_all
      next
        case (fail cur b4 h4 is')
        then show ?thesis unfolding unf
          using True rt pd gra2 grows_trans [OF gr fail(3)] by (intro loop_fail) simp_all
      qed
    qed
  qed
qed

lemma ok_array_loop_step:
  assumes v: "ok_value k" and l: "ok_loop read_elems item_value (array_loop k) k"
  shows "ok_loop read_elems item_value (array_loop (Suc k)) (Suc k)"
  unfolding ok_loop_def
proof (intro allI impI)
  fix "is" b h
  assume b: "bwf (move 1 b)" and g: "good_list h is" and d: "pb_depth b \<le> CJSON_NESTING_LIMIT"
    "levels is + pb_depth b \<le> Suc CJSON_NESTING_LIMIT" and k: "3 * remaining (move 1 b) + 1 \<le> Suc k"
  have f: "fresh_ok h" using g by (simp add: good_list_def)
  then have p: "h_fresh h \<noteq> 0" by (simp add: fresh_ok_def)
  obtain b1 where b1: "skip_ws_buf (move 1 b) = Some b1" "bwf b1" "same_text (move 1 b) b1"
    "pb_offset (move 1 b) \<le> pb_offset b1" "pb_depth b1 = pb_depth (move 1 b)" by (rule skip_ws_buf_bwf [OF b])
  have b1': "same_text b b1" "pb_offset b < pb_offset b1" "pb_depth b1 = pb_depth b"
    using b1 by (simp_all add: same_text_def move_def)
  have "remaining b1 \<le> remaining (move 1 b)" using remaining_mono [OF b1(3,4)] .
  then have k1: "3 * remaining b1 \<le> k" using k by linarith
  show "loop_result read_elems item_value b h is (array_loop (Suc k) (first_or 0 is) (last_or 0 is) b h)"
    using f
  proof (cases rule: New_Item_cases)
    case (none h1)
    have "array_loop (Suc k) (first_or 0 is) (last_or 0 is) b h = Some (False, first_or 0 is, last_or 0 is, b, h1)"
      using none(1) by simp
    then show ?thesis
      by (rule loop_fail) (use none good_same_mem [OF g none(2)] grows_same_mem [OF none(2)] in simp_all)
  next
    case (item h1)
    obtain is1 n h2 where li: "link_item (first_or 0 is) (last_or 0 is) (h_fresh h) h1 = Some (first_or 0 (is1 @ [Item (h_fresh h) n []]), h_fresh h, h2)"
      "good_list h2 (is1 @ [Item (h_fresh h) n []])" "grows h is h2 (is1 @ [Item (h_fresh h) n []])"
      "blank (h_fresh h) n h2" "cj_string n = 0" "levels is1 = levels is" "map (item_value h2) is1 = map (item_value h) is"
      by (rule good_link [OF g item reads_item_value])
    have "array_loop (Suc k) (first_or 0 is) (last_or 0 is) b h =
        loop_tail (array_loop k) k (first_or 0 (is1 @ [Item (h_fresh h) n []])) (h_fresh h) b1 h2"
      using item(1) p li(1) b1(1) by (simp add: loop_tail_def)
    moreover have "read_elems (pb_depth b) (body (move 1 b)) = read_tail read_elems (\<lambda>v. v) (pb_depth b) (body b1)"
      unfolding skip_ws_body [OF b b1(1)] by (rule read_elems_tail)
    ultimately show ?thesis
      using loop_tail_result [OF v l b1(2) b1' d(1) _ k1 li(2,3,4) reads_item_value li(7), where wr = "\<lambda>v. v"] li(6) d(2) by simp
  qed
qed


lemma ok_object_loop_step:
  assumes v: "ok_value k" and l: "ok_loop read_members named_value (object_loop k) k"
  shows "ok_loop read_members named_value (object_loop (Suc k)) (Suc k)"
  unfolding ok_loop_def
proof (intro allI impI)
  fix "is" b h
  assume b: "bwf (move 1 b)" and g: "good_list h is" and d: "pb_depth b \<le> CJSON_NESTING_LIMIT"
    "levels is + pb_depth b \<le> Suc CJSON_NESTING_LIMIT" and k: "3 * remaining (move 1 b) + 1 \<le> Suc k"
  have f: "fresh_ok h" using g by (simp add: good_list_def)
  then have p: "h_fresh h \<noteq> 0" by (simp add: fresh_ok_def)
  obtain b1 where b1: "skip_ws_buf (move 1 b) = Some b1" "bwf b1" "same_text (move 1 b) b1"
    "pb_offset (move 1 b) \<le> pb_offset b1" "pb_depth b1 = pb_depth (move 1 b)" by (rule skip_ws_buf_bwf [OF b])
  have b1': "same_text b b1" "pb_offset b < pb_offset b1" "pb_depth b1 = pb_depth b"
    using b1 by (simp_all add: same_text_def move_def)
  have r1: "remaining b1 \<le> remaining (move 1 b)" using remaining_mono [OF b1(3,4)] .
  show "loop_result read_members named_value b h is (object_loop (Suc k) (first_or 0 is) (last_or 0 is) b h)"
    using f
  proof (cases rule: New_Item_cases)
    case (none h1)
    have "object_loop (Suc k) (first_or 0 is) (last_or 0 is) b h = Some (False, first_or 0 is, last_or 0 is, b, h1)"
      using none(1) by simp
    then show ?thesis
      by (rule loop_fail) (use none good_same_mem [OF g none(2)] grows_same_mem [OF none(2)] in simp_all)
  next
    case (item h1)
    let ?p = "h_fresh h"
    obtain is1 n h2 where li: "link_item (first_or 0 is) (last_or 0 is) ?p h1 = Some (first_or 0 (is1 @ [Item ?p n []]), ?p, h2)"
      "good_list h2 (is1 @ [Item ?p n []])" "grows h is h2 (is1 @ [Item ?p n []])"
      "blank ?p n h2" "cj_string n = 0" "levels is1 = levels is" "map (named_value h2) is1 = map (named_value h) is"
      by (rule good_link [OF g item reads_named_value])
    let ?head = "first_or 0 (is1 @ [Item ?p n []])"
    have gra: "all_granted h2 = all_granted h" using li(3) all_granted_frame by (auto simp: grows_def)
    have rm: "read_members (pb_depth b) (body (move 1 b)) =
        do { (s, r) \<leftarrow> read_string (body b1);
             if json_ws r = [] \<or> hd (json_ws r) \<noteq> ch_colon then None
             else read_tail read_members (Pair s) (pb_depth b) (json_ws (tl (json_ws r))) }"
      unfolding skip_ws_body [OF b b1(1)] by (rule read_members_tail)
    have f2: "fresh_ok h2" using li(2) by (simp add: good_list_def)
    have ld: "load ?p h2 = Some n" using li(4) by (simp add: blank_def)
    have fr: "\<forall>q \<ge> h_fresh h2. h_strs h2 q = None" "0 < h_fresh h2" using f2 by (simp_all add: fresh_ok_def)
    have unf: "object_loop (Suc k) (first_or 0 is) (last_or 0 is) b h =
        parse_string ?p b1 h2 \<bind> (\<lambda>(named, b2, h3).
          if \<not> named then Some (False, ?head, ?p, b2, h3)
          else do {
            b3 \<leftarrow> skip_ws_buf b2;
            h4 \<leftarrow> store ?p (\<lambda>n. n\<lparr>cj_string := cj_valuestring n\<rparr>) h3;
            h5 \<leftarrow> store ?p (\<lambda>n. n\<lparr>cj_valuestring := 0\<rparr>) h4;
            colon \<leftarrow> char_at b3 ch_colon;
            if \<not> colon then Some (False, ?head, ?p, b3, h5)
            else do { b4 \<leftarrow> skip_ws_buf (move 1 b3); loop_tail (object_loop k) k ?head ?p b4 h5 } })"
      by (simp only: object_loop.simps item(1) prod.case p li(1) b1(1) bind.bind_lunit if_False loop_tail_def)
    from b1(2) ld fr show ?thesis
    proof (cases rule: parse_string_bwf [of b1 ?p h2 n])
      case (fail b' h3)
      show ?thesis
      proof (rule loop_fail)
        show "object_loop (Suc k) (first_or 0 is) (last_or 0 is) b h = Some (False, ?head, ?p, b', h3)"
          using unf fail(1) by simp
        show "good_list h3 (is1 @ [Item ?p n []])" by (rule good_same_mem [OF li(2) fail(3,4)])
        show "grows h is h3 (is1 @ [Item ?p n []])" by (rule grows_trans [OF li(3) grows_same_mem [OF fail(3,4)]])
        show "read_members (pb_depth b) (body (move 1 b)) = None" if "all_granted h"
          unfolding rm using fail(5) that gra by simp
      qed
    next
      case (string b2 h3 blk)
      let ?n = "n\<lparr>cj_type := cJSON_String, cj_string := h_fresh h2, cj_valuestring := 0\<rparr>"
      let ?h5 = "h3\<lparr>h_nodes := (h_nodes h3)(?p \<mapsto> ?n)\<rparr>"
      obtain b3 where b3: "skip_ws_buf b2 = Some b3" "bwf b3" "same_text b2 b3" "pb_offset b2 \<le> pb_offset b3"
        "pb_depth b3 = pb_depth b2" using string(2) by (rule skip_ws_buf_bwf)
      have h5: "store ?p (\<lambda>n. n\<lparr>cj_string := cj_valuestring n\<rparr>) h3 \<bind> store ?p (\<lambda>n. n\<lparr>cj_valuestring := 0\<rparr>) = Some ?h5"
        using string(7) p by (simp add: store_def load_def)
      have nodes5: "h_nodes ?h5 = (h_nodes h2)(?p \<mapsto> ?n)" using string(7) by simp
      note gn = good_name [OF li(2,4,5), of ?h5 blk, OF nodes5]
      have st5: "h_strs ?h5 = (h_strs h2)(h_fresh h2 \<mapsto> blk)" "h_fresh ?h5 = Suc (h_fresh h2)" using string(6,8) by simp_all
      have gr5: "h_grants ?h5 = h_grants h2" using string(10) by simp
      note gn = gn [OF st5 string(9) gr5]
      have g5: "grows h is ?h5 (is1 @ [Item ?p ?n []])" by (rule grows_trans [OF li(3) gn(2)])
      have head: "?head = first_or 0 (is1 @ [Item ?p ?n []])" by simp
      have unf': "object_loop (Suc k) (first_or 0 is) (last_or 0 is) b h =
          (if byte_here b3 = ch_colon then do { b4 \<leftarrow> skip_ws_buf (move 1 b3); loop_tail (object_loop k) k ?head ?p b4 ?h5 }
           else Some (False, ?head, ?p, b3, ?h5))"
        unfolding unf using string(1) b3(1) h5 char_at_bwf [OF b3(2), of ch_colon] by (auto split: bind_splits)
      have rm': "read_members (pb_depth b) (body (move 1 b)) =
          (if byte_here b3 = ch_colon then read_tail read_members (Pair (cstr blk)) (pb_depth b) (json_ws (tl (body b3))) else None)"
        unfolding rm using string(11) skip_ws_body [OF string(2) b3(1)] byte_here_iff [OF b3(2), of ch_colon] by auto
      show ?thesis
      proof (cases "byte_here b3 = ch_colon")
        case False
        then show ?thesis using unf' rm' by (intro loop_fail [OF _ gn(1) g5]) simp_all
      next
        case True
        have m3: "bwf (move 1 b3)" using bwf_move1 [OF b3(2)] True by simp
        then obtain b4 where b4: "skip_ws_buf (move 1 b3) = Some b4" "bwf b4" "same_text (move 1 b3) b4"
          "pb_offset (move 1 b3) \<le> pb_offset b4" "pb_depth b4 = pb_depth (move 1 b3)" by (rule skip_ws_buf_bwf)
        have b4': "same_text b b4" "pb_offset b < pb_offset b4" "pb_depth b4 = pb_depth b"
          using b1' string(3,4,5) b3 b4 by (auto simp: same_text_def move_def)
        have "remaining b4 \<le> remaining b1"
          using string(3,4) b3(3,4) b4(3,4) by (intro remaining_mono) (auto simp: same_text_def move_def)
        then have k4: "3 * remaining b4 \<le> k" using r1 k by linarith
        have "object_loop (Suc k) (first_or 0 is) (last_or 0 is) b h =
            loop_tail (object_loop k) k (first_or 0 (is1 @ [Item ?p ?n []])) ?p b4 ?h5"
          unfolding unf' head using True b4(1) by simp
        moreover have "map (named_value ?h5) is1 = map (named_value h) is"
        proof -
          have "map (named_value ?h5) is1 = map (named_value h2) is1"
            by (rule old_values_kept [OF _ f2 _ _ reads_named_value, of ?p is1 "{?p}" "{h_fresh h2}"])
              (use li(2) nodes5 st5 gr5 in \<open>simp_all add: good_list_def frame_def\<close>)
          then show ?thesis using li(7) by simp
        qed
        moreover have "read_members (pb_depth b) (body (move 1 b)) = read_tail read_members (Pair (cstr blk)) (pb_depth b) (body b4)"
          unfolding rm' using True skip_ws_body [OF m3 b4(1)] by (simp add: drop_Suc)
        moreover have "named_value h6 (Item ?p n' cs) = (cstr blk, item_value h6 (Item ?p n' cs))" if "filled ?h5 h6 ?p ?n n' cs" for h6 n' cs
        proof -
          have "h_fresh h2 < h_fresh ?h5" using st5(2) by simp
          then have "h_fresh h2 \<notin> set (value_strs n' @ strs_of cs)" using that by (auto simp: filled_def)
          then have "h_strs h6 (h_fresh h2) = h_strs ?h5 (h_fresh h2)" using that by (simp add: filled_def frame_def)
          moreover have "cj_string n' = h_fresh h2" using that by (simp add: filled_def)
          ultimately show ?thesis using st5(1) string(9) fr(2)
            by (simp add: named_value_def text_at_def string_at_def block_def)
        qed
        ultimately show ?thesis
          using loop_tail_result [OF v l b4(2) b4' d(1) _ k4 gn(1) g5 gn(3) reads_named_value, where wr = "Pair (cstr blk)"] li(6) d(2) by simp
      qed
    qed
  qed
qed

theorem parse_functions_ok:
  "ok_value k \<and> ok_array k \<and> ok_object k \<and> ok_loop read_elems item_value (array_loop k) k \<and>
    ok_loop read_members named_value (object_loop k) k"
proof (induction k)
  case 0
  show ?case
    by (auto simp: ok_value_def ok_array_def ok_object_def ok_loop_def dest: remaining_pos)
next
  case (Suc k)
  then show ?case
    using ok_value_step ok_array_step ok_object_step ok_array_loop_step ok_object_loop_step by blast
qed

end
