(* ===== verification/CJson_Claims.thy ===== *)
theory CJson_Claims
  imports CJson_Parse_Safe
begin

text \<open>
  The properties of \<open>cJSON_Parse\<close>: on every text it returns, what it builds is a well-linked
  tree of new nodes, and nothing is left behind when it fails.
\<close>

declare item_value.simps [simp del]

section \<open>The entry point\<close>

text \<open>What a call may answer: the null item, or a tree that owns all that is new.\<close>

definition parsed :: "heap \<Rightarrow> ptr \<Rightarrow> heap \<Rightarrow> bool" where
  "parsed h item h' \<longleftrightarrow>
     (item = 0 \<and> same_mem h h' \<and> h_fresh h \<le> h_fresh h') \<or>
     (\<exists>n cs. seg h' 0 [Item item n cs] \<and> apart [Item item n cs] \<and> grows h [] h' [Item item n cs] \<and>
        tidy [Item item n cs] \<and> levels cs \<le> CJSON_NESTING_LIMIT \<and> fresh_ok h')"

text \<open>
  The document a text contains: a byte order mark and white space in front are skipped; what
  follows the value is ignored, or must be white space when the caller asks for that.
\<close>

definition json_start :: "bytes \<Rightarrow> bytes" where
  "json_start t = json_ws (if 4 \<le> length t \<and> take 3 t = [0xEF, 0xBB, 0xBF] then drop 3 t else t)"

definition read_document :: "bool \<Rightarrow> bytes \<Rightarrow> json option" where
  "read_document to_end t =
     (case read_value 0 (json_start t) of
        None \<Rightarrow> None
      | Some (v, r) \<Rightarrow> if to_end \<and> json_ws r \<noteq> [] then None else Some v)"

text \<open>
  A call answers the document: a tree that holds its value, or the null item, and then, unless
  a request for memory was refused, there is no document.
\<close>

definition answers :: "heap \<Rightarrow> json option \<Rightarrow> ptr \<Rightarrow> heap \<Rightarrow> bool" where
  "answers h doc item h' \<longleftrightarrow>
     (item = 0 \<and> same_mem h h' \<and> h_fresh h \<le> h_fresh h' \<and> (all_granted h \<longrightarrow> doc = None)) \<or>
     (\<exists>n cs. seg h' 0 [Item item n cs] \<and> apart [Item item n cs] \<and> grows h [] h' [Item item n cs] \<and>
        tidy [Item item n cs] \<and> levels cs \<le> CJSON_NESTING_LIMIT \<and> fresh_ok h' \<and>
        doc = Some (item_value h' (Item item n cs)))"

lemma answers_parsed: "answers h doc item h' \<Longrightarrow> parsed h item h'"
  unfolding answers_def parsed_def by blast

lemma deallocated_tree:
  assumes "seg h' 0 is" and "apart is" and "grows h [] h' is" and "fresh_ok h"
  shows "\<exists>h''. cJSON_Delete (first_or 0 is) h' = Some h'' \<and> same_mem h h'' \<and> h_fresh h'' = h_fresh h'"
proof -
  let ?h = "without h' (set (nodes_of is)) (set (strs_of is))"
  have "h_nodes ?h p = h_nodes h p" for p
    using assms(3,4) by (cases "p \<in> set (nodes_of is)") (auto simp: grows_def frame_def fresh_ok_def subset_iff)
  moreover have "h_strs ?h s = h_strs h s" for s
    using assms(3,4) by (cases "s \<in> set (strs_of is)") (auto simp: grows_def frame_def fresh_ok_def subset_iff)
  moreover have "h_grants h' = h_grants h" using assms(3) by (simp add: grows_def frame_def)
  ultimately show ?thesis using delete_frees_list [OF assms(1,2)] by (auto simp: same_mem_def)
qed

text \<open>The root item and its value.\<close>

lemma root_parsed:
  assumes new: "cJSON_New_Item h = (h_fresh h, h1)" "h_nodes h1 = (h_nodes h)(h_fresh h \<mapsto> zero_node)"
      "h_strs h1 = h_strs h" "h_fresh h1 = Suc (h_fresh h)" "h_grants h1 = h_grants h" and f: "fresh_ok h"
    and b: "bwf b" "pb_depth b = 0" "pb_length b \<le> len"
  obtains (fail) b' h2 where "parse_value (parse_fuel len) (h_fresh h) b h1 = Some (False, b', h2)"
      "good_list h2 [Item (h_fresh h) zero_node []]" "grows h [] h2 [Item (h_fresh h) zero_node []]"
      "all_granted h \<longrightarrow> read_value 0 (body b) = None"
  | (ok) b' h2 n cs where "parse_value (parse_fuel len) (h_fresh h) b h1 = Some (True, b', h2)" "bwf b'"
      "good_list h2 [Item (h_fresh h) n cs]" "grows h [] h2 [Item (h_fresh h) n cs]" "levels cs \<le> CJSON_NESTING_LIMIT"
      "read_value 0 (body b) = Some (item_value h2 (Item (h_fresh h) n cs), body b')"
proof -
  let ?p = "h_fresh h"
  have g0: "good_list h []" by (rule empty_good [OF f])
  obtain h2 is1 n where li: "link_item (first_or 0 []) (last_or 0 []) ?p h1 = Some (first_or 0 (is1 @ [Item ?p n []]), ?p, h2)"
    "good_list h2 (is1 @ [Item ?p n []])" "grows h [] h2 (is1 @ [Item ?p n []])" "blank ?p n h2" "levels is1 = levels []"
    by (rule good_link [OF g0 new reads_item_value]) blast
  have h2: "h2 = h1" using li(1) by (simp add: link_item_def)
  have is1: "is1 = []" using li(5) by (cases is1 rule: levels.cases) auto
  have n: "n = zero_node" using li(4) new(2) by (auto simp: h2 blank_def load_def split: if_splits)
  note g = li(2,3,4) [unfolded h2 is1 n append_Nil]
  have f1: "fresh_ok h1" using g(1) by (simp add: good_list_def)
  have gr: "all_granted h1 = all_granted h" using new(5) by (simp add: all_granted_def)
  have "3 * remaining b \<le> parse_fuel len" using b(3) by (simp add: remaining_def parse_fuel_def)
  then have "value_result b ?p zero_node h1 (parse_value (parse_fuel len) ?p b h1)"
    using parse_functions_ok [of "parse_fuel len"] b(1,2) g(3) f1 by (simp add: ok_value_def)
  then show thesis
  proof (unfold value_result_def b(2), elim disjE exE conjE)
    fix b' h3
    assume "parse_value (parse_fuel len) ?p b h1 = Some (False, b', h3)" "same_mem h1 h3" "h_fresh h1 \<le> h_fresh h3"
      "all_granted h1 \<longrightarrow> read_value 0 (body b) = None"
    then show thesis using good_same_mem [OF g(1)] grows_trans [OF g(2) grows_same_mem] gr by (intro fail) blast+
  next
    fix b' h3 n' cs
    assume r: "parse_value (parse_fuel len) ?p b h1 = Some (True, b', h3)" "advanced b b'" "fresh_ok h3"
      "filled h1 h3 ?p zero_node n' cs" "prev_chain (last_or 0 cs) cs" "tidy cs" "levels cs + 0 \<le> CJSON_NESTING_LIMIT"
      "read_value 0 (body b) = Some (item_value h3 (Item ?p n' cs), body b')"
    note gf = good_fill [of h1 "[]", unfolded append_Nil, OF g(1,3) r(4,3,5,6)]
    then show thesis using r grows_trans [OF g(2) gf(2)] by (intro ok) (simp_all add: advanced_def)
  qed
qed

lemma skip_bom_bwf:
  assumes "bwf b" and "pb_offset b = 0"
  obtains b' where "skip_utf8_bom b = Some (True, b')" "bwf b'" "same_text b b'" "pb_depth b' = pb_depth b"
    "body b' = (if 4 \<le> length (body b) \<and> take 3 (body b) = [0xEF, 0xBB, 0xBF] then drop 3 (body b) else body b)"
proof (cases "can_access_at_index b 4")
  case True
  note bw = bwfD [OF assms(1)]
  let ?e = "take 3 (text_of b) = [0xEF, 0xBB, 0xBF]"
  have l: "4 < pb_length b" using True assms(2) by (simp add: can_access_at_index_def)
  then have "strncmp_eq (drop (pb_offset b) (text_of b)) [0xEF, 0xBB, 0xBF] = Some ?e"
    using bw(2) assms(2) strncmp_eq_Some [of "[0xEF, 0xBB, 0xBF]" "text_of b"] by (simp add: numeral_eq_Suc)
  then have s: "skip_utf8_bom b = Some (True, if ?e then move 3 b else b)"
    using assms(2) True bw(1) by (simp add: skip_utf8_bom_def)
  have "bwf (move 3 b)" using True by (intro bwf_same [OF assms(1)]) (simp_all add: can_access_at_index_def)
  moreover have "take 3 (body b) = take 3 (text_of b)" "4 \<le> length (body b)"
    using l assms(2) bw(2) by (auto simp: body_def min_def)
  ultimately show thesis using s assms(1) by (intro that [of "if ?e then move 3 b else b"]) (simp_all, simp add: move_def)
next
  case False
  then have "\<not> 4 \<le> length (body b)"
    using assms(2) body_length [OF assms(1)] bwfD(3) [OF assms(1)] by (simp add: can_access_at_index_def)
  then show thesis using assms False bwfD(1) [OF assms(1)] by (intro that [of b]) (simp_all add: skip_utf8_bom_def)
qed

lemma parse_fail_answers:
  assumes "good_list h' [Item p n cs]" and "grows h [] h' [Item p n cs]" and "fresh_ok h" and "all_granted h \<longrightarrow> doc = None"
  shows "\<exists>e h''. parse_fail value p we b h' = Some (0, e, h'') \<and> answers h doc 0 h''"
proof -
  have sa: "seg h' 0 [Item p n cs]" "apart [Item p n cs]" using assms(1) by (simp_all add: good_list_def)
  obtain h2 where h2: "cJSON_Delete p h' = Some h2" "same_mem h h2" "h_fresh h2 = h_fresh h'"
    using deallocated_tree [OF sa assms(2,3)] by auto
  have "h_fresh h \<le> h_fresh h2" using assms(2) h2(3) by (simp add: grows_def frame_def)
  then show ?thesis using h2(1,2) sa(1) assms(4) by (auto simp: parse_fail_def answers_def same_mem_def)
qed

lemma parse_fail_null: "\<exists>e h'. parse_fail value 0 we b h = Some (0, e, h') \<and> same_mem h h' \<and> h_fresh h' = h_fresh h"
  by (auto simp: parse_fail_def same_mem_def)

lemma answers_tree:
  "good_list h' [Item p n cs] \<Longrightarrow> grows h [] h' [Item p n cs] \<Longrightarrow> levels cs \<le> CJSON_NESTING_LIMIT \<Longrightarrow>
    doc = Some (item_value h' (Item p n cs)) \<Longrightarrow> answers h doc p h'"
  unfolding answers_def good_list_def by blast

lemma answers_error [simp]: "answers (h\<lparr>global_error := e\<rparr>) doc p h' = answers h doc p h'"
  by (simp add: answers_def same_mem_def grows_def frame_def all_granted_def)

lemma parse_opts_answers:
  assumes f: "fresh_ok h" and vm: "block v h = Some m" and len: "0 < len" "len \<le> length m" "m ! (len - 1) = 0"
  shows "\<exists>item e h'. cJSON_ParseWithLengthOpts v len want_end rnt h = Some (item, e, h') \<and>
    answers h (read_document rnt (take (len - 1) m)) item h'"
proof -
  let ?h = "h\<lparr>global_error := (0, 0)\<rparr>"
  let ?b = "\<lparr>pb_content = Some m, pb_length = len, pb_offset = 0, pb_depth = 0\<rparr>"
  let ?t = "take (len - 1) m" and ?doc = "read_document rnt (take (len - 1) m)"
  have b: "bwf ?b" "pb_offset ?b = 0" using len by (auto intro: bwfI)
  have bt: "body ?b = ?t" by (simp add: body_def text_of_def)
  have f': "fresh_ok ?h" using f by (simp add: fresh_ok_def)
  have v': "v \<noteq> 0" "block v ?h = Some m" using vm by (auto simp: block_def split: if_splits)
  obtain b1 where b1: "skip_utf8_bom ?b = Some (True, b1)" "bwf b1" "same_text ?b b1" "pb_depth b1 = 0"
    "body b1 = (if 4 \<le> length ?t \<and> take 3 ?t = [0xEF, 0xBB, 0xBF] then drop 3 ?t else ?t)"
    by (rule skip_bom_bwf [OF b, unfolded bt]) simp
  obtain b2 where b2: "buffer_skip_whitespace b1 = Some (True, b2)" "bwf b2" "same_text b1 b2" "pb_depth b2 = 0"
    using b1(2,4) by (metis skip_ws_buf_bwf)
  have st: "body b2 = json_start ?t" using skip_ws_body' [OF b1(2) b2(1)] unfolding b1(5) json_start_def .
  have l2: "pb_length b2 \<le> len" using b1(3) b2(3) by (simp add: same_text_def)
  have "\<exists>item e h'. cJSON_ParseWithLengthOpts v len want_end rnt h = Some (item, e, h') \<and> answers ?h ?doc item h'"
    using f'
  proof (cases rule: New_Item_cases)
    case (none h1)
    then show ?thesis using v' len(1) parse_fail_null [of v want_end ?b h1]
      by (auto simp: cJSON_ParseWithLengthOpts_def answers_def same_mem_def)
  next
    case (item h1)
    let ?p = "h_fresh ?h"
    have p: "?p \<noteq> 0" using f by (simp add: fresh_ok_def)
    have unf: "cJSON_ParseWithLengthOpts v len want_end rnt h =
       parse_value (parse_fuel len) ?p b2 h1 \<bind> (\<lambda>(ok, b3, h2).
         if \<not> ok then parse_fail v ?p want_end b3 h2
         else if \<not> rnt then Some (?p, (if want_end then Some (pb_offset b3) else None), h2)
         else skip_ws_buf b3 \<bind> (\<lambda>b4.
           if pb_offset b4 \<ge> pb_length b4 then parse_fail v ?p want_end b4 h2
           else buffer_at b4 0 \<bind> (\<lambda>c.
             if c \<noteq> 0 then parse_fail v ?p want_end b4 h2
             else Some (?p, (if want_end then Some (pb_offset b4) else None), h2))))"
      using len(1) v' p item(1) b1(1) b2(1)
      by (simp only: cJSON_ParseWithLengthOpts_def Let_def bind.bind_lunit prod.case if_True if_False simp_thms)
        simp
    from item f' b2(2,4) l2 show ?thesis
    proof (cases rule: root_parsed [of ?h h1 b2 len])
      case (fail b' h2)
      have "all_granted ?h \<longrightarrow> ?doc = None" using fail(4) by (simp add: st read_document_def)
      from parse_fail_answers [OF fail(2,3) f' this, of v want_end b'] show ?thesis using fail(1) unfolding unf by auto
    next
      case (ok b' h2 n cs)
      have doc: "?doc = (if rnt \<and> json_ws (body b') \<noteq> [] then None else Some (item_value h2 (Item ?p n cs)))"
        using ok(6) by (simp add: st read_document_def)
      show ?thesis
      proof (cases rnt)
        case False
        then show ?thesis using ok(1) answers_tree [OF ok(3,4,5)] doc unfolding unf by simp
      next
        case True
        obtain b4 where b4: "skip_ws_buf b' = Some b4" "bwf b4" using ok(2) by (metis skip_ws_buf_bwf)
        note c = buffer_at_bwf [OF b4(2)]
        have lt: "\<not> pb_offset b4 \<ge> pb_length b4" using bwfD(3) [OF b4(2)] by simp
        have "hd (json_ws (body b')) \<noteq> 0" if "json_ws (body b') \<noteq> []"
          using hd_json_ws [OF that] by auto
        then have z: "byte_here b4 = 0 \<longleftrightarrow> json_ws (body b') = []"
          using byte_here_body [OF b4(2)] skip_ws_body [OF ok(2) b4(1)] by auto
        show ?thesis
        proof (cases "byte_here b4 = 0")
          case e: True
          then show ?thesis
            using ok(1) True b4(1) c lt answers_tree [OF ok(3,4,5)] doc z unfolding unf by auto
        next
          case False
          then have "?doc = None" using doc z True by simp
          from parse_fail_answers [OF ok(3,4) f', of ?doc v want_end b4] this show ?thesis
            using False ok(1) True b4(1) c lt unfolding unf by auto
        qed
      qed
    qed
  qed
  then show ?thesis by simp
qed

lemma parse_opts_parsed:
  assumes "fresh_ok h" and "block v h = Some m" and "0 < len" "len \<le> length m" "m ! (len - 1) = 0"
  shows "\<exists>item e h'. cJSON_ParseWithLengthOpts v len want_end rnt h = Some (item, e, h') \<and> parsed h item h'"
  using parse_opts_answers [OF assms] answers_parsed by blast

lemma parse_answers:
  assumes f: "fresh_ok h" and vm: "block v h = Some m" "0 \<in> set m"
  shows "\<exists>item h'. cJSON_Parse v h = Some (item, h') \<and> answers h (read_document False (cstr m)) item h'"
proof -
  have v0: "v \<noteq> 0" using vm by (auto simp: block_def split: if_splits)
  let ?n = "length (cstr m)"
  have l: "?n < length m" by (rule length_cstr_less [OF vm(2)])
  have "m ! ?n = 0" "take ?n m = cstr m" using cstr_split [OF vm(2)] by (metis nth_append_length, metis append_eq_conv_conj)
  then obtain item e h' where "cJSON_ParseWithLengthOpts v (?n + 1) False False h = Some (item, e, h')"
    "answers h (read_document False (cstr m)) item h'"
    using parse_opts_answers [OF f vm(1), of "?n + 1" False False] l by auto
  then show ?thesis
    using vm v0 by (simp add: cJSON_Parse_def cJSON_ParseWithOpts_def strlen_at_def c_strlen_def)
qed

lemma parse_parsed:
  assumes "fresh_ok h" and "block v h = Some m" "0 \<in> set m"
  shows "\<exists>item h'. cJSON_Parse v h = Some (item, h') \<and> parsed h item h'"
  using parse_answers [OF assms] answers_parsed by blast


section \<open>Properties\<close>

text \<open>Evaluation decides a bind before it looks at the continuation.\<close>

lemma bind_case [code_unfold]: "Option.bind x f = (case x of None \<Rightarrow> None | Some y \<Rightarrow> f y)"
  by (cases x) simp_all

text \<open>A heap with one text in it, for the witnesses.\<close>

definition text_heap :: "(nat \<Rightarrow> bool) \<Rightarrow> bytes \<Rightarrow> heap" where
  "text_heap grants m = (heap_start grants (\<lambda>p i. 0))\<lparr>h_strs := [1 \<mapsto> m], h_fresh := 2\<rparr>"

lemma text_heap_ok: "fresh_ok (text_heap grants m)" "block 1 (text_heap grants m) = Some m"
  by (simp_all add: text_heap_def heap_start_def fresh_ok_def block_def)

text \<open>What \<open>item\<close> stands for in the heap.\<close>

definition holds :: "heap \<Rightarrow> ptr \<Rightarrow> json \<Rightarrow> bool" where
  "holds h item v \<longleftrightarrow> (\<exists>n cs. seg h 0 [Item item n cs] \<and> item_value h (Item item n cs) = v)"

text \<open>C20: \<open>cJSON_Parse\<close> reads the language of the reader, and nothing else: when it answers an item,
  the reader finds a document in the text and the new tree holds exactly its value; when it answers
  the null item although no request for memory is refused, the text contains no document.\<close>

theorem parse_refines_reader:
  assumes "fresh_ok h" and "block v h = Some m" and "0 \<in> set m" and "cJSON_Parse v h = Some (item, h')"
  shows "if item = 0 then all_granted h \<longrightarrow> read_document False (cstr m) = None
    else \<exists>doc. read_document False (cstr m) = Some doc \<and> holds h' item doc"
proof -
  from parse_answers [OF assms(1-3)] assms(4) have "answers h (read_document False (cstr m)) item h'" by auto
  then show ?thesis unfolding answers_def holds_def by auto
qed

theorem parse_refines_reader_witness:
  "\<exists>item h'. cJSON_Parse 1 (text_heap (\<lambda>k. True) (str '' [true, {\"a\" : null}]'' @ [0])) = Some (item, h') \<and> item \<noteq> 0 \<and>
     holds h' item (JsArr [JsBool True, JsObj [(str ''a'', JsNull)]])"
proof -
  let ?m = "str '' [true, {\"a\" : null}]'' @ [0]"
  have z: "0 \<in> set ?m" by simp
  obtain item h' where p: "cJSON_Parse 1 (text_heap (\<lambda>k. True) ?m) = Some (item, h')"
    using parse_parsed [OF text_heap_ok z] by blast
  have d: "read_document False (cstr ?m) = Some (JsArr [JsBool True, JsObj [(str ''a'', JsNull)]])" by code_simp
  have g: "all_granted (text_heap (\<lambda>k. True) ?m)" by (simp add: all_granted_def text_heap_def heap_start_def)
  from parse_refines_reader [OF text_heap_ok z p] d g p show ?thesis by (auto split: if_splits)
qed

text \<open>With any length up to a terminator and any options, \<open>cJSON_ParseWithLengthOpts\<close> accepts
  what the reader accepts; when the caller requires the text to end, only white space may follow
  the value. Acceptance gives a tree that holds the value, rejection the null item.\<close>

theorem parse_opts_refines_reader:
  assumes "fresh_ok h" and "block v h = Some m" and "0 < len" and "len \<le> length m" and "m ! (len - 1) = 0" and "all_granted h"
  shows "\<exists>item e h'. cJSON_ParseWithLengthOpts v len want_end rnt h = Some (item, e, h') \<and>
    (case read_document rnt (take (len - 1) m) of None \<Rightarrow> item = 0 | Some doc \<Rightarrow> holds h' item doc)"
  using parse_opts_answers [OF assms(1-5), of want_end rnt] assms(6)
  unfolding answers_def holds_def by (auto split: option.split)

theorem parse_opts_refines_reader_witness:
  "(\<exists>item e h'. cJSON_ParseWithLengthOpts 1 8 False True (text_heap (\<lambda>k. True) (str ''false x'' @ [0])) = Some (item, e, h') \<and> item = 0) \<and>
   (\<exists>item e h'. cJSON_ParseWithLengthOpts 1 8 False False (text_heap (\<lambda>k. True) (str ''false x'' @ [0])) = Some (item, e, h') \<and>
     holds h' item (JsBool False))"
proof -
  let ?m = "str ''false x'' @ [0]" and ?h = "text_heap (\<lambda>k. True) (str ''false x'' @ [0])"
  have m: "?m ! (8 - 1) = 0" "(8 :: nat) \<le> length ?m" by (simp_all add: str_def)
  have g: "all_granted ?h" by (simp add: all_granted_def text_heap_def heap_start_def)
  have d: "read_document True (take (8 - 1) ?m) = None" "read_document False (take (8 - 1) ?m) = Some (JsBool False)"
    by code_simp+
  show ?thesis
    using parse_opts_refines_reader [OF text_heap_ok _ m(2,1) g, of False True]
      parse_opts_refines_reader [OF text_heap_ok _ m(2,1) g, of False False] unfolding d by simp
qed

text \<open>C18: On every text with a terminator, and whichever allocations fail, \<open>cJSON_Parse\<close> returns
  without leaving the text or the heap. It answers the null item and leaves the memory as it was, or
  the root of a well-linked tree of new nodes and strings, nested no deeper than the limit.\<close>

theorem parse_total_safe:
  assumes "fresh_ok h" and "block v h = Some m" and "0 \<in> set m"
  shows "\<exists>item h'. cJSON_Parse v h = Some (item, h') \<and> parsed h item h'"
  using assms by (rule parse_parsed)

theorem parse_total_safe_witness:
  "\<exists>item h'. cJSON_Parse 1 (text_heap (\<lambda>k. k < 2) (str ''[1,[true]]'' @ [0])) = Some (item, h') \<and>
     parsed (text_heap (\<lambda>k. k < 2) (str ''[1,[true]]'' @ [0])) item h'"
  by (rule parse_total_safe [OF text_heap_ok]) simp

text \<open>C19: Deleting what \<open>cJSON_Parse\<close> answered gives back exactly the memory before the call: no
  node and no string is leaked, freed twice or taken from the caller, also when the parse fails.\<close>

theorem parse_then_delete_restores:
  assumes "fresh_ok h" and "block v h = Some m" and "0 \<in> set m" and "cJSON_Parse v h = Some (item, h')"
  shows "\<exists>h''. cJSON_Delete item h' = Some h'' \<and> h_nodes h'' = h_nodes h \<and> h_strs h'' = h_strs h"
proof -
  from parse_parsed [OF assms(1-3)] assms(4) have "parsed h item h'" by auto
  then show ?thesis unfolding parsed_def
  proof (elim disjE exE conjE)
    assume "item = 0" "same_mem h h'"
    then show ?thesis by (simp add: cJSON_Delete.simps same_mem_def)
  next
    fix n cs
    assume a: "seg h' 0 [Item item n cs]" "apart [Item item n cs]" "grows h [] h' [Item item n cs]"
    from deallocated_tree [OF a assms(1)] show ?thesis by (auto simp: same_mem_def)
  qed
qed

theorem parse_then_delete_restores_witness:
  "\<exists>item h' h''. cJSON_Parse 1 (text_heap (\<lambda>k. True) (str ''[1]'' @ [0])) = Some (item, h') \<and> cJSON_Delete item h' = Some h'' \<and>
     h_nodes h'' = Map.empty \<and> h_strs h'' = [1 \<mapsto> str ''[1]'' @ [0]]"
proof -
  let ?m = "str ''[1]'' @ [0]"
  have z: "0 \<in> set ?m" by simp
  obtain item h' where p: "cJSON_Parse 1 (text_heap (\<lambda>k. True) ?m) = Some (item, h')"
    using parse_parsed [OF text_heap_ok z] by blast
  from parse_then_delete_restores [OF text_heap_ok z p] show ?thesis
    using p by (auto simp: text_heap_def heap_start_def)
qed

text \<open>C25: With a terminated buffer and any options, a call that answers the null item has changed
  no node and no string; the error position is all it leaves.\<close>

theorem failed_parse_leaks_nothing:
  assumes "fresh_ok h" and "block v h = Some m" and "0 < len" and "len \<le> length m" and "m ! (len - 1) = 0"
    and "cJSON_ParseWithLengthOpts v len want_end rnt h = Some (0, e, h')"
  shows "h_nodes h' = h_nodes h \<and> h_strs h' = h_strs h"
proof -
  have "parsed h 0 h'" using parse_opts_parsed [OF assms(1-5), of want_end rnt] assms(6) by auto
  then show ?thesis by (auto simp: parsed_def same_mem_def)
qed


theorem failed_parse_leaks_nothing_witness:
  "\<exists>e h'. cJSON_ParseWithLengthOpts 1 7 True False (text_heap (\<lambda>k. k < 4) (str ''[[],[}'' @ [0])) = Some (0, e, h') \<and>
     h_nodes h' = Map.empty \<and> h_strs h' = [1 \<mapsto> str ''[[],[}'' @ [0]]"
proof -
  let ?h = "text_heap (\<lambda>k. k < 4) (str ''[[],[}'' @ [0])"
  have "map_option fst (cJSON_ParseWithLengthOpts 1 7 True False ?h) = Some 0" by code_simp
  then obtain e h' where p: "cJSON_ParseWithLengthOpts 1 7 True False ?h = Some (0, e, h')" by auto
  have "(str ''[[],[}'' @ [0]) ! (7 - 1) = 0" by (simp add: str_def)
  from failed_parse_leaks_nothing [OF text_heap_ok _ _ this p] p show ?thesis
    by (auto simp: text_heap_def heap_start_def)
qed

text \<open>\<open>cJSON_ParseWithLength\<close> on a text without terminator reads past its end: after a comma at
  the end of the buffer \<open>parse_object\<close> reads the byte behind the buffer, where \<open>parse_array\<close> and the
  first member do not.\<close>

theorem parse_with_length_reads_past_end:
  "Option.is_none (cJSON_ParseWithLength 1 10 (text_heap (\<lambda>k. True) (str ''{\"a\":true,''))) \<and>
   map_option fst (cJSON_ParseWithLength 1 6 (text_heap (\<lambda>k. True) (str ''[true,''))) = Some 0 \<and>
   map_option fst (cJSON_ParseWithLength 1 1 (text_heap (\<lambda>k. True) (str ''{''))) = Some 0"
  by code_simp

text \<open>Four characters that are not hexadecimal digits are accepted after \<open>\\u\<close>, as the code
  point 0, which ends the C string that is stored.\<close>

theorem bad_hex_digits_accepted:
  "(case cJSON_Parse 1 (text_heap (\<lambda>k. True) (str ''\"a'' @ ch_bslash # str ''uzzzzb\"'' @ [0])) of
      None \<Rightarrow> None | Some (item, h) \<Rightarrow> cJSON_GetStringValue item h \<bind> (\<lambda>s. map_option (\<lambda>t. (item, t)) (string_at s h))) =
    Some (2, str ''a'')"
  by code_simp

end
