(* ===== verification/CJson_Lists.thy ===== *)
theory CJson_Lists
  imports CJson_Items
begin

text \<open>
  The doubly linked sibling lists of \<open>cJSON.c\<close> as lists of addresses: \<open>next\<close> runs to the
  end, \<open>prev\<close> of the first item is the last one. The functions that read and change arrays
  are proved to be the list functions on these addresses.
\<close>

section \<open>The list under a container\<close>

definition hd_or :: "ptr \<Rightarrow> ptr list \<Rightarrow> ptr" where
  "hd_or r xs = (case xs of [] \<Rightarrow> r | x # _ \<Rightarrow> x)"

lemma hd_or_simps [simp]: "hd_or r [] = r" "hd_or r (x # xs) = x" "hd_or r (xs @ ys) = hd_or (hd_or r ys) xs"
  by (simp_all add: hd_or_def split: list.split)

definition end_or :: "ptr \<Rightarrow> ptr list \<Rightarrow> ptr" where
  "end_or q xs = (if xs = [] then q else last xs)"

lemma end_or_simps [simp]: "end_or q [] = q" "end_or q (x # xs) = end_or x xs" "end_or q (xs @ ys) = end_or (end_or q xs) ys"
  by (simp_all add: end_or_def)

fun chain :: "(ptr \<Rightarrow> cjson option) \<Rightarrow> ptr \<Rightarrow> ptr list \<Rightarrow> ptr \<Rightarrow> bool" where
  "chain N q [] r \<longleftrightarrow> True"
| "chain N q (x # xs) r \<longleftrightarrow>
     (case N x of None \<Rightarrow> False | Some n \<Rightarrow> cj_prev n = q \<and> cj_next n = hd_or r xs) \<and> chain N x xs r"

lemma chain_append [simp]: "chain N q (xs @ ys) r \<longleftrightarrow> chain N q xs (hd_or r ys) \<and> chain N (end_or q xs) ys r"
  by (induction N q xs r rule: chain.induct) (auto split: option.splits)

lemma chain_upd [simp]: "p \<notin> set xs \<Longrightarrow> chain (N(p := v)) q xs r = chain N q xs r"
  by (induction N q xs r rule: chain.induct) auto

lemma chain_nodes: "chain N q xs r \<Longrightarrow> x \<in> set xs \<Longrightarrow> N x \<noteq> None"
  by (induction N q xs r rule: chain.induct) (auto split: option.splits)

definition children :: "heap \<Rightarrow> ptr \<Rightarrow> ptr list \<Rightarrow> bool" where
  "children h arr xs \<longleftrightarrow>
     (case h_nodes h arr of None \<Rightarrow> False | Some a \<Rightarrow> cj_child a = hd_or 0 xs) \<and>
     distinct (0 # arr # xs) \<and> chain (h_nodes h) (end_or 0 xs) xs 0"

text \<open>Only links changed: what a node holds, and every node outside a set, is as before.\<close>

definition payload :: "cjson \<Rightarrow> u32 \<times> ptr \<times> int \<times> dbl \<times> ptr" where
  "payload n = (cj_type n, cj_valuestring n, cj_valueint n, cj_valuedouble n, cj_string n)"

definition same_payload :: "ptr set \<Rightarrow> (ptr \<Rightarrow> cjson option) \<Rightarrow> (ptr \<Rightarrow> cjson option) \<Rightarrow> bool" where
  "same_payload P N N' \<longleftrightarrow> (\<forall>p. map_option payload (N' p) = map_option payload (N p)) \<and> (\<forall>p. p \<notin> P \<longrightarrow> N' p = N p)"

definition links_only :: "ptr set \<Rightarrow> heap \<Rightarrow> heap \<Rightarrow> bool" where
  "links_only P h h' \<longleftrightarrow> h_strs h' = h_strs h \<and> h_fresh h' = h_fresh h \<and> same_payload P (h_nodes h) (h_nodes h')"

lemma payload_links [simp]:
  "payload (n\<lparr>cj_next := x\<rparr>) = payload n" "payload (n\<lparr>cj_prev := x\<rparr>) = payload n" "payload (n\<lparr>cj_child := x\<rparr>) = payload n"
  by (simp_all add: payload_def)

lemma same_payload_refl [simp]: "same_payload P N N"
  by (simp add: same_payload_def)

lemma same_payload_upd [simp]:
  "map_option payload (N p) = Some (payload n) \<Longrightarrow> p \<in> P \<Longrightarrow> same_payload P N N' \<Longrightarrow> same_payload P N (N'(p \<mapsto> n))"
  by (auto simp: same_payload_def)

lemma links_refl: "links_only P h h"
  by (simp add: links_only_def)

lemma links_trans: "links_only P h h' \<Longrightarrow> links_only P h' h'' \<Longrightarrow> links_only P h h''"
  by (simp add: links_only_def same_payload_def)

text \<open>One store to a link field.\<close>

lemma store_Some: "p \<noteq> 0 \<Longrightarrow> h_nodes h p = Some n \<Longrightarrow> store p f h = Some (h\<lparr>h_nodes := (h_nodes h)(p \<mapsto> f n)\<rparr>)"
  by (simp add: store_def load_def)

lemma load_Some: "p \<noteq> 0 \<Longrightarrow> load p h = h_nodes h p"
  by (simp add: load_def)

lemma links_store:
  assumes "store p f h = Some h'" and "p \<in> P" and "\<And>n. payload (f n) = payload n"
  shows "links_only P h h'"
  using assms by (auto simp: store_def load_def links_only_def same_payload_def split: if_splits option.splits)

section \<open>Reading\<close>

lemma size_loop_chain:
  "chain (h_nodes h) q xs 0 \<Longrightarrow> 0 \<notin> set xs \<Longrightarrow> size_loop (hd_or 0 xs) n h = Some (n + length xs)"
proof (induction xs arbitrary: q n)
  case Nil
  then show ?case by (simp add: size_loop.simps)
next
  case (Cons x xs)
  then show ?case by (subst size_loop.simps) (auto simp: load_def split: option.splits)
qed

lemma item_loop_chain:
  "chain (h_nodes h) q xs 0 \<Longrightarrow> 0 \<notin> set xs \<Longrightarrow>
    item_loop (hd_or 0 xs) i h = Some (if i < length xs then xs ! i else 0)"
proof (induction xs arbitrary: q i)
  case Nil
  then show ?case by (cases i) simp_all
next
  case (Cons x xs)
  then show ?case by (cases i) (auto simp: load_def split: option.splits)
qed

lemma children_arr: "children h arr xs \<Longrightarrow> arr \<noteq> 0"
  by (auto simp: children_def)

lemma children_node: "children h arr xs \<Longrightarrow> \<exists>a. h_nodes h arr = Some a \<and> cj_child a = hd_or 0 xs"
  by (auto simp: children_def split: option.splits)

lemma get_array_item_children:
  assumes "children h arr xs"
  shows "get_array_item arr i h = Some (if i < length xs then xs ! i else 0)"
proof -
  have c: "chain (h_nodes h) (end_or 0 xs) xs 0" "0 \<notin> set xs" "arr \<noteq> 0" using assms by (auto simp: children_def)
  obtain a where "h_nodes h arr = Some a" "cj_child a = hd_or 0 xs" using children_node [OF assms] by blast
  then show ?thesis using item_loop_chain [OF c(1,2), of i] c(3) by (simp add: get_array_item_def load_def)
qed

lemma array_size_children:
  assumes "children h arr xs"
  shows "cJSON_GetArraySize arr h = Some (sint (of_nat (length xs) :: u32))"
proof -
  have c: "chain (h_nodes h) (end_or 0 xs) xs 0" "0 \<notin> set xs" "arr \<noteq> 0" using assms by (auto simp: children_def)
  obtain a where "h_nodes h arr = Some a" "cj_child a = hd_or 0 xs" using children_node [OF assms] by blast
  then show ?thesis using size_loop_chain [OF c(1,2), of 0] c(3) by (simp add: cJSON_GetArraySize_def load_def)
qed

section \<open>Appending\<close>

lemma chainD1: "chain N q (x # xs) r \<Longrightarrow> \<exists>n. N x = Some n \<and> cj_prev n = q \<and> cj_next n = hd_or r xs"
  by (auto split: option.splits)

lemma append_children:
  assumes c: "children h arr xs" and it: "h_nodes h item = Some n" "cj_next n = 0" "item \<noteq> 0" "item \<noteq> arr" "item \<notin> set xs"
  shows "\<exists>h'. add_item_to_array arr item h = Some (True, h') \<and> children h' arr (xs @ [item]) \<and>
    links_only (insert arr (insert item (set xs))) h h'"
proof -
  obtain a where a: "h_nodes h arr = Some a" "cj_child a = hd_or 0 xs" using children_node [OF c] by blast
  have arr: "arr \<noteq> 0" by (rule children_arr [OF c])
  consider "xs = []" | f where "xs = [f]" | f ys l where "xs = f # ys @ [l]"
    by (metis neq_Nil_conv rev_exhaust append_Nil)
  then show ?thesis
  proof cases
    case 1
    then show ?thesis using c a it arr
      by (auto simp: add_item_to_array_def load_def store_def children_def links_only_def)
  next
    case 2
    obtain m where m: "h_nodes h f = Some m" "cj_prev m = f" "cj_next m = 0" "f \<noteq> 0" "f \<noteq> arr"
      using c 2 by (auto simp: children_def split: option.splits)
    show ?thesis using 2 c a it arr m
      by (auto simp: add_item_to_array_def suffix_object_def load_def store_def children_def links_only_def)
  next
    case 3
    obtain m k where m: "h_nodes h f = Some m" "cj_prev m = l" "h_nodes h l = Some k" "cj_next k = 0" "f \<noteq> 0" "l \<noteq> 0"
      "f \<noteq> arr" "l \<noteq> arr" "f \<noteq> l"
      using c 3 by (auto simp: children_def split: option.splits)
    show ?thesis using 3 c a it arr m
      by (auto simp: add_item_to_array_def suffix_object_def load_def store_def children_def links_only_def)
  qed
qed


section \<open>Detaching\<close>

lemma detach_children:
  assumes c: "children h arr xs" and i: "i < length xs"
  shows "\<exists>h'. cJSON_DetachItemViaPointer arr (xs ! i) h = Some (xs ! i, h') \<and>
    children h' arr (take i xs @ drop (Suc i) xs) \<and> links_only (insert arr (set xs)) h h' \<and>
    (\<exists>n. h_nodes h' (xs ! i) = Some n \<and> cj_next n = 0 \<and> cj_prev n = 0)"
proof -
  obtain a where a: "h_nodes h arr = Some a" "cj_child a = hd_or 0 xs" using children_node [OF c] by blast
  have arr: "arr \<noteq> 0" by (rule children_arr [OF c])
  define as x bs where s: "as = take i xs" "x = xs ! i" "bs = drop (Suc i) xs"
  have xs: "xs = as @ x # bs" unfolding s by (rule id_take_nth_drop [OF i])
  note defs = cJSON_DetachItemViaPointer_def load_def store_def children_def links_only_def
  note c' = c [unfolded xs]
  have "\<exists>h'. cJSON_DetachItemViaPointer arr x h = Some (x, h') \<and> children h' arr (as @ bs) \<and>
      links_only (insert arr (set xs)) h h' \<and> (\<exists>n. h_nodes h' x = Some n \<and> cj_next n = 0 \<and> cj_prev n = 0)"
  proof -
    obtain n where n: "h_nodes h x = Some n" "cj_next n = hd_or 0 bs" "x \<noteq> 0" "x \<noteq> arr"
      using c' by (auto simp: children_def split: option.splits)
    consider "as = []" "bs = []" | r rs where "as = []" "bs = r # rs" | l where "as = [l]" "bs = []"
      | f ys l where "as = f # ys @ [l]" "bs = []" | l r rs where "as = [l]" "bs = r # rs"
      | f ys l r rs where "as = f # ys @ [l]" "bs = r # rs"
      by (metis neq_Nil_conv rev_exhaust append_Nil append_Cons)
    then show ?thesis
    proof cases
      case 1
      show ?thesis using 1 c' a arr n xs by (simp add: defs)
    next
      case 2
      obtain m where m: "h_nodes h r = Some m" "r \<noteq> 0" "r \<noteq> arr" "r \<noteq> x" "cj_prev n = end_or r rs"
        using c' 2 n(1) by (auto simp: children_def split: option.splits)
      show ?thesis using 2 c' a arr n m xs by (simp add: defs)
    next
      case 3
      obtain m where m: "h_nodes h l = Some m" "l \<noteq> 0" "l \<noteq> arr" "l \<noteq> x" "cj_prev n = l" "cj_prev m = x"
        using c' 3 n(1) by (auto simp: children_def split: option.splits)
      show ?thesis using 3 c' a arr n m xs by (simp add: defs)
    next
      case 4
      obtain m k where m: "h_nodes h l = Some m" "l \<noteq> 0" "l \<noteq> arr" "l \<noteq> x" "cj_prev n = l"
        "h_nodes h f = Some k" "f \<noteq> 0" "f \<noteq> arr" "f \<noteq> x" "f \<noteq> l" "cj_prev k = x"
        using c' 4 n(1) by (auto simp: children_def split: option.splits)
      show ?thesis using 4 c' a arr n m xs by (simp add: defs)
    next
      case 5
      obtain m k where m: "h_nodes h l = Some m" "l \<noteq> 0" "l \<noteq> arr" "l \<noteq> x" "cj_prev n = l"
        "h_nodes h r = Some k" "r \<noteq> 0" "r \<noteq> arr" "r \<noteq> x" "r \<noteq> l"
        using c' 5 n(1) by (auto simp: children_def split: option.splits)
      show ?thesis using 5 c' a arr n m xs by (simp add: defs)
    next
      case 6
      obtain m k where m: "h_nodes h l = Some m" "l \<noteq> 0" "l \<noteq> arr" "l \<noteq> x" "cj_prev n = l"
        "h_nodes h r = Some k" "r \<noteq> 0" "r \<noteq> arr" "r \<noteq> x" "r \<noteq> l" "f \<noteq> x"
        using c' 6 n(1) by (auto simp: children_def split: option.splits)
      show ?thesis using 6 c' a arr n m xs by (simp add: defs) (auto split: option.splits)
    qed
  qed
  then show ?thesis unfolding s .
qed


section \<open>Inserting and replacing\<close>

lemma insert_children:
  assumes c: "children h arr xs" and i: "i < length xs"
    and it: "h_nodes h item = Some n" "item \<noteq> 0" "item \<noteq> arr" "item \<notin> set xs"
  shows "\<exists>h'. cJSON_InsertItemInArray arr (int i) item h = Some (True, h') \<and>
    children h' arr (take i xs @ item # drop i xs) \<and> links_only (insert arr (insert item (set xs))) h h'"
proof -
  obtain a where a: "h_nodes h arr = Some a" "cj_child a = hd_or 0 xs" using children_node [OF c] by blast
  have arr: "arr \<noteq> 0" by (rule children_arr [OF c])
  define as x bs where s: "as = take i xs" "x = xs ! i" "bs = drop (Suc i) xs"
  have xs: "xs = as @ x # bs" unfolding s by (rule id_take_nth_drop [OF i])
  have dr: "drop i xs = x # bs" unfolding s by (rule Cons_nth_drop_Suc [OF i, symmetric])
  note c' = c [unfolded xs]
  have g: "get_array_item arr i h = Some x" using get_array_item_children [OF c, of i] i s by simp
  obtain m where m: "h_nodes h x = Some m" "x \<noteq> 0" "x \<noteq> arr" "x \<noteq> item" "cj_prev m = end_or (end_or 0 (x # bs)) as"
    using c' it(4) xs by (auto simp: children_def split: option.splits)
  note defs = cJSON_InsertItemInArray_def load_def store_def children_def links_only_def g
  have "\<exists>h'. cJSON_InsertItemInArray arr (int i) item h = Some (True, h') \<and>
      children h' arr (as @ item # x # bs) \<and> links_only (insert arr (insert item (set xs))) h h'"
  proof (cases as rule: rev_cases)
    case Nil
    then show ?thesis
    proof (cases bs rule: rev_cases)
      case Nil
      show ?thesis using Nil \<open>as = []\<close> c' a arr it m xs by (simp add: defs)
    next
      case (snoc cs l)
      show ?thesis using snoc Nil c' a arr it m xs by (simp add: defs)
    qed
  next
    case (snoc ys l)
    obtain k where k: "h_nodes h l = Some k" "l \<noteq> 0" "l \<noteq> arr" "l \<noteq> item" "l \<noteq> x" "hd_or 0 xs \<noteq> x" "cj_prev m = l"
      using c' snoc it(4) xs m by (cases ys) (auto simp: children_def split: option.splits)
    show ?thesis
    proof (cases ys)
      case Nil
      show ?thesis using snoc Nil c' a arr it m k xs by (simp add: defs)
    next
      case (Cons f zs)
      show ?thesis using snoc Cons c' a arr it m k xs by (simp add: defs) (auto split: option.splits)
    qed
  qed
  then show ?thesis unfolding dr by (simp only: s(1))
qed

end
