(* ===== verification/CJson_List_Claims.thy ===== *)
theory CJson_List_Claims
  imports CJson_Lists
begin

text \<open>
  The array functions of \<open>cJSON.c\<close> as an interface: what a client of the lists relies on, the
  client's lemmas proved from it, the interpretation on the model, and the properties.
\<close>

section \<open>The interface of a list of items\<close>

locale item_sequence =
  fixes holds :: "'s \<Rightarrow> 'a \<Rightarrow> 'i list \<Rightarrow> bool"
    and loose :: "'s \<Rightarrow> 'a \<Rightarrow> 'i list \<Rightarrow> 'i \<Rightarrow> bool"
    and append_item :: "'a \<Rightarrow> 'i \<Rightarrow> 's \<Rightarrow> (bool \<times> 's) option"
    and detach_at :: "'a \<Rightarrow> nat \<Rightarrow> 's \<Rightarrow> ('i \<times> 's) option"
  assumes append_law: "holds s a xs \<Longrightarrow> loose s a xs i \<Longrightarrow>
      \<exists>s'. append_item a i s = Some (True, s') \<and> holds s' a (xs @ [i]) \<and>
        (\<forall>j. loose s a xs j \<longrightarrow> j \<noteq> i \<longrightarrow> loose s' a (xs @ [i]) j)"
    and detach_law: "holds s a xs \<Longrightarrow> k < length xs \<Longrightarrow>
      \<exists>s'. detach_at a k s = Some (xs ! k, s') \<and> holds s' a (take k xs @ drop (Suc k) xs) \<and>
        loose s' a (take k xs @ drop (Suc k) xs) (xs ! k)"
begin

text \<open>Appending several items one after the other.\<close>

primrec append_all :: "'a \<Rightarrow> 'i list \<Rightarrow> 's \<Rightarrow> 's option" where
  "append_all a [] s = Some s"
| "append_all a (i # is) s =
     (case append_item a i s of None \<Rightarrow> None | Some (ok, s') \<Rightarrow> if ok then append_all a is s' else None)"

lemma append_all_holds:
  "holds s a xs \<Longrightarrow> distinct is \<Longrightarrow> \<forall>i \<in> set is. loose s a xs i \<Longrightarrow>
    \<exists>s'. append_all a is s = Some s' \<and> holds s' a (xs @ is)"
proof (induction "is" arbitrary: s xs)
  case (Cons i "is")
  then obtain s1 where s1: "append_item a i s = Some (True, s1)" "holds s1 a (xs @ [i])"
    "\<forall>j. loose s a xs j \<longrightarrow> j \<noteq> i \<longrightarrow> loose s1 a (xs @ [i]) j" using append_law by (metis list.set_intros(1))
  have "\<forall>j \<in> set is. loose s1 a (xs @ [i]) j" using s1(3) Cons.prems(2,3) by auto
  from Cons.IH [OF s1(2) _ this] Cons.prems(2) s1(1) show ?case by auto
qed simp

text \<open>Taking an item out and appending it again.\<close>

lemma move_to_end:
  assumes "holds s a xs" and "k < length xs"
  shows "\<exists>s1 s2. detach_at a k s = Some (xs ! k, s1) \<and> append_item a (xs ! k) s1 = Some (True, s2) \<and>
    holds s2 a (take k xs @ drop (Suc k) xs @ [xs ! k])"
  using detach_law [OF assms] append_law by (metis append.assoc)

text \<open>An item that was appended last can be taken out again.\<close>

lemma detach_appended:
  assumes "holds s a xs" and "loose s a xs i"
  shows "\<exists>s1 s2. append_item a i s = Some (True, s1) \<and> detach_at a (length xs) s1 = Some (i, s2) \<and> holds s2 a xs"
proof -
  obtain s1 where s1: "append_item a i s = Some (True, s1)" "holds s1 a (xs @ [i])" using append_law [OF assms] by blast
  from detach_law [OF s1(2), of "length xs"] s1(1) show ?thesis by auto
qed

end

section \<open>The arrays of cJSON\<close>

definition loose_item :: "heap \<Rightarrow> ptr \<Rightarrow> ptr list \<Rightarrow> ptr \<Rightarrow> bool" where
  "loose_item h arr xs i \<longleftrightarrow> i \<noteq> 0 \<and> i \<noteq> arr \<and> i \<notin> set xs \<and>
     (case h_nodes h i of None \<Rightarrow> False | Some n \<Rightarrow> cj_next n = 0)"

lemma detach_from_array:
  assumes "children h arr xs" and "k < length xs"
  shows "cJSON_DetachItemFromArray arr (int k) h = cJSON_DetachItemViaPointer arr (xs ! k) h"
  using get_array_item_children [OF assms(1), of k] assms(2) by (simp add: cJSON_DetachItemFromArray_def)

interpretation arrays: item_sequence children loose_item cJSON_AddItemToArray
  "\<lambda>arr k. cJSON_DetachItemFromArray arr (int k)"
proof
  fix s a xs i
  assume c: "children s a xs" and l: "loose_item s a xs i"
  then obtain n where "h_nodes s i = Some n" "cj_next n = 0" "i \<noteq> 0" "i \<noteq> a" "i \<notin> set xs"
    by (auto simp: loose_item_def split: option.splits)
  from append_children [OF c this] obtain s' where
    s': "add_item_to_array a i s = Some (True, s')" "children s' a (xs @ [i])" "links_only (insert a (insert i (set xs))) s s'"
    by blast
  have "\<forall>j. loose_item s a xs j \<longrightarrow> j \<noteq> i \<longrightarrow> loose_item s' a (xs @ [i]) j"
    using s'(3) by (auto simp: loose_item_def links_only_def same_payload_def)
  with s' show "\<exists>s'. cJSON_AddItemToArray a i s = Some (True, s') \<and> children s' a (xs @ [i]) \<and>
      (\<forall>j. loose_item s a xs j \<longrightarrow> j \<noteq> i \<longrightarrow> loose_item s' a (xs @ [i]) j)"
    by (auto simp: cJSON_AddItemToArray_def)
next
  fix s a and xs :: "ptr list" and k
  assume c: "children s a xs" and k: "k < length xs"
  have z: "distinct xs" "0 \<notin> set xs" "a \<notin> set xs" using c by (auto simp: children_def)
  then have d: "distinct xs" "xs ! k \<noteq> 0" "xs ! k \<noteq> a" using nth_mem [OF k] by metis+
  then have "xs ! k \<notin> set (take k xs @ drop (Suc k) xs)"
    using id_take_nth_drop [OF k] by (metis distinct_append distinct.simps(2) not_distinct_conv_prefix Un_iff set_append disjoint_iff list.set_intros(1))
  then show "\<exists>s'. cJSON_DetachItemFromArray a (int k) s = Some (xs ! k, s') \<and> children s' a (take k xs @ drop (Suc k) xs) \<and>
      loose_item s' a (take k xs @ drop (Suc k) xs) (xs ! k)"
    unfolding detach_from_array [OF c k] using detach_children [OF c k] d by (auto simp: loose_item_def)
qed

section \<open>Properties\<close>

text \<open>C26: On a well-linked array \<open>cJSON_AddItemToArray\<close> appends a detached item: the array then
  holds the old items and the new one, still well linked, and only links of these nodes changed.\<close>

theorem add_item_appends:
  assumes "children h arr xs" and "loose_item h arr xs item"
  shows "\<exists>h'. cJSON_AddItemToArray arr item h = Some (True, h') \<and> children h' arr (xs @ [item]) \<and>
    links_only (insert arr (insert item (set xs))) h h'"
  using assms append_children [OF assms(1)]
  by (auto simp: loose_item_def cJSON_AddItemToArray_def split: option.splits)

text \<open>C27: Detaching the item at an index answers that item with its links cleared, and the array
  holds the others in their order, whether it was the first, a middle, the last or the only one.\<close>

theorem detach_removes_index:
  assumes "children h arr xs" and "k < length xs"
  shows "\<exists>h'. cJSON_DetachItemFromArray arr (int k) h = Some (xs ! k, h') \<and>
    children h' arr (take k xs @ drop (Suc k) xs) \<and> links_only (insert arr (set xs)) h h' \<and>
    (\<exists>n. h_nodes h' (xs ! k) = Some n \<and> cj_next n = 0 \<and> cj_prev n = 0)"
  unfolding detach_from_array [OF assms] by (rule detach_children [OF assms])

text \<open>C28: Inserting at an index puts the new item before the one that was there.\<close>

theorem insert_before_index:
  assumes "children h arr xs" and "k < length xs" and "loose_item h arr xs item"
  shows "\<exists>h'. cJSON_InsertItemInArray arr (int k) item h = Some (True, h') \<and>
    children h' arr (take k xs @ item # drop k xs) \<and> links_only (insert arr (insert item (set xs))) h h'"
  using assms insert_children [OF assms(1,2)] by (auto simp: loose_item_def split: option.splits)


text \<open>Adding detached items one after the other to an array builds exactly the list of the items
  in that order.\<close>

theorem adding_builds_list:
  assumes "children h arr xs" and "distinct is" and "\<forall>i \<in> set is. loose_item h arr xs i"
  shows "\<exists>h'. arrays.append_all arr is h = Some h' \<and> children h' arr (xs @ is) \<and>
    cJSON_GetArraySize arr h' = Some (sint (of_nat (length xs + length is) :: u32))"
proof -
  obtain h' where "arrays.append_all arr is h = Some h'" "children h' arr (xs @ is)"
    using arrays.append_all_holds [OF assms] by blast
  then show ?thesis using array_size_children [of h' arr "xs @ is"] by auto
qed

text \<open>Taking an item out of an array and adding it again moves it to the end; taking out what was
  just added restores the list.\<close>

theorem detach_then_add_moves_to_end:
  assumes "children h arr xs" and "k < length xs"
  shows "\<exists>h1 h2. cJSON_DetachItemFromArray arr (int k) h = Some (xs ! k, h1) \<and>
    cJSON_AddItemToArray arr (xs ! k) h1 = Some (True, h2) \<and> children h2 arr (take k xs @ drop (Suc k) xs @ [xs ! k])"
  using assms by (rule arrays.move_to_end)

text \<open>\<open>cJSON_GetArrayItem\<close> answers the item at the index, and the null item for a negative index or
  one past the end.\<close>

theorem get_array_item_total:
  assumes "children h arr xs"
  shows "cJSON_GetArrayItem arr i h = Some (if 0 \<le> i \<and> nat i < length xs then xs ! nat i else 0)"
  using get_array_item_children [OF assms] by (auto simp: cJSON_GetArrayItem_def)

section \<open>Witnesses\<close>

definition array_heap :: heap where
  "array_heap = (heap_start (\<lambda>k. True) (\<lambda>p i. 0))\<lparr>h_fresh := 6, h_nodes :=
     [1 \<mapsto> zero_node\<lparr>cj_type := cJSON_Array, cj_child := 2\<rparr>, 2 \<mapsto> zero_node\<lparr>cj_next := 3, cj_prev := 3\<rparr>,
      3 \<mapsto> zero_node\<lparr>cj_prev := 2\<rparr>, 4 \<mapsto> zero_node, 5 \<mapsto> zero_node]\<rparr>"

lemma array_heap_children: "children array_heap 1 [2, 3]"
  by (simp add: children_def array_heap_def zero_node_def)

lemma array_heap_loose: "loose_item array_heap 1 [2, 3] 4" "loose_item array_heap 1 [2, 3] 5"
  by (simp_all add: loose_item_def array_heap_def zero_node_def)

theorem add_item_appends_witness:
  "\<exists>h'. cJSON_AddItemToArray 1 4 array_heap = Some (True, h') \<and> children h' 1 [2, 3, 4]"
  using add_item_appends [OF array_heap_children array_heap_loose(1)] by auto

theorem detach_removes_index_witness:
  "\<exists>h'. cJSON_DetachItemFromArray 1 1 array_heap = Some (3, h') \<and> children h' 1 [2]"
  using detach_removes_index [OF array_heap_children, of 1] by auto

theorem insert_before_index_witness:
  "\<exists>h'. cJSON_InsertItemInArray 1 0 4 array_heap = Some (True, h') \<and> children h' 1 [4, 2, 3]"
  using insert_before_index [OF array_heap_children _ array_heap_loose(1), of 0] by auto

theorem adding_builds_list_witness:
  "\<exists>h'. arrays.append_all 1 [5, 4] array_heap = Some h' \<and> children h' 1 [2, 3, 5, 4] \<and> cJSON_GetArraySize 1 h' = Some 4"
  using adding_builds_list [OF array_heap_children, of "[5, 4]"] array_heap_loose by auto

theorem detach_then_add_moves_to_end_witness:
  "\<exists>h1 h2. cJSON_DetachItemFromArray 1 0 array_heap = Some (2, h1) \<and> cJSON_AddItemToArray 1 2 h1 = Some (True, h2) \<and>
     children h2 1 [3, 2]"
  using detach_then_add_moves_to_end [OF array_heap_children, of 0] by auto

theorem get_array_item_total_witness:
  "cJSON_GetArrayItem 1 1 array_heap = Some 3 \<and> cJSON_GetArrayItem 1 2 array_heap = Some 0 \<and>
   cJSON_GetArrayItem 1 (- 1) array_heap = Some 0"
  using get_array_item_total [OF array_heap_children, of 1] get_array_item_total [OF array_heap_children, of 2]
    get_array_item_total [OF array_heap_children, of "- 1"] by simp

end
