(* ===== verification/CJson_Compose.thy ===== *)
theory CJson_Compose
  imports CJson_Claims CJson_List_Claims
begin

text \<open>
  Parser and array functions together: what \<open>cJSON_Parse\<close> builds satisfies, at every level, what
  the functions that read and change arrays rely on.
\<close>

section \<open>Parsed containers\<close>

lemma chain_seg: "seg h r is \<Longrightarrow> prev_chain q is \<Longrightarrow> chain (h_nodes h) q (map it_ptr is) r"
proof (induction h r "is" arbitrary: q rule: seg.induct)
  case (2 h r p n cs "is")
  then show ?case by (cases "is") (auto simp: first_or_def)
qed simp

lemma hd_or_map: "hd_or q (map it_ptr is) = first_or q is"
  by (cases "is") simp_all

lemma end_or_map: "end_or q (map it_ptr is) = last_or q is"
  by (simp add: end_or_def last_or_def last_map)

lemma it_ptr_nodes: "set (map it_ptr is) \<subseteq> set (nodes_of is)"
  by (induction "is" rule: nodes_of.induct) auto

lemma distinct_ptrs: "distinct (nodes_of is) \<Longrightarrow> distinct (map it_ptr is)"
proof (induction "is" rule: nodes_of.induct)
  case (2 p n cs "is")
  then show ?case using it_ptr_nodes [of "is"] by auto
qed simp

text \<open>The items below an item, itself included.\<close>

fun items_in :: "item list \<Rightarrow> item list" where
  "items_in [] = []"
| "items_in (Item p n cs # is) = Item p n cs # items_in cs @ items_in is"

lemma container_children:
  assumes "seg h q is" and "apart is" and "tidy is" and "Item p n cs \<in> set (items_in is)"
  shows "children h p (map it_ptr cs)"
  using assms
proof (induction h q "is" rule: seg.induct)
  case (2 h q p' n' cs' "is")
  have split: "apart cs'" "apart is" "tidy cs'" "tidy is" using "2.prems"(2,3) by (auto simp: apart_def)
  consider "Item p n cs = Item p' n' cs'" | "Item p n cs \<in> set (items_in cs')" | "Item p n cs \<in> set (items_in is)"
    using "2.prems"(4) by auto
  then show ?case
  proof cases
    case 1
    have s: "h_nodes h p = Some n" "p \<noteq> 0" "cj_child n = first_or 0 cs" "seg h 0 cs" using 1 "2.prems"(1) by simp_all
    have d: "distinct (nodes_of cs)" "p \<notin> set (nodes_of cs)" using 1 "2.prems"(2) by (auto simp: apart_def)
    have pc: "prev_chain (last_or 0 cs) cs" using 1 "2.prems"(3) by simp
    have "0 \<notin> set (nodes_of cs)" using seg_nodes [OF s(4)] by blast
    then have "distinct (0 # p # map it_ptr cs)"
      using s(2) d distinct_ptrs [OF d(1)] it_ptr_nodes [of cs] by (auto simp del: set_map)
    then show ?thesis
      using s chain_seg [OF s(4) pc] by (simp add: children_def hd_or_map end_or_map)
  next
    case 2
    then show ?thesis using "2.IH"(1) "2.prems"(1) split by simp
  next
    case 3
    then show ?thesis using "2.IH"(2) "2.prems"(1) split by simp
  qed
qed simp

section \<open>Properties\<close>

text \<open>C21: Every container of a parsed text, at every depth, is a well-linked list: the size, access,
  add, detach and insert functions work on it as on the list of its items.\<close>

theorem parsed_containers_linked:
  assumes "fresh_ok h" and "block v h = Some m" and "0 \<in> set m" and "cJSON_Parse v h = Some (item, h')" and "item \<noteq> 0"
  shows "\<exists>n cs. levels cs \<le> CJSON_NESTING_LIMIT \<and> seg h' 0 [Item item n cs] \<and>
    (\<forall>p k ks. Item p k ks \<in> set (items_in [Item item n cs]) \<longrightarrow> children h' p (map it_ptr ks))"
proof -
  from parse_parsed [OF assms(1-3)] assms(4) have "parsed h item h'" by auto
  with assms(5) obtain n cs where
    s: "seg h' 0 [Item item n cs]" "apart [Item item n cs]" "tidy [Item item n cs]" "levels cs \<le> CJSON_NESTING_LIMIT"
    unfolding parsed_def by blast
  show ?thesis
    by (intro exI [of _ n] exI [of _ cs] conjI allI impI s container_children [OF s(1-3)])
qed

theorem parsed_containers_linked_witness:
  "\<exists>h' n cs. cJSON_Parse 1 (text_heap (\<lambda>k. True) (str ''[[],{}]'' @ [0])) = Some (2, h') \<and>
     seg h' 0 [Item 2 n cs] \<and> children h' 2 (map it_ptr cs)"
proof -
  let ?h = "text_heap (\<lambda>k. True) (str ''[[],{}]'' @ [0])"
  have "map_option fst (cJSON_Parse 1 ?h) = Some 2" by code_simp
  then obtain h' where p: "cJSON_Parse 1 ?h = Some (2, h')" by auto
  have z: "0 \<in> set (str ''[[],{}]'' @ [0])" by simp
  obtain n cs where "seg h' 0 [Item 2 n cs]"
    "\<forall>p k ks. Item p k ks \<in> set (items_in [Item 2 n cs]) \<longrightarrow> children h' p (map it_ptr ks)"
    using parsed_containers_linked [OF text_heap_ok z p] by auto
  then show ?thesis using p by (intro exI [of _ h'] exI [of _ n] exI [of _ cs]) simp
qed

end
