(* ===== verification/CJson_Print_Text.thy ===== *)
theory CJson_Print_Text
  imports CJson_Print CJson_Safety
begin

text \<open>
  The printer against a reference: the text of a tree as a pure function, and the proof that
  the printer writes exactly this text, growing its buffer as it goes, or fails.
\<close>

section \<open>The reference text\<close>

text \<open>\<open>S\<close> gives the C string at a string pointer.\<close>

definition quoted :: "(ptr \<Rightarrow> bytes) \<Rightarrow> ptr \<Rightarrow> bytes" where
  "quoted S p = ch_quote # (if p = 0 then [] else concat (map escaped_char (S p))) @ [ch_quote]"

fun value_text :: "(ptr \<Rightarrow> bytes) \<Rightarrow> bool \<Rightarrow> nat \<Rightarrow> item \<Rightarrow> bytes option"
  and elements_text :: "(ptr \<Rightarrow> bytes) \<Rightarrow> bool \<Rightarrow> nat \<Rightarrow> item list \<Rightarrow> bytes option"
  and members_text :: "(ptr \<Rightarrow> bytes) \<Rightarrow> bool \<Rightarrow> nat \<Rightarrow> item list \<Rightarrow> bytes option"
where
  "value_text S f d (Item p n cs) =
     (let t = type_low n
      in if t = cJSON_NULL then Some (str ''null'')
         else if t = cJSON_False then Some (str ''false'')
         else if t = cJSON_True then Some (str ''true'')
         else if t = cJSON_Number then
           (let u = number_text (cj_valuedouble n) (cj_valueint n) in if length u > 25 then None else Some u)
         else if t = cJSON_Raw then (if cj_valuestring n = 0 then None else Some (S (cj_valuestring n)))
         else if t = cJSON_String then Some (quoted S (cj_valuestring n))
         else if t = cJSON_Array then
           map_option (\<lambda>e. ch_lbrack # e @ [ch_rbrack]) (elements_text S f (Suc d) cs)
         else if t = cJSON_Object then
           map_option (\<lambda>e. ch_lbrace # (if f then [ch_nl] else []) @ e @
             (if f then replicate d ch_tab else []) @ [ch_rbrace]) (members_text S f (Suc d) cs)
         else None)"
| "elements_text S f d [] = Some []"
| "elements_text S f d (i # is) =
     do { t \<leftarrow> value_text S f d i;
          u \<leftarrow> elements_text S f d is;
          Some (t @ (if is = [] then [] else if f then [ch_comma, ch_space] else [ch_comma]) @ u) }"
| "members_text S f d [] = Some []"
| "members_text S f d (i # is) =
     do { t \<leftarrow> value_text S f d i;
          u \<leftarrow> members_text S f d is;
          Some ((if f then replicate d ch_tab else []) @ quoted S (cj_string (it_node i)) @
            (if f then [ch_colon, ch_tab] else [ch_colon]) @ t @
            (if is = [] then [] else [ch_comma]) @ (if f then [ch_nl] else []) @ u) }"

section \<open>The buffer\<close>

text \<open>How a step of the printer may change memory: its buffer, and nothing else.\<close>

definition own_buffer :: "printbuffer \<Rightarrow> heap \<Rightarrow> bool" where
  "own_buffer p h \<longleftrightarrow> fresh_ok h \<and> pr_buffer p < h_fresh h \<and>
     (pr_buffer p \<noteq> 0 \<longrightarrow> (\<exists>b. h_strs h (pr_buffer p) = Some b \<and> 0 < pr_length p \<and> pr_length p \<le> length b))"

text \<open>A buffer the caller provided stays where it is, and what is behind its length stays as it is.\<close>

definition fixed :: "printbuffer \<Rightarrow> heap \<Rightarrow> printbuffer \<Rightarrow> heap \<Rightarrow> bool" where
  "fixed p h p' h' \<longleftrightarrow> (pr_noalloc p \<longrightarrow> pr_buffer p' = pr_buffer p \<and> pr_length p' = pr_length p \<and> h_count h' = h_count h \<and>
     (\<forall>b. h_strs h (pr_buffer p) = Some b \<longrightarrow> (\<exists>c. h_strs h' (pr_buffer p) = Some c \<and> length c = length b \<and>
        drop (pr_length p) c = drop (pr_length p) b)))"

definition only_buffer :: "printbuffer \<Rightarrow> heap \<Rightarrow> printbuffer \<Rightarrow> heap \<Rightarrow> bool" where
  "only_buffer p h p' h' \<longleftrightarrow>
     h_nodes h' = h_nodes h \<and> h_fresh h \<le> h_fresh h' \<and> own_buffer p' h' \<and>
     (\<forall>s. s \<noteq> pr_buffer p \<and> s \<noteq> pr_buffer p' \<longrightarrow> h_strs h' s = h_strs h s) \<and>
     (pr_buffer p' \<noteq> pr_buffer p \<longrightarrow> h_strs h' (pr_buffer p) = None \<and> (pr_buffer p' = 0 \<or> h_fresh h \<le> pr_buffer p')) \<and>
     (pr_buffer p = 0 \<longrightarrow> pr_buffer p' = 0) \<and> fixed p h p' h' \<and> pr_noalloc p' = pr_noalloc p \<and> pr_format p' = pr_format p \<and> pr_hooks p' = pr_hooks p \<and>
     h_grants h' = h_grants h \<and> h_count h \<le> h_count h'"

lemma fixed_refl: "fixed p h p h"
  by (simp add: fixed_def)

lemma fixed_trans: "fixed p h p1 h1 \<Longrightarrow> fixed p1 h1 p2 h2 \<Longrightarrow> pr_noalloc p1 = pr_noalloc p \<Longrightarrow> fixed p h p2 h2"
  unfolding fixed_def by fastforce

lemma only_buffer_refl: "own_buffer p h \<Longrightarrow> only_buffer p h p h"
  by (simp add: only_buffer_def fixed_refl)

lemma only_buffer_trans:
  assumes "own_buffer p h" and a: "only_buffer p h p1 h1" and b: "only_buffer p1 h1 p2 h2"
  shows "only_buffer p h p2 h2"
proof -
  have f: "fresh_ok h" using assms(1) by (simp add: own_buffer_def)
  have s: "h_strs h2 s = h_strs h s" if "s \<noteq> pr_buffer p" "s \<noteq> pr_buffer p2" for s
  proof (cases "s = pr_buffer p1")
    case False
    then show ?thesis using that a b by (simp add: only_buffer_def)
  next
    case True
    then have ne: "pr_buffer p1 \<noteq> pr_buffer p" "pr_buffer p2 \<noteq> pr_buffer p1" using that by auto
    then have "h_strs h2 s = None" "s \<noteq> 0" using b True by (auto simp: only_buffer_def)
    moreover have "h_fresh h \<le> s" using a ne(1) True \<open>s \<noteq> 0\<close> by (auto simp: only_buffer_def)
    ultimately show ?thesis using f by (simp add: fresh_ok_def)
  qed
  have t: "h_strs h2 (pr_buffer p) = None \<and> (pr_buffer p2 = 0 \<or> h_fresh h \<le> pr_buffer p2)" if "pr_buffer p2 \<noteq> pr_buffer p"
  proof (cases "pr_buffer p1 = pr_buffer p")
    case True
    have "h_fresh h \<le> h_fresh h1" using a by (simp add: only_buffer_def)
    then show ?thesis using a b that True by (auto simp: only_buffer_def)
  next
    case False
    then have p1: "h_strs h1 (pr_buffer p) = None" "pr_buffer p1 = 0 \<or> h_fresh h \<le> pr_buffer p1" "h_fresh h \<le> h_fresh h1"
      using a by (auto simp: only_buffer_def)
    have "h_strs h2 (pr_buffer p) = h_strs h1 (pr_buffer p)" using b that False by (simp add: only_buffer_def)
    moreover have "pr_buffer p2 = 0 \<or> h_fresh h \<le> pr_buffer p2" using b p1(2,3) by (auto simp: only_buffer_def)
    ultimately show ?thesis using p1(1) by simp
  qed
  have "fixed p h p2 h2" using a b fixed_trans unfolding only_buffer_def by blast
  then show ?thesis using a b s t by (auto simp: only_buffer_def)
qed

text \<open>A pointer of a tree is not the buffer, and its string is what \<open>S\<close> says.\<close>

definition reads :: "heap \<Rightarrow> printbuffer \<Rightarrow> ptr set \<Rightarrow> (ptr \<Rightarrow> bytes) \<Rightarrow> bool" where
  "reads h p T S \<longleftrightarrow> (\<forall>s \<in> T. s \<noteq> 0 \<and> s \<noteq> pr_buffer p \<and> s < h_fresh h \<and> string_at s h = Some (S s))"

lemma reads_only_buffer: "reads h p T S \<Longrightarrow> only_buffer p h p' h' \<Longrightarrow> reads h' p' T S"
  unfolding reads_def only_buffer_def string_at_def block_def by fastforce

lemma reads_subset: "reads h p T S \<Longrightarrow> U \<subseteq> T \<Longrightarrow> reads h p U S"
  by (auto simp: reads_def)

text \<open>The buffer holds a text up to its offset.\<close>

definition has_text :: "printbuffer \<Rightarrow> heap \<Rightarrow> bytes \<Rightarrow> bool" where
  "has_text p h t \<longleftrightarrow> pr_buffer p \<noteq> 0 \<and> pr_offset p = length t \<and> length t < pr_length p \<and>
     (\<exists>b. h_strs h (pr_buffer p) = Some b \<and> length t \<le> length b \<and> take (length t) b = t)"


text \<open>Why a request for room may fail: memory was refused, or the text and what is asked for on
  top of it exceeds the room there can be.\<close>

definition refused :: "heap \<Rightarrow> heap \<Rightarrow> bool" where
  "refused h h' \<longleftrightarrow> (\<exists>k. h_count h \<le> k \<and> k < h_count h' \<and> \<not> h_grants h k)"

definition capacity :: "printbuffer \<Rightarrow> int" where
  "capacity p = (if pr_noalloc p then min (int (pr_length p)) INT_MAX else INT_MAX)"

definition excuse :: "printbuffer \<Rightarrow> heap \<Rightarrow> heap \<Rightarrow> nat \<Rightarrow> bool" where
  "excuse p h h' n \<longleftrightarrow> refused h h' \<or> capacity p < int n"

lemma refused_trans: "only_buffer p h p1 h1 \<Longrightarrow> refused h1 h2 \<Longrightarrow> refused h h2"
  by (auto simp: refused_def only_buffer_def intro: order_trans)

lemma excuse_mono: "excuse p h h' n \<Longrightarrow> n \<le> m \<Longrightarrow> excuse p h h' m"
  by (auto simp: excuse_def)

lemma excuse_trans:
  assumes "excuse p1 h1 h2 n" and "only_buffer p h p1 h1" and "pr_buffer p \<noteq> 0"
  shows "excuse p h h2 n"
proof -
  have "capacity p1 = capacity p" using assms(2) by (auto simp: capacity_def only_buffer_def fixed_def)
  then show ?thesis using assms(1) refused_trans [OF assms(2)] by (auto simp: excuse_def)
qed

lemma allocate_cases:
  assumes "fresh_ok h"
  obtains (none) h1 where "allocate n h = (0, h1)" "h_nodes h1 = h_nodes h" "h_strs h1 = h_strs h" "h_fresh h1 = h_fresh h"
     "h_grants h1 = h_grants h" "h_count h1 = Suc (h_count h)" "\<not> h_grants h (h_count h)"
  | (some) h1 c where "allocate n h = (h_fresh h, h1)" "h_nodes h1 = h_nodes h" "h_strs h1 = (h_strs h)(h_fresh h \<mapsto> c)"
     "h_fresh h1 = Suc (h_fresh h)" "length c = n" "h_fresh h \<noteq> 0" "h_grants h1 = h_grants h" "h_count h1 = Suc (h_count h)"
proof (cases "h_grants h (h_count h)")
  case True
  have "h_fresh h \<noteq> 0" using assms by (simp add: fresh_ok_def)
  with True show thesis
    by (intro some [of "snd (allocate n h)" "map (h_junk h (h_fresh h)) [0..<n]"]) (simp_all add: allocate_def Let_def)
next
  case False
  then show thesis by (intro none [of "snd (allocate n h)"]) (simp_all add: allocate_def Let_def)
qed

text \<open>Giving the buffer back after a failed request, and moving to a new block.\<close>

lemma only_buffer_lost:
  assumes "own_buffer p h" and "h_nodes h1 = h_nodes h" and "h_strs h1 = h_strs h" and "h_fresh h1 = h_fresh h"
    and "pr_buffer p \<noteq> 0" and "\<not> pr_noalloc p" and "h_grants h1 = h_grants h" and "h_count h1 = Suc (h_count h)" and "\<not> h_grants h (h_count h)"
  shows "\<exists>h2. deallocate (pr_buffer p) h1 = Some h2 \<and> only_buffer p h (forget_buffer p) h2 \<and> refused h h2"
  using assms
  by (auto simp: own_buffer_def deallocate_def only_buffer_def forget_buffer_def fresh_ok_def fixed_def refused_def)

lemma only_buffer_moved:
  assumes o: "own_buffer p h" and "\<not> pr_noalloc p" and "pr_buffer p \<noteq> 0" and "h_nodes h2 = h_nodes h"
    and "h_strs h2 = (h_strs h)(h_fresh h \<mapsto> c, pr_buffer p := None)"
    and "h_fresh h2 = Suc (h_fresh h)" and "0 < n" and "n \<le> length c" and "h_grants h2 = h_grants h" and "h_count h2 = Suc (h_count h)"
  shows "only_buffer p h (p\<lparr>pr_length := n, pr_buffer := h_fresh h\<rparr>) h2"
  using assms by (auto simp: only_buffer_def own_buffer_def fresh_ok_def fixed_def)

lemma ensure_spec:
  assumes o: "own_buffer p h" and t: "has_text p h t"
  obtains (fail) p' h' where "ensure p n h = Some (None, p', h')" "only_buffer p h p' h'" "excuse p h h' (length t + n + 1)"
  | (room) p' h' where "ensure p n h = Some (Some (length t), p', h')" "only_buffer p h p' h'" "pr_depth p' = pr_depth p"
     "has_text p' h' t" "length t + n + 1 \<le> pr_length p'"
proof -
  have p0: "pr_buffer p \<noteq> 0" and off: "pr_offset p = length t" and tl: "length t < pr_length p" using t by (simp_all add: has_text_def)
  obtain b where b: "h_strs h (pr_buffer p) = Some b" "0 < pr_length p" "pr_length p \<le> length b" "length t \<le> length b" "take (length t) b = t"
    using o t p0 by (auto simp: own_buffer_def has_text_def)
  have f: "fresh_ok h" using o by (simp add: own_buffer_def)
  have lt: "pr_buffer p < h_fresh h" using o by (simp add: own_buffer_def)
  let ?need = "n + length t + 1"
  let ?new = "if int ?need > INT_MAX div 2 then nat INT_MAX else ?need * 2"
  show thesis
  proof (cases "pr_length p \<le> length t \<or> int n > INT_MAX \<or>
      \<not> ?need \<le> pr_length p \<and> (pr_noalloc p \<or> int ?need > INT_MAX div 2 \<and> int ?need > INT_MAX)")
    case True
    have "ensure p n h = Some (None, p, h)" using True p0 b(2) off by (auto simp: ensure_def Let_def)
    moreover have "excuse p h h (length t + n + 1)" using True tl by (auto simp: excuse_def capacity_def)
    ultimately show thesis using only_buffer_refl [OF o] by (intro fail)
  next
    case no: False
    show thesis
    proof (cases "?need \<le> pr_length p")
      case True
      then have "ensure p n h = Some (Some (length t), p, h)" using no p0 off by (auto simp: ensure_def Let_def)
      then show thesis by (rule room) (use only_buffer_refl [OF o] t True in simp_all)
    next
      case grow: False
      define N where "N = ?new"
      have nw: "?need \<le> N" "0 < N" using no grow by (auto simp: INT_MAX_def N_def)
      have na: "\<not> pr_noalloc p" using no grow by blast
      have unf: "ensure p n h =
        (if hk_reallocate (pr_hooks p) \<noteq> 0 then do {
              (newbuffer, h1) \<leftarrow> reallocate (pr_buffer p) N h;
              if newbuffer = 0 then do { h2 \<leftarrow> deallocate (pr_buffer p) h1; Some (None, forget_buffer p, h2) }
              else Some (Some (length t), p\<lparr>pr_length := N, pr_buffer := newbuffer\<rparr>, h1) }
         else (case allocate N h of (newbuffer, h1) \<Rightarrow>
              if newbuffer = 0 then do { h2 \<leftarrow> deallocate (pr_buffer p) h1; Some (None, forget_buffer p, h2) }
              else do {
                b \<leftarrow> block (pr_buffer p) h1;
                if length b < length t + 1 then None
                else do {
                  h2 \<leftarrow> write_at newbuffer 0 (take (length t + 1) b) h1;
                  h3 \<leftarrow> deallocate (pr_buffer p) h2;
                  Some (Some (length t), p\<lparr>pr_length := N, pr_buffer := newbuffer\<rparr>, h3) } }))"
        unfolding ensure_def Let_def off N_def using no grow p0 by (simp only: if_False simp_thms) auto
      from f show thesis
      proof (cases rule: allocate_cases [of h N])
        case (none h1)
        obtain h2 where h2: "deallocate (pr_buffer p) h1 = Some h2" "only_buffer p h (forget_buffer p) h2" "refused h h2"
          using only_buffer_lost [OF o none(2-4) p0 na none(5-7)] by blast
        have "ensure p n h = Some (None, forget_buffer p, h2)"
          unfolding unf reallocate_def using none(1) h2(1) b(1) p0 by (simp add: block_def)
        then show thesis using h2(2,3) by (intro fail) (auto simp: excuse_def)
      next
        case (some h1 c)
        let ?p = "p\<lparr>pr_length := N, pr_buffer := h_fresh h\<rparr>"
        have ne: "pr_buffer p \<noteq> h_fresh h" using lt by simp
        have moved: thesis if e: "ensure p n h = Some (Some (length t), ?p, h2)" and s: "h_strs h2 = (h_strs h)(h_fresh h \<mapsto> d, pr_buffer p := None)"
          "h_nodes h2 = h_nodes h" "h_fresh h2 = Suc (h_fresh h)" "h_grants h2 = h_grants h" "h_count h2 = Suc (h_count h)" and d: "length d = N" "take (length t) d = t" for h2 d
        proof (rule room [OF e])
          show "only_buffer p h ?p h2" by (rule only_buffer_moved [OF o na p0 s(2,1,3) nw(2)]) (simp_all add: d(1) s)
          show "has_text ?p h2 t" using s(1) d some(6) ne nw(1) off by (simp add: has_text_def)
          show "length t + n + 1 \<le> pr_length ?p" using nw(1) by simp
        qed simp
        show thesis
        proof (cases "hk_reallocate (pr_hooks p) \<noteq> 0")
          case True
          let ?d = "take N b @ drop (length b) c"
          let ?h2 = "h1\<lparr>h_strs := (h_strs h1)(h_fresh h \<mapsto> ?d, pr_buffer p := None)\<rparr>"
          have "reallocate (pr_buffer p) N h = Some (h_fresh h, ?h2)"
            unfolding reallocate_def using some b(1) p0 ne by (simp add: block_def deallocate_def)
          then have "ensure p n h = Some (Some (length t), ?p, ?h2)" unfolding unf using True some(6) by simp
          then show thesis
            by (rule moved [of _ ?d]) (use some b nw(1) in \<open>auto simp: fun_upd_twist [OF ne]\<close>)
        next
          case False
          let ?d = "take (length t + 1) b @ drop (length t + 1) c"
          let ?h2 = "h1\<lparr>h_strs := (h_strs h1)(h_fresh h \<mapsto> ?d, pr_buffer p := None)\<rparr>"
          have lb: "length t + 1 \<le> length b" using no b by auto
          have "write_at (h_fresh h) 0 (take (length t + 1) b) h1 = Some (h1\<lparr>h_strs := (h_strs h1)(h_fresh h \<mapsto> ?d)\<rparr>)"
            using some lb nw(1) by (simp add: write_at_def block_def min_def)
          then have "ensure p n h = Some (Some (length t), ?p, ?h2)"
            unfolding unf using False some lb b(1) p0 ne by (simp add: block_def deallocate_def)
          then show thesis
            by (rule moved [of _ ?d]) (use some b nw(1) lb in \<open>auto simp: take_Suc_conv_app_nth\<close>)
        qed
      qed
    qed
  qed
qed


text \<open>Writing into the room that \<open>ensure\<close> made.\<close>

lemma only_buffer_write:
  assumes "own_buffer p h" and "h_strs h (pr_buffer p) = Some b" and "length c = length b" and "pr_buffer p \<noteq> 0"
    and "drop (pr_length p) c = drop (pr_length p) b"
  shows "only_buffer p h p (h\<lparr>h_strs := (h_strs h)(pr_buffer p \<mapsto> c)\<rparr>)"
  using assms by (auto simp: only_buffer_def own_buffer_def fresh_ok_def fixed_def)

lemma write_at_spec:
  assumes o: "own_buffer p h" and b: "h_strs h (pr_buffer p) = Some b" and t: "length t \<le> length b" "take (length t) b = t"
    and p0: "pr_buffer p \<noteq> 0" and room: "length t + length cs \<le> pr_length p"
  shows "\<exists>h' c. write_at (pr_buffer p) (length t) cs h = Some h' \<and> only_buffer p h p h' \<and>
    h_strs h' (pr_buffer p) = Some c \<and> take (length t + length cs) c = t @ cs \<and> length c = length b"
proof -
  have l: "pr_length p \<le> length b" using o b p0 by (auto simp: own_buffer_def)
  let ?c = "take (length t) b @ cs @ drop (length t + length cs) b"
  have lc: "length ?c = length b" using l room by simp
  have "write_at (pr_buffer p) (length t) cs h = Some (h\<lparr>h_strs := (h_strs h)(pr_buffer p \<mapsto> ?c)\<rparr>)"
    using b p0 l room by (simp add: write_at_def block_def)
  moreover have "drop (pr_length p) ?c = drop (pr_length p) b" using l room by simp
  ultimately show ?thesis using only_buffer_write [OF o b lc p0] t lc by auto
qed

text \<open>The result of a step: it failed and at most gave up the buffer, or its text is there.\<close>

definition gave_up :: "printbuffer \<Rightarrow> heap \<Rightarrow> nat option \<Rightarrow> (bool \<times> printbuffer \<times> heap) option \<Rightarrow> bool" where
  "gave_up p h l r \<longleftrightarrow> (\<exists>p' h'. r = Some (False, p', h') \<and> only_buffer p h p' h' \<and> (\<forall>n. l = Some n \<longrightarrow> excuse p h h' n))"

definition wrote :: "printbuffer \<Rightarrow> heap \<Rightarrow> bytes \<Rightarrow> nat \<Rightarrow> bytes \<Rightarrow> nat \<Rightarrow> (bool \<times> printbuffer \<times> heap) option \<Rightarrow> bool" where
  "wrote p h t k u m r \<longleftrightarrow>
     (\<exists>p' h' b. r = Some (True, p', h') \<and> only_buffer p h p' h' \<and> pr_depth p' = pr_depth p \<and> pr_buffer p' \<noteq> 0 \<and>
        h_strs h' (pr_buffer p') = Some b \<and> length t + length u \<le> length b \<and> take (length t + length u) b = t @ u \<and>
        pr_offset p' = length t + k \<and> length t + m \<le> pr_length p')"

lemma gave_up_mono: "gave_up p h (Some n) r \<Longrightarrow> (\<And>m. l = Some m \<Longrightarrow> n \<le> m) \<Longrightarrow> gave_up p h l r"
  using excuse_mono by (auto simp: gave_up_def)

lemma wrote_mono: "wrote p h t k u m r \<Longrightarrow> m' \<le> m \<Longrightarrow> wrote p h t k u m' r"
  unfolding wrote_def by fastforce

lemma emit_spec:
  assumes o: "own_buffer p h" and t: "has_text p h t" and l: "length cs \<le> n + 1"
  shows "gave_up p h (Some (length t + n + 1)) (emit p n cs h) \<or> wrote p h t 0 cs (n + 1) (emit p n cs h)"
  using o t
proof (cases rule: ensure_spec [where n = n])
  case (fail p' h')
  then show ?thesis by (auto simp: gave_up_def emit_def)
next
  case (room p' h')
  have o': "own_buffer p' h'" using room(2) by (simp add: only_buffer_def)
  obtain b where b: "h_strs h' (pr_buffer p') = Some b" "length t \<le> length b" "take (length t) b = t"
    and p': "pr_buffer p' \<noteq> 0" "pr_offset p' = length t" using room(4) by (auto simp: has_text_def)
  have r: "length t + length cs \<le> pr_length p'" using room(5) l by simp
  from write_at_spec [OF o' b p'(1) r] obtain h2 c where
    w: "write_at (pr_buffer p') (length t) cs h' = Some h2" "only_buffer p' h' p' h2" "h_strs h2 (pr_buffer p') = Some c"
      "take (length t + length cs) c = t @ cs" "length c = length b" by blast
  have "pr_length p' \<le> length c" using o' b(1) p'(1) w(5) by (auto simp: own_buffer_def)
  then have "wrote p h t 0 cs (n + 1) (emit p n cs h)"
    unfolding wrote_def using room(1,3,5) w p' r only_buffer_trans [OF o room(2) w(2)]
    by (intro exI [of _ p'] exI [of _ h2] exI [of _ c]) (simp add: emit_def)
  then show ?thesis ..
qed

text \<open>Going on after the text: moving the offset over a part, or to the terminator.\<close>

lemma wrote_has_text:
  assumes "wrote p h t k u m r" and "length u' \<le> length u" and "take (length u') u = u'" and "length u' < m"
  obtains p' h' where "r = Some (True, p', h')" "only_buffer p h p' h'" "pr_depth p' = pr_depth p"
    "has_text (p'\<lparr>pr_offset := length (t @ u')\<rparr>) h' (t @ u')" "pr_offset p' = length t + k" "length t + m \<le> pr_length p'"
proof -
  obtain p' h' b where w: "r = Some (True, p', h')" "only_buffer p h p' h'" "pr_depth p' = pr_depth p" "pr_buffer p' \<noteq> 0"
    "h_strs h' (pr_buffer p') = Some b" "length t + length u \<le> length b" "take (length t + length u) b = t @ u"
    "pr_offset p' = length t + k" "length t + m \<le> pr_length p'" using assms(1) by (auto simp: wrote_def)
  have "take (length t + length u') (take (length t + length u) b) = take (length t + length u') (t @ u)" using w(7) by simp
  then have "take (length t + length u') b = t @ u'" using assms(2,3) by (simp add: min_def)
  then show thesis using w assms(2,4) by (intro that [of p' h']) (auto simp: has_text_def)
qed

lemma own_offset [simp]: "own_buffer (p\<lparr>pr_offset := k\<rparr>) h = own_buffer p h" "own_buffer (p\<lparr>pr_depth := d\<rparr>) h = own_buffer p h"
  by (simp_all add: own_buffer_def)

lemma fixed_offset [simp]:
  "fixed p h (p'\<lparr>pr_offset := k\<rparr>) h' = fixed p h p' h'" "fixed (p\<lparr>pr_offset := k\<rparr>) h p' h' = fixed p h p' h'"
  "fixed p h (p'\<lparr>pr_depth := d\<rparr>) h' = fixed p h p' h'" "fixed (p\<lparr>pr_depth := d\<rparr>) h p' h' = fixed p h p' h'"
  by (simp_all add: fixed_def)

lemma only_offset [simp]:
  "only_buffer p h (p'\<lparr>pr_offset := k\<rparr>) h' = only_buffer p h p' h'" "only_buffer (p\<lparr>pr_offset := k\<rparr>) h p' h' = only_buffer p h p' h'"
  "only_buffer p h (p'\<lparr>pr_depth := d\<rparr>) h' = only_buffer p h p' h'" "only_buffer (p\<lparr>pr_depth := d\<rparr>) h p' h' = only_buffer p h p' h'"
  by (simp_all add: only_buffer_def)

lemma reads_offset [simp]: "reads h (p\<lparr>pr_offset := k\<rparr>) T S = reads h p T S" "reads h (p\<lparr>pr_depth := d\<rparr>) T S = reads h p T S"
  by (simp_all add: reads_def)

lemma has_text_depth [simp]: "has_text (p\<lparr>pr_depth := d\<rparr>) h t = has_text p h t"
  by (simp add: has_text_def)

text \<open>The result of printing a value: the text with its terminator, the offset somewhere in it.\<close>

definition printed :: "printbuffer \<Rightarrow> heap \<Rightarrow> bytes \<Rightarrow> bytes \<Rightarrow> (bool \<times> printbuffer \<times> heap) option \<Rightarrow> bool" where
  "printed p h t u r \<longleftrightarrow> (\<exists>k \<le> length u. wrote p h t k (u @ [0]) (length u + 1) r)"

lemma emit_value:
  assumes o: "own_buffer p h" and t: "has_text p h t" and l: "length u \<le> n" and n: "n \<le> length u + 4"
  shows "gave_up p h (Some (length t + length u + 5)) (emit p n (u @ [0]) h) \<or> printed p h t u (emit p n (u @ [0]) h)"
proof -
  have "length (u @ [0]) \<le> n + 1" using l by simp
  from emit_spec [OF o t this] show ?thesis
  proof
    assume "gave_up p h (Some (length t + n + 1)) (emit p n (u @ [0]) h)"
    then have "gave_up p h (Some (length t + length u + 5)) (emit p n (u @ [0]) h)" by (rule gave_up_mono) (use n in simp)
    then show ?thesis ..
  next
    assume "wrote p h t 0 (u @ [0]) (n + 1) (emit p n (u @ [0]) h)"
    then have "wrote p h t 0 (u @ [0]) (length u + 1) (emit p n (u @ [0]) h)" by (rule wrote_mono) (use l in simp)
    then show ?thesis unfolding printed_def by blast
  qed
qed

lemma c_strlen_zero: "0 \<notin> set v \<Longrightarrow> c_strlen (v @ 0 # w) = Some (length v)"
  by (simp add: c_strlen_def)

lemma printed_update:
  assumes "printed p h t u r" and "0 \<notin> set u"
  obtains p' h' where "r = Some (True, p', h')" "only_buffer p h p' h'" "pr_depth p' = pr_depth p"
    "update_offset p' h' = Some (p'\<lparr>pr_offset := length (t @ u)\<rparr>)" "has_text (p'\<lparr>pr_offset := length (t @ u)\<rparr>) h' (t @ u)"
proof -
  obtain k where k: "k \<le> length u" "wrote p h t k (u @ [0]) (length u + 1) r" using assms(1) by (auto simp: printed_def)
  obtain p' h' b where w: "r = Some (True, p', h')" "only_buffer p h p' h'" "pr_depth p' = pr_depth p" "pr_buffer p' \<noteq> 0"
    "h_strs h' (pr_buffer p') = Some b" "length t + length (u @ [0]) \<le> length b" "take (length t + length (u @ [0])) b = t @ u @ [0]"
    "pr_offset p' = length t + k" "length t + (length u + 1) \<le> pr_length p'" using k(2) by (auto simp: wrote_def)
  have "b = (t @ u @ [0]) @ drop (length t + length (u @ [0])) b" using w(7) by (metis append_take_drop_id)
  then have bb: "b = t @ u @ 0 # drop (length t + length (u @ [0])) b" by simp
  have "drop (length t + k) b = drop k u @ 0 # drop (length t + length (u @ [0])) b"
    by (subst bb) (use k(1) in simp)
  moreover have "0 \<notin> set (drop k u)" using assms(2) by (meson in_set_dropD)
  ultimately have "c_strlen (drop (length t + k) b) = Some (length u - k)" by (simp add: c_strlen_zero)
  then have up: "update_offset p' h' = Some (p'\<lparr>pr_offset := length (t @ u)\<rparr>)"
    using w(4,5,8) k(1) by (simp add: update_offset_def strlen_at_def block_def)
  have "has_text (p'\<lparr>pr_offset := length (t @ u)\<rparr>) h' (t @ u)"
    unfolding has_text_def using w(4-6,9) bb by (auto simp: intro!: exI [of _ b]) (metis append.assoc append_eq_conv_conj length_append)
  with w(1-3) up show thesis by (rule that)
qed


section \<open>Strings and numbers\<close>

lemma length_escaped_char: "length (escaped_char c) = 1 + escape_cost c"
proof -
  have "c > 31 \<longleftrightarrow> \<not> c < 32" by unat_arith
  then show ?thesis by (auto simp: escaped_char_def escape_cost_def u04x_def)
qed

lemma escaped_char_plain: "escape_cost c = 0 \<Longrightarrow> escaped_char c = [c]"
proof -
  assume z: "escape_cost c = 0"
  have "c > 31 \<longleftrightarrow> \<not> c < 32" by unat_arith
  moreover have "\<not> c < 32" "c \<noteq> ch_quote" "c \<noteq> ch_bslash" using z by (auto simp: escape_cost_def split: if_splits)
  ultimately show ?thesis by (simp add: escaped_char_def)
qed

lemma length_escaped: "length (concat (map escaped_char s)) = length s + sum_list (map escape_cost s)"
  by (induction s) (simp_all add: length_escaped_char)

lemma hex_digit_lower_nz: "n < 16 \<Longrightarrow> hex_digit_lower n \<noteq> 0"
proof -
  have "list_all (\<lambda>n. hex_digit_lower n \<noteq> 0) [0..<16]" by code_simp
  then show "n < 16 \<Longrightarrow> hex_digit_lower n \<noteq> 0" by (simp add: list_all_iff)
qed

lemma concat_singletons: "\<forall>c \<in> set s. f c = [c] \<Longrightarrow> concat (map f s) = s"
  by (induction s) simp_all

lemma escaped_char_nz: "0 \<notin> set (escaped_char c)"
proof -
  have "unat c < 2 ^ LENGTH(8)" by (rule unsigned_less)
  then have "unat c div 16 < 16" "unat c mod 16 < 16" by auto
  then show ?thesis using hex_digit_lower_nz by (auto simp: escaped_char_def u04x_def)
qed

lemma escaped_nz: "0 \<notin> set (concat (map escaped_char s))"
  using escaped_char_nz by auto

lemma quoted_nz: "0 \<notin> set (quoted S p)"
  using escaped_nz [of "S p"] by (auto simp: quoted_def)

lemma write_escaped_spec:
  assumes "own_buffer p h" and "h_strs h (pr_buffer p) = Some b" and "length t \<le> length b" "take (length t) b = t"
    and "pr_buffer p \<noteq> 0" and "length t + length (concat (map escaped_char s)) + 1 \<le> pr_length p"
  shows "\<exists>h' c. write_escaped (pr_buffer p) (length t) s h = Some h' \<and> only_buffer p h p h' \<and>
    h_strs h' (pr_buffer p) = Some c \<and> length c = length b \<and>
    take (length t + length (concat (map escaped_char s))) c = t @ concat (map escaped_char s)"
  using assms
proof (induction s arbitrary: t h b)
  case Nil
  then show ?case using only_buffer_refl [of p h] by auto
next
  case (Cons x s)
  let ?e = "escaped_char x" and ?z = "if length (escaped_char x) = 6 then [0] else []"
  have l: "length t + length (?e @ ?z) \<le> pr_length p" using Cons.prems(6) by auto
  obtain h1 c where w: "write_at (pr_buffer p) (length t) (?e @ ?z) h = Some h1" "only_buffer p h p h1"
    "h_strs h1 (pr_buffer p) = Some c" "take (length t + length (?e @ ?z)) c = t @ ?e @ ?z" "length c = length b"
    using write_at_spec [OF Cons.prems(1,2,3,4,5) l] by blast
  have o1: "own_buffer p h1" using w(2) by (simp add: only_buffer_def)
  have pl: "pr_length p \<le> length b" using Cons.prems(1,2,5) by (auto simp: own_buffer_def)
  have "take (length t + length ?e) (take (length t + length (?e @ ?z)) c) = take (length t + length ?e) (t @ ?e @ ?z)" using w(4) by simp
  then have "take (length (t @ ?e)) c = t @ ?e" by (simp add: min_def split: if_splits)
  moreover have "length (t @ ?e) \<le> length c" using pl l w(5) by simp
  moreover have "length (t @ ?e) + length (concat (map escaped_char s)) + 1 \<le> pr_length p" using Cons.prems(6) by simp
  ultimately obtain h2 d where r: "write_escaped (pr_buffer p) (length (t @ ?e)) s h1 = Some h2" "only_buffer p h1 p h2"
    "h_strs h2 (pr_buffer p) = Some d" "length d = length c"
    "take (length (t @ ?e) + length (concat (map escaped_char s))) d = (t @ ?e) @ concat (map escaped_char s)"
    using Cons.IH [OF o1 w(3)] Cons.prems(5) by blast
  have "only_buffer p h p h2" by (rule only_buffer_trans [OF Cons.prems(1) w(2) r(2)])
  then show ?case using w(1,5) r by (auto simp: add.assoc)
qed

lemma print_string_ptr_spec:
  assumes o: "own_buffer p h" and t: "has_text p h t" and rd: "reads h p ({input} - {0}) S"
  shows "gave_up p h (Some (length t + length (quoted S input) + 5)) (print_string_ptr input p h) \<or> printed p h t (quoted S input) (print_string_ptr input p h)"
proof (cases "input = 0")
  case True
  have "print_string_ptr input p h = emit p 3 (quoted S input @ [0]) h" "length (quoted S input) = 2"
    using True by (simp_all add: print_string_ptr_def quoted_def)
  then show ?thesis using emit_value [OF o t, of "quoted S input" 3] by simp
next
  case False
  then have s: "string_at input h = Some (S input)" using rd by (simp add: reads_def)
  let ?s = "S input"
  let ?u = "concat (map escaped_char ?s)" and ?x = "sum_list (map escape_cost ?s)"
  have lu: "length ?s + ?x = length ?u" by (simp add: length_escaped)
  have q: "quoted S input @ [0] = ch_quote # ?u @ [ch_quote, 0]" "length (quoted S input) = length ?u + 2"
    using False by (simp_all add: quoted_def)
  have unf: "print_string_ptr input p h =
     ensure p (length ?u + 3) h \<bind> (\<lambda>(out, p1, h1). case out of
         None \<Rightarrow> Some (False, p1, h1)
       | Some i \<Rightarrow>
           if ?x = 0 then write_at (pr_buffer p1) i (ch_quote # ?s @ [ch_quote, 0]) h1 \<bind> (\<lambda>h2. Some (True, p1, h2))
           else write_at (pr_buffer p1) i [ch_quote] h1 \<bind> (\<lambda>h2. write_escaped (pr_buffer p1) (i + 1) ?s h2 \<bind>
             (\<lambda>h3. write_at (pr_buffer p1) (i + length ?u + 1) [ch_quote, 0] h3 \<bind> (\<lambda>h4. Some (True, p1, h4)))))"
    unfolding print_string_ptr_def Let_def s bind.bind_lunit lu using False by simp
  from o t show ?thesis
  proof (cases rule: ensure_spec [where n = "length ?u + 3"])
    case (fail p' h')
    have "excuse p h h' (length t + length (quoted S input) + 5)"
      by (rule excuse_mono [OF fail(3)]) (use False in \<open>simp add: quoted_def\<close>)
    then show ?thesis unfolding unf using fail(1,2) by (auto simp: gave_up_def)
  next
    case (room p' h')
    have o': "own_buffer p' h'" using room(2) by (simp add: only_buffer_def)
    obtain b where b: "h_strs h' (pr_buffer p') = Some b" "length t \<le> length b" "take (length t) b = t"
      and p': "pr_buffer p' \<noteq> 0" "pr_offset p' = length t" using room(4) by (auto simp: has_text_def)
    have fin: "printed p h t (quoted S input) (print_string_ptr input p h)"
      if r: "print_string_ptr input p h = Some (True, p', h2)" "only_buffer p' h' p' h2" "h_strs h2 (pr_buffer p') = Some c"
        "take (length t + length (ch_quote # ?u @ [ch_quote, 0])) c = t @ (ch_quote # ?u @ [ch_quote, 0])" for h2 c
    proof -
      have "only_buffer p h p' h2" by (rule only_buffer_trans [OF o room(2) r(2)])
      moreover have "pr_length p' \<le> length c" using r(2,3) p'(1) by (auto simp: only_buffer_def own_buffer_def)
      ultimately show ?thesis unfolding printed_def q wrote_def
        using r(1,3,4) room(3,5) p' False by (intro exI [of _ 0] conjI exI [of _ p'] exI [of _ h2] exI [of _ c]) simp_all
    qed
    show ?thesis
    proof (cases "?x = 0")
      case True
      have "escaped_char c = [c]" if "c \<in> set ?s" for c
        by (rule escaped_char_plain) (use True that in simp)
      then have u: "?u = ?s" by (intro concat_singletons) simp
      have r: "length t + length (ch_quote # ?s @ [ch_quote, 0]) \<le> pr_length p'" using room(5) u by simp
      obtain h2 c where w: "write_at (pr_buffer p') (length t) (ch_quote # ?s @ [ch_quote, 0]) h' = Some h2" "only_buffer p' h' p' h2"
        "h_strs h2 (pr_buffer p') = Some c" "take (length t + length (ch_quote # ?s @ [ch_quote, 0])) c = t @ ch_quote # ?s @ [ch_quote, 0]"
        using write_at_spec [OF o' b p'(1) r] by blast
      have "print_string_ptr input p h = Some (True, p', h2)" unfolding unf using room(1) w(1) True by simp
      then show ?thesis using fin [OF _ w(2,3)] w(4) u by simp
    next
      case False
      have r1: "length t + length [ch_quote] \<le> pr_length p'" using room(5) by simp
      obtain h2 c where w1: "write_at (pr_buffer p') (length t) [ch_quote] h' = Some h2" "only_buffer p' h' p' h2"
        "h_strs h2 (pr_buffer p') = Some c" "take (length t + length [ch_quote]) c = t @ [ch_quote]" "length c = length b"
        using write_at_spec [OF o' b p'(1) r1] by blast
      have o2: "own_buffer p' h2" using w1(2) by (simp add: only_buffer_def)
      have lb: "pr_length p' \<le> length b" using o' b(1) p'(1) by (auto simp: own_buffer_def)
      have a2: "length (t @ [ch_quote]) \<le> length c" "take (length (t @ [ch_quote])) c = t @ [ch_quote]"
        "length (t @ [ch_quote]) + length ?u + 1 \<le> pr_length p'" using w1(4,5) room(5) lb by simp_all
      obtain h3 d where w2: "write_escaped (pr_buffer p') (length (t @ [ch_quote])) ?s h2 = Some h3" "only_buffer p' h2 p' h3"
        "h_strs h3 (pr_buffer p') = Some d" "length d = length c"
        "take (length (t @ [ch_quote]) + length ?u) d = (t @ [ch_quote]) @ ?u"
        using write_escaped_spec [OF o2 w1(3) a2(1,2) p'(1) a2(3)] by blast
      have o3: "own_buffer p' h3" using w2(2) by (simp add: only_buffer_def)
      let ?t3 = "(t @ [ch_quote]) @ ?u"
      have a3: "length ?t3 \<le> length d" "take (length ?t3) d = ?t3" "length ?t3 + length [ch_quote, 0] \<le> pr_length p'"
        using w2(4,5) a2(3) w1(5) lb room(5) by simp_all
      obtain h4 e where w3: "write_at (pr_buffer p') (length ?t3) [ch_quote, 0] h3 = Some h4" "only_buffer p' h3 p' h4"
        "h_strs h4 (pr_buffer p') = Some e" "take (length ?t3 + length [ch_quote, 0]) e = ?t3 @ [ch_quote, 0]"
        using write_at_spec [OF o3 w2(3) a3(1,2) p'(1) a3(3)] by blast
      have ob: "only_buffer p' h' p' h4"
        by (rule only_buffer_trans [OF o' only_buffer_trans [OF o' w1(2) w2(2)] w3(2)])
      have w2': "write_escaped (pr_buffer p') (length t + 1) ?s h2 = Some h3" using w2(1) by simp
      have w3': "write_at (pr_buffer p') (length t + length ?u + 1) [ch_quote, 0] h3 = Some h4"
        using w3(1) by (simp only: length_append list.size) (simp add: ac_simps)
      have "print_string_ptr input p h = Some (True, p', h4)"
        unfolding unf by (simp only: room(1) w1(1) w2' w3' False bind.bind_lunit prod.case option.case if_False)
      then show ?thesis using fin [OF _ ob w3(3)] w3(4) by (simp add: add.assoc)
    qed
  qed
qed

end
