(* ===== verification/CJson_Number.thy ===== *)
theory CJson_Number
  imports CJson_Print
begin

text \<open>
  The text \<open>print_number\<close> formats into its 26-byte buffer: it has no terminator inside and
  it always fits, for every binary64 value and every 32-bit integer.
\<close>

section \<open>Digits\<close>

lemma dec_nat_less: "n < 10 ^ length (dec_nat n)"
proof (induction n rule: dec_nat.induct)
  case (1 n)
  show ?case
  proof (cases "n < 10")
    case False
    then have "n div 10 < 10 ^ length (dec_nat (n div 10))" using 1 by blast
    then have "n < 10 ^ length (dec_nat (n div 10)) * 10" by (simp add: div_less_iff_less_mult)
    then show ?thesis using False by (subst dec_nat.simps) (simp add: mult.commute)
  qed (subst dec_nat.simps, simp)
qed

lemma dec_nat_ge: "0 < n \<Longrightarrow> 10 ^ (length (dec_nat n) - 1) \<le> n"
proof (induction n rule: dec_nat.induct)
  case (1 n)
  show ?case
  proof (cases "n < 10")
    case False
    let ?l = "length (dec_nat (n div 10))"
    have l: "0 < ?l" by simp
    have "10 ^ (?l - 1) \<le> n div 10" using 1 False by simp
    then have "10 ^ (?l - 1) * 10 \<le> n" by (simp add: less_eq_div_iff_mult_less_eq)
    moreover have "(10 :: nat) ^ (?l - 1) * 10 = 10 ^ ?l" using power_minus_mult [OF l] .
    ultimately show ?thesis using False by (subst dec_nat.simps) simp
  qed (subst dec_nat.simps, use 1 in simp)
qed

lemma digit_nz: "is_digit c \<Longrightarrow> c \<noteq> 0"
  by (auto simp: is_digit_def)

lemma dec_nat_nz: "0 \<notin> set (dec_nat n)"
  using dec_nat_digits [of n] digit_nz by blast

lemma dec_int_nz: "0 \<notin> set (dec_int i)"
  using dec_nat_nz by (simp add: dec_int_def)

lemma strip_zeros_set: "set (strip_zeros ds) \<subseteq> set ds"
  by (auto simp: strip_zeros_def dest: set_dropWhileD)

lemma length_strip_zeros: "length (strip_zeros ds) \<le> length ds"
  by (simp add: strip_zeros_def) (metis length_dropWhile_le length_rev)

lemma length_point: "length (point fs) \<le> Suc (length fs)"
  by (simp add: point_def)

lemma point_nz: "0 \<notin> set fs \<Longrightarrow> 0 \<notin> set (point fs)"
  by (simp add: point_def)

lemma strip_nz: "0 \<notin> set ds \<Longrightarrow> 0 \<notin> set (strip_zeros ds)"
  using strip_zeros_set by blast

lemma exp_text_nz: "0 \<notin> set (exp_text x)"
  using dec_nat_nz by (simp add: exp_text_def Let_def)

lemma g_text_nz: "0 \<notin> set (g_text p (q, x))"
proof -
  let ?ds = "dec_nat q"
  have ds: "0 \<notin> set ?ds" by (rule dec_nat_nz)
  have "hd ?ds \<in> set ?ds" by simp
  then have h: "hd ?ds \<noteq> 0" using ds by metis
  have t: "0 \<notin> set (tl ?ds)" using ds by (meson list.set_sel(2) dec_nat_nonempty)
  have tk: "0 \<notin> set (take k ?ds)" "0 \<notin> set (drop k ?ds)" for k
    using ds by (meson in_set_takeD in_set_dropD)+
  have r: "0 \<notin> set (replicate k ch_0 @ ?ds)" for k using ds by simp
  show ?thesis
    using h point_nz [OF strip_nz [OF t]] exp_text_nz tk(1) point_nz [OF strip_nz [OF tk(2)]] point_nz [OF strip_nz [OF r]]
    by (simp add: g_text_def Let_def)
qed

lemma sprintf_g_nz: "0 \<notin> set (sprintf_g p d)"
proof (cases d)
  case (Fin s m e)
  then show ?thesis using g_text_nz by (cases "sig_digits p (m * 2 ^ nat e) 1"; cases "sig_digits p m (2 ^ nat (- e))") simp
qed (simp_all add: byte_simps)

lemma number_text_nz: "0 \<notin> set (number_text d v)"
  using sprintf_g_nz dec_int_nz by (auto simp: number_text_def Let_def byte_simps split: prod.split)

section \<open>The decimal exponent\<close>

lemma ilog10_upper:
  assumes "0 < n" and "0 < d"
  shows "\<not> pow_ge 10 n d (ilog10 n d + 1)"
proof -
  let ?a = "length (dec_nat n)" and ?b = "length (dec_nat d)"
  let ?k = "int ?a - int ?b"
  have n: "n < 10 ^ ?a" by (rule dec_nat_less)
  have d: "10 ^ (?b - 1) \<le> d" by (rule dec_nat_ge [OF assms(2)])
  have b: "0 < ?b" by simp
  have "\<not> pow_ge 10 n d (?k + 1)"
  proof (cases "0 \<le> ?k + 1")
    case True
    have "nat (?k + 1) + (?b - 1) = ?a" using True b by linarith
    then have "(10 :: nat) ^ ?a = 10 ^ (?b - 1) * 10 ^ nat (?k + 1)" by (metis power_add add.commute)
    also have "\<dots> \<le> d * 10 ^ nat (?k + 1)" using d by simp
    finally show ?thesis using n True by (simp add: pow_ge_def)
  next
    case False
    have e: "?a + nat (- (?k + 1)) = ?b - 1" using False b by linarith
    have "n * 10 ^ nat (- (?k + 1)) < 10 ^ ?a * 10 ^ nat (- (?k + 1))" using n by simp
    also have "\<dots> = 10 ^ (?b - 1)" by (metis e power_add)
    finally show ?thesis using d False by (simp add: pow_ge_def)
  qed
  then show ?thesis by (simp add: ilog10_def Let_def)
qed

lemma ilog10_bounds:
  "ilog10 n d \<le> int (length (dec_nat n)) - int (length (dec_nat d))"
  "int (length (dec_nat n)) - int (length (dec_nat d)) - 1 \<le> ilog10 n d"
  by (simp_all add: ilog10_def Let_def)

lemma div_rne_le: "a < b * c \<Longrightarrow> div_rne a b \<le> c"
proof -
  assume "a < b * c"
  then have "a div b < c" by (simp add: less_mult_imp_div_less mult.commute)
  then show ?thesis by (simp add: div_rne_def Let_def)
qed

lemma sig_digits_bound:
  assumes "0 < n" and "0 < d" and "0 < p" and "sig_digits p n d = (q, x)"
  shows "q < 10 ^ p" and "ilog10 n d \<le> x" and "x \<le> ilog10 n d + 1"
proof -
  let ?x = "ilog10 n d"
  let ?k = "int p - 1 - ?x"
  let ?q = "if 0 \<le> ?k then div_rne (n * 10 ^ nat ?k) d else div_rne n (d * 10 ^ nat (- ?k))"
  note up = ilog10_upper [OF assms(1,2)]
  have "?q \<le> 10 ^ p"
  proof (cases "0 \<le> ?k")
    case k: True
    have "n * 10 ^ nat ?k < d * 10 ^ p"
    proof (cases "0 \<le> ?x + 1")
      case True
      have "n < d * 10 ^ nat (?x + 1)" using up True by (simp add: pow_ge_def)
      then have "n * 10 ^ nat ?k < d * 10 ^ nat (?x + 1) * 10 ^ nat ?k" by simp
      also have "\<dots> = d * 10 ^ (nat (?x + 1) + nat ?k)" by (simp add: power_add)
      also have "nat (?x + 1) + nat ?k = p" using True k by linarith
      finally show ?thesis .
    next
      case False
      have "n * 10 ^ nat (- (?x + 1)) < d" using up False by (simp add: pow_ge_def)
      then have "n * 10 ^ nat (- (?x + 1)) * 10 ^ p < d * 10 ^ p" by simp
      moreover have "nat (- (?x + 1)) + p = nat ?k" using False by linarith
      then have "(10 :: nat) ^ nat ?k = 10 ^ nat (- (?x + 1)) * 10 ^ p" by (metis power_add)
      ultimately show ?thesis by (simp add: mult.assoc)
    qed
    then show ?thesis using k by (simp add: div_rne_le)
  next
    case k: False
    have "0 \<le> ?x + 1" using k assms(3) by linarith
    then have "n < d * 10 ^ nat (?x + 1)" using up by (simp add: pow_ge_def)
    also have "nat (?x + 1) = nat (- ?k) + p" using k by linarith
    finally have "n < d * 10 ^ nat (- ?k) * 10 ^ p" by (simp add: power_add mult.assoc)
    then show ?thesis using k by (simp add: div_rne_le)
  qed
  moreover have "(10 :: nat) ^ (p - 1) < 10 ^ p" using assms(3) by simp
  ultimately show "q < 10 ^ p" "?x \<le> x" "x \<le> ?x + 1"
    using assms(4) unfolding sig_digits_def Let_def by (auto split: if_splits)
qed

section \<open>Lengths\<close>

lemma exp_text_length: "\<bar>x\<bar> < 1000 \<Longrightarrow> length (exp_text x) \<le> 5"
  using dec_nat_length [of "nat \<bar>x\<bar>" 3] by (auto simp: exp_text_def Let_def)

lemma g_text_length:
  assumes "q < 10 ^ p" and "0 < p" and "\<bar>x\<bar> < 1000"
  shows "length (g_text p (q, x)) \<le> p + 6"
proof -
  let ?ds = "dec_nat q"
  have l: "length ?ds \<le> p" using dec_nat_length assms(1,2) by blast
  have s: "length (point (strip_zeros u)) \<le> Suc (length u)" for u
    using length_point [of "strip_zeros u"] length_strip_zeros [of u] by linarith
  have "length (hd ?ds # point (strip_zeros (tl ?ds)) @ exp_text x) \<le> p + 6"
    using s [of "tl ?ds"] exp_text_length [OF assms(3)] l by (cases ?ds) auto
  moreover have "length (take (nat x + 1) ?ds @ point (strip_zeros (drop (nat x + 1) ?ds))) \<le> p + 6"
    using s [of "drop (nat x + 1) ?ds"] l by simp
  moreover have "\<not> x < - 4 \<Longrightarrow> length ([ch_0] @ point (strip_zeros (replicate (nat (- x) - 1) ch_0 @ ?ds))) \<le> p + 6"
    using s [of "replicate (nat (- x) - 1) ch_0 @ ?ds"] l by auto
  ultimately show ?thesis by (auto simp: g_text_def Let_def)
qed

text \<open>The values a \<open>double\<close> can have.\<close>

fun dbl_ok :: "dbl \<Rightarrow> bool" where
  "dbl_ok (Fin s m e) \<longleftrightarrow> m < 2 ^ 53 \<and> - 1074 \<le> e \<and> e \<le> 971"
| "dbl_ok d \<longleftrightarrow> True"

lemma sig_digits_dbl:
  assumes "0 < m" and "m < 2 ^ 53" and "- 1074 \<le> e" and "e \<le> 971" and "0 < p"
    and "sig_digits p (if 0 \<le> e then m * 2 ^ nat e else m) (if 0 \<le> e then 1 else 2 ^ nat (- e)) = (q, x)"
  shows "q < 10 ^ p" and "\<bar>x\<bar> < 1000"
proof -
  let ?n = "if 0 \<le> e then m * 2 ^ nat e else m" and ?d = "if 0 \<le> e then 1 else 2 ^ nat (- e) :: nat"
  have pos: "0 < ?n" "0 < ?d" using assms(1) by auto
  note sb = sig_digits_bound [OF pos assms(5,6)]
  show "q < 10 ^ p" by (rule sb(1))
  have "?n < 2 ^ 53 * 2 ^ 971"
  proof (cases "0 \<le> e")
    case True
    have "m * 2 ^ nat e < 2 ^ 53 * 2 ^ nat e" using assms(2) by simp
    also have "(2 :: nat) ^ nat e \<le> 2 ^ 971" by (rule power_increasing) (use assms(4) in auto)
    finally show ?thesis using True by simp
  next
    case False
    have "(2 :: nat) ^ 53 \<le> 2 ^ 53 * 2 ^ 971" by simp
    with assms(2) False show ?thesis by simp
  qed
  also have "(2 :: nat) ^ 53 * 2 ^ 971 < 10 ^ 309" by simp
  finally have n: "length (dec_nat ?n) \<le> 309" by (intro dec_nat_length) simp_all
  have "?d \<le> 2 ^ 1074"
    using power_increasing [of "nat (- e)" 1074 "2 :: nat"] assms(3) by auto
  also have "(2 :: nat) ^ 1074 < 10 ^ 324" by simp
  finally have d: "length (dec_nat ?d) \<le> 324" by (intro dec_nat_length) simp_all
  have "1 \<le> length (dec_nat ?n)" "1 \<le> length (dec_nat ?d)" by (simp_all add: Suc_leI del: split_paired_All)
  then show "\<bar>x\<bar> < 1000" using sb(2,3) ilog10_bounds [of ?n ?d] n d by linarith
qed

lemma sprintf_g_length:
  assumes "dbl_ok d" and "0 < p" and "p \<le> 17"
  shows "length (sprintf_g p d) \<le> 24"
proof (cases d)
  case (Fin s m e)
  show ?thesis
  proof (cases "m = 0")
    case True
    then show ?thesis using Fin by simp
  next
    case False
    obtain q x where qx: "sig_digits p (if 0 \<le> e then m * 2 ^ nat e else m) (if 0 \<le> e then 1 else 2 ^ nat (- e)) = (q, x)"
      by (metis surj_pair)
    have "length (g_text p (q, x)) \<le> p + 6"
      using sig_digits_dbl [OF _ _ _ _ assms(2) qx] assms Fin False by (intro g_text_length) auto
    moreover have "sprintf_g p d = (if s then [ch_minus] else []) @ g_text p (q, x)"
      using Fin False qx by (auto split: if_splits)
    ultimately show ?thesis using assms(3) by auto
  qed
qed (simp_all add: byte_simps)

lemma dec_int_length:
  assumes "INT_MIN \<le> i" and "i \<le> INT_MAX"
  shows "length (dec_int i) \<le> 11"
proof -
  have "nat (- i) < 10 ^ 10" "nat i < 10 ^ 10" using assms by (simp_all add: INT_MIN_def INT_MAX_def nat_less_iff)
  then have "length (dec_nat (nat (- i))) \<le> 10" "length (dec_nat (nat i)) \<le> 10" by (auto intro: dec_nat_length)
  then show ?thesis by (simp add: dec_int_def)
qed

lemma number_text_length:
  assumes "dbl_ok d" and "INT_MIN \<le> v" and "v \<le> INT_MAX"
  shows "length (number_text d v) \<le> 24"
  using sprintf_g_length [OF assms(1), of 15] sprintf_g_length [OF assms(1), of 17] dec_int_length [OF assms(2,3)]
  by (auto simp: number_text_def Let_def byte_simps split: prod.split)

end
