(* ===== verification/CJson_Print_Ok.thy ===== *)
theory CJson_Print_Ok
  imports CJson_Print_Text CJson_Number
begin

text \<open>
  The induction over the mutual recursion of \<open>print_value\<close>, \<open>print_array\<close> and
  \<open>print_object\<close>: they write the reference text or give up, with fuel bounded by the
  number of items.
\<close>

section \<open>Steps\<close>

definition listed :: "printbuffer \<Rightarrow> heap \<Rightarrow> bytes \<Rightarrow> (bool \<times> printbuffer \<times> heap) option \<Rightarrow> bool" where
  "listed p h t r \<longleftrightarrow> (\<exists>p' h'. r = Some (True, p', h') \<and> only_buffer p h p' h' \<and> pr_depth p' = pr_depth p \<and> has_text p' h' t)"

text \<open>The room that must be there for a text, with the slack the requests have.\<close>

definition need :: "bytes \<Rightarrow> bytes option \<Rightarrow> nat option" where
  "need t u = map_option (\<lambda>v. length t + length v + 5) u"

lemma need_Some [simp]: "need t (Some v) = Some (length t + length v + 5)"
  by (simp add: need_def)

lemma need_None [simp]: "need t None = None"
  by (simp add: need_def)

lemma need_append: "need (t @ u) w = need t (map_option (\<lambda>v. u @ v) w)"
  by (cases w) simp_all

definition outcome :: "printbuffer \<Rightarrow> heap \<Rightarrow> bytes \<Rightarrow> bytes option \<Rightarrow> (bool \<times> printbuffer \<times> heap) option \<Rightarrow> bool" where
  "outcome p h t u r \<longleftrightarrow> gave_up p h (need t u) r \<or> (\<exists>v. u = Some v \<and> printed p h t v r)"

definition list_outcome :: "printbuffer \<Rightarrow> heap \<Rightarrow> bytes \<Rightarrow> bytes option \<Rightarrow> (bool \<times> printbuffer \<times> heap) option \<Rightarrow> bool" where
  "list_outcome p h t u r \<longleftrightarrow> gave_up p h (need t u) r \<or> (\<exists>v. u = Some v \<and> listed p h (t @ v) r)"

lemma gave_up_trans:
  assumes "own_buffer p h" and "pr_buffer p \<noteq> 0" and b: "only_buffer p h p1 h1" and "gave_up p1 h1 l r"
  shows "gave_up p h l r"
proof -
  obtain p' h' where g: "r = Some (False, p', h')" "only_buffer p1 h1 p' h'" "\<forall>n. l = Some n \<longrightarrow> excuse p1 h1 h' n"
    using assms(4) by (auto simp: gave_up_def)
  have "\<forall>n. l = Some n \<longrightarrow> excuse p h h' n" using g(3) excuse_trans [OF _ b assms(2)] by auto
  then show ?thesis using g(1) only_buffer_trans [OF assms(1) b g(2)] by (auto simp: gave_up_def)
qed

lemma gave_up_weaken:
  assumes "gave_up p h l r" and "\<And>m. l' = Some m \<Longrightarrow> \<exists>n \<le> m. l = Some n"
  shows "gave_up p h l' r"
proof -
  obtain p' h' where g: "r = Some (False, p', h')" "only_buffer p h p' h'" "\<forall>n. l = Some n \<longrightarrow> excuse p h h' n"
    using assms(1) by (auto simp: gave_up_def)
  have "excuse p h h' m" if "l' = Some m" for m using assms(2) [OF that] g(3) excuse_mono by auto
  then show ?thesis using g(1,2) by (auto simp: gave_up_def)
qed

lemma gave_up_None: "only_buffer p h p' h' \<Longrightarrow> gave_up p h None (Some (False, p', h'))"
  by (simp add: gave_up_def)

lemma excuse_offset [simp]: "excuse (p\<lparr>pr_offset := k\<rparr>) h h' n = excuse p h h' n" "excuse (p\<lparr>pr_depth := d\<rparr>) h h' n = excuse p h h' n"
  by (simp_all add: excuse_def capacity_def)

lemma gave_up_offset [simp]: "gave_up (p\<lparr>pr_offset := k\<rparr>) h l r = gave_up p h l r" "gave_up (p\<lparr>pr_depth := d\<rparr>) h l r = gave_up p h l r"
  by (simp_all add: gave_up_def)

lemma has_text_buffer: "has_text p h t \<Longrightarrow> pr_buffer p \<noteq> 0"
  by (simp add: has_text_def)

text \<open>An \<open>emit\<close> whose text stays: the offset moves over the first part of it.\<close>

lemma emit_then:
  assumes o: "own_buffer p h" and t: "has_text p h t" and l: "length cs \<le> n + 1" "length us \<le> n" and k: "cs = us @ vs" "m = length us"
    and next_fails: "\<And>p1 h1. emit p n cs h = Some (False, p1, h1) \<Longrightarrow> only_buffer p h p1 h1 \<Longrightarrow>
      excuse p h h1 (length t + n + 1) \<Longrightarrow> Q"
    and next_ok: "\<And>p1 h1. emit p n cs h = Some (True, p1, h1) \<Longrightarrow> only_buffer p h p1 h1 \<Longrightarrow> pr_depth p1 = pr_depth p \<Longrightarrow>
      has_text (advance m p1) h1 (t @ us) \<Longrightarrow> Q"
  shows Q
  using emit_spec [OF o t l(1)]
proof
  assume "gave_up p h (Some (length t + n + 1)) (emit p n cs h)"
  then show Q using next_fails by (auto simp: gave_up_def)
next
  assume w: "wrote p h t 0 cs (n + 1) (emit p n cs h)"
  have u: "length us \<le> length cs" "take (length us) cs = us" "length us < n + 1" using k l by simp_all
  from w u show Q
  proof (rule wrote_has_text)
    fix p1 h1
    assume a: "emit p n cs h = Some (True, p1, h1)" "only_buffer p h p1 h1" "pr_depth p1 = pr_depth p"
      "has_text (p1\<lparr>pr_offset := length (t @ us)\<rparr>) h1 (t @ us)" "pr_offset p1 = length t + 0"
    have "advance m p1 = p1\<lparr>pr_offset := length (t @ us)\<rparr>" using a(5) k by (simp add: advance_def)
    with a(4) show Q by (intro next_ok [OF a(1-3)]) simp
  qed
qed

lemma advance_simps [simp]:
  "own_buffer (advance k p) h = own_buffer p h" "only_buffer p h (advance k p') h' = only_buffer p h p' h'"
  "only_buffer (advance k p) h p' h' = only_buffer p h p' h'" "reads h (advance k p) T S = reads h p T S"
  "pr_depth (advance k p) = pr_depth p" "pr_format (advance k p) = pr_format p" "gave_up (advance k p) h l r = gave_up p h l r"
  "excuse (advance k p) h h' n = excuse p h h' n"
  by (simp_all add: advance_def)

lemma only_buffer_format: "only_buffer p h p' h' \<Longrightarrow> pr_format p' = pr_format p"
  by (simp add: only_buffer_def)

lemma only_buffer_own: "only_buffer p h p' h' \<Longrightarrow> own_buffer p' h'"
  by (simp add: only_buffer_def)

lemma emit_printed:
  assumes "own_buffer p h" and "has_text p h t" and "length u \<le> n" and "n \<le> length u + 4"
  shows "outcome p h t (Some u) (emit p n (u @ [0]) h)"
  using emit_value [OF assms] by (auto simp: outcome_def)

lemma print_number_spec:
  assumes o: "own_buffer p h" and t: "has_text p h t" and n: "h_nodes h item = Some n" "item \<noteq> 0"
  shows "outcome p h t (let u = number_text (cj_valuedouble n) (cj_valueint n) in if length u > 25 then None else Some u)
    (print_number item p h)"
proof -
  let ?u = "number_text (cj_valuedouble n) (cj_valueint n)"
  have m: "map (\<lambda>c. if c = decimal_point_char then ch_dot else c) ?u = ?u"
    by (rule map_idI) (simp add: decimal_point_char_def)
  have unf: "print_number item p h =
      (if length ?u > 25 then Some (False, p, h)
       else emit p (length ?u + 1) (?u @ [0]) h \<bind> (\<lambda>(ok, p1, h1).
         if \<not> ok then Some (False, p1, h1) else Some (True, advance (length ?u) p1, h1)))"
    using n by (simp only: print_number_def load_def if_False bind.bind_lunit Let_def m)
  show ?thesis
  proof (cases "length ?u > 25")
    case True
    then show ?thesis using only_buffer_refl [OF o] unfolding unf by (simp add: outcome_def gave_up_def)
  next
    case False
    have l: "length (?u @ [0]) \<le> (length ?u + 1) + 1" by simp
    from emit_spec [OF o t l] show ?thesis
    proof
      assume "gave_up p h (Some (length t + (length ?u + 1) + 1)) (emit p (length ?u + 1) (?u @ [0]) h)"
      then have "gave_up p h (Some (length t + length ?u + 5)) (emit p (length ?u + 1) (?u @ [0]) h)"
        by (rule gave_up_mono) simp
      then show ?thesis using False unfolding unf by (auto simp: outcome_def gave_up_def)
    next
      assume "wrote p h t 0 (?u @ [0]) (length ?u + 1 + 1) (emit p (length ?u + 1) (?u @ [0]) h)"
      then have "wrote p h t 0 (?u @ [0]) (length ?u + 1) (emit p (length ?u + 1) (?u @ [0]) h)" by (rule wrote_mono) simp
      then have "wrote p h t (length ?u) (?u @ [0]) (length ?u + 1) (print_number item p h)"
        using False unfolding unf wrote_def by (auto simp: advance_def)
      then show ?thesis using False by (auto simp: outcome_def printed_def)
    qed
  qed
qed

lemma string_at_nz: "string_at p h = Some s \<Longrightarrow> 0 \<notin> set s"
  by (auto simp: string_at_def split: option.splits if_splits)

lemma reads_nz: "reads h p T S \<Longrightarrow> s \<in> T \<Longrightarrow> 0 \<notin> set (S s)"
  by (rule string_at_nz [of s h]) (simp add: reads_def)

lemma print_raw_spec:
  assumes o: "own_buffer p h" and t: "has_text p h t" and rd: "reads h p (set (node_strs n)) S"
  shows "outcome p h t (if cj_valuestring n = 0 then None else Some (S (cj_valuestring n))) (print_raw n p h)"
proof (cases "cj_valuestring n = 0")
  case True
  then show ?thesis using only_buffer_refl [OF o] by (simp add: print_raw_def outcome_def gave_up_def)
next
  case False
  then have "cj_valuestring n \<in> set (node_strs n)" by (simp add: node_strs_def)
  then have "string_at (cj_valuestring n) h = Some (S (cj_valuestring n))" using rd unfolding reads_def by blast
  then have "print_raw n p h = emit p (length (S (cj_valuestring n)) + 1) (S (cj_valuestring n) @ [0]) h"
    using False by (simp add: print_raw_def)
  then show ?thesis using False emit_printed [OF o t, of "S (cj_valuestring n)" "length (S (cj_valuestring n)) + 1"]
    by simp
qed

text \<open>The reference text has no terminator inside.\<close>

definition opt_nz :: "bytes option \<Rightarrow> bool" where
  "opt_nz x \<longleftrightarrow> (\<forall>u. x = Some u \<longrightarrow> 0 \<notin> set u)"

lemma opt_nz_if: "(c \<Longrightarrow> opt_nz x) \<Longrightarrow> (\<not> c \<Longrightarrow> opt_nz y) \<Longrightarrow> opt_nz (if c then x else y)"
  by simp

lemma opt_nz_Some: "0 \<notin> set u \<Longrightarrow> opt_nz (Some u)"
  by (simp add: opt_nz_def)

lemma opt_nz_None: "opt_nz None"
  by (simp add: opt_nz_def)

lemma text_nz:
  "\<forall>s \<in> set (strs_of [i]). 0 \<notin> set (S s) \<Longrightarrow> opt_nz (value_text S f d i)"
  "\<forall>s \<in> set (strs_of is). 0 \<notin> set (S s) \<Longrightarrow> opt_nz (elements_text S f d is)"
  "\<forall>s \<in> set (strs_of is). 0 \<notin> set (S s) \<Longrightarrow> opt_nz (members_text S f d is)"
proof (induction S f d i and S f d "is" and S f d "is" rule: value_text_elements_text_members_text.induct)
  case (1 S f d p n cs)
  have v: "cj_valuestring n \<noteq> 0 \<Longrightarrow> opt_nz (Some (S (cj_valuestring n)))"
    using "1.prems" by (intro opt_nz_Some) (simp add: node_strs_def)
  have cs: "\<forall>s \<in> set (strs_of cs). 0 \<notin> set (S s)" using "1.prems" by simp
  have e: "opt_nz (map_option (\<lambda>e. ch_lbrack # e @ [ch_rbrack]) (elements_text S f (Suc d) cs))"
    if "opt_nz (elements_text S f (Suc d) cs)" using that by (auto simp: opt_nz_def)
  have m: "opt_nz (map_option (\<lambda>e. ch_lbrace # (if f then [ch_nl] else []) @ e @
      (if f then replicate d ch_tab else []) @ [ch_rbrace]) (members_text S f (Suc d) cs))"
    if "opt_nz (members_text S f (Suc d) cs)" using that by (auto simp: opt_nz_def)
  show ?case
    unfolding value_text.simps Let_def
    by (intro opt_nz_if opt_nz_None e m opt_nz_Some number_text_nz quoted_nz "1.IH" refl cs v)
      (simp_all add: byte_simps)
next
  case (3 S f d i "is")
  have "set (strs_of (i # is)) = set (strs_of [i]) \<union> set (strs_of is)" by (cases i) auto
  then show ?case using "3.IH" "3.prems" by (auto simp: opt_nz_def bind_eq_Some_conv)
next
  case (5 S f d i "is")
  have "set (strs_of (i # is)) = set (strs_of [i]) \<union> set (strs_of is)" by (cases i) auto
  moreover have "0 \<notin> set (quoted S (cj_string (it_node i)))" by (rule quoted_nz)
  ultimately show ?case using "5.IH" "5.prems" by (auto simp: opt_nz_def bind_eq_Some_conv)
qed (simp_all add: opt_nz_def)


section \<open>Containers\<close>

lemma seg_only_buffer:
  assumes "seg h q is" and "reads h p (set (strs_of is)) S" and "only_buffer p h p' h'"
  shows "seg h' q is"
proof (rule seg_frame [OF assms(1)])
  show "\<forall>x \<in> set (nodes_of is). h_nodes h' x = h_nodes h x" using assms(3) by (simp add: only_buffer_def)
  show "\<forall>s \<in> set (strs_of is). string_at s h' \<noteq> None"
    using reads_only_buffer [OF assms(2,3)] by (auto simp: reads_def)
qed

lemma wrote_close:
  assumes o: "own_buffer p h" and b: "only_buffer p h p2 h2" "pr_depth p2 = Suc (pr_depth p)" and w: "wrote p2 h2 (t @ a) 0 (c @ [0]) m r" and m: "length c < m"
  shows "printed p h t (a @ c) (r \<bind> (\<lambda>(ok, p3, h3). if \<not> ok then Some (False, p3, h3)
    else Some (True, p3\<lparr>pr_depth := pr_depth p3 - 1\<rparr>, h3)))"
proof -
  obtain p3 h3 x where r: "r = Some (True, p3, h3)" "only_buffer p2 h2 p3 h3" "pr_depth p3 = pr_depth p2" "pr_buffer p3 \<noteq> 0"
    "h_strs h3 (pr_buffer p3) = Some x" "length (t @ a) + length (c @ [0]) \<le> length x"
    "take (length (t @ a) + length (c @ [0])) x = (t @ a) @ c @ [0]" "pr_offset p3 = length (t @ a) + 0"
    "length (t @ a) + m \<le> pr_length p3" using w unfolding wrote_def by blast
  have "only_buffer p h p3 h3" by (rule only_buffer_trans [OF o b(1) r(2)])
  then show ?thesis unfolding printed_def wrote_def
    using r b(2) m
    by (intro exI [of _ "length a"] conjI exI [of _ "p3\<lparr>pr_depth := pr_depth p3 - 1\<rparr>"] exI [of _ h3] exI [of _ x])
      (simp_all add: add.assoc)
qed

lemma close_container:
  assumes o: "own_buffer p h" and b: "only_buffer p h p2 h2" "pr_depth p2 = Suc (pr_depth p)" and t: "has_text p2 h2 (t @ a)"
    and l: "length c \<le> n" "n \<le> length c + 4" and b0: "pr_buffer p \<noteq> 0"
  shows "outcome p h t (Some (a @ c)) (emit p2 n (c @ [0]) h2 \<bind> (\<lambda>(ok, p3, h3). if \<not> ok then Some (False, p3, h3)
    else Some (True, p3\<lparr>pr_depth := pr_depth p3 - 1\<rparr>, h3)))"
  using emit_spec [OF only_buffer_own [OF b(1)] t, of "c @ [0]" n]
proof
  show "length (c @ [0]) \<le> n + 1" using l by simp
next
  assume "gave_up p2 h2 (Some (length (t @ a) + n + 1)) (emit p2 n (c @ [0]) h2)"
  then have "gave_up p2 h2 (Some (length (t @ a) + n + 1)) (emit p2 n (c @ [0]) h2 \<bind> (\<lambda>(ok, p3, h3). if \<not> ok then Some (False, p3, h3)
    else Some (True, p3\<lparr>pr_depth := pr_depth p3 - 1\<rparr>, h3)))" by (auto simp: gave_up_def)
  from gave_up_mono [OF gave_up_trans [OF o b0 b(1) this], of "need t (Some (a @ c))"] l show ?thesis by (simp add: outcome_def)
next
  assume "wrote p2 h2 (t @ a) 0 (c @ [0]) (n + 1) (emit p2 n (c @ [0]) h2)"
  from wrote_close [OF o b this] l show ?thesis by (auto simp: outcome_def)
qed

section \<open>The induction\<close>

definition value_ok :: "(ptr \<Rightarrow> bytes) \<Rightarrow> nat \<Rightarrow> bool" where
  "value_ok S k \<longleftrightarrow> (\<forall>i p h t. 3 * length (nodes_of [i]) \<le> k \<longrightarrow> own_buffer p h \<longrightarrow> has_text p h t \<longrightarrow>
     seg h (cj_next (it_node i)) [i] \<longrightarrow> reads h p (set (strs_of [i])) S \<longrightarrow>
     outcome p h t (value_text S (pr_format p) (pr_depth p) i) (print_value k (it_ptr i) p h))"

definition elements_ok :: "(ptr \<Rightarrow> bytes) \<Rightarrow> nat \<Rightarrow> bool" where
  "elements_ok S k \<longleftrightarrow> (\<forall>is p h t. 3 * length (nodes_of is) + 1 \<le> k \<longrightarrow> own_buffer p h \<longrightarrow> has_text p h t \<longrightarrow>
     seg h 0 is \<longrightarrow> reads h p (set (strs_of is)) S \<longrightarrow>
     list_outcome p h t (elements_text S (pr_format p) (pr_depth p) is) (print_elements k (first_or 0 is) p h))"

definition members_ok :: "(ptr \<Rightarrow> bytes) \<Rightarrow> nat \<Rightarrow> bool" where
  "members_ok S k \<longleftrightarrow> (\<forall>is p h t. 3 * length (nodes_of is) + 1 \<le> k \<longrightarrow> own_buffer p h \<longrightarrow> has_text p h t \<longrightarrow>
     seg h 0 is \<longrightarrow> reads h p (set (strs_of is)) S \<longrightarrow>
     list_outcome p h t (members_text S (pr_format p) (pr_depth p) is) (print_members k (first_or 0 is) p h))"

lemma value_okD:
  "value_ok S k \<Longrightarrow> 3 * length (nodes_of [i]) \<le> k \<Longrightarrow> own_buffer p h \<Longrightarrow> has_text p h t \<Longrightarrow>
    seg h (cj_next (it_node i)) [i] \<Longrightarrow> reads h p (set (strs_of [i])) S \<Longrightarrow>
    outcome p h t (value_text S (pr_format p) (pr_depth p) i) (print_value k (it_ptr i) p h)"
  by (simp only: value_ok_def)

lemma elements_okD:
  "elements_ok S k \<Longrightarrow> 3 * length (nodes_of is) + 1 \<le> k \<Longrightarrow> own_buffer p h \<Longrightarrow> has_text p h t \<Longrightarrow>
    seg h 0 is \<Longrightarrow> reads h p (set (strs_of is)) S \<Longrightarrow>
    list_outcome p h t (elements_text S (pr_format p) (pr_depth p) is) (print_elements k (first_or 0 is) p h)"
  by (simp only: elements_ok_def)

lemma members_okD:
  "members_ok S k \<Longrightarrow> 3 * length (nodes_of is) + 1 \<le> k \<Longrightarrow> own_buffer p h \<Longrightarrow> has_text p h t \<Longrightarrow>
    seg h 0 is \<Longrightarrow> reads h p (set (strs_of is)) S \<Longrightarrow>
    list_outcome p h t (members_text S (pr_format p) (pr_depth p) is) (print_members k (first_or 0 is) p h)"
  by (simp only: members_ok_def)

lemma array_result:
  assumes e: "elements_ok S k" and l: "3 * length (nodes_of cs) + 1 \<le> k" and o: "own_buffer p h" and t: "has_text p h t"
    and n: "h_nodes h q = Some n" "q \<noteq> 0" "cj_child n = first_or 0 cs" and s: "seg h 0 cs" "reads h p (set (strs_of cs)) S"
  shows "outcome p h t (map_option (\<lambda>e. ch_lbrack # e @ [ch_rbrack]) (elements_text S (pr_format p) (Suc (pr_depth p)) cs))
    (print_array (Suc k) q p h)"
proof -
  have ld: "load q h = Some n" using n by (simp add: load_def)
  have p0: "pr_buffer p \<noteq> 0" by (rule has_text_buffer [OF t])
  show ?thesis
  proof (rule emit_then [OF o t, of "[ch_lbrack]" 1 "[ch_lbrack]" "[]" 1])
    fix p1 h1
    assume a: "emit p 1 [ch_lbrack] h = Some (False, p1, h1)" "only_buffer p h p1 h1" "excuse p h h1 (length t + 1 + 1)"
    have "gave_up p h (Some (length t + 1 + 1)) (print_array (Suc k) q p h)" using a ld by (simp add: gave_up_def)
    then show ?thesis unfolding outcome_def by (intro disjI1) (erule gave_up_mono, auto simp: need_def)
  next
    fix p1 h1
    assume a: "emit p 1 [ch_lbrack] h = Some (True, p1, h1)" "only_buffer p h p1 h1" "pr_depth p1 = pr_depth p"
      "has_text (advance 1 p1) h1 (t @ [ch_lbrack])"
    let ?p = "(advance 1 p1)\<lparr>pr_depth := pr_depth p1 + 1\<rparr>"
    have s1: "seg h1 0 cs" by (rule seg_only_buffer [OF s a(2)])
    have "list_outcome ?p h1 (t @ [ch_lbrack]) (elements_text S (pr_format ?p) (pr_depth ?p) cs) (print_elements k (first_or 0 cs) ?p h1)"
      by (rule elements_okD [OF e l _ _ s1]) (use reads_only_buffer [OF s(2) a(2)] only_buffer_own [OF a(2)] a(4) in simp_all)
    moreover have "pr_format ?p = pr_format p" "pr_depth ?p = Suc (pr_depth p)"
      using only_buffer_format [OF a(2)] a(3) by simp_all
    ultimately consider "gave_up ?p h1 (need (t @ [ch_lbrack]) (elements_text S (pr_format p) (Suc (pr_depth p)) cs)) (print_elements k (first_or 0 cs) ?p h1)"
      | v p2 h2 where "elements_text S (pr_format p) (Suc (pr_depth p)) cs = Some v"
        "print_elements k (first_or 0 cs) ?p h1 = Some (True, p2, h2)" "only_buffer ?p h1 p2 h2" "pr_depth p2 = Suc (pr_depth p)"
        "has_text p2 h2 ((t @ [ch_lbrack]) @ v)"
      unfolding list_outcome_def listed_def by auto
    then show ?thesis
    proof cases
      case 1
      then have "gave_up p1 h1 (need (t @ [ch_lbrack]) (elements_text S (pr_format p) (Suc (pr_depth p)) cs)) (print_elements k (first_or 0 cs) ?p h1)" by simp
      note g = gave_up_trans [OF o p0 a(2) this]
      then have "gave_up p h (need (t @ [ch_lbrack]) (elements_text S (pr_format p) (Suc (pr_depth p)) cs)) (print_array (Suc k) q p h)"
        using ld a(1) n(3) unfolding gave_up_def by auto
      then show ?thesis unfolding outcome_def by (intro disjI1) (erule gave_up_weaken, auto simp: need_def)
    next
      case (2 v p2 h2)
      have ob: "only_buffer p h p2 h2" using only_buffer_trans [OF o a(2)] 2(3) by simp
      have "has_text p2 h2 (t @ (ch_lbrack # v))" using 2(5) by simp
      from close_container [OF o ob 2(4) this, of "[ch_rbrack]" 2] p0
      have "outcome p h t (Some ((ch_lbrack # v) @ [ch_rbrack])) (print_array (Suc k) q p h)"
        using ld a(1) n(3) 2(2) by simp
      then show ?thesis using 2(1) by simp
    qed
  qed simp_all
qed


lemma object_result:
  assumes e: "members_ok S k" and l: "3 * length (nodes_of cs) + 1 \<le> k" and o: "own_buffer p h" and t: "has_text p h t"
    and n: "h_nodes h q = Some n" "q \<noteq> 0" "cj_child n = first_or 0 cs" and s: "seg h 0 cs" "reads h p (set (strs_of cs)) S"
  shows "outcome p h t (map_option (\<lambda>e. ch_lbrace # (if pr_format p then [ch_nl] else []) @ e @
      (if pr_format p then replicate (pr_depth p) ch_tab else []) @ [ch_rbrace])
      (members_text S (pr_format p) (Suc (pr_depth p)) cs))
    (print_object (Suc k) q p h)"
proof -
  have ld: "load q h = Some n" using n by (simp add: load_def)
  let ?f = "pr_format p"
  let ?o = "if ?f then [ch_lbrace, ch_nl] else [ch_lbrace]" and ?m = "if ?f then 2 else 1 :: nat"
  let ?w = "members_text S ?f (Suc (pr_depth p)) cs"
  have p0: "pr_buffer p \<noteq> 0" by (rule has_text_buffer [OF t])
  show ?thesis
  proof (rule emit_then [OF o t, of ?o "?m + 1" ?o "[]" ?m])
    fix p1 h1
    assume a: "emit p (?m + 1) ?o h = Some (False, p1, h1)" "only_buffer p h p1 h1" "excuse p h h1 (length t + (?m + 1) + 1)"
    have "gave_up p h (Some (length t + (?m + 1) + 1)) (print_object (Suc k) q p h)" using a ld by (simp add: gave_up_def)
    then show ?thesis unfolding outcome_def by (intro disjI1) (erule gave_up_mono, auto simp: need_def)
  next
    fix p1 h1
    assume a: "emit p (?m + 1) ?o h = Some (True, p1, h1)" "only_buffer p h p1 h1" "pr_depth p1 = pr_depth p"
      "has_text (advance ?m p1) h1 (t @ ?o)"
    let ?p = "(advance ?m p1)\<lparr>pr_depth := pr_depth p1 + 1\<rparr>"
    have f1: "pr_format p1 = ?f" by (rule only_buffer_format [OF a(2)])
    have s1: "seg h1 0 cs" by (rule seg_only_buffer [OF s a(2)])
    have "list_outcome ?p h1 (t @ ?o) (members_text S (pr_format ?p) (pr_depth ?p) cs) (print_members k (first_or 0 cs) ?p h1)"
      by (rule members_okD [OF e l _ _ s1]) (use reads_only_buffer [OF s(2) a(2)] only_buffer_own [OF a(2)] a(4) in simp_all)
    moreover have "pr_format ?p = pr_format p" "pr_depth ?p = Suc (pr_depth p)" using f1 a(3) by simp_all
    ultimately consider "gave_up ?p h1 (need (t @ ?o) ?w) (print_members k (first_or 0 cs) ?p h1)"
      | v p2 h2 where "?w = Some v"
        "print_members k (first_or 0 cs) ?p h1 = Some (True, p2, h2)" "only_buffer ?p h1 p2 h2" "pr_depth p2 = Suc (pr_depth p)"
        "has_text p2 h2 ((t @ ?o) @ v)"
      unfolding list_outcome_def listed_def by auto
    then show ?thesis
    proof cases
      case 1
      then have "gave_up p1 h1 (need (t @ ?o) ?w) (print_members k (first_or 0 cs) ?p h1)" by simp
      then have "gave_up p h (need (t @ ?o) ?w) (print_members k (first_or 0 cs) ?p h1)" by (rule gave_up_trans [OF o p0 a(2)])
      then have "gave_up p h (need (t @ ?o) ?w) (print_object (Suc k) q p h)"
        unfolding gave_up_def print_object.simps ld bind.bind_lunit a(1) prod.case n(3) f1 by auto
      then show ?thesis unfolding outcome_def by (intro disjI1) (erule gave_up_weaken, auto simp: need_def)
    next
      case (2 v p2 h2)
      have ob: "only_buffer p h p2 h2" using only_buffer_trans [OF o a(2)] 2(3) by simp
      have f2: "pr_format p2 = ?f" by (rule only_buffer_format [OF ob])
      let ?c = "(if ?f then replicate (pr_depth p) ch_tab else []) @ [ch_rbrace]"
      let ?n = "if ?f then Suc (pr_depth p) + 1 else 2"
      have tx: "has_text p2 h2 (t @ (?o @ v))" using 2(5) by simp
      have "length ?c \<le> ?n" "?n \<le> length ?c + 4" by simp_all
      from close_container [OF o ob 2(4) tx this p0]
      have "outcome p h t (Some ((?o @ v) @ ?c)) (print_object (Suc k) q p h)"
        unfolding print_object.simps ld bind.bind_lunit a(1) prod.case n(3) f1 2(2,4) f2
        by (cases "pr_format p") simp_all
      then show ?thesis using 2(1) by (cases ?f) simp_all
    qed
  qed simp_all
qed

lemma value_step:
  assumes e: "\<And>j. j < k \<Longrightarrow> elements_ok S j \<and> members_ok S j"
  shows "value_ok S k"
  unfolding value_ok_def
proof (intro allI impI)
  fix i p h t
  assume l: "3 * length (nodes_of [i]) \<le> k" and o: "own_buffer p h" and t: "has_text p h t"
    and s: "seg h (cj_next (it_node i)) [i]" and rd: "reads h p (set (strs_of [i])) S"
  obtain q n cs where i: "i = Item q n cs" by (cases i)
  have n: "h_nodes h q = Some n" "q \<noteq> 0" "cj_child n = first_or 0 cs" "seg h 0 cs" using s i by simp_all
  have sub: "set (strs_of cs) \<subseteq> set (strs_of [i])" "set (node_strs n) \<subseteq> set (strs_of [i])"
    "{cj_valuestring n} - {0} \<subseteq> set (strs_of [i])" by (auto simp: i node_strs_def)
  note rc = reads_subset [OF rd sub(1)] reads_subset [OF rd sub(2)] reads_subset [OF rd sub(3)]
  obtain j where j: "k = Suc (Suc j)" "3 * length (nodes_of cs) + 1 \<le> j"
    using l i by (cases k; cases "k - 1") auto
  have ej: "elements_ok S j" "members_ok S j" using e [of j] j(1) by simp_all
  have ld: "load q h = Some n" using n by (simp add: load_def)
  have st: "outcome p h t (Some (quoted S (cj_valuestring n))) (print_string q p h)"
    using print_string_ptr_spec [OF o t rc(3)] ld by (auto simp: print_string_def outcome_def)
  have bad: "outcome p h t None (Some (False, p, h))" using only_buffer_refl [OF o] by (simp add: outcome_def gave_up_def)
  have oif: "outcome p h t (if c then u else u') (if c then r else r')"
    if "outcome p h t u r" "outcome p h t u' r'" for c u u' r r' using that by simp
  have lit: "outcome p h t (Some (str ''null'')) (emit p 5 (str ''null'' @ [0]) h)"
    "outcome p h t (Some (str ''false'')) (emit p 6 (str ''false'' @ [0]) h)"
    "outcome p h t (Some (str ''true'')) (emit p 5 (str ''true'' @ [0]) h)"
    by (rule emit_printed [OF o t], simp, simp add: str_def)+
  show "outcome p h t (value_text S (pr_format p) (pr_depth p) i) (print_value k (it_ptr i) p h)"
    unfolding i j(1) item.sel print_value.simps value_text.simps Let_def ld bind.bind_lunit
    using n(2)
    by (simp only: if_False)
      (intro oif lit print_number_spec [OF o t n(1,2), unfolded Let_def] print_raw_spec [OF o t rc(2)] st
        array_result [OF ej(1) j(2) o t n(1-4) rc(1)] object_result [OF ej(2) j(2) o t n(1-4) rc(1)] bad)
qed


lemma list_outcome_after:
  assumes o: "own_buffer p h" and p0: "pr_buffer p \<noteq> 0" and b: "only_buffer p h p1 h1" "pr_depth p1 = pr_depth p"
    and l: "list_outcome p1 h1 (t @ u) w r"
  shows "list_outcome p h t (map_option (\<lambda>v. u @ v) w) r"
  using l unfolding list_outcome_def
proof
  assume "gave_up p1 h1 (need (t @ u) w) r"
  then have "gave_up p h (need t (map_option (\<lambda>v. u @ v) w)) r"
    unfolding need_append by (rule gave_up_trans [OF o p0 b(1)])
  then show "gave_up p h (need t (map_option (\<lambda>v. u @ v) w)) r \<or> (\<exists>v. map_option (\<lambda>v. u @ v) w = Some v \<and> listed p h (t @ v) r)" ..
next
  assume "\<exists>v. w = Some v \<and> listed p1 h1 ((t @ u) @ v) r"
  then obtain v where v: "w = Some v" "listed p1 h1 ((t @ u) @ v) r" by blast
  then have "listed p h (t @ (u @ v)) r" using only_buffer_trans [OF o b(1)] b(2) by (auto simp: listed_def)
  with v(1) show "gave_up p h (need t (map_option (\<lambda>v. u @ v) w)) r \<or> (\<exists>v. map_option (\<lambda>v. u @ v) w = Some v \<and> listed p h (t @ v) r)" by simp
qed

lemma list_outcome_up:
  assumes "gave_up p h l r" and "\<And>v. w = Some v \<Longrightarrow> \<exists>n \<le> length t + length v + 5. l = Some n"
  shows "list_outcome p h t w r"
  unfolding list_outcome_def by (rule disjI1, rule gave_up_weaken [OF assms(1)]) (use assms(2) in \<open>auto simp: need_def\<close>)

lemma list_outcome_Nil: "own_buffer p h \<Longrightarrow> has_text p h t \<Longrightarrow> list_outcome p h t (Some []) (Some (True, p, h))"
  using only_buffer_refl [of p h] by (simp add: list_outcome_def listed_def)

lemma nodes_of_Cons: "nodes_of (i # is) = nodes_of [i] @ nodes_of is" "1 \<le> length (nodes_of [i])"
  by (cases i, simp)+

lemma strs_of_Cons: "strs_of (i # is) = strs_of [i] @ strs_of is"
  by (cases i) simp

lemma seg_Cons: "seg h q (i # is) \<longleftrightarrow> seg h (first_or q is) [i] \<and> seg h q is"
  by (cases i) auto

lemma seg_single: "seg h q [i] \<Longrightarrow> cj_next (it_node i) = q \<and> h_nodes h (it_ptr i) = Some (it_node i) \<and> it_ptr i \<noteq> 0"
  by (cases i) auto

text \<open>Sequencing: a value or an \<open>emit\<close>, then the rest.\<close>

lemma value_bind:
  assumes o: "own_buffer p h" and p0: "pr_buffer p \<noteq> 0" and v: "outcome p h t u r" and nz: "opt_nz u"
    and k: "\<And>p2 h2 a. u = Some a \<Longrightarrow> only_buffer p h p2 h2 \<Longrightarrow> pr_depth p2 = pr_depth p \<Longrightarrow> has_text p2 h2 (t @ a) \<Longrightarrow>
      list_outcome p2 h2 (t @ a) w (K p2 h2)"
  shows "list_outcome p h t (u \<bind> (\<lambda>a. map_option (\<lambda>b. a @ b) w))
    (r \<bind> (\<lambda>(ok, p1, h1). if \<not> ok then Some (False, p1, h1) else update_offset p1 h1 \<bind> (\<lambda>p2. K p2 h1)))"
  using v unfolding outcome_def
proof (elim disjE exE conjE)
  assume "gave_up p h (need t u) r"
  then have "gave_up p h (need t u) (r \<bind> (\<lambda>(ok, p1, h1). if \<not> ok then Some (False, p1, h1) else update_offset p1 h1 \<bind> (\<lambda>p2. K p2 h1)))"
    by (auto simp: gave_up_def)
  then show ?thesis by (rule list_outcome_up) (auto simp: bind_eq_Some_conv)
next
  fix a assume a: "u = Some a" "printed p h t a r"
  have "0 \<notin> set a" using nz a(1) by (simp add: opt_nz_def)
  with a(2) show ?thesis
  proof (rule printed_update)
    fix p1 h1
    assume x: "r = Some (True, p1, h1)" "only_buffer p h p1 h1" "pr_depth p1 = pr_depth p"
      "update_offset p1 h1 = Some (p1\<lparr>pr_offset := length (t @ a)\<rparr>)" "has_text (p1\<lparr>pr_offset := length (t @ a)\<rparr>) h1 (t @ a)"
    let ?p = "p1\<lparr>pr_offset := length (t @ a)\<rparr>"
    have ob: "only_buffer p h ?p h1" "pr_depth ?p = pr_depth p" using x(2,3) by simp_all
    show ?thesis
      using list_outcome_after [OF o p0 ob k [OF a(1) ob x(5)]] x(1,4) a(1) by simp
  qed
qed

lemma emit_bind:
  assumes o: "own_buffer p h" and t: "has_text p h t" and l: "length cs \<le> n + 1" "length us \<le> n" "n \<le> length us + 4" and c: "cs = us @ vs"
    and k: "\<And>p1 h1. only_buffer p h p1 h1 \<Longrightarrow> pr_depth p1 = pr_depth p \<Longrightarrow> has_text (advance (length us) p1) h1 (t @ us) \<Longrightarrow>
      list_outcome (advance (length us) p1) h1 (t @ us) w (K p1 h1)"
  shows "list_outcome p h t (map_option (\<lambda>b. us @ b) w)
    (emit p n cs h \<bind> (\<lambda>(ok, p1, h1). if \<not> ok then Some (False, p1, h1) else K p1 h1))"
proof (rule emit_then [OF o t l(1,2) c refl])
  fix p1 h1 assume "emit p n cs h = Some (False, p1, h1)" "only_buffer p h p1 h1" "excuse p h h1 (length t + n + 1)"
  then show ?thesis using l(3) by (intro list_outcome_up [of p h "Some (length t + n + 1)"]) (auto simp: gave_up_def)
next
  fix p1 h1
  assume x: "emit p n cs h = Some (True, p1, h1)" "only_buffer p h p1 h1" "pr_depth p1 = pr_depth p"
    "has_text (advance (length us) p1) h1 (t @ us)"
  have ob: "only_buffer p h (advance (length us) p1) h1" "pr_depth (advance (length us) p1) = pr_depth p" using x(2,3) by simp_all
  show ?thesis using list_outcome_after [OF o has_text_buffer [OF t] ob k [OF x(2,3,4)]] x(1) by simp
qed

lemma elements_step:
  assumes v: "value_ok S j" and e: "elements_ok S j"
  shows "elements_ok S (Suc j)"
  unfolding elements_ok_def
proof (intro allI impI)
  fix "is" p h t
  assume l: "3 * length (nodes_of is) + 1 \<le> Suc j" and o: "own_buffer p h" and t: "has_text p h t"
    and s: "seg h 0 is" and rd: "reads h p (set (strs_of is)) S"
  show "list_outcome p h t (elements_text S (pr_format p) (pr_depth p) is) (print_elements (Suc j) (first_or 0 is) p h)"
  proof (cases "is")
    case Nil
    then show ?thesis using list_outcome_Nil [OF o t] by simp
  next
    case (Cons i js)
    define f d q n where fd: "f = pr_format p" "d = pr_depth p" "q = it_ptr i" "n = it_node i"
    have si: "seg h (first_or 0 js) [i]" and sj: "seg h 0 js" using seg_Cons [of h 0 i js] s unfolding Cons by blast+
    note i = seg_single [OF si]
    have ri: "reads h p (set (strs_of [i])) S" and rj: "reads h p (set (strs_of js)) S"
      using reads_subset [OF rd] strs_of_Cons [of i js] unfolding Cons by (metis set_append Un_upper1 Un_upper2)+
    have li: "3 * length (nodes_of [i]) \<le> j" and lj: "3 * length (nodes_of js) + 1 \<le> j"
      using l nodes_of_Cons(1) [of i js] nodes_of_Cons(2) [of i] Cons by simp_all
    have q0: "q \<noteq> 0" "cj_next n = first_or 0 js" using i fd by simp_all
    have nj: "first_or 0 js \<noteq> 0 \<longleftrightarrow> js \<noteq> []" using seg_first [OF sj, of 0] by (cases js) auto
    have vo: "outcome p h t (value_text S f d i) (print_value j q p h)"
      unfolding fd by (rule value_okD [OF v li o t _ ri]) (use si i in simp)
    have "\<forall>s \<in> set (strs_of [i]). 0 \<notin> set (S s)" using reads_nz [OF ri] by blast
    then have nz: "opt_nz (value_text S f d i)" by (rule text_nz(1))
    define sep where "sep = (if js = [] then [] else if f then [ch_comma, ch_space] else [ch_comma])"
    define tail where "tail p2 h1 = (do {
          m \<leftarrow> load q h1;
          if cj_next m \<noteq> 0 then do {
            (ok2, p3, h2) \<leftarrow> emit p2 ((if pr_format p2 then 2 else 1) + 1)
              (if pr_format p2 then [ch_comma, ch_space, 0] else [ch_comma, 0]) h1;
            if \<not> ok2 then Some (False, p3, h2)
            else print_elements j (cj_next m) (advance (if pr_format p3 then 2 else 1) p3) h2 }
          else print_elements j (cj_next m) p2 h1 })" for p2 h1
    have rest: "list_outcome p3 h3 T (elements_text S f d js) (print_elements j (first_or 0 js) p3 h3)"
      if ob: "only_buffer p h p3 h3" and d3: "pr_depth p3 = d" and T: "has_text p3 h3 T" for p3 h3 T
      using elements_okD [OF e lj only_buffer_own [OF ob] T seg_only_buffer [OF sj rj ob] reads_only_buffer [OF rj ob]]
        only_buffer_format [OF ob] d3 fd by simp
    have tl: "list_outcome p2 h1 T (map_option (\<lambda>b. sep @ b) (elements_text S f d js)) (tail p2 h1)"
      if ob: "only_buffer p h p2 h1" and d2: "pr_depth p2 = d" and T: "has_text p2 h1 T" for p2 h1 T
    proof -
      have f2: "pr_format p2 = f" using only_buffer_format [OF ob] fd by simp
      have ld: "load q h1 = Some n" using ob i q0(1) unfolding fd by (simp add: load_def only_buffer_def)
      show ?thesis
      proof (cases "js = []")
        case True
        then have "tail p2 h1 = print_elements j (first_or 0 js) p2 h1"
          unfolding tail_def ld bind.bind_lunit q0(2) using nj by simp
        then show ?thesis using rest [OF ob d2 T] True by (simp add: sep_def)
      next
        case False
        have "tail p2 h1 = emit p2 (length sep + 1) (sep @ [0]) h1 \<bind> (\<lambda>(ok2, p3, h2).
            if \<not> ok2 then Some (False, p3, h2)
            else print_elements j (first_or 0 js) (advance (if pr_format p3 then 2 else 1) p3) h2)"
          unfolding tail_def ld bind.bind_lunit q0(2) f2 using False nj by (cases f) (simp_all add: sep_def numeral_2_eq_2 numeral_3_eq_3)
        moreover have "list_outcome p2 h1 T (map_option (\<lambda>b. sep @ b) (elements_text S f d js))
            (emit p2 (length sep + 1) (sep @ [0]) h1 \<bind> (\<lambda>(ok2, p3, h2).
              if \<not> ok2 then Some (False, p3, h2)
              else print_elements j (first_or 0 js) (advance (if pr_format p3 then 2 else 1) p3) h2))"
        proof (rule emit_bind [OF only_buffer_own [OF ob] T _ _ _ refl])
          fix p3 h2
          assume x: "only_buffer p2 h1 p3 h2" "pr_depth p3 = pr_depth p2" "has_text (advance (length sep) p3) h2 (T @ sep)"
          have ob3: "only_buffer p h (advance (length sep) p3) h2" using only_buffer_trans [OF o ob x(1)] by simp
          have "(if pr_format p3 then 2 else 1) = length sep"
            using only_buffer_format [OF ob3] fd(1) False by (simp add: sep_def)
          then show "list_outcome (advance (length sep) p3) h2 (T @ sep) (elements_text S f d js)
              (print_elements j (first_or 0 js) (advance (if pr_format p3 then 2 else 1) p3) h2)"
            using rest [OF ob3 _ x(3)] x(2) d2 by simp
        qed simp_all
        ultimately show ?thesis by simp
      qed
    qed
    have "list_outcome p h t (value_text S f d i \<bind> (\<lambda>a. map_option (\<lambda>b. a @ b) (map_option (\<lambda>b. sep @ b) (elements_text S f d js))))
      (print_value j q p h \<bind> (\<lambda>(ok, p1, h1). if \<not> ok then Some (False, p1, h1) else update_offset p1 h1 \<bind> (\<lambda>p2. tail p2 h1)))"
    proof (rule value_bind [OF o has_text_buffer [OF t] vo nz])
      fix p2 h2 a
      assume "only_buffer p h p2 h2" "pr_depth p2 = pr_depth p" "has_text p2 h2 (t @ a)"
      then show "list_outcome p2 h2 (t @ a) (map_option (\<lambda>b. sep @ b) (elements_text S f d js)) (tail p2 h2)"
        using tl fd(2) by simp
    qed
    moreover have "elements_text S f d is = (value_text S f d i \<bind> (\<lambda>a. map_option (\<lambda>b. a @ b) (map_option (\<lambda>b. sep @ b) (elements_text S f d js))))"
      unfolding Cons elements_text.simps sep_def
      by (cases "value_text S f d i"; cases "elements_text S f d js") simp_all
    moreover have "print_elements (Suc j) q p h =
      (print_value j q p h \<bind> (\<lambda>(ok, p1, h1). if \<not> ok then Some (False, p1, h1) else update_offset p1 h1 \<bind> (\<lambda>p2. tail p2 h1)))"
      unfolding print_elements.simps tail_def using q0(1) by (simp only: if_False)
    ultimately show ?thesis unfolding fd Cons first_or_simps by simp
  qed
qed

lemma members_step:
  assumes v: "value_ok S j" and e: "members_ok S j"
  shows "members_ok S (Suc j)"
  unfolding members_ok_def
proof (intro allI impI)
  fix "is" p h t
  assume l: "3 * length (nodes_of is) + 1 \<le> Suc j" and o: "own_buffer p h" and t: "has_text p h t"
    and s: "seg h 0 is" and rd: "reads h p (set (strs_of is)) S"
  show "list_outcome p h t (members_text S (pr_format p) (pr_depth p) is) (print_members (Suc j) (first_or 0 is) p h)"
  proof (cases "is")
    case Nil
    then show ?thesis using list_outcome_Nil [OF o t] by simp
  next
    case (Cons i js)
    define f d q n where fd: "f = pr_format p" "d = pr_depth p" "q = it_ptr i" "n = it_node i"
    have si: "seg h (first_or 0 js) [i]" and sj: "seg h 0 js" using seg_Cons [of h 0 i js] s unfolding Cons by blast+
    note i = seg_single [OF si]
    have ri: "reads h p (set (strs_of [i])) S" and rj: "reads h p (set (strs_of js)) S"
      using reads_subset [OF rd] strs_of_Cons [of i js] unfolding Cons by (metis set_append Un_upper1 Un_upper2)+
    have "{cj_string n} - {0} \<subseteq> set (strs_of [i])" unfolding fd by (cases i) (auto simp: node_strs_def)
    then have rn: "reads h p ({cj_string n} - {0}) S" by (rule reads_subset [OF ri])
    have li: "3 * length (nodes_of [i]) \<le> j" and lj: "3 * length (nodes_of js) + 1 \<le> j"
      using l nodes_of_Cons(1) [of i js] nodes_of_Cons(2) [of i] Cons by simp_all
    have q0: "q \<noteq> 0" "cj_next n = first_or 0 js" using i fd by simp_all
    have ld: "load q h' = Some n" if "only_buffer p h p' h'" for p' h'
      using that i q0(1) unfolding fd by (simp add: load_def only_buffer_def)
    define sep where "sep = (if js = [] then [] else [ch_comma]) @ (if f then [ch_nl] else [])"
    define tail where "tail p6 h5 = (do {
        m \<leftarrow> load q h5;
        let len = (if pr_format p6 then 1 else 0) + (if cj_next m \<noteq> 0 then 1 else 0);
        (ok7, p7, h7) \<leftarrow> emit p6 (len + 1)
          ((if cj_next m \<noteq> 0 then [ch_comma] else []) @ (if pr_format p6 then [ch_nl] else []) @ [0]) h5;
        if \<not> ok7 then Some (False, p7, h7) else print_members j (cj_next m) (advance len p7) h7 })" for p6 h5
    have tl: "list_outcome p6 h5 T (map_option (\<lambda>b. sep @ b) (members_text S f d js)) (tail p6 h5)"
      if ob: "only_buffer p h p6 h5" and d6: "pr_depth p6 = d" and T: "has_text p6 h5 T" for p6 h5 T
    proof -
      have f6: "pr_format p6 = f" using only_buffer_format [OF ob] fd by simp
      have nj: "first_or 0 js \<noteq> 0 \<longleftrightarrow> js \<noteq> []" using seg_first [OF sj, of 0] by (cases js) auto
      have ls: "(if f then 1 else 0) + (if js \<noteq> [] then 1 else 0) = length sep" by (simp add: sep_def)
      have unf: "tail p6 h5 = emit p6 (length sep + 1) (sep @ [0]) h5 \<bind> (\<lambda>(ok7, p7, h7).
          if \<not> ok7 then Some (False, p7, h7) else print_members j (first_or 0 js) (advance (length sep) p7) h7)"
        unfolding tail_def ld [OF ob] bind.bind_lunit Let_def q0(2) nj f6 ls by (simp add: sep_def)
      show ?thesis unfolding unf
      proof (rule emit_bind [OF only_buffer_own [OF ob] T _ _ _ refl])
        fix p7 h7
        assume x: "only_buffer p6 h5 p7 h7" "pr_depth p7 = pr_depth p6" "has_text (advance (length sep) p7) h7 (T @ sep)"
        have ob7: "only_buffer p h p7 h7" by (rule only_buffer_trans [OF o ob x(1)])
        have "list_outcome (advance (length sep) p7) h7 (T @ sep)
            (members_text S (pr_format (advance (length sep) p7)) (pr_depth (advance (length sep) p7)) js)
            (print_members j (first_or 0 js) (advance (length sep) p7) h7)"
          by (rule members_okD [OF e lj _ x(3)])
            (use only_buffer_own [OF ob7] seg_only_buffer [OF sj rj ob7] reads_only_buffer [OF rj ob7] in simp_all)
        then show "list_outcome (advance (length sep) p7) h7 (T @ sep) (members_text S f d js)
            (print_members j (first_or 0 js) (advance (length sep) p7) h7)"
          using only_buffer_format [OF ob7] x(2) d6 fd by simp
      qed simp_all
    qed
    define col where "col = (if f then [ch_colon, ch_tab] else [ch_colon])"
    define rest1 where "rest1 p3 h2 = (do {
        (ok4, p4, h4) \<leftarrow> emit p3 (if pr_format p3 then 2 else 1) (if pr_format p3 then [ch_colon, ch_tab] else [ch_colon]) h2;
        if \<not> ok4 then Some (False, p4, h4)
        else do {
        (ok5, p5, h5) \<leftarrow> print_value j q (advance (if pr_format p4 then 2 else 1) p4) h4;
        if \<not> ok5 then Some (False, p5, h5)
        else do { p6 \<leftarrow> update_offset p5 h5; tail p6 h5 } } })" for p3 h2
    let ?w = "value_text S f d i \<bind> (\<lambda>a. map_option (\<lambda>b. a @ b) (map_option (\<lambda>b. sep @ b) (members_text S f d js)))"
    have r1: "list_outcome p3 h2 T (map_option (\<lambda>b. col @ b) ?w) (rest1 p3 h2)"
      if ob: "only_buffer p h p3 h2" and d3: "pr_depth p3 = d" and T: "has_text p3 h2 T" for p3 h2 T
    proof -
      have f3: "pr_format p3 = f" using only_buffer_format [OF ob] fd by simp
      have lc: "length col = (if f then 2 else 1)" by (simp add: col_def)
      have unf: "rest1 p3 h2 = emit p3 (length col) col h2 \<bind> (\<lambda>(ok4, p4, h4).
          if \<not> ok4 then Some (False, p4, h4)
          else print_value j q (advance (if pr_format p4 then 2 else 1) p4) h4 \<bind> (\<lambda>(ok5, p5, h5).
            if \<not> ok5 then Some (False, p5, h5) else update_offset p5 h5 \<bind> (\<lambda>p6. tail p6 h5)))"
        unfolding rest1_def f3 lc by (simp only: col_def)
      show ?thesis unfolding unf
      proof (rule emit_bind [OF only_buffer_own [OF ob] T, where vs = "[]"])
        fix p4 h4
        assume x: "only_buffer p3 h2 p4 h4" "pr_depth p4 = pr_depth p3" "has_text (advance (length col) p4) h4 (T @ col)"
        have ob4: "only_buffer p h p4 h4" by (rule only_buffer_trans [OF o ob x(1)])
        have f4: "pr_format p4 = f" using only_buffer_format [OF ob4] fd by simp
        let ?p = "advance (length col) p4"
        have o4: "own_buffer ?p h4" using only_buffer_own [OF ob4] by simp
        have sg: "seg h4 (cj_next (it_node i)) [i]" using seg_only_buffer [OF si ri ob4] i by simp
        have "outcome ?p h4 (T @ col) (value_text S (pr_format ?p) (pr_depth ?p) i) (print_value j (it_ptr i) ?p h4)"
          by (rule value_okD [OF v li o4 x(3) sg]) (use reads_only_buffer [OF ri ob4] in simp)
        then have ov: "outcome ?p h4 (T @ col) (value_text S f d i) (print_value j q ?p h4)"
          using f4 x(2) d3 fd(3) by simp
        have "\<forall>s \<in> set (strs_of [i]). 0 \<notin> set (S s)" using reads_nz [OF ri] by blast
        then have nz: "opt_nz (value_text S f d i)" by (rule text_nz(1))
        have "list_outcome ?p h4 (T @ col) ?w (print_value j q ?p h4 \<bind> (\<lambda>(ok5, p5, h5).
            if \<not> ok5 then Some (False, p5, h5) else update_offset p5 h5 \<bind> (\<lambda>p6. tail p6 h5)))"
        proof (rule value_bind [OF o4 has_text_buffer [OF x(3)] ov nz])
          fix p2 h2' a
          assume y: "only_buffer ?p h4 p2 h2'" "pr_depth p2 = pr_depth ?p" "has_text p2 h2' ((T @ col) @ a)"
          have y1: "only_buffer p4 h4 p2 h2'" using y(1) by simp
          show "list_outcome p2 h2' ((T @ col) @ a) (map_option (\<lambda>b. sep @ b) (members_text S f d js)) (tail p2 h2')"
            by (rule tl [OF only_buffer_trans [OF o ob4 y1] _ y(3)]) (use y(2) x(2) d3 in simp)
        qed
        then show "list_outcome (advance (length col) p4) h4 (T @ col) ?w
          (print_value j q (advance (if pr_format p4 then 2 else 1) p4) h4 \<bind> (\<lambda>(ok5, p5, h5).
            if \<not> ok5 then Some (False, p5, h5) else update_offset p5 h5 \<bind> (\<lambda>p6. tail p6 h5)))"
          unfolding f4 lc .
      qed simp_all
    qed
    define rest2 where "rest2 p1 h0 = (do {
        (ok2, p2, h2) \<leftarrow> print_string_ptr (cj_string n) p1 h0;
        if \<not> ok2 then Some (False, p2, h2) else do { p3 \<leftarrow> update_offset p2 h2; rest1 p3 h2 } })" for p1 h0
    have r2: "list_outcome p1 h0 T (Some (quoted S (cj_string n)) \<bind> (\<lambda>a. map_option (\<lambda>b. a @ b) (map_option (\<lambda>b. col @ b) ?w))) (rest2 p1 h0)"
      if ob: "only_buffer p h p1 h0" and d1: "pr_depth p1 = d" and T: "has_text p1 h0 T" for p1 h0 T
      unfolding rest2_def
    proof (rule value_bind [OF only_buffer_own [OF ob] has_text_buffer [OF T]])
      show "outcome p1 h0 T (Some (quoted S (cj_string n))) (print_string_ptr (cj_string n) p1 h0)"
        using print_string_ptr_spec [OF only_buffer_own [OF ob] T reads_only_buffer [OF rn ob]] by (simp add: outcome_def)
      show "opt_nz (Some (quoted S (cj_string n)))" by (rule opt_nz_Some [OF quoted_nz])
    next
      fix p2 h2 a
      assume y: "only_buffer p1 h0 p2 h2" "pr_depth p2 = pr_depth p1" "has_text p2 h2 (T @ a)"
      show "list_outcome p2 h2 (T @ a) (map_option (\<lambda>b. col @ b) ?w) (rest1 p2 h2)"
        by (rule r1 [OF only_buffer_trans [OF o ob y(1)] _ y(3)]) (use y(2) d1 in simp)
    qed
    define tabs where "tabs = (if f then replicate d ch_tab else [])"
    let ?w2 = "Some (quoted S (cj_string n)) \<bind> (\<lambda>a. map_option (\<lambda>b. a @ b) (map_option (\<lambda>b. col @ b) ?w))"
    have fin: "list_outcome p h t (map_option (\<lambda>b. tabs @ b) ?w2) (print_members (Suc j) q p h)"
    proof (cases f)
      case False
      then have pf: "\<not> pr_format p" using fd(1) by simp
      have "print_members (Suc j) q p h = rest2 p h"
        unfolding print_members.simps rest2_def rest1_def tail_def using pf q0(1) ld [OF only_buffer_refl [OF o]]
        by (simp only: if_False bind.bind_lunit prod.case Let_def simp_thms)
      moreover have "tabs = []" using False by (simp add: tabs_def)
      ultimately show ?thesis using r2 [OF only_buffer_refl [OF o] _ t] fd(2)
        by (simp only: append_Nil option.map_ident)
    next
      case True
      then have pf: "pr_format p" using fd(1) by simp
      have lt: "pr_depth p = length tabs" "replicate (pr_depth p) ch_tab = tabs" using True fd(2) by (simp_all add: tabs_def)
      have "list_outcome p h t (map_option (\<lambda>b. tabs @ b) ?w2)
          (emit p (length tabs) tabs h \<bind> (\<lambda>(ok0, p0, h0). if \<not> ok0 then Some (False, p0, h0)
            else rest2 (advance (length tabs) p0) h0))"
      proof (rule emit_bind [OF o t, where vs = "[]"])
        fix p1 h1
        assume x: "only_buffer p h p1 h1" "pr_depth p1 = pr_depth p" "has_text (advance (length tabs) p1) h1 (t @ tabs)"
        show "list_outcome (advance (length tabs) p1) h1 (t @ tabs) ?w2 (rest2 (advance (length tabs) p1) h1)"
          by (rule r2 [OF _ _ x(3)]) (use x(1,2) fd(2) in simp_all)
      qed simp_all
      moreover have "print_members (Suc j) q p h = emit p (length tabs) tabs h \<bind> (\<lambda>(ok0, p0, h0).
          if \<not> ok0 then Some (False, p0, h0) else rest2 (advance (length tabs) p0) h0)"
      proof (rule emit_then [OF o t, of tabs "length tabs" tabs "[]" "length tabs"])
        fix p0 h0 assume "emit p (length tabs) tabs h = Some (False, p0, h0)"
        then show ?thesis unfolding print_members.simps using pf q0(1) lt by simp
      next
        fix p0 h0
        assume x: "emit p (length tabs) tabs h = Some (True, p0, h0)" "only_buffer p h p0 h0" "pr_depth p0 = pr_depth p"
        have p0: "pr_format p0" "pr_depth p0 = length tabs" using only_buffer_format [OF x(2)] pf x(3) lt(1) by simp_all
        have "load q h0 = Some n" by (rule ld [OF x(2)])
        then show ?thesis
          unfolding print_members.simps rest2_def rest1_def tail_def using pf q0(1) lt x(1) p0
          by (simp only: if_True if_False bind.bind_lunit prod.case Let_def simp_thms)
      qed simp_all
      ultimately show ?thesis by simp
    qed
    have "map_option (\<lambda>b. tabs @ b) ?w2 = members_text S (pr_format p) (pr_depth p) is"
      unfolding Cons members_text.simps fd [symmetric] tabs_def col_def sep_def
      by (cases "value_text S f d i"; cases "members_text S f d js") simp_all
    then show ?thesis using fin unfolding Cons first_or_simps fd(3) by (simp only:)
  qed
qed

theorem print_functions_ok: "value_ok S k \<and> elements_ok S k \<and> members_ok S k"
proof (induction k rule: less_induct)
  case (less k)
  have v: "value_ok S k" by (rule value_step) (use less in blast)
  show ?case
  proof (cases k)
    case 0
    then show ?thesis using v by (simp add: elements_ok_def members_ok_def)
  next
    case (Suc j)
    then have "value_ok S j" "elements_ok S j" "members_ok S j" using less [of j] by simp_all
    then show ?thesis using v elements_step members_step Suc by blast
  qed
qed

end
