(* ===== verification/CJson_Print_Claims.thy ===== *)
theory CJson_Print_Claims
  imports CJson_Print_Ok CJson_Claims
begin

text \<open>
  The properties of the printer: what \<open>cJSON_Print\<close>, \<open>cJSON_PrintUnformatted\<close> and
  \<open>cJSON_PrintPreallocated\<close> answer is the reference text of the tree, or nothing, and
  apart from the buffer they leave memory as it was.
\<close>

section \<open>The entry points\<close>

definition texts :: "heap \<Rightarrow> ptr \<Rightarrow> bytes" where
  "texts h s = (case string_at s h of None \<Rightarrow> [] | Some t \<Rightarrow> t)"

text \<open>A tree that can be printed: an item with all that is below it.\<close>

definition printable :: "heap \<Rightarrow> item \<Rightarrow> bool" where
  "printable h i \<longleftrightarrow> fresh_ok h \<and> seg h (cj_next (it_node i)) [i]"

lemma string_at_fresh:
  assumes "fresh_ok h" and "string_at s h \<noteq> None"
  shows "s \<noteq> 0 \<and> s < h_fresh h"
proof -
  have "s \<noteq> 0" "h_strs h s \<noteq> None" using assms(2) by (auto simp: string_at_def block_def split: if_splits option.splits)
  moreover have "h_strs h s = None" if "h_fresh h \<le> s" using assms(1) that by (simp add: fresh_ok_def)
  ultimately show ?thesis by (meson not_le)
qed

lemma printable_reads:
  assumes "printable h i" and "h_fresh h \<le> h_fresh h1" and "\<forall>s. s < h_fresh h \<longrightarrow> h_strs h1 s = h_strs h s"
    and "pr_buffer p \<notin> set (strs_of [i])"
  shows "reads h1 p (set (strs_of [i])) (texts h)"
  unfolding reads_def
proof (intro ballI)
  fix s
  assume s: "s \<in> set (strs_of [i])"
  moreover have sg: "fresh_ok h" "seg h (cj_next (it_node i)) [i]" using assms(1) by (simp_all add: printable_def)
  ultimately have "fresh_ok h" "string_at s h \<noteq> None" using seg_strings [OF sg(2)] by blast+
  then have f: "s \<noteq> 0" "s < h_fresh h" "string_at s h = Some (texts h s)"
    using string_at_fresh by (auto simp: texts_def)
  then have "string_at s h1 = Some (texts h s)" using assms(3) by (simp add: string_at_def block_def)
  then show "s \<noteq> 0 \<and> s \<noteq> pr_buffer p \<and> s < h_fresh h1 \<and> string_at s h1 = Some (texts h s)"
    using f s assms(2,4) by auto
qed

lemma value_printed:
  assumes "3 * length (nodes_of [i]) \<le> fuel" and "own_buffer p h" and "has_text p h []" and "pr_depth p = 0"
    and "seg h (cj_next (it_node i)) [i]" and "reads h p (set (strs_of [i])) S"
  shows "outcome p h [] (value_text S (pr_format p) 0 i) (print_value fuel (it_ptr i) p h)"
  using value_okD [of S fuel i p h "[]"] print_functions_ok [of S fuel] assms by simp

lemma printed_nz:
  assumes "value_text S f d i = Some u" and "reads h p (set (strs_of [i])) S"
  shows "0 \<notin> set u"
proof -
  have "\<forall>s \<in> set (strs_of [i]). 0 \<notin> set (S s)" using reads_nz [OF assms(2)] by blast
  then show ?thesis using text_nz(1) [of i S f d] assms(1) by (simp add: opt_nz_def)
qed

text \<open>What \<open>print\<close> may answer: 0 and the memory as before, or a new block with the text.\<close>

definition print_answer :: "heap \<Rightarrow> bytes option \<Rightarrow> (ptr \<times> heap) option \<Rightarrow> bool" where
  "print_answer h u r \<longleftrightarrow> (\<exists>s h'. r = Some (s, h') \<and> h_nodes h' = h_nodes h \<and>
     (s = 0 \<and> (\<forall>q. block q h' = block q h) \<and> (refused h h' \<or> (\<forall>t. u = Some t \<longrightarrow> INT_MAX < int (length t + 5))) \<or>
      s \<noteq> 0 \<and> block s h = None \<and> fresh_ok h' \<and> h_grants h' = h_grants h \<and>
        (\<exists>t. u = Some t \<and> block s h' = Some (t @ [0]) \<and> (\<forall>q. q \<noteq> s \<longrightarrow> block q h' = block q h))))"

text \<open>Memory with one more block than before, at \<open>s\<close>.\<close>

definition extra :: "heap \<Rightarrow> ptr \<Rightarrow> heap \<Rightarrow> bool" where
  "extra h s h' \<longleftrightarrow> h_nodes h' = h_nodes h \<and> block s h = None \<and> (\<forall>q. q \<noteq> s \<longrightarrow> block q h' = block q h)"

lemma extra_same: "h_nodes h1 = h_nodes h2 \<Longrightarrow> h_strs h1 = h_strs h2 \<Longrightarrow> extra h s h1 = extra h s h2"
  by (simp add: extra_def block_def)

lemma extra_freed:
  assumes "extra h s h'" and "s = 0 \<or> block s h' \<noteq> None"
  shows "\<exists>h2. deallocate s h' = Some h2 \<and> h_nodes h2 = h_nodes h \<and> (\<forall>q. block q h2 = block q h) \<and> h_count h2 = h_count h'"
  using assms by (auto simp: extra_def deallocate_def block_def split: if_splits)

lemma extra_only_buffer:
  assumes o: "own_buffer p h0" and e: "extra h (pr_buffer p) h0" and ob: "only_buffer p h0 p1 h1"
    and f: "fresh_ok h" "h_fresh h \<le> h_fresh h0"
  shows "extra h (pr_buffer p1) h1" and "pr_buffer p1 = 0 \<or> block (pr_buffer p1) h1 \<noteq> None"
proof -
  have n: "block (pr_buffer p1) h = None"
    using e ob f by (cases "pr_buffer p1 = pr_buffer p") (auto simp: extra_def only_buffer_def block_def fresh_ok_def)
  moreover have "block q h1 = block q h" if "q \<noteq> pr_buffer p1" for q
  proof (cases "q = pr_buffer p")
    case True
    then show ?thesis using that ob e by (simp add: only_buffer_def extra_def block_def)
  next
    case False
    then have "h_strs h1 q = h_strs h0 q" using that ob by (simp add: only_buffer_def)
    then have "block q h1 = block q h0" by (simp add: block_def)
    then show ?thesis using False e by (simp add: extra_def)
  qed
  ultimately show "extra h (pr_buffer p1) h1" using e ob by (simp add: extra_def only_buffer_def)
  show "pr_buffer p1 = 0 \<or> block (pr_buffer p1) h1 \<noteq> None"
    using only_buffer_own [OF ob] by (auto simp: own_buffer_def block_def)
qed

lemma print_fail_answer:
  assumes "extra h (pr_buffer p1) h1" and "pr_buffer p1 = 0 \<or> block (pr_buffer p1) h1 \<noteq> None"
    and "refused h h1 \<or> (\<forall>t. u = Some t \<longrightarrow> INT_MAX < int (length t + 5))"
  shows "print_answer h u (print_fail p1 0 h1)"
proof -
  obtain h2 where h2: "deallocate (pr_buffer p1) h1 = Some h2" "h_nodes h2 = h_nodes h" "\<forall>q. block q h2 = block q h" "h_count h2 = h_count h1"
    using extra_freed [OF assms(1,2)] by blast
  have "refused h h2 = refused h h1" using h2(4) by (simp add: refused_def)
  moreover have "print_fail p1 0 h1 = Some (0, h2)" using h2(1) by (cases "pr_buffer p1 = 0") (simp_all add: print_fail_def deallocate_def)
  ultimately show ?thesis using h2(2,3) assms(3) unfolding print_answer_def by (intro exI [of _ 0] exI [of _ h2]) simp
qed

text \<open>The copy into a block of the right size, with and without \<open>realloc\<close>.\<close>

lemma has_text_block:
  assumes "printed p h [] u r" and "0 \<notin> set u"
  obtains p1 h1 b where "r = Some (True, p1, h1)" "only_buffer p h p1 h1"
    "update_offset p1 h1 = Some (p1\<lparr>pr_offset := length u\<rparr>)" "pr_buffer p1 \<noteq> 0" "h_strs h1 (pr_buffer p1) = Some (u @ 0 # b)"
    "length u + 1 \<le> pr_length p1"
proof -
  obtain k where k: "k \<le> length u" "wrote p h [] k (u @ [0]) (length u + 1) r" using assms(1) by (auto simp: printed_def)
  obtain p1 h1 b where w: "r = Some (True, p1, h1)" "only_buffer p h p1 h1" "pr_buffer p1 \<noteq> 0"
    "h_strs h1 (pr_buffer p1) = Some b" "take (length u + 1) b = u @ [0]" "length u + 1 \<le> pr_length p1"
    using k(2) by (auto simp: wrote_def)
  have "b = u @ 0 # drop (length u + 1) b" using w(5) by (metis append_take_drop_id append.assoc append_Cons append_Nil)
  moreover have "update_offset p1 h1 = Some (p1\<lparr>pr_offset := length u\<rparr>)"
    using printed_update [OF assms] w(1) by auto
  ultimately show thesis using w that by metis
qed


lemma shrunk_answer:
  assumes f: "fresh_ok h1" "h_fresh h \<le> h_fresh h1" "fresh_ok h" and e: "extra h (pr_buffer p) h1" and p: "pr_buffer p \<noteq> 0"
    and b: "h_strs h1 (pr_buffer p) = Some (u @ 0 # b)" and l: "pr_offset p = length u" "length u + 1 \<le> pr_length p"
    and g: "h_grants h1 = h_grants h" "h_count h \<le> h_count h1"
  shows "print_answer h (Some u)
    (if hk_reallocate hooks \<noteq> 0 then do {
                 (r, h2) \<leftarrow> reallocate (pr_buffer p) (pr_offset p + 1) h1;
                 if r = 0 then print_fail p 0 h2 else Some (r, h2) }
               else (case allocate (pr_offset p + 1) h1 of (r, h2) \<Rightarrow>
                 if r = 0 then print_fail p 0 h2
                 else do {
                   blk \<leftarrow> block (pr_buffer p) h2;
                   if length blk < min (pr_length p) (pr_offset p + 1) then None
                   else do {
                     h3 \<leftarrow> write_at r 0 (take (min (pr_length p) (pr_offset p + 1)) blk) h2;
                     h4 \<leftarrow> write_at r (pr_offset p) [0] h3;
                     h5 \<leftarrow> deallocate (pr_buffer p) h4;
                     Some (r, h5) } }))"
  (is "print_answer h (Some u) ?r")
  using f(1)
proof (cases rule: allocate_cases [of h1 "length u + 1"])
  case (none h2)
  have e2: "extra h (pr_buffer p) h2" "block (pr_buffer p) h2 \<noteq> None"
    using e none(2,3) b p extra_same [of h1 h2] by (simp_all add: block_def)
  have "?r = print_fail p 0 h2" using none(1) b p l(1) by (simp add: reallocate_def block_def)
  moreover have "refused h h2" using none(6,7) g by (auto simp: refused_def)
  ultimately show ?thesis using print_fail_answer [OF e2(1)] e2(2) by simp
next
  case (some h2 c)
  let ?N = "h_fresh h1" and ?B = "pr_buffer p"
  have ne: "?B \<noteq> ?N" using b f(1) by (auto simp: fresh_ok_def)
  have bn: "block ?N h = None" using f by (simp add: fresh_ok_def block_def)
  have fin: "print_answer h (Some u) (Some (?N, h3))"
    if "h_nodes h3 = h_nodes h1" "h_strs h3 = (h_strs h1)(?N \<mapsto> u @ [0], ?B := None)" "h_fresh h3 = Suc ?N" "h_grants h3 = h_grants h1" for h3
  proof -
    have "fresh_ok h3" using that f(1) by (simp add: fresh_ok_def)
    have "block q h3 = block q h" if "q \<noteq> ?N" for q
      using that e \<open>h_strs h3 = _\<close> p by (cases "q = ?B") (auto simp: extra_def block_def)
    moreover have "block ?N h3 = Some (u @ [0])" using that(2) ne some(6) by (simp add: block_def)
    ultimately show ?thesis using that(1,4) \<open>fresh_ok h3\<close> e some(6) bn g(1) unfolding print_answer_def extra_def by auto
  qed
  show ?thesis
  proof (cases "hk_reallocate hooks \<noteq> 0")
    case True
    let ?h = "h2\<lparr>h_strs := (h_strs h2)(?N \<mapsto> u @ [0], ?B := None)\<rparr>"
    have "reallocate ?B (pr_offset p + 1) h1 = Some (?N, ?h)"
      unfolding reallocate_def using some b p ne l(1) by (simp add: block_def deallocate_def)
    then have "?r = Some (?N, ?h)" using True some(6) by simp
    moreover have "h_strs ?h = (h_strs h1)(?N \<mapsto> u @ [0], ?B := None)" using some(3) by simp
    ultimately show ?thesis using fin [of ?h] some(2,4,7) by simp
  next
    case False
    let ?h = "h2\<lparr>h_strs := (h_strs h2)(?N \<mapsto> u @ [0], ?B := None)\<rparr>"
    have w1: "write_at ?N 0 (u @ [0]) h2 = Some (h2\<lparr>h_strs := (h_strs h2)(?N \<mapsto> u @ [0])\<rparr>)"
      using some l by (simp add: write_at_def block_def)
    have w2: "write_at ?N (length u) [0] (h2\<lparr>h_strs := (h_strs h2)(?N \<mapsto> u @ [0])\<rparr>) = Some (h2\<lparr>h_strs := (h_strs h2)(?N \<mapsto> u @ [0])\<rparr>)"
      using some(6) by (simp add: write_at_def block_def)
    have "?r = Some (?N, ?h)"
      using False some b p ne l w1 w2 by (simp add: block_def deallocate_def)
    moreover have "h_strs ?h = (h_strs h1)(?N \<mapsto> u @ [0], ?B := None)" using some(3) by simp
    ultimately show ?thesis using fin [of ?h] some(2,4,7) by simp
  qed
qed


lemma print_exact_lemma:
  assumes pr: "printable h i" and fuel: "3 * length (nodes_of [i]) \<le> fuel"
  shows "print_answer h (value_text (texts h) fmt 0 i) (print fuel (it_ptr i) fmt h)"
proof -
  have f: "fresh_ok h" and s: "seg h (cj_next (it_node i)) [i]" using pr by (simp_all add: printable_def)
  from f show ?thesis
  proof (cases rule: allocate_cases [of h default_buffer_size])
    case (none h1)
    then have "print fuel (it_ptr i) fmt h = Some (0, h1)" by (simp add: print_def print_fail_def)
    moreover have "refused h h1" using none(6,7) by (auto simp: refused_def)
    ultimately show ?thesis using none(2,3) by (simp add: print_answer_def block_def)
  next
    case (some h0 c)
    let ?p = "\<lparr>pr_buffer = h_fresh h, pr_length = default_buffer_size, pr_offset = 0, pr_depth = 0,
               pr_noalloc = False, pr_format = fmt, pr_hooks = global_hooks h\<rparr>"
    have o: "own_buffer ?p h0"
      using f some by (auto simp: own_buffer_def fresh_ok_def default_buffer_size_def)
    have t: "has_text ?p h0 []" using some by (simp add: has_text_def default_buffer_size_def)
    have e: "extra h (pr_buffer ?p) h0" using some f by (auto simp: extra_def block_def fresh_ok_def)
    have le: "h_fresh h \<le> h_fresh h0" using some(4) by simp
    have nb: "pr_buffer ?p \<notin> set (strs_of [i])"
    proof
      assume "pr_buffer ?p \<in> set (strs_of [i])"
      from seg_strs [OF s this] f show False by (simp add: fresh_ok_def)
    qed
    have rd: "reads h0 ?p (set (strs_of [i])) (texts h)"
      by (rule printable_reads [OF pr le _ nb]) (simp add: some(3))
    have s0: "seg h0 (cj_next (it_node i)) [i]"
    proof (rule seg_frame_eq [OF s])
      show "\<forall>s \<in> set (strs_of [i]). h_strs h0 s = h_strs h s" using nb some(3) by auto
    qed (simp add: some(2))
    note r = value_printed [OF fuel o t _ s0 rd]
    have unf: "print fuel (it_ptr i) fmt h = print_value fuel (it_ptr i) ?p h0 \<bind> (\<lambda>(ok, b1, h1).
             if \<not> ok then print_fail b1 0 h1
             else do {
               b2 \<leftarrow> update_offset b1 h1;
               if hk_reallocate (global_hooks h) \<noteq> 0 then do {
                 (r, h2) \<leftarrow> reallocate (pr_buffer b2) (pr_offset b2 + 1) h1;
                 if r = 0 then print_fail b2 0 h2 else Some (r, h2) }
               else (case allocate (pr_offset b2 + 1) h1 of (r, h2) \<Rightarrow>
                 if r = 0 then print_fail b2 0 h2
                 else do {
                   blk \<leftarrow> block (pr_buffer b2) h2;
                   if length blk < min (pr_length b2) (pr_offset b2 + 1) then None
                   else do {
                     h3 \<leftarrow> write_at r 0 (take (min (pr_length b2) (pr_offset b2 + 1)) blk) h2;
                     h4 \<leftarrow> write_at r (pr_offset b2) [0] h3;
                     h5 \<leftarrow> deallocate (pr_buffer b2) h4;
                     Some (r, h5) } }) })"
      using some(1,6) by (simp only: print_def Let_def prod.case if_False)
    have "outcome ?p h0 [] (value_text (texts h) fmt 0 i) (print_value fuel (it_ptr i) ?p h0)" using r by simp
    then show ?thesis unfolding outcome_def
    proof
      assume "gave_up ?p h0 (need [] (value_text (texts h) fmt 0 i)) (print_value fuel (it_ptr i) ?p h0)"
      then obtain p1 h1 where g: "print_value fuel (it_ptr i) ?p h0 = Some (False, p1, h1)" "only_buffer ?p h0 p1 h1"
          "\<forall>n. need [] (value_text (texts h) fmt 0 i) = Some n \<longrightarrow> excuse ?p h0 h1 n"
        by (auto simp: gave_up_def)
      have "refused h h1 \<or> INT_MAX < int (length t + 5)" if "value_text (texts h) fmt 0 i = Some t" for t
      proof -
        have "excuse ?p h0 h1 (length t + 5)" using g(3) that by simp
        moreover have "refused h h1" if "refused h0 h1" using that some(7,8) unfolding refused_def by (metis Suc_leD)
        ultimately show ?thesis by (auto simp: excuse_def capacity_def)
      qed
      moreover have "print fuel (it_ptr i) fmt h = print_fail p1 0 h1" unfolding unf g(1) by simp
      ultimately show ?thesis using print_fail_answer [OF extra_only_buffer [OF o e g(2) f le]] by auto
    next
      assume "\<exists>v. value_text (texts h) fmt 0 i = Some v \<and> printed ?p h0 [] v (print_value fuel (it_ptr i) ?p h0)"
      then obtain v where v: "value_text (texts h) fmt 0 i = Some v" "printed ?p h0 [] v (print_value fuel (it_ptr i) ?p h0)" by blast
      obtain p1 h1 b where a: "print_value fuel (it_ptr i) ?p h0 = Some (True, p1, h1)" "only_buffer ?p h0 p1 h1"
        "update_offset p1 h1 = Some (p1\<lparr>pr_offset := length v\<rparr>)" "pr_buffer p1 \<noteq> 0"
        "h_strs h1 (pr_buffer p1) = Some (v @ 0 # b)" "length v + 1 \<le> pr_length p1"
        by (rule has_text_block [OF v(2) printed_nz [OF v(1) rd]])
      have f1: "fresh_ok h1" "h_fresh h \<le> h_fresh h1"
        using a(2) le by (auto simp: only_buffer_def own_buffer_def)
      have gr: "h_grants h1 = h_grants h" "h_count h \<le> h_count h1" using a(2) some(7,8) by (auto simp: only_buffer_def)
      have e1: "extra h (pr_buffer (p1\<lparr>pr_offset := length v\<rparr>)) h1" using extra_only_buffer(1) [OF o e a(2) f le] by simp
      show ?thesis unfolding unf v(1) a(1) bind.bind_lunit prod.case a(3) not_True_eq_False if_False
        by (rule shrunk_answer [OF f1 f e1, of v b]) (use a(4-6) gr in simp_all)
    qed
  qed
qed


text \<open>The answer in a buffer of the caller.\<close>

definition buffer_answer :: "heap \<Rightarrow> ptr \<Rightarrow> nat \<Rightarrow> bytes option \<Rightarrow> (bool \<times> heap) option \<Rightarrow> bool" where
  "buffer_answer h buffer len u r \<longleftrightarrow> (\<exists>ok h' b c. r = Some (ok, h') \<and> h_nodes h' = h_nodes h \<and>
     (\<forall>q. q \<noteq> buffer \<longrightarrow> block q h' = block q h) \<and> block buffer h = Some b \<and> block buffer h' = Some c \<and>
     length c = length b \<and> drop len c = drop len b \<and>
     (ok \<longrightarrow> (\<exists>t. u = Some t \<and> length t < len \<and> take (length t + 1) c = t @ [0])) \<and>
     (\<not> ok \<longrightarrow> (\<forall>t. u = Some t \<longrightarrow> len < length t + 5)))"

lemma only_buffer_fixed:
  assumes ob: "only_buffer p h p' h'" and "pr_noalloc p" and "pr_buffer p \<noteq> 0" and "h_strs h (pr_buffer p) = Some b"
  shows "pr_buffer p' = pr_buffer p \<and> pr_length p' = pr_length p \<and> h_nodes h' = h_nodes h \<and> (\<forall>q. q \<noteq> pr_buffer p \<longrightarrow> block q h' = block q h) \<and>
    h_count h' = h_count h \<and> (\<exists>c. block (pr_buffer p) h' = Some c \<and> length c = length b \<and> drop (pr_length p) c = drop (pr_length p) b)"
proof -
  have "fixed p h p' h'" "h_nodes h' = h_nodes h" "\<forall>s. s \<noteq> pr_buffer p \<and> s \<noteq> pr_buffer p' \<longrightarrow> h_strs h' s = h_strs h s"
    using ob by (simp_all add: only_buffer_def)
  then show ?thesis using assms(2-4) by (auto simp: fixed_def block_def)
qed

lemma print_preallocated_lemma:
  assumes pr: "printable h i" and b: "block buffer h = Some b" and len: "0 < len" "len \<le> int (length b)" "len \<le> INT_MAX"
    and nb: "buffer \<notin> set (strs_of [i])" and fuel: "3 * length (nodes_of [i]) \<le> fuel"
  shows "buffer_answer h buffer (nat len) (value_text (texts h) fmt 0 i) (cJSON_PrintPreallocated fuel (it_ptr i) buffer len fmt h)"
proof -
  have f: "fresh_ok h" and s: "seg h (cj_next (it_node i)) [i]" using pr by (simp_all add: printable_def)
  have b0: "buffer \<noteq> 0" "h_strs h buffer = Some b" using b by (auto simp: block_def split: if_splits)
  have lt: "buffer < h_fresh h"
  proof (rule ccontr)
    assume "\<not> buffer < h_fresh h"
    then show False using f b0 by (simp add: fresh_ok_def)
  qed
  let ?p = "\<lparr>pr_buffer = buffer, pr_length = nat len, pr_offset = 0, pr_depth = 0,
                    pr_noalloc = True, pr_format = fmt, pr_hooks = global_hooks h\<rparr>"
  have o: "own_buffer ?p h" using f lt b0 len by (simp add: own_buffer_def)
  have t: "has_text ?p h []" using b0 len by (simp add: has_text_def)
  have rd: "reads h ?p (set (strs_of [i])) (texts h)" by (rule printable_reads [OF pr]) (simp_all add: nb)
  have unf: "cJSON_PrintPreallocated fuel (it_ptr i) buffer len fmt h =
      print_value fuel (it_ptr i) ?p h \<bind> (\<lambda>(ok, p1, h1). Some (ok, h1))"
    using b0(1) len(1) by (simp add: cJSON_PrintPreallocated_def)
  have "outcome ?p h [] (value_text (texts h) fmt 0 i) (print_value fuel (it_ptr i) ?p h)"
    using value_printed [OF fuel o t _ s rd] by simp
  then show ?thesis unfolding outcome_def
  proof
    assume "gave_up ?p h (need [] (value_text (texts h) fmt 0 i)) (print_value fuel (it_ptr i) ?p h)"
    then obtain p1 h1 where g: "print_value fuel (it_ptr i) ?p h = Some (False, p1, h1)" "only_buffer ?p h p1 h1"
        "\<forall>n. need [] (value_text (texts h) fmt 0 i) = Some n \<longrightarrow> excuse ?p h h1 n"
      by (auto simp: gave_up_def)
    note fx = only_buffer_fixed [OF g(2), of b]
    have "nat len < length t + 5" if "value_text (texts h) fmt 0 i = Some t" for t
    proof -
      have "excuse ?p h h1 (length t + 5)" using g(3) that by simp
      moreover have "\<not> refused h h1" using fx b0 by (simp add: refused_def)
      ultimately show ?thesis using len by (auto simp: excuse_def capacity_def)
    qed
    then show ?thesis using fx b b0 g(1) unfolding unf buffer_answer_def by auto
  next
    assume "\<exists>v. value_text (texts h) fmt 0 i = Some v \<and> printed ?p h [] v (print_value fuel (it_ptr i) ?p h)"
    then obtain v where v: "value_text (texts h) fmt 0 i = Some v" "printed ?p h [] v (print_value fuel (it_ptr i) ?p h)" by blast
    obtain p1 h1 c where a: "print_value fuel (it_ptr i) ?p h = Some (True, p1, h1)" "only_buffer ?p h p1 h1"
        "h_strs h1 (pr_buffer p1) = Some (v @ 0 # c)" "length v + 1 \<le> pr_length p1"
      by (rule has_text_block [OF v(2) printed_nz [OF v(1) rd]])
    show ?thesis using only_buffer_fixed [OF a(2), of b] b b0 a(1,3,4) v(1) unfolding unf buffer_answer_def
      by (auto simp: block_def)
  qed
qed

section \<open>Properties\<close>

text \<open>A string item with a quote and a control character, in an array with an integer.\<close>

definition printed_array :: item where
  "printed_array = Item 1 (zero_node\<lparr>cj_type := cJSON_Array, cj_child := 2\<rparr>)
     [Item 2 (zero_node\<lparr>cj_type := cJSON_String, cj_valuestring := 4, cj_next := 3, cj_prev := 3\<rparr>) [],
      Item 3 (zero_node\<lparr>cj_type := cJSON_True, cj_prev := 2\<rparr>) []]"

definition printed_heap :: heap where
  "printed_heap = (heap_start (\<lambda>k. True) (\<lambda>p i. 0))\<lparr>
     h_nodes := [1 \<mapsto> zero_node\<lparr>cj_type := cJSON_Array, cj_child := 2\<rparr>,
       2 \<mapsto> zero_node\<lparr>cj_type := cJSON_String, cj_valuestring := 4, cj_next := 3, cj_prev := 3\<rparr>,
       3 \<mapsto> zero_node\<lparr>cj_type := cJSON_True, cj_prev := 2\<rparr>],
     h_strs := [4 \<mapsto> [ch_a, ch_quote, 1, 0], 5 \<mapsto> replicate 24 7], h_fresh := 6\<rparr>"

lemma printed_heap_ok: "printable printed_heap printed_array"
  by (simp add: printable_def printed_heap_def printed_array_def heap_start_def fresh_ok_def owned_node_def is_reference_def
      string_is_const_def node_strs_def zero_node_def string_at_def block_def)

text \<open>C22: \<open>cJSON_Print\<close> and \<open>cJSON_PrintUnformatted\<close> return on every printable tree, whichever
  allocations fail. They answer a new block that holds exactly the reference text of the tree and
  its terminator, with all other memory as it was; or \<open>NULL\<close> with memory as it was, and then only
  because memory was refused, an item has no text, or the text does not fit an \<open>int\<close>.\<close>

theorem print_exact:
  assumes "printable h i" and "3 * length (nodes_of [i]) \<le> fuel"
  shows "print_answer h (value_text (texts h) True 0 i) (cJSON_Print fuel (it_ptr i) h) \<and>
    print_answer h (value_text (texts h) False 0 i) (cJSON_PrintUnformatted fuel (it_ptr i) h)"
  unfolding cJSON_Print_def cJSON_PrintUnformatted_def using print_exact_lemma [OF assms] by simp

theorem print_exact_witness:
  "print_answer printed_heap (value_text (texts printed_heap) False 0 printed_array) (cJSON_PrintUnformatted 9 1 printed_heap) \<and>
   (cJSON_PrintUnformatted 9 1 printed_heap \<bind> (\<lambda>(p, h). string_at p h)) =
     Some (str ''[\"a'' @ [ch_bslash, ch_quote, ch_bslash] @ str ''u0001\",true]'')"
proof
  have "it_ptr printed_array = 1" by (simp add: printed_array_def)
  then show "print_answer printed_heap (value_text (texts printed_heap) False 0 printed_array) (cJSON_PrintUnformatted 9 1 printed_heap)"
    using print_exact [OF printed_heap_ok, of 9] by (simp add: printed_array_def)
  show "(cJSON_PrintUnformatted 9 1 printed_heap \<bind> (\<lambda>(p, h). string_at p h)) =
     Some (str ''[\"a'' @ [ch_bslash, ch_quote, ch_bslash] @ str ''u0001\",true]'')" by code_simp
qed

text \<open>C24: \<open>cJSON_PrintPreallocated\<close> writes into the first \<open>length\<close> bytes of the given buffer and
  nowhere else, also when the text does not fit. When it answers true the buffer starts with the
  reference text and its terminator, and it does so whenever there are five bytes more than the
  text needs, as the header file promises.\<close>

theorem print_preallocated_bounded:
  assumes "printable h i" and "block buffer h = Some b" and "0 < len" and "len \<le> int (length b)" and "len \<le> INT_MAX"
    and "buffer \<notin> set (strs_of [i])" and "3 * length (nodes_of [i]) \<le> fuel"
  shows "buffer_answer h buffer (nat len) (value_text (texts h) fmt 0 i) (cJSON_PrintPreallocated fuel (it_ptr i) buffer len fmt h)"
  by (rule print_preallocated_lemma [OF assms])

theorem print_preallocated_bounded_witness:
  "buffer_answer printed_heap 5 20 (value_text (texts printed_heap) False 0 printed_array)
     (cJSON_PrintPreallocated 9 1 5 20 False printed_heap) \<and>
   map_option fst (cJSON_PrintPreallocated 9 1 5 20 False printed_heap) = Some True \<and>
   map_option fst (cJSON_PrintPreallocated 9 1 5 16 False printed_heap) = Some False"
proof (intro conjI)
  have b: "block 5 printed_heap = Some (replicate 24 7)" by (simp add: printed_heap_def block_def)
  have "it_ptr printed_array = 1" "5 \<notin> set (strs_of [printed_array])" "length (nodes_of [printed_array]) = 3"
    by (simp_all add: printed_array_def node_strs_def zero_node_def)
  then show "buffer_answer printed_heap 5 20 (value_text (texts printed_heap) False 0 printed_array)
     (cJSON_PrintPreallocated 9 1 5 20 False printed_heap)"
    using print_preallocated_bounded [OF printed_heap_ok b, of 20 9] by (simp add: INT_MAX_def)
qed (code_simp)+

text \<open>The text of a number, of every value a \<open>double\<close> and an \<open>int\<close> can have, has at most 24
  characters: it fits into the 26 bytes of \<open>number_buffer\<close> with its terminator, so that \<open>sprintf\<close> stays inside and the check
  of its result never rejects.\<close>

theorem number_fits_buffer:
  assumes "dbl_ok d" and "INT_MIN \<le> v" and "v \<le> INT_MAX"
  shows "length (number_text d v) \<le> 24"
  using number_text_length [OF assms] by simp

theorem number_fits_buffer_witness:
  "length (number_text (Fin True 6004799503160661 (- 54)) 0) \<le> 24"
  by (rule number_fits_buffer) (simp_all add: INT_MIN_def INT_MAX_def)

end
