(* ===== verification/CJson_Render.thy ===== *)
theory CJson_Render
  imports CJson_Print_Claims
begin

text \<open>
  The text of a value, and the proof that the reader of the language gets the value back from
  it: strings through their escapes, numbers that are whole, arrays and objects with and
  without the white space of formatted output.
\<close>

declare item_value.simps [simp del]

section \<open>The text of a value\<close>

definition render_string :: "bytes \<Rightarrow> bytes" where
  "render_string s = ch_quote # concat (map escaped_char s) @ [ch_quote]"

abbreviation tabs :: "bool \<Rightarrow> nat \<Rightarrow> bytes" where
  "tabs f d \<equiv> if f then replicate d ch_tab else []"

fun render :: "bool \<Rightarrow> nat \<Rightarrow> json \<Rightarrow> bytes"
  and render_elems :: "bool \<Rightarrow> nat \<Rightarrow> json list \<Rightarrow> bytes"
  and render_members :: "bool \<Rightarrow> nat \<Rightarrow> (bytes \<times> json) list \<Rightarrow> bytes"
where
  "render f d JsNull = str ''null''"
| "render f d (JsBool b) = (if b then str ''true'' else str ''false'')"
| "render f d (JsNum x) = number_text x (case saturated_int x of None \<Rightarrow> 0 | Some i \<Rightarrow> i)"
| "render f d (JsStr s) = render_string s"
| "render f d (JsArr vs) = ch_lbrack # render_elems f (Suc d) vs @ [ch_rbrack]"
| "render f d (JsObj ms) = ch_lbrace # (if f then [ch_nl] else []) @ render_members f (Suc d) ms @ tabs f d @ [ch_rbrace]"
| "render f d JsOther = []"
| "render_elems f d [] = []"
| "render_elems f d (v # vs) =
     render f d v @ (if vs = [] then [] else if f then [ch_comma, ch_space] else [ch_comma]) @ render_elems f d vs"
| "render_members f d [] = []"
| "render_members f d ((k, v) # ms) =
     tabs f d @ render_string k @ (if f then [ch_colon, ch_tab] else [ch_colon]) @ render f d v @
     (if ms = [] then [] else [ch_comma]) @ (if f then [ch_nl] else []) @ render_members f d ms"

text \<open>Values with whole numbers only, and strings without zeros.\<close>

definition whole :: "dbl \<Rightarrow> bool" where
  "whole x \<longleftrightarrow> (case saturated_int x of None \<Rightarrow> False | Some i \<Rightarrow> x = dbl_of_int i)"

fun plain :: "json \<Rightarrow> bool"
  and plain_elems :: "json list \<Rightarrow> bool"
  and plain_members :: "(bytes \<times> json) list \<Rightarrow> bool"
where
  "plain JsNull \<longleftrightarrow> True"
| "plain (JsBool b) \<longleftrightarrow> True"
| "plain (JsNum x) \<longleftrightarrow> whole x"
| "plain (JsStr s) \<longleftrightarrow> 0 \<notin> set s"
| "plain (JsArr vs) \<longleftrightarrow> plain_elems vs"
| "plain (JsObj ms) \<longleftrightarrow> plain_members ms"
| "plain JsOther \<longleftrightarrow> False"
| "plain_elems [] \<longleftrightarrow> True"
| "plain_elems (v # vs) \<longleftrightarrow> plain v \<and> plain_elems vs"
| "plain_members [] \<longleftrightarrow> True"
| "plain_members ((k, v) # ms) \<longleftrightarrow> 0 \<notin> set k \<and> plain v \<and> plain_members ms"

text \<open>How many containers are inside one another.\<close>

fun nesting :: "json \<Rightarrow> nat"
  and nesting_elems :: "json list \<Rightarrow> nat"
  and nesting_members :: "(bytes \<times> json) list \<Rightarrow> nat"
where
  "nesting (JsArr vs) = Suc (nesting_elems vs)"
| "nesting (JsObj ms) = Suc (nesting_members ms)"
| "nesting v = 0"
| "nesting_elems [] = 0"
| "nesting_elems (v # vs) = max (nesting v) (nesting_elems vs)"
| "nesting_members [] = 0"
| "nesting_members ((k, v) # ms) = max (nesting v) (nesting_members ms)"

section \<open>Strings\<close>

lemma hex_digit_lower_val:
  assumes "n < 16"
  shows "hex_val (hex_digit_lower n) = Some n" "hex_digit_lower n \<noteq> ch_quote" "hex_digit_lower n \<noteq> ch_bslash"
proof -
  have "list_all (\<lambda>n. hex_val (hex_digit_lower n) = Some n \<and> hex_digit_lower n \<noteq> ch_quote \<and> hex_digit_lower n \<noteq> ch_bslash) [0..<16]"
    by code_simp
  then show "hex_val (hex_digit_lower n) = Some n" "hex_digit_lower n \<noteq> ch_quote" "hex_digit_lower n \<noteq> ch_bslash"
    using assms by (simp_all add: list_all_iff)
qed

lemma nibbles: "unat c div 16 < 16" "unat c mod 16 < 16" for c :: u8
proof -
  have "unat c < 2 ^ 8" using unsigned_less [of c] by simp
  then show "unat c div 16 < 16" "unat c mod 16 < 16" by simp_all
qed

lemma u04x_code: "hex4 (tl (u04x c)) = unat c"
proof -
  note hex_digit_lower_val(1) [OF nibbles(1) [of c]] hex_digit_lower_val(1) [OF nibbles(2) [of c]]
  moreover have "hex_val ch_0 = Some 0" by (simp add: hex_val_def is_digit_def digit_val_def)
  ultimately show ?thesis by (simp add: u04x_def hex4_def)
qed

lemma u04x_plain: "\<forall>x \<in> set (u04x c). x \<noteq> ch_quote \<and> x \<noteq> ch_bslash"
  using hex_digit_lower_val(2,3) [OF nibbles(1) [of c]] hex_digit_lower_val(2,3) [OF nibbles(2) [of c]]
  by (auto simp: u04x_def)

lemma escaped_char_cases:
  obtains (one) "escaped_char c = [c]" "c \<noteq> ch_quote" "c \<noteq> ch_bslash"
  | (two) x where "escaped_char c = [ch_bslash, x]" "map_of simple_escapes x = Some c"
  | (six) "escaped_char c = ch_bslash # u04x c" "c \<le> 31"
proof (cases "c > 31 \<and> c \<noteq> ch_quote \<and> c \<noteq> ch_bslash")
  case True
  then show thesis by (intro one) (simp_all add: escaped_char_def)
next
  case False
  show thesis
  proof (cases "c \<in> {ch_bslash, ch_quote, 8, 12, ch_nl, ch_cr, ch_tab}")
    case True
    then show thesis by (auto simp: escaped_char_def simple_escapes_def intro: two)
  next
    case no: False
    then show thesis using False by (intro six) (auto simp: escaped_char_def)
  qed
qed

lemma str_body_char: "str_body (escaped_char c @ t) = map_option (\<lambda>(l, r). (escaped_char c @ l, r)) (str_body t)"
proof (cases c rule: escaped_char_cases)
  case six
  obtain a b e g where u: "u04x c = [ch_u, a, b, e, g]" by (auto simp: u04x_def)
  have n: "x \<noteq> ch_quote \<and> x \<noteq> ch_bslash" if "x \<in> {a, b, e, g}" for x using u04x_plain [of c] that unfolding u by auto
  then show ?thesis unfolding six u
    by (simp add: option.map_comp comp_def case_prod_unfold)
qed simp_all

lemma str_body_escaped: "str_body (concat (map escaped_char s) @ ch_quote # r) = Some (concat (map escaped_char s), r)"
  by (induction s) (simp_all add: str_body_char)

lemma unescape_char: "unescape (escaped_char c @ t) = map_option ((#) c) (unescape t)"
proof (cases c rule: escaped_char_cases)
  case one
  then show ?thesis by (subst unescape.simps) simp
next
  case two
  then show ?thesis by (subst unescape.simps) (simp add: Let_def)
next
  case six
  have n: "unat c < 0x80" using six(2) by (simp add: word_le_nat_alt)
  have "unicode_escape (ch_bslash # u04x c @ t) = Some (6, [c])"
  proof -
    have "take 4 (drop 2 (ch_bslash # u04x c @ t)) = tl (u04x c)" by (simp add: u04x_def)
    moreover have "\<not> length (ch_bslash # u04x c @ t) < 6" by (simp add: u04x_def)
    moreover have "utf8 (unat c) = [c]" using n by (simp add: utf8_def)
    ultimately show ?thesis using n u04x_code [of c] by (simp add: unicode_escape_def Let_def)
  qed
  moreover have "map_of simple_escapes ch_u = None" by (simp add: simple_escapes_def)
  ultimately show ?thesis unfolding six(1) append_Cons
    by (subst unescape.simps) (simp add: Let_def map_cons u04x_def)
qed

lemma unescape_escaped: "unescape (concat (map escaped_char s)) = Some s"
  by (induction s) (simp_all add: unescape_char unescape.simps [of "[]"])

lemma read_string_render: "0 \<notin> set s \<Longrightarrow> read_string (render_string s @ r) = Some (s, r)"
  by (simp add: read_string_def render_string_def str_body_escaped unescape_escaped cstr_id)

section \<open>Numbers\<close>

text \<open>What follows a number must not continue it.\<close>

definition stops :: "bytes \<Rightarrow> bool" where
  "stops r \<longleftrightarrow> r = [] \<or> \<not> number_char (hd r)"

lemma digit_number_char: "is_digit c \<Longrightarrow> number_char c"
  by (simp add: number_char_def)

lemma dec_int_chars: "\<forall>c \<in> set (dec_int i). number_char c"
  using dec_nat_digits digit_number_char by (auto simp: dec_int_def) (simp add: number_char_def)

lemma number_prefix:
  assumes "\<forall>c \<in> set u. number_char c" and "length u \<le> n" and "stops r"
  shows "takeWhile number_char (take n (u @ r)) = u"
proof -
  have "takeWhile number_char (take n (u @ r)) = u @ takeWhile number_char (take (n - length u) r)"
    using assms(1,2) by (simp add: takeWhile_append)
  moreover have "takeWhile number_char (take k r) = []" for k
    using assms(3) by (cases r; cases k) (simp_all add: stops_def)
  ultimately show ?thesis by simp
qed

lemma takeWhile_digits: "takeWhile is_digit (dec_nat n) = dec_nat n"
  using dec_nat_digits [of n] by (simp add: takeWhile_eq_all_conv)

lemma dec_nat_hd: "is_digit (hd (dec_nat n))"
  using dec_nat_digits [of n] by (simp add: hd_in_set)

lemma strtod_dec_int: "strtod (dec_int i) = (dbl_of_int i, length (dec_int i))"
proof -
  have h: "hd (dec_nat n) \<noteq> ch_minus" "hd (dec_nat n) \<noteq> ch_plus" for n
    using dec_nat_hd [of n] by (auto simp: is_digit_def)
  show ?thesis
  proof (cases "i < 0")
    case True
    then show ?thesis
      by (simp add: strtod_def strtod_digits_def dec_int_def sign_len_def takeWhile_digits strtod_exp_def dbl_of_int_def Let_def)
  next
    case False
    then show ?thesis
      by (simp add: strtod_def strtod_digits_def dec_int_def sign_len_def takeWhile_digits strtod_exp_def dbl_of_int_def h Let_def)
  qed
qed

lemma read_number_dec_int:
  assumes "INT_MIN \<le> i" "i \<le> INT_MAX" and "stops r"
  shows "read_number (dec_int i @ r) = Some (dbl_of_int i, r)"
proof -
  have "length (dec_int i) \<le> 63" using dec_int_length [OF assms(1,2)] by simp
  from number_prefix [OF dec_int_chars this assms(3)] show ?thesis
    by (simp add: read_number_def strtod_dec_int) (simp add: dec_int_def)
qed

section \<open>Reading a rendered value\<close>

lemma json_ws_visible: "\<not> hd t \<le> 32 \<Longrightarrow> json_ws t = t"
  by (cases t) (simp_all add: json_ws_def)

lemma json_ws_blanks: "\<forall>c \<in> set w. c \<le> 32 \<Longrightarrow> json_ws (w @ t) = json_ws t"
  by (induction w) (simp_all add: json_ws_def)

lemma read_elems_ws: "json_ws t = json_ws u \<Longrightarrow> read_elems d t = read_elems d u"
  by (subst (1 2) read_elems_eq) simp

lemma read_members_ws: "json_ws t = json_ws u \<Longrightarrow> read_members d t = read_members d u"
  by (subst (1 2) read_members_eq) simp

lemma whole_cases:
  assumes "whole x"
  obtains i where "x = dbl_of_int i" "saturated_int x = Some i" "INT_MIN \<le> i" "i \<le> INT_MAX"
proof -
  from assms obtain i where i: "saturated_int x = Some i" "x = dbl_of_int i" by (auto simp: whole_def split: option.splits)
  moreover have "x \<noteq> NaN" using i(2) by (simp add: dbl_of_int_def)
  then obtain j where "saturated_int x = Some j" "INT_MIN \<le> j" "j \<le> INT_MAX" by (rule saturated_int_total)
  ultimately show thesis using that by simp
qed

lemma whole_finite: "whole x \<Longrightarrow> \<not> is_nan x \<and> \<not> is_inf x"
proof -
  assume w: "whole x"
  then obtain i where i: "x = dbl_of_int i" "saturated_int x = Some i" by (rule whole_cases)
  show ?thesis
  proof (cases x)
    case (Inf s)
    then have "saturated_int x = Some (if s then INT_MIN else INT_MAX)"
      by (simp add: saturated_int_def dbl_INT_MAX dbl_INT_MIN)
    then show ?thesis using i dbl_INT_MAX dbl_INT_MIN Inf by (auto split: if_splits)
  qed (use i(1) in \<open>simp_all add: is_nan_def dbl_of_int_def\<close>)
qed

lemma dbl_eq_refl: "x \<noteq> NaN \<Longrightarrow> dbl_eq x x"
  by (cases x) (simp_all add: dbl_eq_def Let_def)

lemma render_whole:
  assumes "whole x"
  obtains i where "x = dbl_of_int i" "INT_MIN \<le> i" "i \<le> INT_MAX" "saturated_int x = Some i" "number_text x i = dec_int i"
proof -
  obtain i where i: "x = dbl_of_int i" "saturated_int x = Some i" "INT_MIN \<le> i" "i \<le> INT_MAX" using assms by (rule whole_cases)
  have "x \<noteq> NaN" using whole_finite [OF assms] by (auto simp: is_nan_def)
  then have "number_text x i = dec_int i"
    using whole_finite [OF assms] dbl_eq_refl [of x] i(1) by (simp add: number_text_def)
  then show thesis using i that by blast
qed

text \<open>The first character decides what is read.\<close>

definition opens :: "u8 \<Rightarrow> bool" where
  "opens c \<longleftrightarrow> c \<in> {ch_n, ch_t, ch_f, ch_quote, ch_minus, ch_lbrack, ch_lbrace} \<or> is_digit c"

lemma opens_not: "opens c \<Longrightarrow> \<not> c \<le> 32 \<and> c \<noteq> ch_rbrack \<and> c \<noteq> ch_rbrace \<and> c \<noteq> ch_comma"
  by (auto simp: opens_def is_digit_def word_le_nat_alt)

lemma dec_int_hd: "hd (dec_int i) = ch_minus \<or> is_digit (hd (dec_int i))"
  using dec_nat_hd by (simp add: dec_int_def)

lemma render_opens: "plain v \<Longrightarrow> render f d v \<noteq> [] \<and> opens (hd (render f d v))"
proof (cases v)
  case (JsNum x)
  assume "plain v"
  with JsNum have "whole x" by simp
  then obtain i where "saturated_int x = Some i" "number_text x i = dec_int i" by (rule render_whole)
  then show ?thesis using JsNum dec_int_hd [of i] by (auto simp: opens_def dec_int_def)
qed (auto simp: str_def render_string_def opens_def)

lemma stops_char: "\<not> number_char c \<Longrightarrow> stops (c # r)"
  by (simp add: stops_def)

lemma not_number_char: "\<not> number_char ch_comma" "\<not> number_char ch_rbrack" "\<not> number_char ch_rbrace" "\<not> number_char ch_nl" "\<not> number_char ch_tab"
  by (simp_all add: number_char_def is_digit_def)

lemma stops_blanks: "stops r \<Longrightarrow> stops (tabs f d @ r)" "stops r \<Longrightarrow> stops ((if f then [ch_nl] else []) @ r)"
  using not_number_char by (cases d; simp add: stops_def)+

lemma blanks: "\<forall>c \<in> set (tabs f d). c \<le> 32" "\<forall>c \<in> set (if f then [ch_nl] else []). c \<le> 32" "\<forall>c \<in> set (if f then [ch_tab] else []). c \<le> 32"
  "\<forall>c \<in> set (if f then [ch_space] else []). c \<le> 32"
  by auto

lemma read_render:
  "plain v \<Longrightarrow> D + nesting v \<le> CJSON_NESTING_LIMIT \<Longrightarrow> stops r \<Longrightarrow> read_value D (render f d v @ r) = Some (v, r)"
  "plain_elems vs \<Longrightarrow> D + nesting_elems vs \<le> CJSON_NESTING_LIMIT \<Longrightarrow> vs \<noteq> [] \<Longrightarrow> stops r \<Longrightarrow> json_ws r \<noteq> [] \<Longrightarrow> hd (json_ws r) \<noteq> ch_comma \<Longrightarrow>
    read_elems D (render_elems f d vs @ r) = Some (vs, json_ws r)"
  "plain_members ms \<Longrightarrow> D + nesting_members ms \<le> CJSON_NESTING_LIMIT \<Longrightarrow> ms \<noteq> [] \<Longrightarrow> stops r \<Longrightarrow> json_ws r \<noteq> [] \<Longrightarrow> hd (json_ws r) \<noteq> ch_comma \<Longrightarrow>
    read_members D (render_members f d ms @ r) = Some (ms, json_ws r)"
proof (induction f d v and f d vs and f d ms arbitrary: D r and D r and D r rule: render_render_elems_render_members.induct)
  case (1 f d)
  then show ?case by (subst read_value.simps) (simp add: str_def)
next
  case (2 f d b)
  then show ?case by (subst read_value.simps) (simp add: str_def)
next
  case (3 f d x)
  from "3.prems" have "whole x" by simp
  then obtain i where i: "x = dbl_of_int i" "INT_MIN \<le> i" "i \<le> INT_MAX" "saturated_int x = Some i" "number_text x i = dec_int i"
    by (rule render_whole)
  have h: "hd (dec_int i @ r) = ch_minus \<or> is_digit (hd (dec_int i @ r))" "dec_int i @ r \<noteq> []"
    using dec_int_hd [of i] by (auto simp: dec_int_def)
  then have "hd (dec_int i @ r) \<notin> {ch_n, ch_f, ch_t}" "hd (dec_int i @ r) \<noteq> ch_quote" by (auto simp: is_digit_def)
  then have "read_value D (dec_int i @ r) = map_option (apfst JsNum) (read_number (dec_int i @ r))"
    using h by (subst read_value_cases [OF no_literalI]) auto
  then show ?case using i read_number_dec_int [OF i(2,3) "3.prems"(3)] by simp
next
  case (4 f d s)
  then show ?case using read_string_render [of s r]
    by (subst read_value_cases [OF no_literalI]) (simp_all add: render_string_def)
next
  case (5 f d vs)
  let ?t = "render_elems f (Suc d) vs @ ch_rbrack # r"
  have D: "D < CJSON_NESTING_LIMIT" "Suc D + nesting_elems vs \<le> CJSON_NESTING_LIMIT" using "5.prems"(2) by simp_all
  have w: "json_ws ?t = ?t"
    using "5.prems"(1) render_opens opens_not by (intro json_ws_visible) (cases vs; fastforce)
  have "read_container ch_rbrack read_elems JsArr D (ch_lbrack # ?t) = Some (JsArr vs, r)"
  proof (cases vs)
    case Nil
    then show ?thesis using w by (simp add: read_container_def)
  next
    case (Cons v ws)
    then have h: "hd ?t \<noteq> ch_rbrack" using "5.prems"(1) render_opens [of v f "Suc d"] opens_not by auto
    have "read_elems (Suc D) ?t = Some (vs, json_ws (ch_rbrack # r))"
      using "5.prems"(1) D(2) Cons not_number_char by (intro "5.IH") (simp_all add: stops_char json_ws_def)
    then show ?thesis using w h by (simp add: read_container_def json_ws_def)
  qed
  then show ?case using D(1) by (subst read_value_cases [OF no_literalI]) (simp_all add: is_digit_def)
next
  case (6 f d ms)
  let ?z = "tabs f d @ ch_rbrace # r"
  let ?t = "render_members f (Suc d) ms @ ?z"
  have D: "D < CJSON_NESTING_LIMIT" "Suc D + nesting_members ms \<le> CJSON_NESTING_LIMIT" using "6.prems"(2) by simp_all
  have z: "json_ws ?z = ch_rbrace # r" using json_ws_blanks [OF blanks(1)] by (simp add: json_ws_def)
  have w: "json_ws ((if f then [ch_nl] else []) @ ?t) = json_ws ?t" by (rule json_ws_blanks [OF blanks(2)])
  have "read_container ch_rbrace read_members JsObj D (ch_lbrace # (if f then [ch_nl] else []) @ ?t) = Some (JsObj ms, r)"
  proof (cases ms)
    case Nil
    then show ?thesis using w z by (simp add: read_container_def)
  next
    case (Cons m ns)
    obtain k v where m: "m = (k, v)" by (cases m)
    have h: "json_ws ?t \<noteq> []" "hd (json_ws ?t) \<noteq> ch_rbrace"
      using json_ws_blanks [OF blanks(1) [of f "Suc d"]] by (simp_all add: Cons m render_string_def json_ws_def)
    have "read_members (Suc D) ?t = Some (ms, json_ws ?z)"
      using "6.prems"(1) D(2) Cons not_number_char z by (intro "6.IH") (simp_all add: stops_char stops_blanks)
    then have "read_members (Suc D) (json_ws ?t) = Some (ms, json_ws ?z)"
      using read_members_ws [of "json_ws ?t" ?t] by simp
    then show ?thesis using w h z by (simp add: read_container_def)
  qed
  then show ?case using D(1) by (subst read_value_cases [OF no_literalI]) (simp_all add: is_digit_def)
next
  case (9 f d v vs)
  let ?c = "if f then [ch_space] else []"
  have v: "plain v" "D + nesting v \<le> CJSON_NESTING_LIMIT" "plain_elems vs" "D + nesting_elems vs \<le> CJSON_NESTING_LIMIT"
    using "9.prems"(1,2) by simp_all
  have w: "json_ws (render f d v @ u) = render f d v @ u" for u
    using render_opens [OF v(1), of f d] opens_not by (intro json_ws_visible) auto
  show ?case
  proof (cases "vs = []")
    case True
    then show ?thesis using "9.IH"(1) [OF v(1,2) "9.prems"(4)] "9.prems"(5,6) w [of r]
      by (subst read_elems_eq) simp
  next
    case False
    let ?u = "?c @ render_elems f d vs @ r"
    have e: "render_elems f d (v # vs) @ r = render f d v @ ch_comma # ?u" using False by simp
    have "read_value D (render f d v @ ch_comma # ?u) = Some (v, ch_comma # ?u)"
      using not_number_char by (intro "9.IH"(1) [OF v(1,2)]) (simp add: stops_char)
    moreover have "json_ws (ch_comma # ?u) = ch_comma # ?u" by (simp add: json_ws_def)
    moreover have "read_elems D ?u = read_elems D (render_elems f d vs @ r)"
      by (rule read_elems_ws [OF json_ws_blanks [OF blanks(4)]])
    ultimately show ?thesis using "9.IH"(2) [OF v(3,4) False "9.prems"(4-6)] w unfolding e
      by (subst read_elems_eq) simp
  qed
next
  case (11 f d k v ms)
  have v: "0 \<notin> set k" "plain v" "D + nesting v \<le> CJSON_NESTING_LIMIT" "plain_members ms" "D + nesting_members ms \<le> CJSON_NESTING_LIMIT"
    using "11.prems"(1,2) by simp_all
  let ?n = "if f then [ch_nl] else []"
  define R where "R = (if ms = [] then [] else [ch_comma]) @ ?n @ render_members f d ms @ r"
  let ?V = "(if f then [ch_tab] else []) @ render f d v @ R"
  have e: "render_members f d ((k, v) # ms) @ r = tabs f d @ render_string k @ ch_colon # ?V" by (simp add: R_def)
  have w1: "json_ws (tabs f d @ render_string k @ ch_colon # ?V) = render_string k @ ch_colon # ?V"
    using json_ws_blanks [OF blanks(1)] by (simp add: json_ws_visible render_string_def)
  have w2: "json_ws (ch_colon # ?V) = ch_colon # ?V" by (simp add: json_ws_def)
  have w3: "json_ws ?V = render f d v @ R"
    using json_ws_blanks [OF blanks(3)] render_opens [OF v(2), of f d] opens_not by (simp add: json_ws_visible)
  have sR: "stops R" using "11.prems"(4) not_number_char stops_blanks(2) [of r f]
    by (cases "ms = []") (simp_all add: R_def stops_char)
  note rv = "11.IH"(1) [OF v(2,3) sR]
  have "read_members D (render_members f d ((k, v) # ms) @ r) =
      (if json_ws R \<noteq> [] \<and> hd (json_ws R) = ch_comma then map_option (apfst ((#) (k, v))) (read_members D (tl (json_ws R)))
       else Some ([(k, v)], json_ws R))"
    unfolding e by (subst read_members_eq) (simp add: w1 w2 w3 rv read_string_render [OF v(1)])
  also have "\<dots> = Some ((k, v) # ms, json_ws r)"
  proof (cases "ms = []")
    case True
    then have "json_ws R = json_ws r" using json_ws_blanks [OF blanks(2)] by (simp add: R_def)
    then show ?thesis using True "11.prems"(5,6) by simp
  next
    case False
    then have "json_ws R = ch_comma # ?n @ render_members f d ms @ r" by (simp add: R_def json_ws_def)
    moreover have "read_members D (?n @ render_members f d ms @ r) = read_members D (render_members f d ms @ r)"
      by (rule read_members_ws [OF json_ws_blanks [OF blanks(2)]])
    ultimately show ?thesis using "11.IH"(2) [OF v(4,5) False "11.prems"(4-6)] by simp
  qed
  finally show ?case .
qed simp_all

section \<open>The printer's text is the rendered value\<close>

lemma quoted_render: "quoted (texts h) p = render_string (text_at h p)"
  by (simp add: quoted_def render_string_def texts_def text_at_def string_at_def block_def split: option.split)

lemma text_is_render:
  "plain (item_value h i) \<Longrightarrow> value_text (texts h) f d i = Some (render f d (item_value h i))"
  "plain_elems (map (item_value h) is) \<Longrightarrow> elements_text (texts h) f d is = Some (render_elems f d (map (item_value h) is))"
  "plain_members (map (named_value h) ms) \<Longrightarrow> members_text (texts h) f d ms = Some (render_members f d (map (named_value h) ms))"
proof (induction "texts h" f d i and "texts h" f d "is" and "texts h" f d ms rule: value_text_elements_text_members_text.induct)
  case (1 f d p n cs)
  show ?case
  proof (cases "type_low n = cJSON_Number")
    case True
    then have w: "saturated_int (cj_valuedouble n) = Some (cj_valueint n)" "whole (cj_valuedouble n)"
      using "1.prems" by (auto simp: item_value.simps Let_def split: if_splits)
    from w(2) obtain i where i: "saturated_int (cj_valuedouble n) = Some i" "number_text (cj_valuedouble n) i = dec_int i" "INT_MIN \<le> i" "i \<le> INT_MAX"
      by (rule render_whole)
    then have "length (dec_int i) \<le> 25" using dec_int_length [OF i(3,4)] by simp
    then show ?thesis using True w(1) i by (simp add: item_value.simps Let_def)
  next
    case num: False
    have nv: "named_value h = (\<lambda>i. (text_at h (cj_string (it_node i)), item_value h i))" by (simp add: named_value_def fun_eq_iff)
    show ?thesis
      using "1.prems" num "1.hyps" by (auto simp: item_value.simps Let_def quoted_render nv split: if_splits)
  qed
next
  case (3 f d i "is")
  then show ?case by simp
next
  case (5 f d i "is")
  then show ?case by (simp add: named_value_def quoted_render)
qed simp_all

section \<open>Printing and parsing\<close>

lemma texts_nz: "0 \<notin> set (texts h s)"
  using string_at_nz by (auto simp: texts_def split: option.split)

lemma read_document_render:
  assumes "plain v" and "nesting v \<le> CJSON_NESTING_LIMIT"
  shows "read_document False (render f 0 v) = Some v"
proof -
  let ?t = "render f 0 v"
  note o = render_opens [OF assms(1), of f 0]
  then have "hd ?t \<noteq> 0xEF" by (auto simp: opens_def is_digit_def)
  then have "take 3 ?t \<noteq> [0xEF, 0xBB, 0xBF]" by (cases ?t) auto
  then have "json_start ?t = ?t" using o opens_not by (simp add: json_start_def json_ws_visible)
  moreover have "read_value 0 (?t @ []) = Some (v, [])" using assms by (intro read_render(1)) (simp_all add: stops_def)
  ultimately show ?thesis by (simp add: read_document_def)
qed

lemma printed_reads_back:
  assumes pr: "printable h i" and pl: "plain (item_value h i)" and ne: "nesting (item_value h i) \<le> CJSON_NESTING_LIMIT"
    and fuel: "3 * length (nodes_of [i]) \<le> fuel" and gr: "all_granted h"
    and len: "int (length (render fmt 0 (item_value h i))) + 5 \<le> INT_MAX"
  obtains s h1 p h2 where "print fuel (it_ptr i) fmt h = Some (s, h1)" "string_at s h1 = Some (render fmt 0 (item_value h i))"
    "cJSON_Parse s h1 = Some (p, h2)" "holds h2 p (item_value h i)"
proof -
  let ?t = "render fmt 0 (item_value h i)"
  have vt: "value_text (texts h) fmt 0 i = Some ?t" by (rule text_is_render(1) [OF pl])
  from print_exact_lemma [OF pr fuel, of fmt] obtain s h1 where p: "print fuel (it_ptr i) fmt h = Some (s, h1)"
    "s \<noteq> 0" "fresh_ok h1" "h_grants h1 = h_grants h" "block s h1 = Some (?t @ [0])"
    using gr len unfolding print_answer_def vt by (auto simp: refused_def all_granted_def)
  have nz: "0 \<notin> set ?t" using text_nz(1) [of i "texts h" fmt 0] texts_nz vt by (simp add: opt_nz_def)
  have z: "0 \<in> set (?t @ [0])" and c: "cstr (?t @ [0]) = ?t" using nz by simp_all
  obtain q h2 where q: "cJSON_Parse s h1 = Some (q, h2)" "answers h1 (read_document False ?t) q h2"
    using parse_answers [OF p(3,5) z] unfolding c by blast
  have "all_granted h1" using gr p(4) by (simp add: all_granted_def)
  then have "holds h2 q (item_value h i)"
    using q(2) read_document_render [OF pl ne, of fmt] unfolding answers_def holds_def by auto
  moreover have "string_at s h1 = Some ?t" using p(5) c z by (simp add: string_at_def)
  ultimately show thesis using that p(1) q(1) by blast
qed

text \<open>C23: A tree of values the printer writes exactly (whole numbers in the range of \<open>int\<close>, strings,
  literals, arrays and objects within the nesting limit) survives printing and parsing, with and
  without formatting: unless memory is refused, \<open>cJSON_Parse\<close> of what \<open>cJSON_Print\<close> or
  \<open>cJSON_PrintUnformatted\<close> answered gives a tree that holds the same value.\<close>

theorem print_then_parse:
  assumes "printable h i" and "plain (item_value h i)" and "nesting (item_value h i) \<le> CJSON_NESTING_LIMIT"
    and "3 * length (nodes_of [i]) \<le> fuel" and "all_granted h"
    and "int (length (render fmt 0 (item_value h i))) + 5 \<le> INT_MAX"
  shows "\<exists>s h1 p h2. (if fmt then cJSON_Print fuel (it_ptr i) h else cJSON_PrintUnformatted fuel (it_ptr i) h) = Some (s, h1) \<and>
    cJSON_Parse s h1 = Some (p, h2) \<and> holds h2 p (item_value h i)"
proof -
  obtain s h1 p h2 where "print fuel (it_ptr i) fmt h = Some (s, h1)"
    "cJSON_Parse s h1 = Some (p, h2)" "holds h2 p (item_value h i)"
    by (rule printed_reads_back [OF assms])
  then show ?thesis by (auto simp: cJSON_Print_def cJSON_PrintUnformatted_def)
qed

theorem print_then_parse_witness:
  "\<exists>s h1 p h2. cJSON_Print 9 1 printed_heap = Some (s, h1) \<and> cJSON_Parse s h1 = Some (p, h2) \<and>
     holds h2 p (JsArr [JsStr [ch_a, ch_quote, 1], JsBool True])"
proof -
  have v: "item_value printed_heap printed_array = JsArr [JsStr [ch_a, ch_quote, 1], JsBool True]"
    by (simp add: printed_heap_def printed_array_def item_value.simps type_low_def zero_node_def Let_def text_at_def string_at_def
        block_def cstr_def)
  have g: "all_granted printed_heap" by (simp add: all_granted_def printed_heap_def heap_start_def)
  have l: "int (length (render True 0 (JsArr [JsStr [ch_a, ch_quote, 1], JsBool True]))) + 5 \<le> INT_MAX" by code_simp
  have "it_ptr printed_array = 1" "3 * length (nodes_of [printed_array]) \<le> 9" by (simp_all add: printed_array_def)
  then show ?thesis
    using print_then_parse [OF printed_heap_ok _ _ _ g, of 9 True] l unfolding v by (simp add: CJSON_NESTING_LIMIT_def)
qed

section \<open>Numbers that are not whole\<close>

lemma dec_nat_digits15: "dec_nat 300000000000000 = str ''300000000000000''" by (simp add: dec_nat.simps str_def)
lemma dec_nat_significand: "dec_nat 5404319552844596 = str ''5404319552844596''" by (simp add: dec_nat.simps str_def)
lemma dec_nat_scale: "dec_nat 18014398509481984 = str ''18014398509481984''" by (simp add: dec_nat.simps str_def)
lemma ilog10_near: "ilog10 5404319552844596 18014398509481984 = -1" by (simp add: ilog10_def dec_nat_significand dec_nat_scale pow_ge_def str_def)
lemma sig_digits_near: "sig_digits 15 5404319552844596 18014398509481984 = (300000000000000, -1)"
  by (simp add: sig_digits_def ilog10_near div_rne_def Let_def)
lemma sprintf_near: "sprintf_g 15 (Fin False 5404319552844596 (- 54)) = str ''0.3''"
  by (simp add: sig_digits_near g_text_def dec_nat_digits15 strip_zeros_def point_def Let_def str_def)
lemma bits_small: "bits 3 = 2" "bits 10 = 4" by (simp_all add: bits.simps)
lemma round_near: "round_dbl False 3 10 = Fin False 5404319552844595 (- 54)"
  by (simp add: round_dbl_def ilog2_def bits_small pow_ge_def div_rne_def Let_def)
lemma strtod_digits_near: "strtod_digits (str ''0.3'') = (False, str ''0'', str ''3'', 3)"
  by code_simp
lemma digits_val_near: "digits_val 0 (str ''0'' @ str ''3'') = 3" by code_simp
lemma strtod_near: "strtod (str ''0.3'') = (Fin False 5404319552844595 (- 54), 3)"
  unfolding strtod_def strtod_digits_near using digits_val_near by (simp add: str_def strtod_exp_def round_near Let_def del: digits_val_Cons digits_val_append)
lemma bits_one: "bits 1 = 1" by (simp add: bits.simps)
lemma near_not_zero: "\<not> dbl_eq (Fin False 5404319552844596 (- 54)) (dbl_of_int 0)"
  by (simp add: dbl_eq_def dbl_of_int_def round_dbl_def scaled_def Let_def)
lemma bits_near: "bits 18014398509481984 = 55" "bits 24338891524382008111616403439616 = 105" "bits 365375409332725729550921208179070754913983135744 = 159" by (simp_all add: bits.simps)
lemma round_difference: "round_dbl True (Suc 0) 18014398509481984 = Fin True (2 ^ 52) (- 106)"
  by (simp add: round_dbl_def ilog2_def bits_one [simplified] bits_near pow_ge_def div_rne_def Let_def)
lemma round_tolerance: "round_dbl False 24338891524382008111616403439616 365375409332725729550921208179070754913983135744 = Fin False 5404319552844596 (- 106)"
  by (simp add: round_dbl_def ilog2_def bits_near pow_ge_def div_rne_def Let_def)
lemma compare_near: "compare_double (Fin False 5404319552844595 (- 54)) (Fin False 5404319552844596 (- 54))"
  by (simp add: compare_double_def dbl_less_def DBL_EPSILON_def scaled_def Let_def round_scaled_def round_difference round_tolerance)
lemma number_text_near: "number_text (Fin False 5404319552844596 (- 54)) 0 = str ''0.3''"
  by (simp add: number_text_def near_not_zero is_nan_def sprintf_near strtod_near compare_near Let_def del: sprintf_g.simps)

text \<open>
  The test whether 15 digits are enough accepts a difference of one unit in the last place: the
  double nearest to 0.30000000000000004 is printed as 0.3, which is another double.
\<close>

lemma near_number_changed:
  "number_text (Fin False 5404319552844596 (- 54)) 0 = str ''0.3'' \<and>
   fst (strtod (str ''0.3'')) = Fin False 5404319552844595 (- 54)"
  using number_text_near strtod_near by simp

end
