(* ===== verification/Romfs_File.thy ===== *)
theory Romfs_File
  imports CJson_Print_Text
begin

text \<open>
  Reading a file of the game's ROM file system: \<open>OpenAndReadFile\<close> of \<open>romfs.cpp\<close>. The
  file system library \<open>nn::fs\<close> is not part of the repository: what it answers for a path is
  an argument. Its handles are followed in a list of events, because a handle that is open
  when the game unmounts the file system ends the process.
\<close>

section \<open>The file system\<close>

text \<open>
  The answers for one path: \<open>GetEntryType\<close> (\<open>None\<close> is an error, otherwise whether the
  entry is a file), \<open>OpenFile\<close>, \<open>GetFileSize\<close>, \<open>ReadFile\<close> and the bytes that are read.
\<close>

record file_answers =
  fa_entry :: "bool option"
  fa_open :: bool
  fa_size :: "int option"
  fa_read :: bool
  fa_data :: bytes

type_synonym fs = "bytes \<Rightarrow> file_answers"

datatype fs_event = OpenedFile bytes | ClosedFile bytes

text \<open>
  The handles that are open after a list of events, starting with \<open>ps\<close>; closing a handle
  that is not open has no answer.
\<close>

fun still_open :: "bytes list \<Rightarrow> fs_event list \<Rightarrow> bytes list option" where
  "still_open ps [] = Some ps"
| "still_open ps (OpenedFile p # es) = still_open (p # ps) es"
| "still_open ps (ClosedFile p # es) = (if p \<in> set ps then still_open (remove1 p ps) es else None)"

lemma still_open_append: "still_open ps (es @ fs) = still_open ps es \<bind> (\<lambda>qs. still_open qs fs)"
  by (induction ps es rule: still_open.induct) simp_all

definition OpenAndReadFile :: "fs \<Rightarrow> bytes \<Rightarrow> heap \<Rightarrow> (ptr \<times> fs_event list \<times> heap) option" where
  "OpenAndReadFile fs path h =
     (let a = fs path
      in case fa_entry a of
           None \<Rightarrow> Some (0, [], h)
         | Some is_file \<Rightarrow>
             if \<not> is_file then Some (0, [], h)
             else if \<not> fa_open a then Some (0, [], h)
             else let ev = [OpenedFile path]
             in (case fa_size a of
                   None \<Rightarrow> Some (0, ev @ [ClosedFile path], h)
                 | Some n \<Rightarrow>
                     if n < 0 then Some (0, ev @ [ClosedFile path], h)
                     else (case allocate (nat n + 1) h of (fileBuf, h1) \<Rightarrow>
                             if fileBuf = 0 then Some (0, ev @ [ClosedFile path], h1)
                             else if \<not> fa_read a then do {
                               h2 \<leftarrow> deallocate fileBuf h1;
                               Some (0, ev @ [ClosedFile path], h2) }
                             else do {
                               h2 \<leftarrow> write_at fileBuf 0 (take (nat n) (fa_data a)) h1;
                               h3 \<leftarrow> write_at fileBuf (nat n) [0] h2;
                               Some (fileBuf, ev @ [ClosedFile path], h3) })))"

section \<open>What it answers\<close>

lemma deallocate_new:
  assumes "allocate n h = (h_fresh h, h1)" and "fresh_ok h" and "h_strs h1 = (h_strs h)(h_fresh h \<mapsto> c)" and "h_nodes h1 = h_nodes h"
  shows "\<exists>h2. deallocate (h_fresh h) h1 = Some h2 \<and> same_mem h h2 \<and> h_fresh h2 = h_fresh h1"
proof -
  have "h_grants h1 = h_grants h" using assms(1) by (auto simp: allocate_def Let_def split: if_splits)
  then show ?thesis using assms by (auto simp: deallocate_def same_mem_def fresh_ok_def fun_eq_iff)
qed

text \<open>The file as the text in a new block, or nothing; no handle stays open.\<close>

lemma read_file_cases:
  assumes f: "fresh_ok h"
  obtains (absent) ev h' where "OpenAndReadFile fs path h = Some (0, ev, h')" "still_open [] ev = Some []" "same_mem h h'"
      "fresh_ok h'" "h_fresh h \<le> h_fresh h'"
  | (read) ev h' b n where "OpenAndReadFile fs path h = Some (h_fresh h, ev, h')" "still_open [] ev = Some []"
      "h_nodes h' = h_nodes h" "h_strs h' = (h_strs h)(h_fresh h \<mapsto> b)" "0 \<in> set b" "h_fresh h' = Suc (h_fresh h)" "fresh_ok h'"
      "fa_size (fs path) = Some n" "take (length (take (nat n) (fa_data (fs path)))) b = take (nat n) (fa_data (fs path))"
      "length b = nat n + 1" "b ! nat n = 0" "h_grants h' = h_grants h"
proof -
  let ?a = "fs path"
  have keep: thesis if "OpenAndReadFile fs path h = Some (0, ev, h)" "still_open [] ev = Some []" for ev
    by (rule absent [of ev h]) (use that f in \<open>simp_all add: same_mem_def\<close>)
  show thesis
  proof (cases "fa_entry ?a = Some True \<and> fa_open ?a \<and> (\<exists>n \<ge> 0. fa_size ?a = Some n)")
    case False
    then have "OpenAndReadFile fs path h =
        Some (0, (if fa_entry ?a = Some True \<and> fa_open ?a then [OpenedFile path, ClosedFile path] else []), h)"
      by (auto simp: OpenAndReadFile_def Let_def not_less split: option.splits)
    then show thesis by (rule keep) simp
  next
    case True
    then obtain n where n: "0 \<le> n" "fa_size ?a = Some n" by blast
    let ?ev = "[OpenedFile path, ClosedFile path]"
    have unf: "OpenAndReadFile fs path h =
      (case allocate (nat n + 1) h of (q, h1) \<Rightarrow>
         if q = 0 then Some (0, ?ev, h1)
         else if \<not> fa_read ?a then deallocate q h1 \<bind> (\<lambda>h2. Some (0, ?ev, h2))
         else write_at q 0 (take (nat n) (fa_data ?a)) h1 \<bind> (\<lambda>h2. write_at q (nat n) [0] h2 \<bind> (\<lambda>h3. Some (q, ?ev, h3))))"
      using True n by (cases "allocate (nat n + 1) h") (simp add: OpenAndReadFile_def)
    from f show thesis
    proof (cases rule: allocate_cases [of h "nat n + 1"])
      case none: (none h1)
      have "same_mem h h1" "fresh_ok h1" using none f by (simp_all add: same_mem_def fresh_ok_def)
      then show thesis using that(1) [of ?ev h1] none unf by simp
    next
      case (some h1 c)
      have f1: "fresh_ok h1" using f some by (simp add: fresh_ok_def)
      show thesis
      proof (cases "fa_read ?a")
        case False
        obtain h2 where h2: "deallocate (h_fresh h) h1 = Some h2" "same_mem h h2" "h_fresh h2 = h_fresh h1"
          using deallocate_new [OF some(1) f some(3,2)] by blast
        have "fresh_ok h2" using h2(2,3) f some(4) by (simp add: fresh_ok_def same_mem_def)
        then show thesis using that(1) [of ?ev h2] unf some False h2 by simp
      next
        case True
        let ?d = "take (nat n) (fa_data ?a)"
        define b1 where "b1 = ?d @ drop (length ?d) c"
        let ?b2 = "take (nat n) b1 @ [0]"
        let ?h2 = "h1\<lparr>h_strs := (h_strs h1)(h_fresh h \<mapsto> b1)\<rparr>"
        let ?h3 = "h1\<lparr>h_strs := (h_strs h1)(h_fresh h \<mapsto> ?b2)\<rparr>"
        have w1: "write_at (h_fresh h) 0 ?d h1 = Some ?h2"
          using some by (simp add: write_at_def block_def b1_def)
        have l1: "length b1 = nat n + 1" using some(5) by (simp add: b1_def)
        then have lt: "length (take (nat n) b1) = nat n" and "drop (nat n + 1) b1 = []" by simp_all
        then have w2: "write_at (h_fresh h) (nat n) [0] ?h2 = Some ?h3"
          using some(6) l1 by (simp add: write_at_def block_def)
        have r: "OpenAndReadFile fs path h = Some (h_fresh h, ?ev, ?h3)" unfolding unf using some(1,6) True w1 w2 by simp
        have l2: "length ?b2 = nat n + 1" "?b2 ! nat n = 0" using lt by (simp_all only: length_append nth_append) simp_all
        have ld: "length ?d \<le> nat n" by simp
        have "take (length ?d) ?b2 = take (length ?d) b1" using lt ld by (simp add: min_def)
        also have "\<dots> = ?d" unfolding b1_def by (simp only: take_append take_all order_refl diff_self_eq_0 take_0 append_Nil2)
        finally have t: "take (length ?d) ?b2 = ?d" .
        show thesis
          by (rule that(2) [OF r _ _ _ _ _ _ n(2) t l2]) (use some f in \<open>simp_all add: fresh_ok_def\<close>)
      qed
    qed
  qed
qed

end
