(* ===== verification/CJson_Lookup.thy ===== *)
theory CJson_Lookup
  imports CJson_Items CJson_Safety
begin

text \<open>
  Looking up a member of an object by its name: the loops of \<open>get_object_item\<close> answer the
  first member with that name, and end on every list.
\<close>

section \<open>Comparing strings\<close>

definition lower :: "bytes \<Rightarrow> bytes" where
  "lower s = map c_tolower s"

lemma c_tolower_0: "c_tolower c = 0 \<longleftrightarrow> c = 0"
proof
  assume a: "c_tolower c = 0"
  show "c = 0"
  proof (rule ccontr)
    assume "c \<noteq> 0"
    then have c: "ch_A \<le> c" "c \<le> ch_Z" "c + 0x20 = 0" using a by (auto simp: c_tolower_def split: if_splits)
    then have "unat c \<le> 0x5A" "unat (c + 0x20) = 0" by (simp_all add: word_le_nat_alt)
    moreover have "unat (c + 0x20) = unat c + 0x20" using c(2) by (subst unat_add_lem [THEN iffD1]) (simp_all add: word_le_nat_alt)
    ultimately show False by simp
  qed
qed (simp add: c_tolower_def)

lemma ci_cmp_total:
  assumes "0 \<in> set b1" and "0 \<in> set b2"
  shows "\<exists>d. ci_cmp b1 b2 = Some d \<and> (d = 0 \<longleftrightarrow> lower (cstr b1) = lower (cstr b2))"
  using assms
proof (induction b1 b2 rule: ci_cmp.induct)
  case (1 c cs d ds)
  show ?case
  proof (cases "c_tolower c = c_tolower d")
    case False
    then have ne: "uint (c_tolower c) \<noteq> uint (c_tolower d)" using word_uint_eq_iff by blast
    have "lower (cstr (c # cs)) \<noteq> lower (cstr (d # ds))"
      using False c_tolower_0 [of c] c_tolower_0 [of d] by (auto simp: cstr_def lower_def)
    then show ?thesis using False ne by simp
  next
    case True
    then have z: "c = 0 \<longleftrightarrow> d = 0" using c_tolower_0 by metis
    show ?thesis
    proof (cases "c = 0")
      case True
      then show ?thesis using z by (simp add: cstr_def)
    next
      case False
      then obtain k where "ci_cmp cs ds = Some k" "k = 0 \<longleftrightarrow> lower (cstr cs) = lower (cstr ds)"
        using 1 z True by auto
      then show ?thesis using False z True by (simp add: cstr_def lower_def)
    qed
  qed
qed auto

lemma cmp_bytes_total:
  assumes "0 \<in> set b1" and "0 \<in> set b2"
  shows "\<exists>d. cmp_bytes b1 b2 = Some d \<and> (d = 0 \<longleftrightarrow> cstr b1 = cstr b2)"
  using assms
proof (induction b1 b2 rule: cmp_bytes.induct)
  case (1 c cs d ds)
  show ?case
  proof (cases "c = d")
    case False
    then have "uint c \<noteq> uint d" using word_uint_eq_iff by blast
    moreover have "cstr (c # cs) \<noteq> cstr (d # ds)" using False by (auto simp: cstr_def)
    ultimately show ?thesis using False by simp
  next
    case True
    then show ?thesis using 1 by (cases "c = 0") (auto simp: cstr_def)
  qed
qed auto

section \<open>The search\<close>

definition named :: "heap \<Rightarrow> bytes \<Rightarrow> item \<Rightarrow> bool" where
  "named h s i \<longleftrightarrow> (\<exists>t. cj_string (it_node i) \<noteq> 0 \<and> string_at (cj_string (it_node i)) h = Some t \<and> lower s = lower t)"

lemma strcmp_string:
  assumes "string_at p h = Some s" and "q = 0 \<or> string_at q h \<noteq> None"
  shows "\<exists>d. case_insensitive_strcmp p q h = Some d \<and>
    (d = 0 \<longleftrightarrow> (\<exists>t. q \<noteq> 0 \<and> string_at q h = Some t \<and> lower s = lower t))"
proof (cases "q = 0 \<or> p = q")
  case True
  then show ?thesis using assms by (auto simp: case_insensitive_strcmp_def string_at_def block_def split: if_splits)
next
  case False
  then obtain t where t: "string_at q h = Some t" using assms(2) by blast
  obtain b1 b2 where b: "block p h = Some b1" "0 \<in> set b1" "s = cstr b1" "block q h = Some b2" "0 \<in> set b2" "t = cstr b2"
    using assms(1) t by (auto simp: string_at_def split: option.splits if_splits)
  have "p \<noteq> 0" using b(1) by (simp add: block_def split: if_splits)
  then show ?thesis using False t b ci_cmp_total [OF b(2,5)] by (auto simp: case_insensitive_strcmp_def)
qed

lemma search_insensitive_finds:
  assumes "seg h 0 is" and "string_at name h = Some s"
  shows "search_insensitive name (first_or 0 is) h = Some (case find (named h s) is of None \<Rightarrow> 0 | Some i \<Rightarrow> it_ptr i)"
  using assms
proof (induction "is")
  case Nil
  then show ?case by (subst search_insensitive.simps) simp
next
  case (Cons i "is")
  obtain p n cs where i: "i = Item p n cs" by (cases i)
  have n: "p \<noteq> 0" "h_nodes h p = Some n" "cj_next n = first_or 0 is" "seg h 0 is"
    "\<forall>s \<in> set (node_strs n). string_at s h \<noteq> None" using Cons.prems(1) i by simp_all
  have "cj_string n = 0 \<or> string_at (cj_string n) h \<noteq> None" using n(5) by (auto simp: node_strs_def split: if_splits)
  from strcmp_string [OF Cons.prems(2) this] obtain d where d: "case_insensitive_strcmp name (cj_string n) h = Some d"
    "d = 0 \<longleftrightarrow> named h s i" by (auto simp: named_def i)
  have "search_insensitive name p h = (if d = 0 then Some p else search_insensitive name (cj_next n) h)"
    using n(1,2) d(1) by (subst search_insensitive.simps) (simp add: load_def)
  then show ?case using Cons.IH [OF n(4) Cons.prems(2)] n(3) d(2) i by simp
qed

lemma find_named_member: "find (named h s) is = Some i \<Longrightarrow> i \<in> set is \<and> named h s i"
  by (induction "is") (auto split: if_splits)

lemma seg_member: "seg h q is \<Longrightarrow> i \<in> set is \<Longrightarrow> h_nodes h (it_ptr i) = Some (it_node i) \<and> it_ptr i \<noteq> 0"
  by (induction h q "is" rule: seg.induct) auto

text \<open>The lookup in an item that is in memory with its members.\<close>

lemma get_object_item_finds:
  assumes o: "h_nodes h obj = Some n" "obj \<noteq> 0" "cj_child n = first_or 0 cs" and s: "seg h 0 cs"
    and name: "string_at name h = Some s"
  shows "cJSON_GetObjectItem obj name h = Some (case find (named h s) cs of None \<Rightarrow> 0 | Some i \<Rightarrow> it_ptr i)"
proof -
  have "name \<noteq> 0" using string_at_block [of name h] name by simp
  moreover have "load obj h = Some n" using o by (simp add: load_def)
  ultimately have g: "cJSON_GetObjectItem obj name h =
      (let cur = (case find (named h s) cs of None \<Rightarrow> 0 | Some i \<Rightarrow> it_ptr i)
       in if cur = 0 then Some 0 else do { c \<leftarrow> load cur h; if cj_string c = 0 then Some 0 else Some cur })"
    using o(2,3) search_insensitive_finds [OF s name]
    by (simp add: cJSON_GetObjectItem_def get_object_item_def Let_def)
  show ?thesis
  proof (cases "find (named h s) cs")
    case None
    then show ?thesis unfolding g by simp
  next
    case (Some i)
    from find_named_member [OF Some] have i: "i \<in> set cs" "cj_string (it_node i) \<noteq> 0" by (auto simp: named_def)
    then show ?thesis unfolding g using Some seg_member [OF s i(1)] by (simp add: load_def)
  qed
qed

end
