(* ===== verification/Discovery.thy ===== *)
theory Discovery
  imports Remote_Dispatch Romfs_File CJson_Lookup CJson_Claims
begin

text \<open>
  Finding the PC: \<open>source/program/discovery.{hpp,cpp}\<close>. A UDP probe goes to the loopback
  address and then to every host of the /24 network of the configured address; the first valid
  reply gives host and port of the bridge. The socket library is not part of the repository:
  what its calls answer is an argument, and what is done with the sockets is a list of events.
\<close>

section \<open>Constants and state\<close>

definition kSweepCollectMs :: nat where
  "kSweepCollectMs = 2000"

definition kInnerPollMs :: nat where
  "kInnerPollMs = 50"

definition kReplyBufBytes :: nat where
  "kReplyBufBytes = 512"

definition kSubnetMask :: u32 where
  "kSubnetMask = 0xFFFFFF00"

definition kMaxSweepHosts :: nat where
  "kMaxSweepHosts = 254"

definition host_cap :: nat where
  "host_cap = 64"

record bridge_target =
  bt_host :: bytes
  bt_port :: u16

record sockaddr_in =
  sin_family :: u8
  sin_port :: u16
  s_addr :: u32

definition kAfInet :: u8 where
  "kAfInet = 2"

text \<open>
  \<open>InetAton\<close> and \<open>InetHtons\<close>; one \<open>Poll\<close> with the \<open>RecvFrom\<close> that follows it: nothing to
  read, a result that is not positive, or a datagram.
\<close>

record inet =
  inet_aton :: "bytes \<Rightarrow> u32 option"
  inet_htons :: "u16 \<Rightarrow> u16"

datatype udp_poll = NotReadable | RecvFailed | Datagram bytes

datatype udp_event = OpenedSocket int | ClosedSocket int | SentTo int sockaddr_in bytes

section \<open>Probe and reply\<close>

definition buildProbe :: "bytes \<Rightarrow> nat \<Rightarrow> bytes" where
  "buildProbe mod_ver cap =
     (let line = lb_append_char (enc_object lb_empty
            [(str ''t'', JStr (str ''discover'')), (str ''mod_ver'', JStr mod_ver)]) ch_nl
      in take (if lb_size line < cap then lb_size line else cap) (lb_buf line))"

text \<open>\<open>host\<close> is the array of 64 bytes, \<open>port\<close> an \<open>int\<close>; \<open>None\<close> is a return of false.\<close>

function reply_fields :: "reader \<Rightarrow> bool \<Rightarrow> bytes \<Rightarrow> u32 \<Rightarrow> (bool \<times> bytes \<times> u32) option" where
  "reply_fields r saw_t_bridge host port =
     (case next_field r of
        (None, r1) \<Rightarrow> Some (saw_t_bridge, host, port)
      | (Some key, r1) \<Rightarrow>
          if view_bytes r1 key = str ''t'' then
            (case next_string r1 of
               (None, r2) \<Rightarrow> None
             | (Some t_val, r2) \<Rightarrow>
                 reply_fields r2 (saw_t_bridge \<or> view_bytes r2 t_val = str ''bridge'') host port)
          else if view_bytes r1 key = str ''host'' then
            (case next_string r1 of
               (None, r2) \<Rightarrow> None
             | (Some host_val, r2) \<Rightarrow>
                 let n = (if snd host_val < host_cap - 1 then snd host_val else host_cap - 1)
                 in reply_fields r2 saw_t_bridge
                      (take n (view_bytes r2 host_val) @ 0 # drop (n + 1) host) port)
          else if view_bytes r1 key = str ''port'' then
            (case next_int r1 of
               (None, r2) \<Rightarrow> None
             | (Some p, r2) \<Rightarrow> reply_fields r2 saw_t_bridge host (ucast p))
          else reply_fields (skip_value r1) saw_t_bridge host port)"
  by pat_completeness auto
termination
  by (relation "measure (\<lambda>(r, t, host, port). rd_end r - rd_p r)")
     (auto elim!: field_step_of
       intro: skip_value_advances next_string_advances [OF sym] next_int_advances [OF sym])

declare reply_fields.simps [simp del]

definition parseReply :: "bytes \<Rightarrow> bridge_target option" where
  "parseReply data =
     (let scratch = take kReplyBufBytes data
      in case enter_object (new_reader scratch (length scratch)) of (ok, r) \<Rightarrow>
           if \<not> ok then None
           else do {
             (saw_t_bridge, host, port) \<leftarrow> reply_fields r False (replicate host_cap 0) 0;
             if \<not> saw_t_bridge \<or> host ! 0 = 0 \<or> sint port \<le> 0 \<or> sint port > 0xFFFF then None
             else Some \<lparr>bt_host = cstr host, bt_port = ucast port\<rparr> })"

section \<open>Sending and receiving\<close>

definition makeSockAddrFromU32 :: "inet \<Rightarrow> u32 \<Rightarrow> u16 \<Rightarrow> sockaddr_in" where
  "makeSockAddrFromU32 net host_nbo port =
     \<lparr>sin_family = kAfInet, sin_port = inet_htons net port, s_addr = host_nbo\<rparr>"

definition received_reply :: "udp_poll \<Rightarrow> bridge_target option" where
  "received_reply a =
     (case a of Datagram bs \<Rightarrow> if bs = [] then None else parseReply (take kReplyBufBytes bs) | _ \<Rightarrow> None)"

definition oneProbeLiteral ::
  "inet \<Rightarrow> int \<Rightarrow> bytes \<Rightarrow> bytes \<Rightarrow> u16 \<Rightarrow> int \<Rightarrow> udp_poll \<Rightarrow> bridge_target option \<times> udp_event list" where
  "oneProbeLiteral net fd probe host port sent answer =
     (case inet_aton net host of
        None \<Rightarrow> (None, [])
      | Some ia \<Rightarrow>
          let addr = \<lparr>sin_family = kAfInet, sin_port = inet_htons net port, s_addr = ia\<rparr>
          in if sent < 0 then (None, [SentTo fd addr probe])
             else (received_reply answer, [SentTo fd addr probe]))"

definition byteswap32 :: "u32 \<Rightarrow> u32" where
  "byteswap32 v =
     push_bit 24 (v AND 0x000000FF) OR push_bit 8 (v AND 0x0000FF00) OR
     drop_bit 8 (v AND 0x00FF0000) OR drop_bit 24 (v AND 0xFF000000)"

text \<open>The burst: \<open>rets\<close> gives what the calls of \<open>SendTo\<close> return, \<open>i\<close> counts them.\<close>

function sweep_send ::
  "inet \<Rightarrow> int \<Rightarrow> bytes \<Rightarrow> u16 \<Rightarrow> u32 \<Rightarrow> u32 \<Rightarrow> nat \<Rightarrow> (nat \<Rightarrow> int) \<Rightarrow> nat \<Rightarrow> udp_event list" where
  "sweep_send net fd probe port bcast_ho ip_ho sent_count rets i =
     (if ip_ho < bcast_ho \<and> sent_count < kMaxSweepHosts
      then SentTo fd (makeSockAddrFromU32 net (byteswap32 ip_ho) port) probe #
           sweep_send net fd probe port bcast_ho (ip_ho + 1)
             (if rets i \<ge> 0 then sent_count + 1 else sent_count) rets (Suc i)
      else [])"
  by pat_completeness auto
termination
proof (relation "measure (\<lambda>(net, fd, probe, port, bcast, ip, s, rets, i). unat (bcast - ip))")
  fix net :: inet and fd :: int and probe :: bytes and port :: u16 and bcast ip :: u32 and s :: nat and rets :: "nat \<Rightarrow> int" and i :: nat
  assume "ip < bcast \<and> s < kMaxSweepHosts"
  then have "unat (bcast - (ip + 1)) < unat (bcast - ip)" by unat_arith
  then show "((net, fd, probe, port, bcast, ip + 1, if rets i \<ge> 0 then s + 1 else s, rets, Suc i), net, fd, probe, port, bcast, ip, s, rets, i) \<in>
      measure (\<lambda>(net, fd, probe, port, bcast, ip, s, rets, i). unat (bcast - ip))" by simp
qed simp

declare sweep_send.simps [simp del]

text \<open>The collecting loop: the first valid reply within the given number of polls.\<close>

fun sweep_collect :: "nat \<Rightarrow> (nat \<Rightarrow> udp_poll) \<Rightarrow> nat \<Rightarrow> bridge_target option" where
  "sweep_collect 0 polls i = None"
| "sweep_collect (Suc k) polls i =
     (case received_reply (polls i) of
        None \<Rightarrow> sweep_collect k polls (Suc i)
      | Some t \<Rightarrow> Some t)"

definition sweepSubnet ::
  "inet \<Rightarrow> int \<Rightarrow> bytes \<Rightarrow> u32 \<Rightarrow> u16 \<Rightarrow> (nat \<Rightarrow> int) \<Rightarrow> (nat \<Rightarrow> udp_poll) \<Rightarrow> bridge_target option \<times> udp_event list" where
  "sweepSubnet net fd probe seed_ip_nbo port rets polls =
     (let seed_ho = byteswap32 seed_ip_nbo;
          net_ho = seed_ho AND kSubnetMask;
          bcast_ho = net_ho OR NOT kSubnetMask
      in (sweep_collect (kSweepCollectMs div kInnerPollMs) polls 0,
          sweep_send net fd probe port bcast_ho (net_ho + 1) 0 rets 0))"

section \<open>The configured host\<close>

record discovery =
  g_cfgHost :: bytes
  g_cfgHostValid :: bool

definition init_discovery :: discovery where
  "init_discovery = \<lparr>g_cfgHost = replicate host_cap 0, g_cfgHostValid = False\<rparr>"

text \<open>\<open>None\<close> is a return of false; the array is read up to its terminator.\<close>

definition readConfiguredHost :: "discovery \<Rightarrow> nat \<Rightarrow> bytes option" where
  "readConfiguredHost st cap =
     (if \<not> g_cfgHostValid st then None
      else let n = length (cstr (g_cfgHost st))
      in if n = 0 \<or> n \<ge> cap then None else Some (take n (g_cfgHost st)))"

text \<open>\<open>lit\<close> is the address of the string literal \<open>bridge_host\<close>.\<close>

definition CacheBridgeHostFromRomfs ::
  "fs \<Rightarrow> ptr \<Rightarrow> discovery \<Rightarrow> heap \<Rightarrow> (discovery \<times> fs_event list \<times> heap) option" where
  "CacheBridgeHostFromRomfs fs lit st h =
     (if g_cfgHostValid st then Some (st, [], h)
      else do {
        (buf, ev, h1) \<leftarrow> OpenAndReadFile fs (str ''rom:/ap_config.json'') h;
        if buf = 0 then Some (st, ev, h1)
        else do {
          (json, h2) \<leftarrow> cJSON_Parse buf h1;
          h3 \<leftarrow> deallocate buf h2;
          if json = 0 then Some (st, ev, h3)
          else do {
            host \<leftarrow> cJSON_GetObjectItem json lit h3;
            is_str \<leftarrow> cJSON_IsString host h3;
            st1 \<leftarrow> (if \<not> is_str then Some st
                   else do {
                     n \<leftarrow> load host h3;
                     if cj_valuestring n = 0 then Some st
                     else do {
                       s \<leftarrow> string_at (cj_valuestring n) h3;
                       if 0 < length s \<and> length s < host_cap
                       then Some (st\<lparr>g_cfgHost := s @ 0 # drop (length s + 1) (g_cfgHost st), g_cfgHostValid := True\<rparr>)
                       else Some st } });
            h4 \<leftarrow> cJSON_Delete json h3;
            Some (st1, ev, h4) } } })"

section \<open>Resolving\<close>

text \<open>What the socket library answers during one cycle.\<close>

record cycle =
  cy_loop_socket :: int
  cy_loop_sent :: int
  cy_loop_answer :: udp_poll
  cy_sweep_socket :: int
  cy_sweep_sends :: "nat \<Rightarrow> int"
  cy_sweep_polls :: "nat \<Rightarrow> udp_poll"

text \<open>The second step, with the configured host.\<close>

definition sweep_step :: "inet \<Rightarrow> cycle \<Rightarrow> bytes \<Rightarrow> discovery \<Rightarrow> u16 \<Rightarrow> bridge_target option \<times> udp_event list" where
  "sweep_step net cy probe st discovery_port =
     (case readConfiguredHost st host_cap of
        None \<Rightarrow> (None, [])
      | Some cfg_host \<Rightarrow>
          (case inet_aton net cfg_host of
             None \<Rightarrow> (None, [])
           | Some seed_nbo \<Rightarrow>
               let fd = cy_sweep_socket cy
               in if fd < 0 then (None, [])
                  else (case sweepSubnet net fd probe seed_nbo discovery_port (cy_sweep_sends cy) (cy_sweep_polls cy) of
                          (t, ev) \<Rightarrow> (t, OpenedSocket fd # ev @ [ClosedSocket fd]))))"

definition resolveBridge :: "inet \<Rightarrow> cycle \<Rightarrow> bytes \<Rightarrow> discovery \<Rightarrow> u16 \<Rightarrow> bridge_target option \<times> udp_event list" where
  "resolveBridge net cy mod_ver st discovery_port =
     (let probe = buildProbe mod_ver kReplyBufBytes
      in if length probe = 0 then (None, [])
         else let fd = cy_loop_socket cy
         in if fd < 0 then sweep_step net cy probe st discovery_port
            else (case oneProbeLiteral net fd probe (str ''127.0.0.1'') discovery_port (cy_loop_sent cy) (cy_loop_answer cy) of
                    (t, ev) \<Rightarrow>
                      let ev1 = OpenedSocket fd # ev @ [ClosedSocket fd]
                      in case t of
                           Some target \<Rightarrow> (Some target, ev1)
                         | None \<Rightarrow> (case sweep_step net cy probe st discovery_port of (t2, ev2) \<Rightarrow> (t2, ev1 @ ev2))))"

end
