(* ===== verification/Json_File.thy ===== *)
theory Json_File
  imports Romfs_File CJson_Lookup CJson_Claims
begin

text \<open>
  A configuration file read, parsed and released, as \<open>discovery.cpp\<close> and \<open>romfs.cpp\<close> do it with
  \<open>OpenAndReadFile\<close>, \<open>cJSON_Parse\<close> and \<open>free\<close>: afterwards the memory holds what it held before
  and the tree of the text.
\<close>

lemma parse_then_free:
  assumes f: "fresh_ok h"
    and h1: "h_nodes h1 = h_nodes h" "h_strs h1 = (h_strs h)(h_fresh h \<mapsto> b)" "0 \<in> set b"
      "h_fresh h1 = Suc (h_fresh h)" "fresh_ok h1" "h_grants h1 = h_grants h"
  obtains (bad) h2 h3 where "cJSON_Parse (h_fresh h) h1 = Some (0, h2)" "deallocate (h_fresh h) h2 = Some h3"
      "same_mem h h3" "fresh_ok h3"
  | (tree) json h2 h3 n cs where "cJSON_Parse (h_fresh h) h1 = Some (json, h2)" "json \<noteq> 0"
      "deallocate (h_fresh h) h2 = Some h3" "seg h3 0 [Item json n cs]" "apart [Item json n cs]"
      "tidy [Item json n cs]" "grows h [] h3 [Item json n cs]" "fresh_ok h3"
proof -
  let ?q = "h_fresh h"
  have q: "?q \<noteq> 0" "h_strs h ?q = None" using f by (simp_all add: fresh_ok_def)
  have "block ?q h1 = Some b" using q(1) h1(2) by (simp add: block_def)
  from parse_parsed [OF h1(5) this h1(3)] obtain json h2 where
    p: "cJSON_Parse ?q h1 = Some (json, h2)" "parsed h1 json h2" by blast
  let ?h3 = "h2\<lparr>h_strs := (h_strs h2)(?q := None)\<rparr>"
  show thesis
  proof (cases "json = 0 \<and> same_mem h1 h2 \<and> h_fresh h1 \<le> h_fresh h2")
    case True
    then have s: "h_strs h2 = (h_strs h)(?q \<mapsto> b)" "h_nodes h2 = h_nodes h" using h1 by (simp_all add: same_mem_def)
    have "deallocate ?q h2 = Some ?h3" using q(1) s by (simp add: deallocate_def)
    moreover have "h_grants h2 = h_grants h" using True h1(6) by (simp add: same_mem_def)
    then have "same_mem h ?h3" using s q(2) by (auto simp: same_mem_def fun_eq_iff)
    moreover have "fresh_ok ?h3" by (rule fresh_ok_same_mem [OF f \<open>same_mem h ?h3\<close>]) (use True h1(4) in simp)
    ultimately show thesis using p True by (intro bad) simp_all
  next
    case False
    then obtain n cs where t: "seg h2 0 [Item json n cs]" "apart [Item json n cs]" "grows h1 [] h2 [Item json n cs]"
      "tidy [Item json n cs]" "fresh_ok h2" using p(2) unfolding parsed_def by blast
    let ?is = "[Item json n cs]"
    have new: "set (strs_of ?is) \<subseteq> {Suc ?q..}" "set (nodes_of ?is) \<subseteq> {Suc ?q..}"
      using t(3) h1(4) by (auto simp: grows_def)
    then have nq: "?q \<notin> set (strs_of ?is)" by auto
    then have "h_strs h2 ?q = Some b" using t(3) h1(2) by (auto simp: grows_def frame_def)
    then have d: "deallocate ?q h2 = Some ?h3" using q(1) by (simp add: deallocate_def)
    have s: "seg ?h3 0 ?is" by (rule seg_frame_eq [OF t(1)]) (use nq in auto)
    have "frame (set (nodes_of ?is)) (set (strs_of ?is)) h ?h3"
      using t(3) h1 q(2) unfolding grows_def frame_def by auto
    moreover have le: "{Suc ?q..} \<subseteq> {?q..}" by auto
    have "set (strs_of ?is) \<subseteq> {?q..}" "set (nodes_of ?is) \<subseteq> {?q..}"
      by (rule order_trans [OF new(1) le], rule order_trans [OF new(2) le])
    ultimately have g: "grows h [] ?h3 ?is" unfolding grows_def
      by (simp only: nodes_of.simps(1) strs_of.simps(1) list.set(1) empty_subsetI Un_empty_left simp_thms)
    have "fresh_ok ?h3" using t(5) by (simp add: fresh_ok_def)
    then show thesis using p(1) d s t(2,4) g by (intro tree) auto
  qed
qed


text \<open>The strings of the items, and a literal outside the new tree.\<close>

lemma seg_valuestring:
  "seg h q is \<Longrightarrow> i \<in> set is \<Longrightarrow> cj_valuestring (it_node i) = 0 \<or> string_at (cj_valuestring (it_node i)) h \<noteq> None"
  by (induction h q "is" rule: seg.induct) (auto simp: node_strs_def split: if_splits)

lemma lit_outside:
  assumes "grows h [] h' is" and "fresh_ok h" and "string_at lit h = Some s"
  shows "lit \<notin> set (strs_of is)" and "h_strs h' lit = h_strs h lit"
proof -
  have "h_strs h lit \<noteq> None" using assms(3) by (auto simp: string_at_def block_def split: option.splits if_splits)
  then have "\<not> h_fresh h \<le> lit" using assms(2) by (auto simp: fresh_ok_def)
  then show *: "lit \<notin> set (strs_of is)" using assms(1) by (auto simp: grows_def)
  show "h_strs h' lit = h_strs h lit" using * assms(1) by (auto simp: grows_def frame_def)
qed

end
