(* ===== verification/Discovery_Claims.thy ===== *)
theory Discovery_Claims
  imports Discovery Json_File
begin

text \<open>
  Properties of the search for the PC: which replies are accepted and what an accepted reply
  names, which hosts the sweep reaches, that no socket stays open, and that reading the
  configuration from the ROM file system is safe for every content of the file.
\<close>

section \<open>The fields of a reply\<close>

lemma reply_end: "next_field r = (None, r1) \<Longrightarrow> reply_fields r t h p = Some (t, h, p)"
  by (subst reply_fields.simps) simp

lemma reply_t:
  "next_field r = (Some key, r1) \<Longrightarrow> view_bytes r1 key = str ''t'' \<Longrightarrow> next_string r1 = (Some v, r2) \<Longrightarrow>
    reply_fields r t h p = reply_fields r2 (t \<or> view_bytes r2 v = str ''bridge'') h p"
  by (subst reply_fields.simps) simp

lemma reply_host:
  "next_field r = (Some key, r1) \<Longrightarrow> view_bytes r1 key = str ''host'' \<Longrightarrow> next_string r1 = (Some v, r2) \<Longrightarrow>
    snd v < host_cap \<Longrightarrow>
    reply_fields r t h p = reply_fields r2 t (take (snd v) (view_bytes r2 v) @ 0 # drop (snd v + 1) h) p"
  proof -
  assume a: "next_field r = (Some key, r1)" "view_bytes r1 key = str ''host''" "next_string r1 = (Some v, r2)" "snd v < host_cap"
  then have "(if snd v < host_cap - 1 then snd v else host_cap - 1) = snd v" by (simp add: host_cap_def)
  then show ?thesis using a by (subst reply_fields.simps) (simp add: str_def Let_def)
qed

lemma reply_port:
  "next_field r = (Some key, r1) \<Longrightarrow> view_bytes r1 key = str ''port'' \<Longrightarrow> next_int r1 = (Some v, r2) \<Longrightarrow>
    reply_fields r t h p = reply_fields r2 t h (ucast v)"
  by (subst reply_fields.simps) (simp add: str_def)

lemma accept_reply:
  assumes line: "line = render_object [(str ''t'', JStr (str ''bridge'')), (str ''host'', JStr host), (str ''port'', JInt port)]"
    and len: "length line \<le> kReplyBufBytes" and host: "host \<noteq> []" "length host < host_cap" "0 \<notin> set host"
    and port: "0 < sint (word_of_int port :: u32)" "sint (word_of_int port :: u32) \<le> 0xFFFF"
  shows "parseReply line = Some \<lparr>bt_host = host, bt_port = word_of_int port\<rparr>"
proof -
  let ?h = "take (length host) host @ 0 # drop (length host + 1) (replicate host_cap 0)"
  have p: "plain_key (str ''t'')" "plain_key (str ''host'')" "plain_key (str ''port'')"
    by (simp_all add: plain_key_def str_def)
  from line_enter [OF line, of "[]"] obtain r where
    e: "enter_object (new_reader line (length line)) = (True, r)" and o: "in_obj r False"
    and t: "rest r = render_field (str ''t'', JStr (str ''bridge'')) @
        render_tail [(str ''host'', JStr host), (str ''port'', JInt port)]" by auto
  from t have "rest r = (if False then [ch_comma] else []) @ Wire_Encoder.quoted (str ''t'') @ ch_colon #
      render_val (JStr (str ''bridge'')) @ render_tail [(str ''host'', JStr host), (str ''port'', JInt port)]"
    by (simp add: render_field_def)
  from next_field_render [OF o p(1) this] obtain k1 r1 where f1: "next_field r = (Some k1, r1)" "view_bytes r1 k1 = str ''t''"
    and t1: "rest r1 = Wire_Encoder.quoted (escape (str ''bridge'')) @ render_tail [(str ''host'', JStr host), (str ''port'', JInt port)]"
    and o1: "in_obj r1 True" by (metis render_val.simps(1))
  from next_string_render [OF o1 t1] obtain v2 r2 where s2: "next_string r1 = (Some v2, r2)" "view_bytes r2 v2 = str ''bridge''"
    and t2: "rest r2 = ch_comma # render_field (str ''host'', JStr host) @ render_tail [(str ''port'', JInt port)]"
    and o2: "in_obj r2 True" by (metis render_tail.simps(2))
  from next_src_render [OF o2 t2 p(2)] obtain k3 r3 v4 r4 where
    f3: "next_field r2 = (Some k3, r3)" "view_bytes r3 k3 = str ''host''"
    and s4: "next_string r3 = (Some v4, r4)" "view_bytes r4 v4 = host" "snd v4 = length host"
    and t4: "rest r4 = ch_comma # render_field (str ''port'', JInt port) @ render_tail []" and o4: "in_obj r4 True"
    by (metis render_tail.simps(2))
  from next_int_render [OF o4 p(3) t4] obtain k5 r5 r6 where
    f5: "next_field r4 = (Some k5, r5)" "view_bytes r5 k5 = str ''port''"
    and s6: "next_int r5 = (Some (word_of_int port), r6)" and t6: "rest r6 = render_tail []" "in_obj r6 True" .
  have "reply_fields r False (replicate host_cap 0) 0 = reply_fields r2 True (replicate host_cap 0) 0"
    using reply_t [OF f1 s2(1)] s2(2) by simp
  also have "\<dots> = reply_fields r4 True ?h 0" using reply_host [OF f3 s4(1)] host(2) s4(2,3) by simp
  also have "\<dots> = reply_fields r6 True ?h (word_of_int port)"
    using reply_port [OF f5 s6] by (simp add: ucast_u64_u32_of_int)
  also have "\<dots> = Some (True, ?h, word_of_int port)" by (rule reply_end [OF tail_end [OF t6(2,1)]])
  finally have fields: "reply_fields r False (replicate host_cap 0) 0 = Some (True, ?h, word_of_int port)" .
  have first: "?h ! 0 \<noteq> 0" using host(1,3) by (cases host) auto
  have up: "ucast (word_of_int port :: u32) = (word_of_int port :: u16)"
    by (rule bit_word_eqI) (auto simp: bit_simps)
  have "cstr ?h = host" using host(3) by simp
  then show ?thesis
    using e fields first port len up by (simp add: parseReply_def Let_def)
qed

section \<open>What an accepted reply names\<close>

definition host_array :: "bytes \<Rightarrow> bool" where
  "host_array h \<longleftrightarrow> 0 \<in> set h \<and> length (cstr h) < host_cap"

lemma host_array_init: "host_array (replicate host_cap 0)"
  by (simp add: host_array_def host_cap_def cstr_def numeral_eq_Suc)

lemma length_cstr_before: "length (cstr (s @ 0 # t)) \<le> length s"
  by (induction s) (simp_all add: cstr_def)

lemma host_array_stored:
  assumes "length s < host_cap"
  shows "host_array (s @ 0 # t)"
  using assms length_cstr_before [of s t] by (simp add: host_array_def)

lemma reply_fields_host:
  "host_array h \<Longrightarrow> reply_fields r t h p = Some (t', h', p') \<Longrightarrow> host_array h'"
proof (induction r t h p rule: reply_fields.induct)
  case (1 r t h p)
  note IH = 1(1-4)
  note prems = 1(5,6) [unfolded reply_fields.simps [of r t h p]]
  show ?case
  proof (cases "next_field r")
    case nf: (Pair f r1)
    show ?thesis
    proof (cases f)
      case None
      then show ?thesis using prems nf by simp
    next
      case key: (Some key)
      note nf = nf [unfolded key]
      consider (t) "view_bytes r1 key = str ''t''" | (host) "view_bytes r1 key = str ''host''" "view_bytes r1 key \<noteq> str ''t''"
        | (port) "view_bytes r1 key = str ''port''" "view_bytes r1 key \<noteq> str ''t''" "view_bytes r1 key \<noteq> str ''host''"
        | (other) "view_bytes r1 key \<noteq> str ''t''" "view_bytes r1 key \<noteq> str ''host''" "view_bytes r1 key \<noteq> str ''port''" by blast
      then show ?thesis
      proof cases
        case t
        then show ?thesis using prems nf IH(1) [OF nf [symmetric] refl t] by (auto split: option.splits prod.splits)
      next
        case host
        show ?thesis
        proof (cases "next_string r1")
          case (Pair g r2)
          then obtain v where v: "g = Some v" using prems host nf by (cases g) auto
          let ?n = "if snd v < host_cap - 1 then snd v else host_cap - 1"
          have "length (take ?n (view_bytes r2 v)) < host_cap" by (auto simp: host_cap_def min_def)
          from host_array_stored [OF this]
            have "host_array (take ?n (view_bytes r2 v) @ 0 # drop (?n + 1) h)" .
          from IH(2) [OF nf [symmetric] refl host(2,1) Pair [unfolded v, symmetric] refl refl this]
            show ?thesis using prems nf host Pair v by (simp add: Let_def)
        qed
      next
        case port
        then show ?thesis using prems nf IH(3) [OF nf [symmetric] refl port(2,3,1)] by (auto split: option.splits prod.splits)
      next
        case other
        then show ?thesis using prems nf IH(4) [OF nf [symmetric] refl other] by auto
      qed
    qed
  qed
qed

definition valid_target :: "bridge_target \<Rightarrow> bool" where
  "valid_target t \<longleftrightarrow> bt_host t \<noteq> [] \<and> 0 \<notin> set (bt_host t) \<and> length (bt_host t) < host_cap \<and> bt_port t \<noteq> 0"

lemma reply_names_target: "parseReply data = Some t \<Longrightarrow> valid_target t"
proof -
  assume a: "parseReply data = Some t"
  obtain ok r where e: "enter_object (new_reader (take kReplyBufBytes data) (length (take kReplyBufBytes data))) = (ok, r)"
    by (meson surj_pair)
  from a e obtain tb h p where f: "reply_fields r False (replicate host_cap 0) 0 = Some (tb, h, p)"
    and g: "h ! 0 \<noteq> 0" "0 < sint p" "sint p \<le> 0xFFFF" and t: "t = \<lparr>bt_host = cstr h, bt_port = ucast p\<rparr>"
    unfolding parseReply_def Let_def by (auto split: if_splits bind_splits simp: not_le not_less)
  from reply_fields_host [OF host_array_init f] have h: "0 \<in> set h" "length (cstr h) < host_cap"
    by (simp_all add: host_array_def)
  then have "cstr h \<noteq> []" using g(1) by (cases h) (auto simp: cstr_def)
  moreover have "ucast p \<noteq> (0 :: u16)"
  proof -
    have "ucast (word_of_int (sint p) :: u32) = (word_of_int (sint p) :: u16)"
      by (rule bit_word_eqI) (auto simp: bit_simps)
    moreover have "(word_of_int i :: u16) \<noteq> 0" if "0 < i" "i \<le> 0xFFFF" for i
      using that zdvd_not_zless [of i 65536] by (simp add: word_of_int_eq_0_iff dvd_eq_mod_eq_0)
    moreover have "(word_of_int (sint p) :: u32) = p" by simp
    ultimately show ?thesis using g by metis
  qed
  ultimately show ?thesis using h t by (simp add: valid_target_def)
qed

section \<open>The hosts of the sweep\<close>

lemma bit_byteswap:
  assumes "n < 32"
  shows "bit (byteswap32 v) n = bit v (if n < 8 then 24 + n else if n < 16 then 8 + n else if n < 24 then n - 8 else n - 24)"
proof -
  have m: "(0x000000FF :: u32) = mask 8" "(0x0000FF00 :: u32) = push_bit 8 (mask 8)"
    "(0x00FF0000 :: u32) = push_bit 16 (mask 8)" "(0xFF000000 :: u32) = push_bit 24 (mask 8)"
    by (simp_all add: mask_eq_exp_minus_1 push_bit_eq_mult)
  show ?thesis using assms unfolding byteswap32_def m by (auto simp: bit_simps)
qed

lemma swap_swap: "byteswap32 (byteswap32 v) = v"
proof (rule bit_word_eqI)
  fix n assume "n < LENGTH(32)"
  then consider "n < 8" | "8 \<le> n" "n < 16" | "16 \<le> n" "n < 24" | "24 \<le> n" "n < 32" by fastforce
  then show "bit (byteswap32 (byteswap32 v)) n = bit v n" by cases (auto simp: bit_byteswap)
qed

lemma not_subnet: "NOT kSubnetMask = mask 8"
  by (simp add: kSubnetMask_def mask_eq_exp_minus_1)

lemma not_subnet_255: "NOT kSubnetMask = 255"
  by (simp add: not_subnet mask_eq_exp_minus_1)

definition network :: "u32 \<Rightarrow> u32" where
  "network v = v AND kSubnetMask"

definition host_part :: "u32 \<Rightarrow> u32" where
  "host_part v = v AND NOT kSubnetMask"

lemma host_part_nat: "host_part v = of_nat (unat v mod 256)"
  by (simp add: host_part_def not_subnet take_bit_eq_mask [symmetric] take_bit_eq_mod word_arith_nat_mod)

lemma parts_disjoint: "network v AND host_part w = 0" "host_part w AND network v = 0"
  by (rule bit_word_eqI; auto simp: network_def host_part_def bit_simps)+

lemma network_host: "v = network v + host_part v"
proof -
  have "network v + host_part v = network v OR host_part v" by (rule disjunctive_add_eq_or) (rule parts_disjoint)
  also have "\<dots> = v" by (rule bit_word_eqI) (auto simp: network_def host_part_def bit_simps)
  finally show ?thesis by simp
qed

lemma small_parts: "k < 256 \<Longrightarrow> network (of_nat k) = 0" "k < 256 \<Longrightarrow> host_part (of_nat k) = of_nat k"
proof -
  show *: "host_part (of_nat k) = of_nat k" if "k < 256" using that by (simp add: host_part_nat unat_of_nat)
  show "network (of_nat k) = 0" if "k < 256" using network_host [of "of_nat k"] *[OF that] by simp
qed

lemma parts_add:
  assumes "k < 256"
  shows "network (network v + of_nat k) = network v" and "host_part (network v + of_nat k) = of_nat k"
proof -
  let ?w = "of_nat k :: u32"
  have w: "?w = host_part ?w" using small_parts(2) [OF assms] by simp
  have "network v AND ?w = 0" by (subst w) (rule parts_disjoint)
  then have s: "network v + ?w = network v OR ?w" by (rule disjunctive_add_eq_or)
  have "network (network v OR host_part ?w) = network v" "host_part (network v OR host_part ?w) = host_part ?w"
    by (rule bit_word_eqI; auto simp: network_def host_part_def bit_simps)+
  then show "network (network v + ?w) = network v" and "host_part (network v + ?w) = ?w" using s w by simp_all
qed

lemma network_bound: "unat (network v) + 256 \<le> 2 ^ 32"
proof -
  have "network v \<le> kSubnetMask" by (simp add: network_def word_and_le1)
  then show ?thesis by (simp add: kSubnetMask_def word_le_nat_alt)
qed

lemma unat_host: "k < 256 \<Longrightarrow> unat (network v + of_nat k) = unat (network v) + k"
  using network_bound [of v] by (subst unat_add_lem [THEN iffD1]) (simp_all add: unat_of_nat)

lemma sweep_sends:
  "0 < k \<Longrightarrow> k < 256 \<Longrightarrow> s < k \<Longrightarrow>
    sweep_send net fd probe port (network v + 255) (network v + of_nat k) s rets i =
    map (\<lambda>j. SentTo fd (makeSockAddrFromU32 net (byteswap32 (network v + of_nat j)) port) probe) [k..<255]"
proof (induction "255 - k" arbitrary: k s i)
  case 0
  then have "k = 255" by simp
  then show ?case by (subst sweep_send.simps) simp
next
  case (Suc n)
  then have k: "k < 255" by simp
  have "unat (network v + of_nat k) < unat (network v + 255)" using unat_host [of k v] unat_host [of 255 v] k by simp
  then have lt: "network v + of_nat k < network v + 255" by (simp add: word_less_nat_alt)
  have e: "network v + of_nat k + 1 = network v + of_nat (Suc k)" by simp
  have s: "s < kMaxSweepHosts" using Suc.prems k by (simp add: kMaxSweepHosts_def)
  have r: "[k..<255] = k # [Suc k..<255]" using k by (simp add: upt_rec)
  show ?case
    apply (subst sweep_send.simps)
    using lt s unfolding e r
    using Suc.hyps k Suc.prems by (simp del: upt_Suc of_nat_Suc)
qed


text \<open>The octets of an address as the socket library keeps it: the first one of the dotted form is
  the lowest byte of the word. The hosts of the /24 network of an address share its first three
  octets, and their last one is neither the network's own (0) nor the broadcast one (255).\<close>

definition octet :: "nat \<Rightarrow> u32 \<Rightarrow> u8" where
  "octet i a = ucast (drop_bit (8 * i) a)"

definition hosts_of_network :: "u32 \<Rightarrow> u32 set" where
  "hosts_of_network a =
     {b. octet 0 b = octet 0 a \<and> octet 1 b = octet 1 a \<and> octet 2 b = octet 2 a \<and> octet 3 b \<noteq> 0 \<and> octet 3 b \<noteq> 255}"

lemma octet_eq: "octet i b = octet i a \<longleftrightarrow> (\<forall>n<8. bit b (8 * i + n) = bit a (8 * i + n))"
  by (auto simp: octet_def bit_eq_iff bit_simps)

lemma same_network: "network (byteswap32 b) = network (byteswap32 a) \<longleftrightarrow>
    octet 0 b = octet 0 a \<and> octet 1 b = octet 1 a \<and> octet 2 b = octet 2 a"
proof
  assume eq: "network (byteswap32 b) = network (byteswap32 a)"
  have "bit (byteswap32 b) n = bit (byteswap32 a) n" if "8 \<le> n" "n < 32" for n
  proof -
    have m: "kSubnetMask = NOT (mask 8)" using not_subnet by (metis bit.double_compl)
    have "bit (network v) n = bit v n" for v using that unfolding network_def m by (simp add: bit_simps)
    then show ?thesis using eq by metis
  qed
  note * = this [unfolded bit_byteswap]
  have "bit b (8 * i + n) = bit a (8 * i + n)" if "i < 3" "n < 8" for i n
    using *[of "24 - 8 * i + n"] that by (simp add: bit_byteswap numeral_3_eq_3 less_Suc_eq split: if_splits) auto
  from this [of 0] this [of 1] this [of 2] show "octet 0 b = octet 0 a \<and> octet 1 b = octet 1 a \<and> octet 2 b = octet 2 a"
    unfolding octet_eq by simp
next
  assume "octet 0 b = octet 0 a \<and> octet 1 b = octet 1 a \<and> octet 2 b = octet 2 a"
  then have o: "n < 8 \<Longrightarrow> bit b n = bit a n" "n < 8 \<Longrightarrow> bit b (8 + n) = bit a (8 + n)"
    "n < 8 \<Longrightarrow> bit b (16 + n) = bit a (16 + n)" for n
    unfolding octet_eq by simp_all
  have *: "bit b n = bit a n" if "n < 24" for n
  proof -
    consider "n < 8" | "8 \<le> n" "n < 16" | "16 \<le> n" "n < 24" using \<open>n < 24\<close> by linarith
    then show ?thesis using o(1) [of n] o(2) [of "n - 8"] o(3) [of "n - 16"] by cases simp_all
  qed
  show "network (byteswap32 b) = network (byteswap32 a)"
  proof (rule bit_word_eqI)
    fix n assume n: "n < LENGTH(32)"
    show "bit (network (byteswap32 b)) n = bit (network (byteswap32 a)) n"
    proof (cases "n < 8")
      case True
      have m: "kSubnetMask = NOT (mask 8)" using not_subnet by (metis bit.double_compl)
      show ?thesis using True unfolding network_def m by (simp add: bit_simps)
    next
      case False
      then have "bit (byteswap32 b) n = bit (byteswap32 a) n" using n * by (simp add: bit_byteswap)
      then show ?thesis by (simp add: network_def bit_simps)
    qed
  qed
qed

lemma host_octet: "host_part (byteswap32 b) = ucast (octet 3 b)"
  by (rule bit_word_eqI) (auto simp: host_part_def not_subnet octet_def bit_byteswap bit_simps)

text \<open>The same in the code's own terms.\<close>

lemma hosts_swapped: "hosts_of_network a = {b. network (byteswap32 b) = network (byteswap32 a) \<and>
     host_part (byteswap32 b) \<noteq> 0 \<and> host_part (byteswap32 b) \<noteq> NOT kSubnetMask}"
proof -
  have "ucast (ucast o' :: u32) = o'" for o' :: u8 by (rule bit_word_eqI) (auto simp: bit_simps)
  then have "(ucast o' :: u32) = ucast (k :: u8) \<longleftrightarrow> o' = k" for o' k :: u8 by metis
  from this [of _ 0] this [of _ 255] have "(ucast o' :: u32) = 0 \<longleftrightarrow> o' = 0" "(ucast o' :: u32) = 255 \<longleftrightarrow> o' = 255" for o' :: u8
    by simp_all
  then show ?thesis unfolding hosts_of_network_def same_network host_octet not_subnet_255 by simp
qed

lemma hosts_image: "hosts_of_network a = (\<lambda>j. byteswap32 (network (byteswap32 a) + of_nat j)) ` {1..<255}"
proof (intro set_eqI iffI)
  fix b assume b: "b \<in> hosts_of_network a"
  define k where "k = unat (byteswap32 b) mod 256"
  have h: "host_part (byteswap32 b) = of_nat k" unfolding k_def by (rule host_part_nat)
  from b have "host_part (byteswap32 b) \<noteq> 0" "host_part (byteswap32 b) \<noteq> 255"
    by (auto simp: hosts_swapped not_subnet_255)
  then have ne: "of_nat k \<noteq> (0 :: u32)" "of_nat k \<noteq> (255 :: u32)" unfolding h .
  have "k \<noteq> 0" using ne(1) by (rule contrapos_nn) simp
  moreover have "k \<noteq> 255" using ne(2) by (rule contrapos_nn) simp
  moreover have "k < 256" by (simp add: k_def)
  ultimately have k: "k \<in> {1..<255}" by simp
  have "byteswap32 b = network (byteswap32 a) + of_nat k"
    using b network_host [of "byteswap32 b"] h by (simp add: hosts_swapped)
  then have "b = byteswap32 (network (byteswap32 a) + of_nat k)" using swap_swap [of b] by simp
  then show "b \<in> (\<lambda>j. byteswap32 (network (byteswap32 a) + of_nat j)) ` {1..<255}"
    using k by (rule image_eqI)
next
  fix b assume "b \<in> (\<lambda>j. byteswap32 (network (byteswap32 a) + of_nat j)) ` {1..<255}"
  then obtain j where j: "1 \<le> j" "j < 255" and b: "b = byteswap32 (network (byteswap32 a) + of_nat j)" by auto
  have "network (byteswap32 b) = network (byteswap32 a)" "host_part (byteswap32 b) = of_nat j"
    using j b by (simp_all add: swap_swap parts_add)
  moreover have "unat (of_nat j :: u32) = j" using j by (simp add: unat_of_nat)
  then have "of_nat j \<noteq> (0 :: u32)" "of_nat j \<noteq> (255 :: u32)" using j by auto
  ultimately show "b \<in> hosts_of_network a" by (simp add: hosts_swapped not_subnet_255)
qed

lemma sweep_hosts:
  "snd (sweepSubnet net fd probe seed port rets polls) =
   map (\<lambda>j. SentTo fd (makeSockAddrFromU32 net (byteswap32 (network (byteswap32 seed) + of_nat j)) port) probe) [1..<255]"
proof -
  let ?n = "network (byteswap32 seed)"
  have "?n + 255 = ?n OR NOT kSubnetMask"
  proof -
    have "?n AND NOT kSubnetMask = 0" using parts_disjoint(1) [of "byteswap32 seed" "- 1"] by (simp add: host_part_def)
    then have "?n + NOT kSubnetMask = ?n OR NOT kSubnetMask" by (rule disjunctive_add_eq_or)
    then show ?thesis unfolding not_subnet_255 .
  qed
  then show ?thesis using sweep_sends [of 1 0 net fd probe port "byteswap32 seed" rets 0]
    by (simp add: sweepSubnet_def network_def Let_def)
qed

lemma hosts_distinct: "inj_on (\<lambda>j. byteswap32 (network v + of_nat j)) {1..<255}"
proof (rule inj_onI)
  fix i j assume ij: "i \<in> {1..<255}" "j \<in> {1..<255}"
    "byteswap32 (network v + of_nat i) = byteswap32 (network v + of_nat j)"
  from arg_cong [OF this(3), of byteswap32] have "network v + of_nat i = network v + (of_nat j :: u32)"
    unfolding swap_swap .
  moreover have "unat (network v + of_nat i) = unat (network v) + i" "unat (network v + of_nat j) = unat (network v) + j"
    by (rule unat_host; use ij in simp)+
  ultimately show "i = j" by (metis add_left_cancel)
qed


section \<open>The configured host\<close>

text \<open>The array of 64 bytes, and what it holds once it is valid.\<close>

definition config_ok :: "discovery \<Rightarrow> bool" where
  "config_ok st \<longleftrightarrow> length (g_cfgHost st) = host_cap \<and>
     (g_cfgHostValid st \<longrightarrow> 0 \<in> set (g_cfgHost st) \<and> cstr (g_cfgHost st) \<noteq> [])"

lemma config_ok_read:
  "config_ok st \<Longrightarrow> g_cfgHostValid st \<Longrightarrow> readConfiguredHost st host_cap = Some (cstr (g_cfgHost st))"
  using length_cstr_less [of "g_cfgHost st"] takeWhile_eq_take [of "\<lambda>b. b \<noteq> 0" "g_cfgHost st"]
  by (auto simp: config_ok_def readConfiguredHost_def Let_def cstr_def)

lemma stored_ok:
  "config_ok st \<Longrightarrow> 0 \<notin> set s \<Longrightarrow> s \<noteq> [] \<Longrightarrow> length s < host_cap \<Longrightarrow>
    config_ok (st\<lparr>g_cfgHost := s @ 0 # drop (Suc (length s)) (g_cfgHost st), g_cfgHostValid := True\<rparr>)"
  by (simp add: config_ok_def)

lemma store_host:
  assumes t: "seg h 0 [Item json n cs]" and lit: "string_at lit h = Some (str ''bridge_host'')"
  shows "\<exists>host is_str. cJSON_GetObjectItem json lit h = Some host \<and> cJSON_IsString host h = Some is_str \<and>
    (is_str \<longrightarrow> (\<exists>k. load host h = Some k \<and>
       (cj_valuestring k = 0 \<or> (\<exists>s. string_at (cj_valuestring k) h = Some s \<and> 0 \<notin> set s))))"
proof -
  have c: "h_nodes h json = Some n" "json \<noteq> 0" "cj_child n = first_or 0 cs" "seg h 0 cs" using t by simp_all
  note find = get_object_item_finds [OF c lit]
  show ?thesis
  proof (cases "find (named h (str ''bridge_host'')) cs")
    case None
    then show ?thesis using find by (intro exI [of _ "0 :: ptr"] exI [of _ False]) (simp add: cJSON_IsString_def has_type_def)
  next
    case (Some i)
    from find_named_member [OF Some] have "i \<in> set cs" by simp
    note i = seg_member [OF c(4) this]
    have "cj_valuestring (it_node i) = 0 \<or> (\<exists>s. string_at (cj_valuestring (it_node i)) h = Some s \<and> 0 \<notin> set s)"
      using seg_valuestring [OF c(4) \<open>i \<in> set cs\<close>] by (auto simp: string_at_def split: option.splits if_splits)
    then show ?thesis using find Some i by (simp add: cJSON_IsString_def has_type_def load_def)
  qed
qed

lemma cache_total:
  assumes f: "fresh_ok h" and lit: "string_at lit h = Some (str ''bridge_host'')" and ok: "config_ok st"
  shows "\<exists>st' ev h'. CacheBridgeHostFromRomfs fs lit st h = Some (st', ev, h') \<and> same_mem h h' \<and>
    still_open [] ev = Some [] \<and> config_ok st' \<and> (g_cfgHostValid st \<longrightarrow> st' = st \<and> ev = [])"
proof (cases "g_cfgHostValid st")
  case True
  then show ?thesis using ok by (simp add: CacheBridgeHostFromRomfs_def same_mem_def)
next
  case new: False
  let ?path = "str ''rom:/ap_config.json''"
  from f show ?thesis
  proof (cases rule: read_file_cases [of h fs ?path])
    case (absent ev h1)
    then show ?thesis using new ok by (simp add: CacheBridgeHostFromRomfs_def)
  next
    case (read ev h1 b k)
    have q: "h_fresh h \<noteq> 0" using f by (simp add: fresh_ok_def)
    from f read(3-7,12) show ?thesis
    proof (cases rule: parse_then_free)
      case (bad h2 h3)
      then show ?thesis using new ok read(1,2) q by (auto simp: CacheBridgeHostFromRomfs_def)
    next
      case (tree json h2 h3 n cs)
      have "lit \<notin> set (strs_of [Item json n cs])" "h_strs h3 lit = h_strs h lit"
        using lit_outside [OF tree(7) f lit] by simp_all
      then have "string_at lit h3 = Some (str ''bridge_host'')" using lit string_at_same by metis
      from store_host [OF tree(4) this] obtain host is_str where
        host: "cJSON_GetObjectItem json lit h3 = Some host" "cJSON_IsString host h3 = Some is_str"
        "is_str \<longrightarrow> (\<exists>k. load host h3 = Some k \<and>
           (cj_valuestring k = 0 \<or> (\<exists>s. string_at (cj_valuestring k) h3 = Some s \<and> 0 \<notin> set s)))" by blast
      from deallocated_tree [OF tree(4,5,7) f] obtain h4 where
        d: "cJSON_Delete json h3 = Some h4" "same_mem h h4" by auto
      note run = CacheBridgeHostFromRomfs_def read(1,2) tree(1-3) host(1,2) d
      consider "\<not> is_str" | k where "is_str" "load host h3 = Some k" "cj_valuestring k = 0"
        | k s where "is_str" "load host h3 = Some k" "cj_valuestring k \<noteq> 0" "string_at (cj_valuestring k) h3 = Some s" "0 \<notin> set s"
        using host(3) by auto
      then show ?thesis
      proof cases
        case (3 k s)
        then show ?thesis using new q stored_ok [OF ok, of s] ok by (cases "0 < length s \<and> length s < host_cap") (auto simp: run)
      qed (use new q ok in \<open>auto simp: run\<close>)
    qed
  qed
qed

section \<open>Sockets and answers\<close>

text \<open>The sockets that are open after a list of events; using one that is not has no answer.\<close>

fun sockets_after :: "int list \<Rightarrow> udp_event list \<Rightarrow> int list option" where
  "sockets_after fds [] = Some fds"
| "sockets_after fds (OpenedSocket fd # es) = sockets_after (fd # fds) es"
| "sockets_after fds (ClosedSocket fd # es) = (if fd \<in> set fds then sockets_after (remove1 fd fds) es else None)"
| "sockets_after fds (SentTo fd a p # es) = (if fd \<in> set fds then sockets_after fds es else None)"

fun destinations :: "udp_event list \<Rightarrow> (u32 \<times> bytes) list" where
  "destinations [] = []"
| "destinations (SentTo fd a p # es) = (s_addr a, p) # destinations es"
| "destinations (e # es) = destinations es"

lemma destinations_append [simp]: "destinations (es @ fs) = destinations es @ destinations fs"
  by (induction es rule: destinations.induct) simp_all

lemma destinations_sends:
  "destinations (map (\<lambda>j. SentTo fd (makeSockAddrFromU32 net (f j) port) probe) js) = map (\<lambda>j. (f j, probe)) js"
  by (induction js) (simp_all add: makeSockAddrFromU32_def)

lemma sockets_append: "sockets_after fds (es @ fs) = sockets_after fds es \<bind> (\<lambda>fds'. sockets_after fds' fs)"
  by (induction fds es rule: sockets_after.induct) simp_all

lemma sockets_sends: "fd \<in> set fds \<Longrightarrow> sockets_after fds (map (\<lambda>j. SentTo fd (f j) probe) js) = Some fds"
  by (induction js) simp_all

lemma received_valid: "received_reply a = Some t \<Longrightarrow> valid_target t"
  using reply_names_target by (auto simp: received_reply_def split: udp_poll.splits if_splits)

lemma collect_valid: "pred_option valid_target (sweep_collect k polls i)"
  by (induction k polls i rule: sweep_collect.induct) (auto split: option.splits dest: received_valid)

lemma collect_first:
  "i \<le> j \<Longrightarrow> j < i + k \<Longrightarrow> \<forall>l<j. received_reply (polls l) = None \<Longrightarrow> received_reply (polls j) = Some t \<Longrightarrow>
    sweep_collect k polls i = Some t"
proof (induction k polls i rule: sweep_collect.induct)
  case (2 k polls i)
  then show ?case by (cases "i = j") (auto split: option.splits)
qed simp

definition sweep_hosts_of :: "inet \<Rightarrow> discovery \<Rightarrow> u32 set" where
  "sweep_hosts_of net st =
     (case readConfiguredHost st host_cap of
        None \<Rightarrow> {}
      | Some host \<Rightarrow> (case inet_aton net host of None \<Rightarrow> {} | Some a \<Rightarrow> hosts_of_network a))"

definition loopback_of :: "inet \<Rightarrow> u32 set" where
  "loopback_of net = (case inet_aton net (str ''127.0.0.1'') of None \<Rightarrow> {} | Some a \<Rightarrow> {a})"

lemma sweep_hosts_set:
  "set (destinations (snd (sweepSubnet net fd probe seed port rets polls))) = hosts_of_network seed \<times> {probe}"
proof -
  have "set [1..<255] = {1..<255 :: nat}" by (rule set_upt)
  then show ?thesis unfolding sweep_hosts destinations_sends hosts_image by auto
qed

lemma sweep_step_cases:
  assumes "sweep_step net cy probe st port = (t, ev)"
  obtains "t = None" "ev = []"
  | host seed where "readConfiguredHost st host_cap = Some host" "inet_aton net host = Some seed"
      "(t, ev) = (case sweepSubnet net (cy_sweep_socket cy) probe seed port (cy_sweep_sends cy) (cy_sweep_polls cy) of
         (t, ev) \<Rightarrow> (t, OpenedSocket (cy_sweep_socket cy) # ev @ [ClosedSocket (cy_sweep_socket cy)]))"
proof (cases "readConfiguredHost st host_cap")
  case None
  then show thesis using assms by (intro that(1)) (simp_all add: sweep_step_def)
next
  case host: (Some host)
  show thesis
  proof (cases "inet_aton net host")
    case None
    then show thesis using assms host by (intro that(1)) (simp_all add: sweep_step_def)
  next
    case (Some seed)
    show thesis
    proof (cases "cy_sweep_socket cy < 0")
      case True
      then show thesis using assms host Some by (intro that(1)) (simp_all add: sweep_step_def)
    next
      case False
      then show thesis using assms host Some by (intro that(2) [OF host Some]) (simp add: sweep_step_def Let_def)
    qed
  qed
qed

lemma sweep_step_ok:
  assumes "sweep_step net cy probe st port = (t, ev)"
  shows "sockets_after [] ev = Some [] \<and> pred_option valid_target t \<and>
    set (destinations ev) \<subseteq> sweep_hosts_of net st \<times> {probe}"
  using assms
proof (cases rule: sweep_step_cases)
  case (2 host seed)
  let ?fd = "cy_sweep_socket cy"
  obtain t' ev' where s: "sweepSubnet net ?fd probe seed port (cy_sweep_sends cy) (cy_sweep_polls cy) = (t', ev')"
    by (meson surj_pair)
  then have te: "t = t'" "ev = OpenedSocket ?fd # ev' @ [ClosedSocket ?fd]" using 2(3) by simp_all
  have d: "set (destinations ev') = hosts_of_network seed \<times> {probe}"
    using sweep_hosts_set [of net ?fd probe seed port "cy_sweep_sends cy" "cy_sweep_polls cy"] s by simp
  have "ev' = snd (sweepSubnet net ?fd probe seed port (cy_sweep_sends cy) (cy_sweep_polls cy))" using s by simp
  then have o: "sockets_after [?fd] ev' = Some [?fd]"
    unfolding sweep_hosts by (simp only: sockets_sends list.set insertI1)
  have v: "pred_option valid_target t'" using s collect_valid by (auto simp: sweepSubnet_def Let_def)
  show ?thesis using te d o v 2(1,2) by (simp add: sockets_append sweep_hosts_of_def)
qed simp

lemma loop_probe_ok:
  assumes "oneProbeLiteral net fd probe (str ''127.0.0.1'') port sent a = (t, ev)"
  shows "sockets_after [] (OpenedSocket fd # ev @ [ClosedSocket fd]) = Some []" and "pred_option valid_target t"
    and "set (destinations ev) \<subseteq> loopback_of net \<times> {probe}"
  using assms received_valid
  by (auto simp: oneProbeLiteral_def loopback_of_def Let_def pred_option_def split: option.splits if_splits)

lemma resolve_ok:
  assumes "resolveBridge net cy ver st port = (t, ev)"
  shows "sockets_after [] ev = Some []" and "pred_option valid_target t"
    and "set (destinations ev) \<subseteq> (loopback_of net \<union> sweep_hosts_of net st) \<times> {buildProbe ver kReplyBufBytes}"
proof -
  let ?p = "buildProbe ver kReplyBufBytes" and ?fd = "cy_loop_socket cy"
  obtain t1 ev1 where l: "oneProbeLiteral net ?fd ?p (str ''127.0.0.1'') port (cy_loop_sent cy) (cy_loop_answer cy) = (t1, ev1)"
    by (meson surj_pair)
  obtain t2 ev2 where s: "sweep_step net cy ?p st port = (t2, ev2)" by (meson surj_pair)
  note L = loop_probe_ok [OF l] and S = sweep_step_ok [OF s, THEN conjunct1] sweep_step_ok [OF s, THEN conjunct2, THEN conjunct1]
    sweep_step_ok [OF s, THEN conjunct2, THEN conjunct2]
  have cases: "t = None \<and> ev = [] \<or> t = t2 \<and> ev = ev2 \<or> t = t1 \<and> ev = OpenedSocket ?fd # ev1 @ [ClosedSocket ?fd] \<or>
      t = t2 \<and> ev = (OpenedSocket ?fd # ev1 @ [ClosedSocket ?fd]) @ ev2"
    using assms l s by (auto simp: resolveBridge_def Let_def split: if_splits option.splits)
  have "sockets_after [] ((OpenedSocket ?fd # ev1 @ [ClosedSocket ?fd]) @ ev2) = Some []"
    unfolding sockets_append L(1) by (simp add: S(1))
  with cases L(1) S(1) show "sockets_after [] ev = Some []" by auto
  from cases L(2) S(2) show "pred_option valid_target t" by auto
  from cases L(3) S(3) show "set (destinations ev) \<subseteq> (loopback_of net \<union> sweep_hosts_of net st) \<times> {?p}"
    by (elim disjE conjE) (auto simp del: sockets_after.simps)
qed

lemma probe_nonempty: "buildProbe ver kReplyBufBytes \<noteq> []"
proof -
  let ?f = "[(str ''t'', JStr (str ''discover'')), (str ''mod_ver'', JStr ver)]"
  have "lb_append_char (enc_object lb_empty ?f) ch_nl = lb_write lb_empty (render_object ?f @ [ch_nl])"
    by (simp add: enc_object_write lb_append_char_write)
  then show ?thesis by (simp add: buildProbe_def lb_size_def lb_write_def kCap_def kReplyBufBytes_def render_object_def Let_def)
qed

lemma sweep_finds:
  assumes "readConfiguredHost st host_cap = Some host" and "inet_aton net host = Some seed"
    and "0 \<le> cy_sweep_socket cy" and "received_reply (cy_loop_answer cy) = None"
    and "j < 40" and "\<forall>i<j. received_reply (cy_sweep_polls cy i) = None" and "received_reply (cy_sweep_polls cy j) = Some t"
  shows "fst (resolveBridge net cy ver st port) = Some t"
proof -
  have "sweep_collect 40 (cy_sweep_polls cy) 0 = Some t" using collect_first [of 0 j 40] assms(5-7) by simp
  then have "fst (sweep_step net cy (buildProbe ver kReplyBufBytes) st port) = Some t"
    using assms(1-3) by (simp add: sweep_step_def sweepSubnet_def Let_def kSweepCollectMs_def kInnerPollMs_def)
  moreover have "fst (oneProbeLiteral net fd probe h p sent (cy_loop_answer cy)) = None" for fd probe h p sent
    using assms(4) by (simp add: oneProbeLiteral_def Let_def split: option.splits)
  ultimately show ?thesis using probe_nonempty
    by (auto simp: resolveBridge_def Let_def split: prod.splits option.splits) (metis fst_conv option.distinct(1))+
qed

lemma received_line:
  assumes "line = render_object [(str ''t'', JStr (str ''bridge'')), (str ''host'', JStr host), (str ''port'', JInt port)]"
    and "length line \<le> kReplyBufBytes" and "host \<noteq> []" and "length host < host_cap" and "0 \<notin> set host"
    and "0 < port" and "port \<le> 0xFFFF"
  shows "received_reply (Datagram line) = Some \<lparr>bt_host = host, bt_port = word_of_int port\<rparr>"
proof -
  have "sint (word_of_int port :: u32) = port" using assms(6,7) by (simp add: int_word_sint)
  then have "parseReply line = Some \<lparr>bt_host = host, bt_port = word_of_int port\<rparr>"
    using accept_reply [OF assms(1-5)] assms(6,7) by simp
  moreover have "line \<noteq> []" unfolding assms(1) by (simp add: render_object_def)
  ultimately show ?thesis using assms(2) by (simp add: received_reply_def)
qed

section \<open>Properties\<close>

text \<open>C33: the reply the PC sends is accepted and names the PC: host and port are taken over
  exactly, for every host of 1 to 63 bytes and every port.\<close>

theorem reply_accepted:
  assumes "line = render_object [(str ''t'', JStr (str ''bridge'')), (str ''host'', JStr host), (str ''port'', JInt port)]"
    and "length line \<le> kReplyBufBytes" and "host \<noteq> []" and "length host < host_cap" and "0 \<notin> set host"
    and "0 < port" and "port \<le> 0xFFFF"
  shows "parseReply line = Some \<lparr>bt_host = host, bt_port = word_of_int port\<rparr>"
proof -
  have "sint (word_of_int port :: u32) = port" using assms(6,7) by (simp add: int_word_sint)
  then show ?thesis using accept_reply [OF assms(1-5)] assms(6,7) by simp
qed

theorem reply_accepted_witness:
  "parseReply (render_object [(str ''t'', JStr (str ''bridge'')), (str ''host'', JStr (str ''10.0.0.7'')),
     (str ''port'', JInt 17777)]) = Some \<lparr>bt_host = str ''10.0.0.7'', bt_port = 17777\<rparr>"
  using reply_accepted [of _ "str ''10.0.0.7''" 17777, OF refl]
  by (simp add: render_object_def render_field_def Wire_Encoder.quoted_def escape_def escape_byte_def kReplyBufBytes_def
      host_cap_def dec_int_def dec_nat.simps str_def)

text \<open>C30: the sweep sends the probe to exactly the 254 hosts of the /24 network of the configured
  address, each once: the addresses with the same first three octets whose last octet is neither
  0, the network's own, nor 255, its broadcast address, whatever \<open>SendTo\<close> returns.\<close>

theorem sweep_reaches_network:
  "set (destinations (snd (sweepSubnet net fd probe seed port rets polls))) = hosts_of_network seed \<times> {probe} \<and>
   distinct (destinations (snd (sweepSubnet net fd probe seed port rets polls))) \<and>
   length (destinations (snd (sweepSubnet net fd probe seed port rets polls))) = 254"
proof (intro conjI sweep_hosts_set)
  have s: "set [1..<255] = {1..<255 :: nat}" by (rule set_upt)
  have "inj_on (\<lambda>j. (byteswap32 (network (byteswap32 seed) + of_nat j), probe)) {1..<255}"
    using hosts_distinct [of "byteswap32 seed"] unfolding inj_on_def by blast
  then show "distinct (destinations (snd (sweepSubnet net fd probe seed port rets polls)))"
    unfolding sweep_hosts destinations_sends distinct_map s by (intro conjI distinct_upt)
  show "length (destinations (snd (sweepSubnet net fd probe seed port rets polls))) = 254"
    unfolding sweep_hosts destinations_sends by simp
qed

text \<open>C31: whatever the network answers, a cycle of the search closes every socket it opened and uses
  none that is closed, sends only the probe and only to the loopback address and the configured
  network, and a target it reports is a host name of 1 to 63 bytes with a port that is not 0.\<close>

theorem resolve_is_safe:
  "sockets_after [] (snd (resolveBridge net cy ver st port)) = Some [] \<and>
   pred_option valid_target (fst (resolveBridge net cy ver st port)) \<and>
   set (destinations (snd (resolveBridge net cy ver st port))) \<subseteq>
     (loopback_of net \<union> sweep_hosts_of net st) \<times> {buildProbe ver kReplyBufBytes}"
  by (intro conjI resolve_ok [OF prod.collapse [symmetric]])

text \<open>C32: a PC that answers in time is found: when the configured host is known, the socket of the
  sweep opens, nothing valid comes from the loopback address, and the first valid reply of the
  forty polls is the line of a PC, the cycle reports exactly the host and the port of that line,
  whatever comes after it.\<close>

theorem answering_bridge_found:
  assumes "readConfiguredHost st host_cap = Some cfg" and "inet_aton net cfg = Some seed"
    and "0 \<le> cy_sweep_socket cy" and "received_reply (cy_loop_answer cy) = None"
    and "j < 40" and "\<forall>i<j. received_reply (cy_sweep_polls cy i) = None"
    and "cy_sweep_polls cy j = Datagram line"
    and "line = render_object [(str ''t'', JStr (str ''bridge'')), (str ''host'', JStr host), (str ''port'', JInt bridge_port)]"
    and "length line \<le> 512" and "host \<noteq> []" and "length host < 64" and "0 \<notin> set host"
    and "0 < bridge_port" and "bridge_port \<le> 0xFFFF"
  shows "fst (resolveBridge net cy ver st port) = Some \<lparr>bt_host = host, bt_port = word_of_int bridge_port\<rparr>"
proof (rule sweep_finds [OF assms(1-6)])
  show "received_reply (cy_sweep_polls cy j) = Some \<lparr>bt_host = host, bt_port = word_of_int bridge_port\<rparr>"
    unfolding assms(7) using received_line [OF assms(8) _ assms(10) _ assms(12-14)] assms(9,11)
    by (simp add: kReplyBufBytes_def host_cap_def)
qed

theorem answering_bridge_found_witness:
  "let net = \<lparr>inet_aton = (\<lambda>s. Some 0x0700000A), inet_htons = (\<lambda>p. p)\<rparr>;
       reply = render_object [(str ''t'', JStr (str ''bridge'')), (str ''host'', JStr (str ''10.0.0.9'')), (str ''port'', JInt 17777)];
       cy = \<lparr>cy_loop_socket = 3, cy_loop_sent = 5, cy_loop_answer = RecvFailed, cy_sweep_socket = 4,
             cy_sweep_sends = (\<lambda>i. 0), cy_sweep_polls = (\<lambda>i. if i = 39 then Datagram reply else NotReadable)\<rparr>;
       st = \<lparr>g_cfgHost = str ''10.0.0.7'' @ replicate 56 0, g_cfgHostValid = True\<rparr>
   in fst (resolveBridge net cy [] st 17776) = Some \<lparr>bt_host = str ''10.0.0.9'', bt_port = 17777\<rparr>"
proof -
  let ?reply = "render_object [(str ''t'', JStr (str ''bridge'')), (str ''host'', JStr (str ''10.0.0.9'')), (str ''port'', JInt 17777)]"
  have len: "length ?reply \<le> 512"
    by (simp add: render_object_def render_field_def Wire_Encoder.quoted_def escape_def escape_byte_def
      dec_int_def dec_nat.simps str_def)
  have "readConfiguredHost \<lparr>g_cfgHost = str ''10.0.0.7'' @ replicate 56 0, g_cfgHostValid = True\<rparr> host_cap = Some (str ''10.0.0.7'')"
    by code_simp
  from answering_bridge_found [OF this, where j = 39 and host = "str ''10.0.0.9''" and bridge_port = 17777, OF _ _ _ _ _ _ refl len]
  show ?thesis by (simp add: Let_def received_reply_def str_def)
qed

text \<open>C29: reading the configured host is safe for every content of the file, whichever allocations
  fail and whatever the file system answers: it returns, the file is closed, the memory is as it
  was, and the cached host stays a terminated string of at most 63 bytes, not empty once it is
  valid; a valid one is never read again.\<close>

theorem config_read_is_safe:
  assumes "fresh_ok h" and "string_at lit h = Some (str ''bridge_host'')" and "config_ok st"
  shows "\<exists>st' ev h'. CacheBridgeHostFromRomfs fs lit st h = Some (st', ev, h') \<and> same_mem h h' \<and>
    still_open [] ev = Some [] \<and> config_ok st' \<and> (g_cfgHostValid st \<longrightarrow> st' = st \<and> ev = [])"
  using assms by (rule cache_total)

text \<open>A text written with tildes for the quotes, and a file system in which every file holds it.\<close>

definition quote_tildes :: "string \<Rightarrow> bytes" where
  "quote_tildes s = map (\<lambda>c. if c = CHR ''~'' then ch_quote else of_char c) s"

definition config_fs :: "bytes \<Rightarrow> fs" where
  "config_fs c = (\<lambda>path. \<lparr>fa_entry = Some True, fa_open = True, fa_size = Some (int (length c)), fa_read = True, fa_data = c\<rparr>)"

theorem config_read_is_safe_witness:
  "\<exists>st' ev h'. CacheBridgeHostFromRomfs (config_fs (quote_tildes ''{~bridge_host~:~10.0.0.7~}'')) 1 init_discovery
      (text_heap (\<lambda>k. True) (str ''bridge_host'' @ [0])) = Some (st', ev, h') \<and>
    same_mem (text_heap (\<lambda>k. True) (str ''bridge_host'' @ [0])) h' \<and> still_open [] ev = Some [] \<and> config_ok st' \<and>
    readConfiguredHost st' host_cap = Some (str ''10.0.0.7'')"
proof -
  let ?run = "CacheBridgeHostFromRomfs (config_fs (quote_tildes ''{~bridge_host~:~10.0.0.7~}'')) 1 init_discovery
      (text_heap (\<lambda>k. True) (str ''bridge_host'' @ [0]))"
  have "string_at 1 (text_heap (\<lambda>k. True) (str ''bridge_host'' @ [0])) = Some (str ''bridge_host'')" by code_simp
  moreover have "config_ok init_discovery" by code_simp
  moreover have "map_option (\<lambda>x. readConfiguredHost (fst x) host_cap) ?run = Some (Some (str ''10.0.0.7''))" by code_simp
  ultimately show ?thesis
    using config_read_is_safe [OF text_heap_ok(1), of 1 "\<lambda>k. True" "str ''bridge_host'' @ [0]" init_discovery
      "config_fs (quote_tildes ''{~bridge_host~:~10.0.0.7~}'')"] by fastforce
qed

text \<open>A port outside the range is not rejected when its low 32 bits are a port: the 64-bit number
  is narrowed to \<open>int\<close> before the range check.\<close>

theorem huge_port_accepted:
  "parseReply (render_object [(str ''t'', JStr (str ''bridge'')), (str ''host'', JStr (str ''10.0.0.7'')),
     (str ''port'', JInt (2 ^ 32 + 17777))]) = Some \<lparr>bt_host = str ''10.0.0.7'', bt_port = 17777\<rparr>"
  using accept_reply [of _ "str ''10.0.0.7''" "2 ^ 32 + 17777", OF refl]
  by (simp add: render_object_def render_field_def Wire_Encoder.quoted_def escape_def escape_byte_def kReplyBufBytes_def
      host_cap_def dec_int_def dec_nat.simps str_def int_word_sint)

end
