(* ===== verification/Romfs.thy ===== *)
theory Romfs
  imports Json_File Discovery
begin

text \<open>
  The redirection of game files and the names of the save slots: \<open>source/program/romfs.cpp\<close>.
  The game's checksum function is the argument \<open>crc64\<close>, given the bytes it runs over; the
  calls of the game's \<open>create_string_instance\<close> are a list of events. The list of
  replacements is an array that \<open>malloc\<close> has not initialised: an entry that was never
  written is \<open>None\<close>, and reading it has no answer.
\<close>

section \<open>State\<close>

record string_entry =
  se_crc :: u64
  se_replacement :: ptr

record romfs =
  g_stringList :: "string_entry option list option"
  g_stringListSize :: nat

definition init_romfs :: romfs where
  "init_romfs = \<lparr>g_stringList = None, g_stringListSize = 0\<rparr>"

definition STRINGBANK_PROFILE0 :: nat where
  "STRINGBANK_PROFILE0 = 917"

text \<open>A string of the bank is given its text, length and checksum.\<close>

datatype bank_event = CreateString nat bytes nat u64

section \<open>Replacing a path\<close>

fun replace_loop :: "string_entry option list \<Rightarrow> u64 \<Rightarrow> ptr \<Rightarrow> ptr option" where
  "replace_loop [] crc s = Some s"
| "replace_loop (None # es) crc s = None"
| "replace_loop (Some e # es) crc s = replace_loop es crc (if crc = se_crc e then se_replacement e else s)"

definition replaceString :: "(bytes \<Rightarrow> u64) \<Rightarrow> romfs \<Rightarrow> ptr \<Rightarrow> heap \<Rightarrow> ptr option" where
  "replaceString crc64 st s h =
     do { t \<leftarrow> string_at s h;
          let crc = crc64 t;
          if g_stringListSize st = 0 then Some s
          else do {
            es \<leftarrow> g_stringList st;
            if g_stringListSize st \<le> length es then replace_loop (take (g_stringListSize st) es) crc s else None } }"

text \<open>The path the game's constructor is called with.\<close>

definition ForceRomfs :: "(bytes \<Rightarrow> u64) \<Rightarrow> romfs \<Rightarrow> ptr \<Rightarrow> heap \<Rightarrow> ptr option" where
  "ForceRomfs crc64 st path h = (if path = 0 then Some 0 else replaceString crc64 st path h)"

section \<open>Reading the replacements\<close>

definition set_entry :: "nat \<Rightarrow> string_entry \<Rightarrow> romfs \<Rightarrow> romfs option" where
  "set_entry i e st =
     do { es \<leftarrow> g_stringList st;
          if i < length es then Some (st\<lparr>g_stringList := Some (es[i := Some e])\<rparr>) else None }"

text \<open>\<open>strcpy\<close> and \<open>strcat\<close> into a block.\<close>

definition c_strcpy :: "ptr \<Rightarrow> bytes \<Rightarrow> heap \<Rightarrow> heap option" where
  "c_strcpy d s h = write_at d 0 (s @ [0]) h"

definition c_strcat :: "ptr \<Rightarrow> ptr \<Rightarrow> heap \<Rightarrow> heap option" where
  "c_strcat d s h = do { t \<leftarrow> string_at d h; u \<leftarrow> string_at s h; write_at d (length t) (u @ [0]) h }"

definition populate_entry ::
  "(bytes \<Rightarrow> u64) \<Rightarrow> ptr \<Rightarrow> nat \<Rightarrow> romfs \<Rightarrow> heap \<Rightarrow> (romfs \<times> heap) option" where
  "populate_entry crc64 itemObject i st h =
     do { is_string \<leftarrow> cJSON_IsString itemObject h;
          if is_string then do {
            fileStr \<leftarrow> cJSON_GetStringValue itemObject h;
            s \<leftarrow> string_at fileStr h;
            (case allocate (length s + 5 + 1) h of (replacementFileStr, h1) \<Rightarrow> do {
               h2 \<leftarrow> c_strcpy replacementFileStr (str ''rom:/'') h1;
               h3 \<leftarrow> c_strcat replacementFileStr fileStr h2;
               st1 \<leftarrow> set_entry i \<lparr>se_crc = crc64 s, se_replacement = replacementFileStr\<rparr> st;
               Some (st1, h3) }) }
          else do {
            is_object \<leftarrow> cJSON_IsObject itemObject h;
            if is_object then do {
              name \<leftarrow> cJSON_GetItemName itemObject h;
              s \<leftarrow> string_at name h;
              n \<leftarrow> load itemObject h;
              v \<leftarrow> cJSON_GetStringValue (cj_child n) h;
              st1 \<leftarrow> set_entry i \<lparr>se_crc = crc64 s, se_replacement = v\<rparr> st;
              Some (st1, h) }
            else Some (st, h) } }"

partial_function (option) populate_loop ::
  "(bytes \<Rightarrow> u64) \<Rightarrow> ptr \<Rightarrow> nat \<Rightarrow> romfs \<Rightarrow> heap \<Rightarrow> (romfs \<times> heap) option" where
  "populate_loop crc64 itemObject i st h =
     (if itemObject = 0 then Some (st, h)
      else do {
        (st1, h1) \<leftarrow> populate_entry crc64 itemObject i st h;
        n \<leftarrow> load itemObject h1;
        populate_loop crc64 (cj_next n) (i + 1) st1 h1 })"

declare populate_loop.simps [code]

text \<open>\<open>lit\<close> is the address of the string literal \<open>replacements\<close>. The size is an \<open>int\<close> that
  is widened to \<open>size_t\<close>.\<close>

definition populateStringReplacementList ::
  "(bytes \<Rightarrow> u64) \<Rightarrow> fs \<Rightarrow> ptr \<Rightarrow> romfs \<Rightarrow> heap \<Rightarrow> (romfs \<times> fs_event list \<times> heap) option" where
  "populateStringReplacementList crc64 fs lit st h =
     do { (fileBuf, ev, h1) \<leftarrow> OpenAndReadFile fs (str ''rom:/replacements.json'') h;
          if fileBuf = 0 then Some (st, ev, h1)
          else do {
            (json, h2) \<leftarrow> cJSON_Parse fileBuf h1;
            if json = 0 then do { h3 \<leftarrow> deallocate fileBuf h2; Some (st, ev, h3) }
            else do {
              replacementList \<leftarrow> cJSON_GetObjectItem json lit h2;
              k \<leftarrow> cJSON_GetArraySize replacementList h2;
              let len = nat (k mod 2 ^ 64);
              (case allocate (len * 16) h2 of (list, h3) \<Rightarrow>
                 let st1 = st\<lparr>g_stringListSize := len, g_stringList := (if list = 0 then None else Some (replicate len None))\<rparr>
                 in do {
                   first \<leftarrow> (if replacementList = 0 then Some 0
                             else do { n \<leftarrow> load replacementList h3; Some (cj_child n) });
                   (st2, h4) \<leftarrow> populate_loop crc64 first 0 st1 h3;
                   h5 \<leftarrow> deallocate fileBuf h4;
                   Some (st2, ev, h5) }) } } }"

section \<open>The names of the save slots\<close>

text \<open>\<open>sprintf\<close> into the array of 256 bytes has no answer when it would run over it.\<close>

definition slot_events :: "(bytes \<Rightarrow> u64) \<Rightarrow> bytes \<Rightarrow> nat \<Rightarrow> bank_event list" where
  "slot_events crc64 slotName len =
     (let s0 = slotName; s1 = slotName[len - 1 := 0x31]; s2 = s1[len - 1 := 0x32]
      in [CreateString STRINGBANK_PROFILE0 s0 len (crc64 (take len s0)),
          CreateString (STRINGBANK_PROFILE0 + 1) s1 len (crc64 (take len s1)),
          CreateString (STRINGBANK_PROFILE0 + 2) s2 len (crc64 (take len s2))])"

definition setSeedSaveProfile ::
  "(bytes \<Rightarrow> u64) \<Rightarrow> fs \<Rightarrow> heap \<Rightarrow> (bank_event list \<times> fs_event list \<times> heap) option" where
  "setSeedSaveProfile crc64 fs h =
     do { (seedHash, ev, h1) \<leftarrow> OpenAndReadFile fs (str ''rom:/RDVHASH'') h;
          if seedHash = 0 then Some ([], ev, h1)
          else do {
            s \<leftarrow> string_at seedHash h1;
            let len = sint (of_nat (length s) :: u32);
            if len > 253 then Some ([], ev, h1)
            else do {
              bank \<leftarrow> (if len > 0
                        then (if length s + 2 + 1 \<le> 256 then Some (slot_events crc64 (s @ str ''_0'') (nat len + 2)) else None)
                        else Some []);
              h2 \<leftarrow> deallocate seedHash h1;
              Some (bank, ev, h2) } } }"

section \<open>The game mounts its files\<close>

record mount_state =
  ms_romfs :: romfs
  ms_discovery :: discovery
  ms_bank :: "bank_event list"

definition RomMounted ::
  "(bytes \<Rightarrow> u64) \<Rightarrow> fs \<Rightarrow> ptr \<Rightarrow> ptr \<Rightarrow> mount_state \<Rightarrow> heap \<Rightarrow> (mount_state \<times> fs_event list \<times> heap) option" where
  "RomMounted crc64 fs lit_replacements lit_bridge_host st h =
     do { (r, ev1, h1) \<leftarrow> populateStringReplacementList crc64 fs lit_replacements (ms_romfs st) h;
          (bank, ev2, h2) \<leftarrow> setSeedSaveProfile crc64 fs h1;
          (d, ev3, h3) \<leftarrow> CacheBridgeHostFromRomfs fs lit_bridge_host (ms_discovery st) h2;
          Some (st\<lparr>ms_romfs := r, ms_bank := ms_bank st @ bank, ms_discovery := d\<rparr>, ev1 @ ev2 @ ev3, h3) }"

end
