(* ===== verification/Romfs_Claims.thy ===== *)
theory Romfs_Claims
  imports Romfs Discovery_Claims
begin

text \<open>
  Properties of the file redirection and of the save slot names: the table that is built from a
  list of paths, what it does to a path, the names of the slots for every content of
  \<open>RDVHASH\<close>, and the second format of \<open>replacements.json\<close>, which ends the process.
\<close>

section \<open>One entry\<close>

text \<open>A heap with more blocks: what was allocated keeps its contents.\<close>

definition extends :: "heap \<Rightarrow> heap \<Rightarrow> bool" where
  "extends h h' \<longleftrightarrow> h_nodes h' = h_nodes h \<and> (\<forall>p < h_fresh h. h_strs h' p = h_strs h p) \<and>
     h_fresh h \<le> h_fresh h' \<and> h_grants h' = h_grants h \<and> fresh_ok h'"

lemma extends_trans: "extends h h1 \<Longrightarrow> extends h1 h2 \<Longrightarrow> extends h h2"
  by (auto simp: extends_def)

lemma string_below: "fresh_ok h \<Longrightarrow> string_at p h = Some s \<Longrightarrow> p < h_fresh h"
  by (rule ccontr) (auto simp: fresh_ok_def string_at_def block_def not_less split: option.splits if_splits)

lemma extends_string: "fresh_ok h \<Longrightarrow> extends h h' \<Longrightarrow> string_at p h = Some s \<Longrightarrow> string_at p h' = Some s"
  using string_below [of h p s] string_at_same [of h' p h] by (simp add: extends_def)

lemma extends_seg:
  assumes "seg h q is" and "fresh_ok h" and "extends h h'"
  shows "seg h' q is"
proof (rule seg_frame_eq [OF assms(1)])
  show "\<forall>p \<in> set (nodes_of is). h_nodes h' p = h_nodes h p" using assms(3) by (simp add: extends_def)
  show "\<forall>s \<in> set (strs_of is). h_strs h' s = h_strs h s"
    using seg_fresh(2) [OF assms(1,2)] assms(3) by (auto simp: extends_def)
qed

definition string_item :: "heap \<Rightarrow> item \<Rightarrow> bytes \<Rightarrow> bool" where
  "string_item h i s \<longleftrightarrow> has_type cJSON_String (it_ptr i) h = Some True \<and> string_at (cj_valuestring (it_node i)) h = Some s"

text \<open>The entry of a name: its checksum and a string allocated from \<open>lo\<close> on.\<close>

definition entry_for :: "(bytes \<Rightarrow> u64) \<Rightarrow> ptr \<Rightarrow> heap \<Rightarrow> bytes \<Rightarrow> string_entry option \<Rightarrow> bool" where
  "entry_for crc64 lo h s e \<longleftrightarrow> (\<exists>r \<ge> lo. e = Some \<lparr>se_crc = crc64 s, se_replacement = r\<rparr> \<and> string_at r h = Some (str ''rom:/'' @ s))"

lemma entry_extends: "entry_for crc64 lo h s e \<Longrightarrow> fresh_ok h \<Longrightarrow> extends h h' \<Longrightarrow> entry_for crc64 lo h' s e"
  using extends_string by (auto simp: entry_for_def)

lemma fill_block:
  assumes f: "fresh_ok h" and a: "allocate (length s + 6) h = (h_fresh h, h1)" "h_strs h1 = (h_strs h)(h_fresh h \<mapsto> c)"
    "length c = length s + 6" "h_nodes h1 = h_nodes h" and p: "string_at p h = Some s"
  shows "\<exists>h2 h3. c_strcpy (h_fresh h) (str ''rom:/'') h1 = Some h2 \<and> c_strcat (h_fresh h) p h2 = Some h3 \<and>
    h3 = h1\<lparr>h_strs := (h_strs h)(h_fresh h \<mapsto> str ''rom:/'' @ s @ [0])\<rparr>"
proof -
  let ?q = "h_fresh h" and ?r = "str ''rom:/''"
  have q: "?q \<noteq> 0" using f by (simp add: fresh_ok_def)
  have r0: "0 \<notin> set ?r" "length ?r = 5" by (simp_all add: str_def)
  have s0: "0 \<notin> set s" using p by (auto simp: string_at_def split: option.splits if_splits)
  let ?h2 = "h1\<lparr>h_strs := (h_strs h1)(?q \<mapsto> ?r @ 0 # drop 6 c)\<rparr>"
  have 2: "c_strcpy ?q ?r h1 = Some ?h2"
    using q a(2,3) r0 by (simp add: c_strcpy_def write_at_def block_def numeral_eq_Suc)
  have b: "block ?q ?h2 = Some (?r @ 0 # drop 6 c)" using q by (simp add: block_def)
  have t: "string_at ?q ?h2 = Some ?r" using r0(1) by (simp add: string_at_def b)
  have "p < ?q" using string_below [OF f p] .
  then have u: "string_at p ?h2 = Some s" using p a(2) string_at_same [of ?h2 p h] by simp
  have "c_strcat ?q p ?h2 = Some (?h2\<lparr>h_strs := (h_strs ?h2)(?q \<mapsto> ?r @ s @ [0])\<rparr>)"
    using a(3) r0(2) by (simp add: c_strcat_def t u write_at_def b)
  with 2 show ?thesis using a(2) by simp
qed

lemma populate_string:
  assumes f: "fresh_ok h" and g: "\<forall>k. h_grants h k" and i: "string_item h it s"
    and n: "h_nodes h (it_ptr it) = Some (it_node it)" "it_ptr it \<noteq> 0"
    and st: "g_stringList st = Some es" "j < length es" and lo: "lo \<le> h_fresh h"
  shows "\<exists>h' e. populate_entry crc64 (it_ptr it) j st h = Some (st\<lparr>g_stringList := Some (es[j := e])\<rparr>, h') \<and>
    entry_for crc64 lo h' s e \<and> extends h h'"
proof -
  let ?q = "h_fresh h"
  have v: "cJSON_GetStringValue (it_ptr it) h = Some (cj_valuestring (it_node it))"
    using i n by (simp add: cJSON_GetStringValue_def cJSON_IsString_def string_item_def load_def)
  note al = allocate_cases [of h "length s + 6"]
  obtain h1 c where a: "allocate (length s + 6) h = (?q, h1)" "h_strs h1 = (h_strs h)(?q \<mapsto> c)" "length c = length s + 6"
    "h_nodes h1 = h_nodes h" "h_fresh h1 = Suc ?q" "h_grants h1 = h_grants h"
    using g by (simp add: allocate_def Let_def)
  have a': "allocate (6 + length s) h = (?q, h1)" using a(1) by (simp only: add.commute)
  have p: "string_at (cj_valuestring (it_node it)) h = Some s" using i by (simp add: string_item_def)
  from fill_block [OF f a(1-4) p] obtain h2 h3 where w: "c_strcpy ?q (str ''rom:/'') h1 = Some h2"
    "c_strcat ?q (cj_valuestring (it_node it)) h2 = Some h3"
    and h3: "h3 = h1\<lparr>h_strs := (h_strs h)(?q \<mapsto> str ''rom:/'' @ s @ [0])\<rparr>" by blast
  have s0: "0 \<notin> set s" using p by (auto simp: string_at_def split: option.splits if_splits)
  have "0 \<notin> set (str ''rom:/'' @ s)" using s0 by (simp add: str_def)
  then have "string_at ?q h3 = Some (str ''rom:/'' @ s)"
    using f cstr_append_nul [of "str ''rom:/'' @ s" "[]"] by (simp add: h3 string_at_def block_def fresh_ok_def)
  moreover have "extends h h3" using f a(4-6) by (auto simp: h3 extends_def fresh_ok_def)
  moreover have "populate_entry crc64 (it_ptr it) j st h =
      Some (st\<lparr>g_stringList := Some (es[j := Some \<lparr>se_crc = crc64 s, se_replacement = ?q\<rparr>])\<rparr>, h3)"
    using i v a' p w st by (simp add: populate_entry_def cJSON_IsString_def string_item_def set_entry_def)
  ultimately show ?thesis using lo by (auto simp: entry_for_def)
qed

section \<open>The table\<close>

lemma string_item_extends:
  "fresh_ok h \<Longrightarrow> extends h h' \<Longrightarrow> string_item h i s \<Longrightarrow> string_item h' i s"
proof -
  assume a: "fresh_ok h" "extends h h'" "string_item h i s"
  have "load (it_ptr i) h' = load (it_ptr i) h" using a(2) by (simp add: load_def extends_def)
  then have "has_type cJSON_String (it_ptr i) h' = has_type cJSON_String (it_ptr i) h" by (simp add: has_type_def)
  then show ?thesis using a(3) extends_string [OF a(1,2)] by (simp add: string_item_def)
qed

lemma populate_list:
  assumes "seg h 0 cs" and "fresh_ok h" and "\<forall>k. h_grants h k" and "list_all2 (string_item h) cs names"
    and "g_stringList st = Some (es @ replicate (length cs) None)" and "list_all2 (entry_for crc64 lo h) before es"
    and "lo \<le> h_fresh h"
  shows "\<exists>h' es'. populate_loop crc64 (first_or 0 cs) (length es) st h = Some (st\<lparr>g_stringList := Some es'\<rparr>, h') \<and>
    list_all2 (entry_for crc64 lo h') (before @ names) es' \<and> extends h h'"
  using assms
proof (induction cs arbitrary: h st es before names)
  case Nil
  then have "st\<lparr>g_stringList := Some es\<rparr> = st" "names = []" by simp_all
  then show ?case using Nil
    by (intro exI [of _ h] exI [of _ es], subst populate_loop.simps) (simp add: extends_def)
next
  case (Cons i cs)
  obtain p n ks where i: "i = Item p n ks" by (cases i)
  obtain s ss where names: "names = s # ss" "string_item h i s" "list_all2 (string_item h) cs ss"
    using Cons.prems(4) by (auto simp: list_all2_Cons1)
  have n: "p \<noteq> 0" "h_nodes h p = Some n" "cj_next n = first_or 0 cs" "seg h 0 cs" using Cons.prems(1) i by simp_all
  let ?es = "es @ replicate (length (i # cs)) None"
  have "h_nodes h (it_ptr i) = Some (it_node i)" "it_ptr i \<noteq> 0" "length es < length ?es" using n i by simp_all
  from populate_string [OF Cons.prems(2,3) names(2) this(1,2) Cons.prems(5) this(3) Cons.prems(7), of crc64] obtain h1 e where
    e: "populate_entry crc64 (it_ptr i) (length es) st h = Some (st\<lparr>g_stringList := Some (?es[length es := e])\<rparr>, h1)"
    "entry_for crc64 lo h1 s e" "extends h h1" by blast
  let ?st1 = "st\<lparr>g_stringList := Some (?es[length es := e])\<rparr>"
  have up: "?es[length es := e] = (es @ [e]) @ replicate (length cs) None" by (simp add: list_update_append)
  have f1: "fresh_ok h1" "h_nodes h1 = h_nodes h" "\<forall>k. h_grants h1 k" "lo \<le> h_fresh h1" using e(3) Cons.prems(3,7) by (simp_all add: extends_def)
  have "list_all2 (string_item h1) cs ss"
    using names(3) string_item_extends [OF Cons.prems(2) e(3)] by (rule list_all2_mono)
  moreover have "list_all2 (entry_for crc64 lo h1) (before @ [s]) (es @ [e])"
    using list_all2_mono [OF Cons.prems(6) entry_extends [OF _ Cons.prems(2) e(3)]] e(2) by (intro list_all2_appendI) simp_all
  moreover have "g_stringList ?st1 = Some ((es @ [e]) @ replicate (length cs) None)" using up by simp
  ultimately obtain h' es' where
    r: "populate_loop crc64 (first_or 0 cs) (length (es @ [e])) ?st1 h1 = Some (?st1\<lparr>g_stringList := Some es'\<rparr>, h')"
    "list_all2 (entry_for crc64 lo h') ((before @ [s]) @ ss) es'" "extends h1 h'"
    using Cons.IH [OF extends_seg [OF n(4) Cons.prems(2) e(3)] f1(1,3), of ss ?st1 "es @ [e]" "before @ [s]"] f1(4) by blast
  have ne: "first_or 0 (i # cs) = p" "it_ptr i = p" using i by simp_all
  have "populate_loop crc64 p (length es) st h = populate_loop crc64 (cj_next n) (length es + 1) ?st1 h1"
    using n(1,2) e(1) f1(2) ne by (subst populate_loop.simps) (simp add: load_def)
  then have "populate_loop crc64 p (length es) st h = Some (st\<lparr>g_stringList := Some es'\<rparr>, h')"
    using r(1) n(3) by simp
  then show ?case using r(2) extends_trans [OF e(3) r(3)] names(1) ne(1) by auto
qed

section \<open>A path through the table\<close>

text \<open>The last listed name with the checksum of the path counts.\<close>

fun redirected :: "(bytes \<Rightarrow> u64) \<Rightarrow> bytes list \<Rightarrow> bytes \<Rightarrow> bytes \<Rightarrow> bytes" where
  "redirected crc64 [] t u = u"
| "redirected crc64 (s # ss) t u = redirected crc64 ss t (if crc64 t = crc64 s then str ''rom:/'' @ s else u)"

lemma replace_loop_redirects:
  "list_all2 (entry_for crc64 lo h) names es \<Longrightarrow> string_at p h = Some u \<Longrightarrow>
    \<exists>q. replace_loop es (crc64 t) p = Some q \<and> string_at q h = Some (redirected crc64 names t u)"
proof (induction names es arbitrary: p u rule: list_all2_induct)
  case (Cons s ss e es)
  then show ?case by (auto simp: entry_for_def)
qed simp

lemma replace_string_table:
  assumes "list_all2 (entry_for crc64 lo h) names es" and "g_stringList st = Some es" and "g_stringListSize st = length es"
    and "string_at p h = Some t"
  shows "\<exists>q. ForceRomfs crc64 st p h = Some q \<and> string_at q h = Some (redirected crc64 names t t)"
proof -
  have "p \<noteq> 0" using string_at_block [of p h] assms(4) by simp
  then show ?thesis
    using replace_loop_redirects [OF assms(1,4), of t] assms list_all2_lengthD [OF assms(1)]
    by (auto simp: ForceRomfs_def replaceString_def Let_def)
qed

section \<open>The whole file\<close>

lemma size_loop_seg: "seg h 0 is \<Longrightarrow> size_loop (first_or 0 is) k h = Some (k + length is)"
proof (induction "is" arbitrary: k)
  case Nil
  then show ?case by (subst size_loop.simps) simp
next
  case (Cons i "is")
  obtain p n cs where i: "i = Item p n cs" by (cases i)
  then have "size_loop p k h = size_loop (first_or 0 is) (k + 1) h"
    using Cons.prems by (subst size_loop.simps) (simp add: load_def)
  then show ?case using Cons i by simp
qed

lemma array_size_seg:
  assumes "load list h = Some n" and "list \<noteq> 0" and "cj_child n = first_or 0 cs" and "seg h 0 cs" and "length cs < 2 ^ 31"
  shows "cJSON_GetArraySize list h = Some (int (length cs))"
proof -
  have "(of_nat (length cs) :: u32) = word_of_int (int (length cs))" by simp
  then have "sint (of_nat (length cs) :: u32) = int (length cs)"
    using assms(5) unfolding int_word_sint by (simp only: int_word_sint) simp
  then show ?thesis using assms(1-3) size_loop_seg [OF assms(4), of 0] by (simp add: cJSON_GetArraySize_def)
qed

lemma entry_without:
  assumes "entry_for crc64 lo h s e" and "b < lo"
  shows "entry_for crc64 lo (h\<lparr>h_strs := (h_strs h)(b := None)\<rparr>) s e"
proof -
  obtain r where r: "lo \<le> r" "e = Some \<lparr>se_crc = crc64 s, se_replacement = r\<rparr>" "string_at r h = Some (str ''rom:/'' @ s)"
    using assms(1) by (auto simp: entry_for_def)
  have "string_at r (h\<lparr>h_strs := (h_strs h)(b := None)\<rparr>) = string_at r h"
    by (rule string_at_same) (use r(1) assms(2) in simp)
  then show ?thesis using r by (auto simp: entry_for_def)
qed

lemma populate_whole:
  assumes f: "fresh_ok h" and open': "OpenAndReadFile fs (str ''rom:/replacements.json'') h = Some (buf, ev, h1)" "buf \<noteq> 0"
    and parse: "cJSON_Parse buf h1 = Some (json, h2)" "json \<noteq> 0"
    and list: "cJSON_GetObjectItem json lit h2 = Some list" "list \<noteq> 0" "load list h2 = Some n" "cj_child n = first_or 0 cs"
    and cs: "seg h2 0 cs" "list_all2 (string_item h2) cs names" "length cs < 2 ^ 31" "\<forall>k. h_grants h2 k"
  obtains st' h' es lo where "populateStringReplacementList crc64 fs lit st h = Some (st', ev, h')"
    "g_stringList st' = Some es" "g_stringListSize st' = length es" "list_all2 (entry_for crc64 lo h') names es"
proof -
  obtain b where h1: "buf = h_fresh h" "h_strs h1 = (h_strs h)(h_fresh h \<mapsto> b)" "0 \<in> set b" "h_fresh h1 = Suc (h_fresh h)" "fresh_ok h1"
    using f by (rule read_file_cases [of h fs "str ''rom:/replacements.json''"]) (use open' in auto)
  have "block buf h1 = Some b" using h1(1,2) open'(2) by (simp add: block_def)
  from parse_parsed [OF h1(5) this h1(3)] parse have "parsed h1 json h2" by auto
  then obtain k ks where t: "grows h1 [] h2 [Item json k ks]" and f2: "fresh_ok h2" using parse(2) by (auto simp: parsed_def)
  have "string_at buf h1 \<noteq> None" using h1(2,3) open'(2) by (simp add: string_at_def block_def h1(1))
  then have "h_strs h2 buf = h_strs h1 buf" using lit_outside(2) [OF t h1(5)] by blast
  moreover have "h_fresh h1 \<le> h_fresh h2" using t by (simp add: grows_def frame_def)
  ultimately have f2: "fresh_ok h2" "h_strs h2 buf = Some b" "buf < h_fresh h2" using f2 h1 by simp_all
  let ?len = "length cs" and ?l = "h_fresh h2"
  obtain h3 where a: "allocate (?len * 16) h2 = (?l, h3)" "extends h2 h3" "h_fresh h3 = Suc ?l"
    using cs(4) f2(1) by (auto simp: allocate_def Let_def extends_def fresh_ok_def)
  let ?st1 = "st\<lparr>g_stringListSize := ?len, g_stringList := Some (replicate ?len None)\<rparr>"
  have "list_all2 (string_item h3) cs names"
    using cs(2) string_item_extends [OF f2(1) a(2)] by (rule list_all2_mono)
  moreover have "\<forall>k. h_grants h3 k" "fresh_ok h3" using a(2) cs(4) by (simp_all add: extends_def)
  ultimately obtain h4 es where p: "populate_loop crc64 (first_or 0 cs) 0 ?st1 h3 = Some (?st1\<lparr>g_stringList := Some es\<rparr>, h4)"
    "list_all2 (entry_for crc64 ?l h4) names es" "extends h3 h4"
    using populate_list [OF extends_seg [OF cs(1) f2(1) a(2)], of names ?st1 "[]" crc64 ?l "[]"] a(3) by auto
  let ?h5 = "h4\<lparr>h_strs := (h_strs h4)(buf := None)\<rparr>"
  have "h_strs h4 buf = Some b" using f2(2,3) a(2,3) p(3) by (simp add: extends_def)
  then have d: "deallocate buf h4 = Some ?h5" using open'(2) by (simp add: deallocate_def)
  have sz: "cJSON_GetArraySize list h2 = Some (int ?len)" by (rule array_size_seg [OF list(3,2,4) cs(1,3)])
  have "nat (int ?len mod 2 ^ 64) = ?len" using cs(3) by simp
  moreover have "load list h3 = Some n" using list(2,3) a(2) by (simp add: load_def extends_def)
  moreover have "?l \<noteq> 0" using f2(1) by (simp add: fresh_ok_def)
  ultimately have "populateStringReplacementList crc64 fs lit st h = Some (?st1\<lparr>g_stringList := Some es\<rparr>, ev, ?h5)"
    using open' parse list(1,2,4) sz a(1) p(1) d by (simp add: populateStringReplacementList_def)
  moreover have "list_all2 (entry_for crc64 ?l ?h5) names es"
    using p(2) entry_without [OF _ f2(3)] by (rule list_all2_mono)
  moreover have "?len = length es" using list_all2_lengthD [OF p(2)] list_all2_lengthD [OF cs(2)] by simp
  ultimately show thesis by (intro that [of "?st1\<lparr>g_stringList := Some es\<rparr>" ?h5 es ?l]) simp_all
qed

section \<open>The names of the slots\<close>

text \<open>What the three slots are called for a hash of 1 to 253 bytes.\<close>

definition slot_name :: "bytes \<Rightarrow> nat \<Rightarrow> bytes" where
  "slot_name s k = s @ [0x5F, 0x30 + of_nat k]"

definition slots_for :: "(bytes \<Rightarrow> u64) \<Rightarrow> bytes \<Rightarrow> bank_event list" where
  "slots_for crc64 s =
     (if s = [] \<or> 253 < length s then []
      else map (\<lambda>k. CreateString (917 + k) (slot_name s k) (length s + 2) (crc64 (slot_name s k))) [0, 1, 2])"

lemma slot_events_names: "s \<noteq> [] \<Longrightarrow> length s \<le> 253 \<Longrightarrow> slot_events crc64 (s @ str ''_0'') (length s + 2) = slots_for crc64 s"
  by (simp add: slot_events_def slots_for_def slot_name_def STRINGBANK_PROFILE0_def str_def list_update_append Let_def)

lemma seed_profile:
  assumes f: "fresh_ok h" and fs: "fs (str ''rom:/RDVHASH'') = \<lparr>fa_entry = Some True, fa_open = True,
      fa_size = Some (int (length d)), fa_read = True, fa_data = d\<rparr>" and small: "length d < 2 ^ 31"
  shows "\<exists>bank ev h'. setSeedSaveProfile crc64 fs h = Some (bank, ev, h') \<and> still_open [] ev = Some [] \<and>
    (if h_grants h (h_count h)
     then bank = slots_for crc64 (cstr d) \<and> h_nodes h' = h_nodes h \<and>
       h_strs h' = (if 253 < length (cstr d) then (h_strs h)(h_fresh h \<mapsto> d @ [0]) else h_strs h)
     else bank = [] \<and> same_mem h h')"
proof -
  let ?q = "h_fresh h"
  have q: "?q \<noteq> 0" "h_strs h ?q = None" using f by (simp_all add: fresh_ok_def)
  show ?thesis
  proof (cases "h_grants h (h_count h)")
    case False
    then have "setSeedSaveProfile crc64 fs h = Some ([], [OpenedFile (str ''rom:/RDVHASH''), ClosedFile (str ''rom:/RDVHASH'')],
        h\<lparr>h_count := Suc (h_count h)\<rparr>)"
      by (simp add: setSeedSaveProfile_def OpenAndReadFile_def fs allocate_def Let_def)
    then show ?thesis using False by (simp add: same_mem_def)
  next
    case True
    let ?ev = "[OpenedFile (str ''rom:/RDVHASH''), ClosedFile (str ''rom:/RDVHASH'')]"
    let ?h1 = "h\<lparr>h_count := Suc (h_count h), h_fresh := Suc ?q, h_strs := (h_strs h)(?q \<mapsto> d @ [0])\<rparr>"
    have o: "OpenAndReadFile fs (str ''rom:/RDVHASH'') h = Some (?q, ?ev, ?h1)"
      using True q(1) by (simp add: OpenAndReadFile_def fs allocate_def write_at_def block_def Let_def)
    have s: "string_at ?q ?h1 = Some (cstr d)"
      using q(1) by (simp add: string_at_def block_def cstr_def takeWhile_tail)
    have l: "length (cstr d) < 2 ^ 31" using small length_cstr_le [of d] by simp
    have "(of_nat (length (cstr d)) :: u32) = word_of_int (int (length (cstr d)))" by simp
    then have len: "sint (of_nat (length (cstr d)) :: u32) = int (length (cstr d))"
      using l by (simp only: int_word_sint) simp
    have free: "deallocate ?q ?h1 = Some (?h1\<lparr>h_strs := h_strs h\<rparr>)"
      using q by (simp add: deallocate_def fun_upd_idem)
    have run: "setSeedSaveProfile crc64 fs h =
       (if 253 < length (cstr d) then Some ([], ?ev, ?h1)
        else Some (slots_for crc64 (cstr d), ?ev, ?h1\<lparr>h_strs := h_strs h\<rparr>))"
      using q(1) slot_events_names [of "cstr d" crc64]
      by (simp add: setSeedSaveProfile_def o s len free Let_def slots_for_def)
    show ?thesis unfolding run using True by (simp add: slots_for_def)
  qed
qed

section \<open>Properties\<close>

text \<open>C34: when the list of replacements holds strings only, mounting builds a table with which the
  game's paths are redirected: a path becomes \<open>rom:/\<close> and the last listed name with its checksum,
  and a path that matches none stays as it is.\<close>

theorem replacements_redirect:
  assumes "fresh_ok h" and "OpenAndReadFile fs (str ''rom:/replacements.json'') h = Some (buf, ev, h1)" and "buf \<noteq> 0"
    and "cJSON_Parse buf h1 = Some (json, h2)" and "json \<noteq> 0"
    and "cJSON_GetObjectItem json lit h2 = Some list" and "list \<noteq> 0" and "load list h2 = Some n" and "cj_child n = first_or 0 cs"
    and "seg h2 0 cs" and "list_all2 (string_item h2) cs names" and "length cs < 2 ^ 31" and "\<forall>k. h_grants h2 k"
  shows "\<exists>st' h'. populateStringReplacementList crc fs lit st h = Some (st', ev, h') \<and>
    (\<forall>p t. string_at p h' = Some t \<longrightarrow>
       (\<exists>q. ForceRomfs crc st' p h' = Some q \<and> string_at q h' = Some (redirected crc names t t)))"
proof -
  from populate_whole [OF assms] obtain st' h' es lo where
    p: "populateStringReplacementList crc fs lit st h = Some (st', ev, h')"
    and e: "g_stringList st' = Some es" "g_stringListSize st' = length es" "list_all2 (entry_for crc lo h') names es" .
  then show ?thesis using replace_string_table [OF e(3,1,2)] by (intro exI [of _ st'] exI [of _ h']) blast
qed

text \<open>A file in the first format, run on an empty heap.\<close>

definition demo_fs :: fs where
  "demo_fs = config_fs (quote_tildes ''{~replacements~:[~a/b~]}'')"

definition demo_heap :: heap where
  "demo_heap = text_heap (\<lambda>k. True) (str ''replacements'' @ [0])"

definition demo_read :: heap where
  "demo_read = snd (snd (the (OpenAndReadFile demo_fs (str ''rom:/replacements.json'') demo_heap)))"

definition demo_parsed :: heap where
  "demo_parsed = snd (the (cJSON_Parse 2 demo_read))"

theorem replacements_redirect_witness:
  "\<exists>st' ev h'. populateStringReplacementList (\<lambda>s. of_nat (length s)) demo_fs 1 init_romfs demo_heap = Some (st', ev, h') \<and>
    (\<forall>p t. string_at p h' = Some t \<longrightarrow>
       (\<exists>q. ForceRomfs (\<lambda>s. of_nat (length s)) st' p h' = Some q \<and>
         string_at q h' = Some (redirected (\<lambda>s. of_nat (length s)) [str ''a/b''] t t)))"
proof -
  let ?n = "the (h_nodes demo_parsed 4)" and ?m = "the (h_nodes demo_parsed 6)"
  have "map_option fst (OpenAndReadFile demo_fs (str ''rom:/replacements.json'') demo_heap) = Some 2" by code_simp
  then obtain ev where o: "OpenAndReadFile demo_fs (str ''rom:/replacements.json'') demo_heap = Some (2, ev, demo_read)"
    by (auto simp: demo_read_def)
  have "map_option fst (cJSON_Parse 2 demo_read) = Some 3" by code_simp
  then have p: "cJSON_Parse 2 demo_read = Some (3, demo_parsed)" by (auto simp: demo_parsed_def)
  have l: "cJSON_GetObjectItem 3 1 demo_parsed = Some 4" by code_simp
  have ld: "load 4 demo_parsed = Some ?n" "h_nodes demo_parsed 6 = Some ?m" by code_simp+
  have g: "h_grants demo_parsed k" for k by code_simp
  have "cj_child ?n = 6" by code_simp
  then have c: "cj_child ?n = first_or 0 [Item 6 ?m []]" by simp
  have "cj_next ?m = 0" "cj_child ?m = 0" "owned_node ?m" "\<forall>s \<in> set (node_strs ?m). string_at s demo_parsed \<noteq> None"
    by code_simp+
  then have s: "seg demo_parsed 0 [Item 6 ?m []]" using ld(2) by simp
  have "has_type cJSON_String 6 demo_parsed = Some True" "string_at (cj_valuestring ?m) demo_parsed = Some (str ''a/b'')"
    by code_simp+
  then have n: "list_all2 (string_item demo_parsed) [Item 6 ?m []] [str ''a/b'']" by (simp add: string_item_def)
  have f: "fresh_ok demo_heap" unfolding demo_heap_def by (rule text_heap_ok)
  have nz: "(2 :: ptr) \<noteq> 0" "(3 :: ptr) \<noteq> 0" "(4 :: ptr) \<noteq> 0" "length [Item 6 ?m []] < 2 ^ 31" by simp_all
  from replacements_redirect [OF f o nz(1) p nz(2) l nz(3) ld(1) c s n nz(4) allI [OF g],
      where st = init_romfs and crc = "\<lambda>s. of_nat (length s)"]
    show ?thesis by blast
qed

text \<open>C35: for every file \<open>RDVHASH\<close> the slots are named after its text, the hash, with \<open>_0\<close>,
  \<open>_1\<close> and \<open>_2\<close>, with the right length and checksum and without leaving the buffer of 256 bytes;
  an empty hash and one of more than 253 bytes change nothing. The text is released again, except
  when the hash is too long: then it is lost.\<close>

theorem seed_hash_names_slots:
  assumes "fresh_ok h" and "fs (str ''rom:/RDVHASH'') = \<lparr>fa_entry = Some True, fa_open = True,
      fa_size = Some (int (length d)), fa_read = True, fa_data = d\<rparr>" and "length d < 2 ^ 31"
  shows "\<exists>bank ev h'. setSeedSaveProfile crc fs h = Some (bank, ev, h') \<and> still_open [] ev = Some [] \<and>
    (if h_grants h (h_count h)
     then bank = slots_for crc (cstr d) \<and> h_nodes h' = h_nodes h \<and>
       h_strs h' = (if 253 < length (cstr d) then (h_strs h)(h_fresh h \<mapsto> d @ [0]) else h_strs h)
     else bank = [] \<and> same_mem h h')"
  using assms by (rule seed_profile)

theorem seed_hash_names_slots_witness:
  "\<exists>bank ev h'. setSeedSaveProfile (\<lambda>s. of_nat (length s)) (config_fs (str ''AB'')) (text_heap (\<lambda>k. True) [0]) = Some (bank, ev, h') \<and>
    bank = [CreateString 917 (str ''AB_0'') 4 4, CreateString 918 (str ''AB_1'') 4 4, CreateString 919 (str ''AB_2'') 4 4]"
proof -
  have "slots_for (\<lambda>s. of_nat (length s)) (cstr (str ''AB'')) =
      [CreateString 917 (str ''AB_0'') 4 4, CreateString 918 (str ''AB_1'') 4 4, CreateString 919 (str ''AB_2'') 4 4]"
    by code_simp
  then show ?thesis
    using seed_hash_names_slots [OF text_heap_ok(1), where fs = "config_fs (str ''AB'')" and d = "str ''AB''" and
      grants1 = "\<lambda>k. True" and m1 = "[0]" and crc = "\<lambda>s. of_nat (length s)"]
    by (auto simp: config_fs_def text_heap_def heap_start_def)
qed

text \<open>The second format of \<open>replacements.json\<close> the documentation names, a list of objects,
  ends in undefined behaviour: the name of a list element is asked for, which is the null pointer,
  and its length is taken.\<close>

theorem object_format_is_undefined:
  "populateStringReplacementList (\<lambda>s. 0) (config_fs (quote_tildes ''{~replacements~:[{~a~:~rom:/b~}]}'')) 1 init_romfs
     (text_heap (\<lambda>k. True) (str ''replacements'' @ [0])) = None"
  by code_simp

end
