(* ===== verification/Item_Pickups.thy ===== *)
theory Item_Pickups
  imports Prelude
begin

text \<open>
  The pickup hooks: \<open>source/program/item_pickups.cpp\<close>. Five functions of the game are hooked,
  and a callback of the game is wrapped. The hooks share four static variables; what they make
  the game do is a list of calls. Every hook calls the original function last, so that hooks
  which run inside it come after it in a sequence of events; the wrapped callback is the
  exception, and the events that happen while it runs are part of its own event.
\<close>

section \<open>State and events\<close>

type_synonym callback = nat

record pickups =
  disableItemPopups :: bool
  nextPopupIsAsync :: bool
  hookNextSoundCallback :: bool
  hookedCallback :: callback

definition init_pickups :: pickups where
  "init_pickups = \<lparr>disableItemPopups = False, nextPopupIsAsync = False, hookNextSoundCallback = False, hookedCallback = 0\<rparr>"

text \<open>\<open>PopupCallbackInfo\<close>: receiver and function.\<close>

type_synonym popup_callback = "nat \<times> callback"

text \<open>
  The arguments the hooks hand on: \<open>pickup, d1, d2, f1, f2\<close> of \<open>OnCollectPickup\<close>;
  \<open>pickup, isKnownItem\<close> of \<open>PlayPickupSound\<close>; \<open>popupComposition, d1, d2, f1, f2, flag, u1\<close> of
  \<open>ShowItemPickupMessage\<close>; \<open>musicManager, soundName, layer, flags, param_5, param_6, param_7, startTimeMs\<close>
  of \<open>PlaySoundWithCallback\<close>; \<open>ptr1, ptr2, param1, param2\<close> of the sound callback. Pointers are
  numbers, and a double or a float is its bit pattern: no hook computes with them.
\<close>

type_synonym collect_args = "nat \<times> u64 \<times> u64 \<times> u32 \<times> u32"
type_synonym pickup_sound_args = "nat \<times> u64"
type_synonym message_args = "nat \<times> u64 \<times> u64 \<times> u32 \<times> u32 \<times> bool \<times> u32"
type_synonym play_args = "nat \<times> nat \<times> u32 \<times> nat \<times> u32 \<times> u32 \<times> u32 \<times> u32"
type_synonym sound_args = "nat \<times> nat \<times> u32 \<times> u32"
type_synonym dismiss_args = "u64 \<times> u64 \<times> u32 \<times> u32"

text \<open>
  A call of a hook with its arguments: \<open>OnCollectPickup\<close>, \<open>PlayPickupSound\<close>, \<open>ShowItemPickupMessage\<close> with the
  text of its message and its callback (\<open>None\<close> is the null pointer), \<open>PlaySoundWithCallback\<close>,
  the wrapped callback with what happens during it, and the Lua function
  \<open>SetItemPopupsEnabled\<close> with its arguments.
\<close>

datatype hook_event =
    Collect collect_args
  | PickupSound pickup_sound_args
  | ShowMessage message_args "bytes option" "popup_callback option"
  | PlaySound play_args callback
  | SoundDone sound_args "hook_event list"
  | SetPopups "bool list"

text \<open>\<open>None\<close> as the callback of \<open>OrigPlaySound\<close> is the wrapper of the module.\<close>

datatype game_call =
    OrigCollect collect_args
  | OrigPickupSound pickup_sound_args
  | OrigShowMessage message_args "bytes option" "popup_callback option"
  | OrigPlaySound play_args "callback option"
  | AsyncPopup bytes
  | Dismissed popup_callback dismiss_args
  | SoundCallback callback sound_args
  | RestoreMusic
  | LuaError

section \<open>The hooks\<close>

definition OnCollectPickup :: "collect_args \<Rightarrow> pickups \<Rightarrow> pickups \<times> game_call list" where
  "OnCollectPickup args st = (if disableItemPopups st then st\<lparr>nextPopupIsAsync := True\<rparr> else st, [OrigCollect args])"

definition PlayPickupSound :: "pickup_sound_args \<Rightarrow> pickups \<Rightarrow> pickups \<times> game_call list" where
  "PlayPickupSound args st = (if nextPopupIsAsync st then st\<lparr>hookNextSoundCallback := True\<rparr> else st, [OrigPickupSound args])"

text \<open>The dismissed callback gets 0.0, 0.0, 1.0f, 1.0f.\<close>

definition vanilla_dismiss :: dismiss_args where
  "vanilla_dismiss = (0, 0, 0x3F800000, 0x3F800000)"

definition ShowItemPickupMessage ::
  "message_args \<Rightarrow> bytes option \<Rightarrow> popup_callback option \<Rightarrow> pickups \<Rightarrow> pickups \<times> game_call list" where
  "ShowItemPickupMessage args pickupMessage callbackInfo st =
     (if nextPopupIsAsync st
      then (st\<lparr>nextPopupIsAsync := False\<rparr>,
            (case pickupMessage of None \<Rightarrow> [] | Some t \<Rightarrow> [AsyncPopup t]) @
            (case callbackInfo of None \<Rightarrow> [] | Some c \<Rightarrow> [Dismissed c vanilla_dismiss]))
      else (st, [OrigShowMessage args pickupMessage callbackInfo]))"

definition PlaySoundWithCallback :: "play_args \<Rightarrow> callback \<Rightarrow> pickups \<Rightarrow> pickups \<times> game_call list" where
  "PlaySoundWithCallback args cb st =
     (if hookNextSoundCallback st
      then (st\<lparr>hookNextSoundCallback := False, hookedCallback := cb\<rparr>, [OrigPlaySound args None])
      else (st, [OrigPlaySound args (Some cb)]))"

text \<open>\<open>during\<close> is what happens while the original callback runs.\<close>

definition SoundCallbackHook ::
  "sound_args \<Rightarrow> (pickups \<Rightarrow> pickups \<times> game_call list) \<Rightarrow> pickups \<Rightarrow> pickups \<times> game_call list" where
  "SoundCallbackHook args during st =
     (case (if hookedCallback st \<noteq> 0
            then (case during st of (st1, calls) \<Rightarrow> (st1\<lparr>hookedCallback := 0\<rparr>, SoundCallback (hookedCallback st) args # calls))
            else (st, [])) of
        (st2, calls) \<Rightarrow> (st2, calls @ [RestoreMusic]))"

definition SetItemPopupsEnabled :: "bool list \<Rightarrow> pickups \<Rightarrow> pickups \<times> game_call list" where
  "SetItemPopupsEnabled args st =
     (case args of [] \<Rightarrow> (st, [LuaError]) | b # _ \<Rightarrow> (st\<lparr>disableItemPopups := \<not> b\<rparr>, []))"

fun pickup_step :: "hook_event \<Rightarrow> pickups \<Rightarrow> pickups \<times> game_call list"
  and pickup_run :: "hook_event list \<Rightarrow> pickups \<Rightarrow> pickups \<times> game_call list" where
  "pickup_step (Collect args) st = OnCollectPickup args st"
| "pickup_step (PickupSound args) st = PlayPickupSound args st"
| "pickup_step (ShowMessage args t c) st = ShowItemPickupMessage args t c st"
| "pickup_step (PlaySound args cb) st = PlaySoundWithCallback args cb st"
| "pickup_step (SoundDone args es) st = SoundCallbackHook args (pickup_run es) st"
| "pickup_step (SetPopups args) st = SetItemPopupsEnabled args st"
| "pickup_run [] st = (st, [])"
| "pickup_run (e # es) st =
     (case pickup_step e st of (st1, calls) \<Rightarrow>
        (case pickup_run es st1 of (st2, calls2) \<Rightarrow> (st2, calls @ calls2)))"

lemmas hook_defs = OnCollectPickup_def PlayPickupSound_def ShowItemPickupMessage_def PlaySoundWithCallback_def
  SoundCallbackHook_def SetItemPopupsEnabled_def

section \<open>Without the option nothing changes\<close>

text \<open>The game's own call for an event, with all its arguments.\<close>

fun plain_calls :: "hook_event \<Rightarrow> game_call list" where
  "plain_calls (Collect args) = [OrigCollect args]"
| "plain_calls (PickupSound args) = [OrigPickupSound args]"
| "plain_calls (ShowMessage args t c) = [OrigShowMessage args t c]"
| "plain_calls (PlaySound args cb) = [OrigPlaySound args (Some cb)]"
| "plain_calls (SoundDone args es) = [RestoreMusic]"
| "plain_calls (SetPopups args) = (if args = [] then [LuaError] else [])"

fun keeps_popups :: "hook_event \<Rightarrow> bool" where
  "keeps_popups (SoundDone args es) = False"
| "keeps_popups (SetPopups (False # args)) = False"
| "keeps_popups e = True"

lemma plain_run: "list_all keeps_popups es \<Longrightarrow> pickup_run es init_pickups = (init_pickups, concat (map plain_calls es))"
proof (induction es)
  case (Cons e es)
  then have "pickup_step e init_pickups = (init_pickups, plain_calls e)"
    by (cases e rule: keeps_popups.cases) (auto simp: hook_defs init_pickups_def split: list.splits)
  with Cons show ?case by simp
qed simp

section \<open>Every wrapped callback is called once\<close>

text \<open>The callback that waits for its sound, the callbacks that get wrapped in a run, and the ones that are called.\<close>

definition pending :: "pickups \<Rightarrow> callback list" where
  "pending st = (if hookedCallback st = 0 then [] else [hookedCallback st])"

fun wrapped :: "hook_event list \<Rightarrow> pickups \<Rightarrow> callback list" where
  "wrapped [] st = []"
| "wrapped (e # es) st =
     (case e of PlaySound args cb \<Rightarrow> if hookNextSoundCallback st \<and> cb \<noteq> 0 then [cb] else [] | _ \<Rightarrow> []) @
     wrapped es (fst (pickup_step e st))"

fun called :: "game_call list \<Rightarrow> callback list" where
  "called [] = []"
| "called (SoundCallback cb args # cs) = cb # called cs"
| "called (c # cs) = called cs"

text \<open>Nothing of what happens from here on wraps a sound or ends a wrapped one.\<close>

fun quiet :: "hook_event list \<Rightarrow> pickups \<Rightarrow> bool" where
  "quiet [] st \<longleftrightarrow> True"
| "quiet (e # es) st \<longleftrightarrow>
     (case e of PlaySound args cb \<Rightarrow> \<not> hookNextSoundCallback st | SoundDone args ds \<Rightarrow> False | _ \<Rightarrow> True) \<and>
     quiet es (fst (pickup_step e st))"

text \<open>One wrapped sound at a time: none starts before the callback of the previous one has been called
  and has returned, and none ends during such a callback. Whatever else happens is free.\<close>

fun one_at_a_time :: "hook_event list \<Rightarrow> pickups \<Rightarrow> bool" where
  "one_at_a_time [] st \<longleftrightarrow> True"
| "one_at_a_time (e # es) st \<longleftrightarrow>
     (case e of PlaySound args cb \<Rightarrow> hookNextSoundCallback st \<longrightarrow> hookedCallback st = 0
      | SoundDone args ds \<Rightarrow> hookedCallback st \<noteq> 0 \<longrightarrow> quiet ds st | _ \<Rightarrow> True) \<and>
     one_at_a_time es (fst (pickup_step e st))"

lemma called_append [simp]: "called (cs @ ds) = called cs @ called ds"
  by (induction cs rule: called.induct) simp_all

lemma quiet_step:
  "quiet [e] st \<Longrightarrow> pickup_step e st = (st', cs) \<Longrightarrow> called cs = [] \<and> hookedCallback st' = hookedCallback st"
  by (cases e) (auto simp: hook_defs split: if_splits option.splits list.splits)

lemma quiet_run:
  "quiet es st \<Longrightarrow> pickup_run es st = (st', cs) \<Longrightarrow> called cs = [] \<and> hookedCallback st' = hookedCallback st"
proof (induction es arbitrary: st st' cs)
  case (Cons e es)
  obtain st1 cs1 where e: "pickup_step e st = (st1, cs1)" by (meson surj_pair)
  obtain st2 cs2 where r: "pickup_run es st1 = (st2, cs2)" by (meson surj_pair)
  have "quiet [e] st" "quiet es st1" using Cons.prems(1) e by (auto split: hook_event.splits)
  from quiet_step [OF this(1) e] Cons.IH [OF this(2) r] show ?case using Cons.prems(2) e r by auto
qed simp

lemma sound_done_callbacks:
  assumes "hookedCallback st \<noteq> 0 \<longrightarrow> quiet ds st" and "pickup_step (SoundDone args ds) st = (st', cs)"
  shows "called cs @ pending st' = pending st"
proof -
  obtain st1 cs1 where r: "pickup_run ds st = (st1, cs1)" by (meson surj_pair)
  show ?thesis using assms quiet_run [OF _ r] r by (auto simp: SoundCallbackHook_def pending_def split: if_splits)
qed

lemma step_callbacks:
  assumes "one_at_a_time [e] st" and "pickup_step e st = (st', cs)"
  shows "called cs @ pending st' = pending st @ wrapped [e] st"
proof (cases e)
  case (SoundDone args ds)
  then show ?thesis using sound_done_callbacks [of st ds args] assms by simp
qed (use assms in \<open>auto simp: hook_defs pending_def split: if_splits option.splits list.splits\<close>)

lemma run_callbacks:
  "one_at_a_time es st \<Longrightarrow> pickup_run es st = (st', cs) \<Longrightarrow> called cs @ pending st' = pending st @ wrapped es st"
proof (induction es arbitrary: st st' cs)
  case (Cons e es)
  obtain st1 cs1 where e: "pickup_step e st = (st1, cs1)" by (meson surj_pair)
  obtain st2 cs2 where r: "pickup_run es st1 = (st2, cs2)" by (meson surj_pair)
  have "one_at_a_time [e] st" "one_at_a_time es st1" using Cons.prems(1) e by (auto split: hook_event.splits)
  note s = step_callbacks [OF this(1) e] and rest = Cons.IH [OF this(2) r]
  have "st' = st2" "cs = cs1 @ cs2" using Cons.prems(2) e r by simp_all
  then have "called cs @ pending st' = called cs1 @ (called cs2 @ pending st2)" by simp
  also have "\<dots> = (called cs1 @ pending st1) @ wrapped es st1" unfolding rest by simp
  also have "\<dots> = pending st @ wrapped (e # es) st" unfolding s using e by simp
  finally show ?case .
qed simp

section \<open>Properties\<close>

text \<open>C36: as long as a script has not disabled the popups, the module is invisible: every hook calls
  exactly the original function with all its arguments, and the state stays as it was at the start.\<close>

theorem pickups_transparent:
  assumes "list_all keeps_popups es"
  shows "pickup_run es init_pickups = (init_pickups, concat (map plain_calls es))"
  using assms by (rule plain_run)

abbreviation demo_collect :: hook_event where
  "demo_collect \<equiv> Collect (3, 0, 0, 0x3F800000, 0x3F800000)"

abbreviation demo_message :: "bytes option \<Rightarrow> popup_callback option \<Rightarrow> hook_event" where
  "demo_message m c \<equiv> ShowMessage (4, 0, 0, 0, 0, True, 9) m c"

abbreviation demo_play :: "callback \<Rightarrow> hook_event" where
  "demo_play cb \<equiv> PlaySound (5, 6, 1, 0, 0, 0, 2, 500) cb"

abbreviation demo_done :: "hook_event list \<Rightarrow> hook_event" where
  "demo_done es \<equiv> SoundDone (7, 8, 1, 2) es"

theorem pickups_transparent_witness:
  "pickup_run [SetPopups [True], demo_collect, PickupSound (3, 1), demo_play 7, demo_message None (Some (1, 2))] init_pickups =
     (init_pickups, [OrigCollect (3, 0, 0, 0x3F800000, 0x3F800000), OrigPickupSound (3, 1),
        OrigPlaySound (5, 6, 1, 0, 0, 0, 2, 500) (Some 7), OrigShowMessage (4, 0, 0, 0, 0, True, 9) None (Some (1, 2))])"
  using pickups_transparent [of "[SetPopups [True], demo_collect, PickupSound (3, 1), demo_play 7, demo_message None (Some (1, 2))]"]
  by simp

text \<open>C37: while no sound is wrapped before the callback of the previous wrapped one has been called and
  has returned, and no wrapped sound ends during such a callback, the callbacks the game gets are
  exactly the ones it passed in with the wrapped sounds, in order: none is lost and none is called
  twice; at most the one whose sound still plays is outstanding. Other hooks may be called at any
  time, during a callback too.\<close>

theorem callbacks_called_once:
  assumes "one_at_a_time es st"
  shows "called (snd (pickup_run es st)) @ pending (fst (pickup_run es st)) = pending st @ wrapped es st"
  using run_callbacks [OF assms prod.collapse [symmetric]] .

theorem callbacks_called_once_witness:
  "called (snd (pickup_run [SetPopups [False], demo_collect, PickupSound (3, 1), demo_play 7, demo_message None None,
      demo_done [demo_collect, PickupSound (3, 1), demo_message None None], demo_play 11, demo_done []] init_pickups)) = [7, 11]"
  using callbacks_called_once [of "[SetPopups [False], demo_collect, PickupSound (3, 1), demo_play 7, demo_message None None,
      demo_done [demo_collect, PickupSound (3, 1), demo_message None None], demo_play 11, demo_done []]" init_pickups]
  by (simp add: hook_defs init_pickups_def pending_def)

text \<open>Both conditions are needed. Two pickups in quick succession lose a callback: the second wrapped
  sound overwrites the remembered callback of the first, which is never called, and the end of the
  first sound calls the callback of the second.\<close>

theorem overlapping_sounds_lose_callback:
  assumes "a \<noteq> 0" and "b \<noteq> 0"
  shows "called (snd (pickup_run [SetPopups [False], Collect x, PickupSound y, PlaySound z a, ShowMessage w m c,
      Collect x', PickupSound y', PlaySound z' b, ShowMessage w' m c, SoundDone s [], SoundDone s' []] init_pickups)) = [b]"
  using assms by (cases m; cases c) (simp_all add: hook_defs init_pickups_def)

theorem overlapping_sounds_lose_callback_witness:
  "called (snd (pickup_run [SetPopups [False], demo_collect, PickupSound (3, 1), demo_play 1, demo_message None None,
      demo_collect, PickupSound (3, 1), demo_play 2, demo_message None None, demo_done [], demo_done []] init_pickups)) = [2]"
  using overlapping_sounds_lose_callback [of 1 2] by simp

text \<open>A pickup whose sound is wrapped while the callback of the previous one runs is lost as well: when
  the callback returns, the hook clears the remembered callback, which is the new one by then.\<close>

theorem sound_during_callback_lost:
  assumes "a \<noteq> 0" and "b \<noteq> 0"
  shows "called (snd (pickup_run [SetPopups [False], Collect x, PickupSound y, PlaySound z a, ShowMessage w m c,
      SoundDone s [Collect x', PickupSound y', PlaySound z' b, ShowMessage w' m c], SoundDone s' []] init_pickups)) = [a]"
  using assms by (cases m; cases c) (simp_all add: hook_defs init_pickups_def)

theorem sound_during_callback_lost_witness:
  "called (snd (pickup_run [SetPopups [False], demo_collect, PickupSound (3, 1), demo_play 1, demo_message None None,
      demo_done [demo_collect, PickupSound (3, 1), demo_play 2, demo_message None None], demo_done []] init_pickups)) = [1]"
  using sound_during_callback_lost [of 1 2] by simp

end
