(* ===== verification/Virtmem.thy ===== *)
theory Virtmem
  imports Prelude
begin

text \<open>
  Finding free address space: \<open>source/lib/nx/kernel/virtmem.c\<close>. The regions are statics, the
  reservations a doubly linked list of allocated records. What the kernel answers to
  \<open>svcGetInfo\<close> and \<open>svcQueryMemory\<close> and what the random generator gives are arguments.
  Addresses are 64-bit and wrap around as they do in C.
\<close>

section \<open>State\<close>

type_synonym ptr = nat

record mem_region =
  mr_start :: u64
  mr_end :: u64

record reservation =
  rv_next :: ptr
  rv_prev :: ptr
  rv_region :: mem_region

record virtmem =
  g_AliasRegion :: mem_region
  g_HeapRegion :: mem_region
  g_AslrRegion :: mem_region
  g_StackRegion :: mem_region
  g_Reservations :: ptr
  g_IsLegacyKernel :: bool
  vm_records :: "ptr \<Rightarrow> reservation option"

text \<open>\<open>svcQueryMemory\<close>: \<open>None\<close> is a failure, otherwise address, size and whether the block is
  unmapped.\<close>

record memory_info =
  mi_addr :: u64
  mi_size :: u64
  mi_unmapped :: bool

type_synonym query = "u64 \<Rightarrow> memory_info option"

datatype vm_abort = BadQueryMemory | WeirdKernel | BadGetInfo_Heap | BadGetInfo_Stack

definition RANDOM_MAX_ATTEMPTS :: nat where
  "RANDOM_MAX_ATTEMPTS = 0x200"

section \<open>Regions\<close>

definition memregionIsInside :: "mem_region \<Rightarrow> u64 \<Rightarrow> u64 \<Rightarrow> bool" where
  "memregionIsInside r start end' \<longleftrightarrow> start \<ge> mr_start r \<and> end' \<le> mr_end r"

definition memregionOverlaps :: "mem_region \<Rightarrow> u64 \<Rightarrow> u64 \<Rightarrow> bool" where
  "memregionOverlaps r start end' \<longleftrightarrow> start < mr_end r \<and> mr_start r < end'"

definition memregionIsMapped :: "query \<Rightarrow> u64 \<Rightarrow> u64 \<Rightarrow> u64 \<Rightarrow> vm_abort + bool" where
  "memregionIsMapped q start end' guard =
     (case q (start - guard) of
        None \<Rightarrow> Inl BadQueryMemory
      | Some meminfo \<Rightarrow>
          Inr (\<not> mi_unmapped meminfo \<or> end' + guard > mi_addr meminfo + mi_size meminfo))"

text \<open>The walk over the list; \<open>None\<close> is a dangling pointer or a cyclic list.\<close>

partial_function (option) reserved_loop :: "(ptr \<Rightarrow> reservation option) \<Rightarrow> ptr \<Rightarrow> u64 \<Rightarrow> u64 \<Rightarrow> bool option" where
  "reserved_loop recs rv start end' =
     (if rv = 0 then Some False
      else do {
        r \<leftarrow> recs rv;
        if memregionOverlaps (rv_region r) start end' then Some True
        else reserved_loop recs (rv_next r) start end' })"

declare reserved_loop.simps [code]

definition memregionIsReserved :: "virtmem \<Rightarrow> u64 \<Rightarrow> u64 \<Rightarrow> u64 \<Rightarrow> bool option" where
  "memregionIsReserved st start end' guard =
     reserved_loop (vm_records st) (g_Reservations st) (start - guard) (end' + guard)"

definition page_align :: "u64 \<Rightarrow> u64" where
  "page_align n = (n + 0xFFF) AND NOT 0xFFF"

text \<open>The inner loop: random pages until one lies outside the alias and the heap region. \<open>i\<close>
  counts the random numbers.\<close>

partial_function (option) pick_address ::
  "(nat \<Rightarrow> u64) \<Rightarrow> virtmem \<Rightarrow> mem_region \<Rightarrow> u64 \<Rightarrow> u64 \<Rightarrow> nat \<Rightarrow> (u64 \<times> nat) option" where
  "pick_address rng st r size' max_page i =
     (let page_offset = rng i mod (max_page + 1);
          cur_addr = mr_start r + push_bit 12 page_offset
      in if memregionOverlaps (g_AliasRegion st) cur_addr (cur_addr + size') then pick_address rng st r size' max_page (Suc i)
         else if memregionOverlaps (g_HeapRegion st) cur_addr (cur_addr + size') then pick_address rng st r size' max_page (Suc i)
         else Some (cur_addr, i))"

declare pick_address.simps [code]

fun find_loop ::
  "nat \<Rightarrow> (nat \<Rightarrow> u64) \<Rightarrow> query \<Rightarrow> virtmem \<Rightarrow> mem_region \<Rightarrow> u64 \<Rightarrow> u64 \<Rightarrow> u64 \<Rightarrow> nat \<Rightarrow> (vm_abort + u64) option" where
  "find_loop 0 rng q st r size' guard max_page i = Some (Inr 0)"
| "find_loop (Suc k) rng q st r size' guard max_page i =
     do { (cur_addr, i') \<leftarrow> pick_address rng st r size' max_page i;
          (case memregionIsMapped q cur_addr (cur_addr + size') guard of
             Inl e \<Rightarrow> Some (Inl e)
           | Inr mapped \<Rightarrow>
               if mapped then find_loop k rng q st r size' guard max_page (Suc i')
               else do {
                 res \<leftarrow> memregionIsReserved st cur_addr (cur_addr + size') guard;
                 if res then find_loop k rng q st r size' guard max_page (Suc i')
                 else Some (Inr cur_addr) }) }"

definition memregionFindRandom ::
  "(nat \<Rightarrow> u64) \<Rightarrow> query \<Rightarrow> virtmem \<Rightarrow> mem_region \<Rightarrow> u64 \<Rightarrow> u64 \<Rightarrow> (vm_abort + u64) option" where
  "memregionFindRandom rng q st r size0 guard0 =
     (let size' = page_align size0; guard = page_align guard0; region_size = mr_end r - mr_start r
      in if size' > region_size then Some (Inr 0)
         else find_loop RANDOM_MAX_ATTEMPTS rng q st r size' guard (drop_bit 12 (region_size - size')) 0)"

definition virtmemFindAslr ::
  "(nat \<Rightarrow> u64) \<Rightarrow> query \<Rightarrow> virtmem \<Rightarrow> u64 \<Rightarrow> u64 \<Rightarrow> (vm_abort + u64) option" where
  "virtmemFindAslr rng q st size' guard = memregionFindRandom rng q st (g_AslrRegion st) size' guard"

definition virtmemFindStack ::
  "(nat \<Rightarrow> u64) \<Rightarrow> query \<Rightarrow> virtmem \<Rightarrow> u64 \<Rightarrow> u64 \<Rightarrow> (vm_abort + u64) option" where
  "virtmemFindStack rng q st size' guard = memregionFindRandom rng q st (g_StackRegion st) size' guard"

definition virtmemFindCodeMemory ::
  "(nat \<Rightarrow> u64) \<Rightarrow> query \<Rightarrow> virtmem \<Rightarrow> u64 \<Rightarrow> u64 \<Rightarrow> (vm_abort + u64) option" where
  "virtmemFindCodeMemory rng q st size' guard =
     memregionFindRandom rng q st (if g_IsLegacyKernel st then g_StackRegion st else g_AslrRegion st) size' guard"

section \<open>Setup\<close>

text \<open>The kernel's answers: \<open>svcGetInfo\<close> for address and size of a region, and the value
  \<open>svcUnmapMemory\<close> gives for the probe of an old kernel.\<close>

datatype region_kind = AliasKind | HeapKind | AslrKind | StackKind

datatype unmap_result = InvalidMemoryState | InvalidMemoryRange | OtherResult

record kernel =
  k_address :: "region_kind \<Rightarrow> u64 option"
  k_size :: "region_kind \<Rightarrow> u64 option"
  k_unmap :: unmap_result

definition memregionInitWithInfo :: "kernel \<Rightarrow> region_kind \<Rightarrow> mem_region option" where
  "memregionInitWithInfo k kind =
     do { base \<leftarrow> k_address k kind; n \<leftarrow> k_size k kind; Some \<lparr>mr_start = base, mr_end = base + n\<rparr> }"

definition virtmemSetup :: "kernel \<Rightarrow> virtmem \<Rightarrow> vm_abort + virtmem" where
  "virtmemSetup k st =
     (case memregionInitWithInfo k AliasKind of
        None \<Rightarrow> Inl WeirdKernel
      | Some a \<Rightarrow>
          (case memregionInitWithInfo k HeapKind of
             None \<Rightarrow> Inl BadGetInfo_Heap
           | Some hp \<Rightarrow>
               let st1 = st\<lparr>g_AliasRegion := a, g_HeapRegion := hp\<rparr>
               in (case memregionInitWithInfo k AslrKind of
                     Some as \<Rightarrow>
                       (case memregionInitWithInfo k StackKind of
                          None \<Rightarrow> Inl BadGetInfo_Stack
                        | Some sk \<Rightarrow> Inr (st1\<lparr>g_AslrRegion := as, g_StackRegion := sk\<rparr>))
                   | None \<Rightarrow>
                       let st2 = st1\<lparr>g_IsLegacyKernel := True\<rparr>
                       in (case k_unmap k of
                             InvalidMemoryState \<Rightarrow>
                               Inr (st2\<lparr>g_AslrRegion := \<lparr>mr_start = 0x200000, mr_end = 0x100000000\<rparr>,
                                        g_StackRegion := \<lparr>mr_start = 0x200000, mr_end = 0x40000000\<rparr>\<rparr>)
                           | InvalidMemoryRange \<Rightarrow>
                               Inr (st2\<lparr>g_AslrRegion := \<lparr>mr_start = 0x8000000, mr_end = 0x1000000000\<rparr>,
                                        g_StackRegion := \<lparr>mr_start = 0x8000000, mr_end = 0x80000000\<rparr>\<rparr>)
                           | OtherResult \<Rightarrow> Inl WeirdKernel))))"

section \<open>Reservations\<close>

text \<open>\<open>p\<close> is what \<open>malloc\<close> answers.\<close>

definition virtmemAddReservation :: "ptr \<Rightarrow> u64 \<Rightarrow> u64 \<Rightarrow> virtmem \<Rightarrow> (ptr \<times> virtmem) option" where
  "virtmemAddReservation p mem size' st =
     (if p = 0 then Some (0, st)
      else let old = g_Reservations st;
               recs = (vm_records st)(p \<mapsto> \<lparr>rv_next = old, rv_prev = 0, rv_region = \<lparr>mr_start = mem, mr_end = mem + size'\<rparr>\<rparr>);
               st1 = st\<lparr>g_Reservations := p, vm_records := recs\<rparr>
      in if old = 0 then Some (p, st1)
         else do { o' \<leftarrow> recs old; Some (p, st1\<lparr>vm_records := recs(old \<mapsto> o'\<lparr>rv_prev := p\<rparr>)\<rparr>) })"

definition virtmemRemoveReservation :: "ptr \<Rightarrow> virtmem \<Rightarrow> virtmem option" where
  "virtmemRemoveReservation rv st =
     do { r \<leftarrow> vm_records st rv;
          recs1 \<leftarrow> (if rv_next r = 0 then Some (vm_records st)
                    else do { n \<leftarrow> vm_records st (rv_next r);
                              Some ((vm_records st)(rv_next r \<mapsto> n\<lparr>rv_prev := rv_prev r\<rparr>)) });
          r1 \<leftarrow> recs1 rv;
          st1 \<leftarrow> (if rv_prev r1 = 0 then Some (st\<lparr>g_Reservations := rv_next r1, vm_records := recs1\<rparr>)
                  else do { p \<leftarrow> recs1 (rv_prev r1);
                            Some (st\<lparr>vm_records := recs1(rv_prev r1 \<mapsto> p\<lparr>rv_next := rv_next r1\<rparr>)\<rparr>) });
          Some (st1\<lparr>vm_records := (vm_records st1)(rv := None)\<rparr>) }"

end
