(* ===== verification/Virtmem_Claims.thy ===== *)
theory Virtmem_Claims
  imports Virtmem
begin

text \<open>
  Properties of the address space search: the reservations are a list that adding and removing
  changes as one expects, and what the search answers lies inside its region and apart from the
  alias and heap regions, from mapped memory and from every reservation. The ranges are sets of
  addresses, natural numbers that do not wrap around, and what is mapped is a set of addresses that
  the answers of \<open>svcQueryMemory\<close> describe; none of it is stated with the tests of the code.
\<close>

section \<open>The list of reservations\<close>

definition head_of :: "(ptr \<times> mem_region) list \<Rightarrow> ptr" where
  "head_of xs = (case xs of [] \<Rightarrow> 0 | x # _ \<Rightarrow> fst x)"

fun rv_chain :: "(ptr \<Rightarrow> reservation option) \<Rightarrow> ptr \<Rightarrow> (ptr \<times> mem_region) list \<Rightarrow> ptr \<Rightarrow> bool" where
  "rv_chain R q [] e \<longleftrightarrow> True"
| "rv_chain R q ((p, m) # xs) e \<longleftrightarrow>
     p \<noteq> 0 \<and> R p = Some \<lparr>rv_next = (if xs = [] then e else head_of xs), rv_prev = q, rv_region = m\<rparr> \<and> rv_chain R p xs e"

definition last_of :: "ptr \<Rightarrow> (ptr \<times> mem_region) list \<Rightarrow> ptr" where
  "last_of q xs = (if xs = [] then q else fst (last xs))"

text \<open>The reservations in memory are exactly those of the list, in its order.\<close>

definition reservations :: "virtmem \<Rightarrow> (ptr \<times> mem_region) list \<Rightarrow> bool" where
  "reservations st xs \<longleftrightarrow> g_Reservations st = head_of xs \<and> rv_chain (vm_records st) 0 xs 0 \<and>
     distinct (map fst xs) \<and> dom (vm_records st) = set (map fst xs)"

lemma head_of_simps [simp]: "head_of [] = 0" "head_of (x # xs) = fst x"
  by (simp_all add: head_of_def)

lemma head_of_append: "head_of (xs @ ys) = (if xs = [] then head_of ys else head_of xs)"
  by (cases xs) simp_all

lemma last_of_simps [simp]: "last_of q [] = q" "last_of q (x # xs) = last_of (fst x) xs"
  by (simp_all add: last_of_def)

lemma rv_chain_upd [simp]: "p \<notin> fst ` set xs \<Longrightarrow> rv_chain (R(p := v)) q xs e = rv_chain R q xs e"
  by (induction R q xs e rule: rv_chain.induct) auto

lemma rv_chain_append:
  "rv_chain R q (xs @ ys) e \<longleftrightarrow> rv_chain R q xs (if ys = [] then e else head_of ys) \<and> rv_chain R (last_of q xs) ys e"
  by (induction R q xs e rule: rv_chain.induct) (auto simp: head_of_append)

lemma rv_chain_nonzero: "rv_chain R q xs e \<Longrightarrow> 0 \<notin> fst ` set xs"
  by (induction R q xs e rule: rv_chain.induct) auto

text \<open>Changing the end of a chain changes the last record.\<close>

lemma rv_chain_last:
  assumes "rv_chain R q (xs @ [(l, m)]) e" and "l \<notin> fst ` set xs"
  shows "rv_chain (R(l \<mapsto> \<lparr>rv_next = e', rv_prev = last_of q xs, rv_region = m\<rparr>)) q (xs @ [(l, m)]) e'"
  using assms by (simp add: rv_chain_append)

text \<open>Changing the record in front of a chain changes its first record.\<close>

lemma rv_chain_first:
  assumes "rv_chain R q ((p, m) # xs) e" and "p \<notin> fst ` set xs"
  shows "rv_chain (R(p \<mapsto> \<lparr>rv_next = (if xs = [] then e else head_of xs), rv_prev = q', rv_region = m\<rparr>)) q' ((p, m) # xs) e"
  using assms by simp

lemma reserved_chain:
  "rv_chain R q xs 0 \<Longrightarrow> reserved_loop R (head_of xs) s e = Some (\<exists>x \<in> set xs. memregionOverlaps (snd x) s e)"
proof (induction xs arbitrary: q)
  case Nil
  show ?case by (subst reserved_loop.simps) simp
next
  case (Cons x xs)
  obtain p m where x: "x = (p, m)" by (cases x)
  have "(if xs = [] then 0 else head_of xs) = head_of xs" by simp
  then show ?case using Cons x by (subst reserved_loop.simps) auto
qed

lemma add_reservation:
  assumes r: "reservations st xs" and p: "p \<noteq> 0" "p \<notin> dom (vm_records st)"
  shows "\<exists>st'. virtmemAddReservation p mem n st = Some (p, st') \<and>
    reservations st' ((p, \<lparr>mr_start = mem, mr_end = mem + n\<rparr>) # xs)"
proof (cases xs)
  case Nil
  then show ?thesis using r p by (auto simp: reservations_def virtmemAddReservation_def Let_def)
next
  case (Cons x ys)
  obtain o' m where x: "x = (o', m)" by (cases x)
  have pn: "p \<notin> fst ` set xs" using r p(2) by (simp add: reservations_def)
  then have neq: "p \<noteq> o'" "p \<notin> fst ` set ys" using Cons x by auto
  have o: "o' \<noteq> 0" "o' \<notin> fst ` set ys" "rv_chain (vm_records st) o' ys 0"
    "vm_records st o' = Some \<lparr>rv_next = (if ys = [] then 0 else head_of ys), rv_prev = 0, rv_region = m\<rparr>"
    using r Cons x by (auto simp: reservations_def)
  show ?thesis using r p neq o Cons x by (auto simp: reservations_def virtmemAddReservation_def Let_def)
qed

lemma remove_reservation:
  assumes r: "reservations st (xs @ (p, m) # ys)"
  shows "\<exists>st'. virtmemRemoveReservation p st = Some st' \<and> reservations st' (xs @ ys)"
proof -
  let ?R = "vm_records st"
  have d: "distinct (map fst xs)" "distinct (map fst ys)" "p \<notin> fst ` set xs" "p \<notin> fst ` set ys"
    "fst ` set xs \<inter> fst ` set ys = {}" "dom ?R = fst ` set xs \<union> insert p (fst ` set ys)"
    using r by (auto simp: reservations_def)
  have c: "rv_chain ?R 0 xs p" "?R p = Some \<lparr>rv_next = head_of ys, rv_prev = last_of 0 xs, rv_region = m\<rparr>"
    "p \<noteq> 0" "rv_chain ?R p ys 0"
    using r by (auto simp: reservations_def rv_chain_append)
  have nz: "0 \<notin> fst ` set xs" "0 \<notin> fst ` set ys" using rv_chain_nonzero c(1,4) by blast+
  have g: "g_Reservations st = (if xs = [] then p else head_of xs)" using r by (simp add: reservations_def head_of_append)
  text \<open>The successor.\<close>
  define R1 where "R1 = (case ys of [] \<Rightarrow> ?R | (n, k) # zs \<Rightarrow>
      ?R(n \<mapsto> \<lparr>rv_next = head_of zs, rv_prev = last_of 0 xs, rv_region = k\<rparr>))"
  have y: "(if head_of ys = 0 then Some ?R
       else ?R (head_of ys) \<bind> (\<lambda>n. Some (?R(head_of ys \<mapsto> n\<lparr>rv_prev := last_of 0 xs\<rparr>)))) = Some R1"
    using c(4) by (cases ys) (auto simp: R1_def)
  have run: "virtmemRemoveReservation p st =
      (R1 p \<bind> (\<lambda>r1.
         (if rv_prev r1 = 0 then Some (st\<lparr>g_Reservations := rv_next r1, vm_records := R1\<rparr>)
          else do { n \<leftarrow> R1 (rv_prev r1); Some (st\<lparr>vm_records := R1(rv_prev r1 \<mapsto> n\<lparr>rv_next := rv_next r1\<rparr>)\<rparr>) })
         \<bind> (\<lambda>st1. Some (st1\<lparr>vm_records := (vm_records st1)(p := None)\<rparr>))))"
    unfolding virtmemRemoveReservation_def c(2) Option.bind.simps reservation.select_convs y ..
  have R1: "rv_chain R1 (last_of 0 xs) ys 0" "rv_chain R1 0 xs p" "R1 p = ?R p" "dom R1 = dom ?R"
    using c d by (cases ys; auto simp: R1_def)+
  show ?thesis
  proof (cases xs rule: rev_cases)
    case Nil
    let ?st = "st\<lparr>g_Reservations := head_of ys, vm_records := R1(p := None)\<rparr>"
    have "virtmemRemoveReservation p st = Some ?st"
      unfolding run R1(3) c(2) using Nil by simp
    moreover have "reservations ?st ys" using R1 d Nil by (auto simp: reservations_def)
    ultimately show ?thesis using Nil by simp
  next
    case (snoc ws w)
    obtain l k where w: "w = (l, k)" by (cases w)
    let ?l = "\<lparr>rv_next = head_of ys, rv_prev = last_of 0 ws, rv_region = k\<rparr>"
    let ?st = "st\<lparr>vm_records := (R1(l \<mapsto> ?l))(p := None)\<rparr>"
    have l: "last_of 0 xs = l" "l \<noteq> 0" "l \<notin> fst ` set ws" "l \<notin> fst ` set ys" "l \<noteq> p"
      using snoc w d nz(1) by (auto simp: last_of_def)
    have Rl: "R1 l = Some \<lparr>rv_next = p, rv_prev = last_of 0 ws, rv_region = k\<rparr>"
      using R1(2) snoc w by (simp add: rv_chain_append)
    have "virtmemRemoveReservation p st = Some ?st"
      unfolding run R1(3) c(2) using l Rl by simp
    moreover have "rv_chain (R1(l \<mapsto> ?l)) 0 xs (head_of ys)"
      using rv_chain_last [of R1 0 ws l k p "head_of ys"] R1(2) l(3) snoc w by simp
    then have "rv_chain ((R1(l \<mapsto> ?l))(p := None)) 0 (xs @ ys) 0"
      using R1(1) l(1,4) d(3,4) by (cases "ys = []") (simp_all add: rv_chain_append)
    then have "reservations ?st (xs @ ys)"
      using d R1(4) g snoc w l(5) by (auto simp: reservations_def head_of_append)
    ultimately show ?thesis by blast
  qed
qed

section \<open>The search\<close>

text \<open>\<open>unat\<close> of the bit operations the search uses.\<close>

lemma unat_drop_page: "unat (drop_bit 12 (w :: u64)) = unat w div 4096"
  by (simp add: drop_bit_eq_div unat_div)

lemma below_2p: "unat (w :: u64) < 2 ^ 64"
  using unsigned_less [of w, where 'a = nat] by simp

lemma unat_push_page:
  assumes "unat w * 4096 < 2 ^ 64"
  shows "unat (push_bit 12 (w :: u64)) = unat w * 4096"
  using assms by (simp add: push_bit_eq_mult unat_word_ariths)

text \<open>A size rounded up to whole pages, as a number.\<close>

definition whole_pages :: "u64 \<Rightarrow> nat" where
  "whole_pages n = (unat n + 4095) div 4096 * 4096"

lemma whole_pages_ge: "unat n \<le> whole_pages n"
proof -
  have "(unat n + 4095) div 4096 * 4096 + (unat n + 4095) mod 4096 = unat n + 4095" by (rule div_mult_mod_eq)
  moreover have "(unat n + 4095) mod 4096 < 4096" by simp
  ultimately show ?thesis unfolding whole_pages_def by linarith
qed

lemma page_align_unat:
  assumes "whole_pages n < 2 ^ 64"
  shows "unat (page_align n) = whole_pages n"
proof -
  have m: "(0xFFF :: u64) = mask 12" by (simp add: mask_eq_exp_minus_1)
  have "unat n + 4095 < 2 ^ 64"
  proof (rule ccontr)
    assume "\<not> unat n + 4095 < 2 ^ 64"
    then have "2 ^ 64 \<le> unat n + 4095" by simp
    then have "2 ^ 64 div 4096 * 4096 \<le> whole_pages n"
      unfolding whole_pages_def by (intro mult_le_mono1 div_le_mono)
    with assms show False by simp
  qed
  then have s: "unat (n + mask 12) = unat n + 4095"
    by (subst unat_add_lem [THEN iffD1]) (simp_all add: m [symmetric])
  have "page_align n = push_bit 12 (drop_bit 12 (n + mask 12))"
    unfolding page_align_def m by (rule bit_word_eqI) (auto simp: bit_simps)
  then show ?thesis
    using assms s unat_drop_page [of "n + mask 12"] by (simp add: unat_push_page whole_pages_def)
qed

definition apart_from :: "mem_region \<Rightarrow> u64 \<Rightarrow> u64 \<Rightarrow> bool" where
  "apart_from r s e \<longleftrightarrow> \<not> memregionOverlaps r s e"

lemma pick_address_found:
  assumes "pick_address rng st r n mp i = Some y"
  shows "(\<exists>j. fst y = mr_start r + push_bit 12 (rng j mod (mp + 1))) \<and>
    apart_from (g_AliasRegion st) (fst y) (fst y + n) \<and> apart_from (g_HeapRegion st) (fst y) (fst y + n)"
proof (rule pick_address.raw_induct [where P = "\<lambda>rng st r n mp i y. (\<exists>j. fst y = mr_start r + push_bit 12 (rng j mod (mp + 1))) \<and>
    apart_from (g_AliasRegion st) (fst y) (fst y + n) \<and> apart_from (g_HeapRegion st) (fst y) (fst y + n)", OF _ assms], goal_cases)
  case (1 pick rng st r n mp i y)
  then show ?case by (cases y) (auto simp: apart_from_def Let_def split: if_splits)
qed

text \<open>What the ranges are as numbers: the addresses of a region, and a range that lies before or
  behind one.\<close>

definition addresses :: "mem_region \<Rightarrow> nat set" where
  "addresses r = {unat (mr_start r)..<unat (mr_end r)}"

definition clear_of :: "mem_region \<Rightarrow> nat \<Rightarrow> nat \<Rightarrow> bool" where
  "clear_of r s e \<longleftrightarrow> e \<le> unat (mr_start r) \<or> unat (mr_end r) \<le> s"

lemma clear_of_disjoint: "clear_of r s e \<Longrightarrow> {s..<e} \<inter> addresses r = {}"
  by (auto simp: clear_of_def addresses_def)

lemma apart_from_clear: "apart_from r s e \<longleftrightarrow> clear_of r (unat s) (unat e)"
  by (auto simp: apart_from_def memregionOverlaps_def clear_of_def word_less_nat_alt)

text \<open>What the documentation of \<open>svcQueryMemory\<close> promises, for the set of the mapped addresses: the
  answer describes a block of the address space around the address, and an unmapped block has no
  mapped address.\<close>

definition answers_for :: "query \<Rightarrow> nat set \<Rightarrow> bool" where
  "answers_for q mapped \<longleftrightarrow> (\<forall>a m. q a = Some m \<longrightarrow>
     unat (mi_addr m) \<le> unat a \<and> unat a < unat (mi_addr m) + unat (mi_size m) \<and>
     unat (mi_addr m) + unat (mi_size m) \<le> 2 ^ 64 \<and>
     (mi_unmapped m \<longrightarrow> {unat (mi_addr m)..<unat (mi_addr m) + unat (mi_size m)} \<inter> mapped = {}))"

lemma not_mapped:
  assumes q: "answers_for q mapped" and m: "memregionIsMapped q s e g = Inr False"
    and g: "unat g \<le> unat s" "unat e + unat g < 2 ^ 64" and nz: "e + g \<noteq> 0"
  shows "{unat s - unat g..<unat e + unat g} \<inter> mapped = {}"
proof -
  from m obtain i where i: "q (s - g) = Some i" "mi_unmapped i" "\<not> e + g > mi_addr i + mi_size i"
    by (auto simp: memregionIsMapped_def split: option.splits)
  have sg: "unat (s - g) = unat s - unat g" using g(1) by (simp add: unat_sub word_le_nat_alt)
  have eg: "unat (e + g) = unat e + unat g" using g(2) by (subst unat_add_lem [THEN iffD1]) simp_all
  note k = q [unfolded answers_for_def, rule_format, OF i(1)]
  have "unat (mi_addr i) + unat (mi_size i) \<noteq> 2 ^ 64"
  proof
    assume "unat (mi_addr i) + unat (mi_size i) = 2 ^ 64"
    then have "mi_addr i + mi_size i = 0"
      using unat_word_ariths(1) [of "mi_addr i" "mi_size i"] by (simp add: unat_eq_zero)
    with i(3) nz show False by (simp add: word_gt_0)
  qed
  then have "unat (mi_addr i) + unat (mi_size i) < 2 ^ 64" using k by linarith
  then have "unat (mi_addr i + mi_size i) = unat (mi_addr i) + unat (mi_size i)"
    by (subst unat_add_lem [THEN iffD1]) simp_all
  then have "unat e + unat g \<le> unat (mi_addr i) + unat (mi_size i)"
    using i(3) eg by (simp add: word_less_nat_alt not_less)
  then have "{unat s - unat g..<unat e + unat g} \<subseteq> {unat (mi_addr i)..<unat (mi_addr i) + unat (mi_size i)}"
    using k sg by auto
  then show ?thesis using k i(2) by blast
qed

text \<open>The address that a random number stands for, and whether it is clear of the alias and the heap
  region.\<close>

definition page_address :: "mem_region \<Rightarrow> u64 \<Rightarrow> u64 \<Rightarrow> nat" where
  "page_address r n w = unat (mr_start r) +
     unat w mod ((unat (mr_end r) - unat (mr_start r) - whole_pages n) div 4096 + 1) * 4096"

definition good_page :: "virtmem \<Rightarrow> mem_region \<Rightarrow> u64 \<Rightarrow> u64 \<Rightarrow> bool" where
  "good_page st r n w \<longleftrightarrow> (\<forall>reg \<in> {g_AliasRegion st, g_HeapRegion st}.
     clear_of reg (page_address r n w) (page_address r n w + whole_pages n))"

lemma page_address_bounds:
  assumes "unat (mr_start r) \<le> unat (mr_end r)" and "whole_pages n \<le> unat (mr_end r) - unat (mr_start r)"
  shows "unat (mr_start r) \<le> page_address r n w" and "page_address r n w + whole_pages n \<le> unat (mr_end r)"
    and "(page_address r n w - unat (mr_start r)) mod 4096 = 0"
proof -
  let ?d = "unat (mr_end r) - unat (mr_start r) - whole_pages n"
  have "unat w mod (?d div 4096 + 1) \<le> ?d div 4096" using mod_less_divisor [of "?d div 4096 + 1" "unat w"] by simp
  then have "unat w mod (?d div 4096 + 1) * 4096 \<le> ?d div 4096 * 4096" by (rule mult_le_mono1)
  also have "\<dots> \<le> ?d" by (rule div_times_less_eq_dividend)
  finally show "page_address r n w + whole_pages n \<le> unat (mr_end r)" using assms unfolding page_address_def by linarith
  show "unat (mr_start r) \<le> page_address r n w" "(page_address r n w - unat (mr_start r)) mod 4096 = 0"
    by (simp_all add: page_address_def)
qed

lemma picked_address:
  assumes wf: "unat (mr_start r) \<le> unat (mr_end r)" and np: "whole_pages n < 2 ^ 64"
    and fits: "page_align n \<le> mr_end r - mr_start r"
  shows "unat (mr_start r + push_bit 12 (w mod (drop_bit 12 (mr_end r - mr_start r - page_align n) + 1))) = page_address r n w"
    and "whole_pages n \<le> unat (mr_end r) - unat (mr_start r)"
proof -
  let ?d = "mr_end r - mr_start r" and ?m = "drop_bit 12 (mr_end r - mr_start r - page_align n)"
  have d: "unat ?d = unat (mr_end r) - unat (mr_start r)" using wf by (simp add: unat_sub word_le_nat_alt)
  have dn: "unat (?d - page_align n) = unat ?d - whole_pages n"
    using fits by (simp add: unat_sub page_align_unat [OF np])
  show le: "whole_pages n \<le> unat (mr_end r) - unat (mr_start r)"
    using fits by (simp add: word_le_nat_alt d page_align_unat [OF np])
  have m: "unat ?m = (unat (mr_end r) - unat (mr_start r) - whole_pages n) div 4096"
    unfolding unat_drop_page dn d ..
  have "unat ?m < 2 ^ 52" unfolding unat_drop_page using below_2p [of "?d - page_align n"] by simp
  then have m1: "unat (?m + 1) = unat ?m + 1" by (subst unat_add_lem [THEN iffD1]) simp_all
  have o: "unat (w mod (?m + 1)) = unat w mod (unat ?m + 1)" unfolding unat_mod_distrib m1 ..
  have lt: "page_address r n w < 2 ^ 64"
    using page_address_bounds(2) [OF wf le, of w] below_2p [of "mr_end r"] by linarith
  then have p: "unat (push_bit 12 (w mod (?m + 1))) = unat (w mod (?m + 1)) * 4096"
    by (intro unat_push_page) (simp add: o m page_address_def)
  show "unat (mr_start r + push_bit 12 (w mod (?m + 1))) = page_address r n w"
    using lt by (subst unat_add_lem [THEN iffD1]) (simp_all add: p o m page_address_def)
qed

text \<open>The test of the inner loop decides whether the page is a good one.\<close>

definition page_word :: "mem_region \<Rightarrow> u64 \<Rightarrow> u64 \<Rightarrow> u64" where
  "page_word r n w = mr_start r + push_bit 12 (w mod (drop_bit 12 (mr_end r - mr_start r - page_align n) + 1))"

lemma good_page_test:
  assumes "unat (mr_start r) \<le> unat (mr_end r)" and "whole_pages n < 2 ^ 64" and "page_align n \<le> mr_end r - mr_start r"
  shows "good_page st r n w \<longleftrightarrow>
    apart_from (g_AliasRegion st) (page_word r n w) (page_word r n w + page_align n) \<and>
    apart_from (g_HeapRegion st) (page_word r n w) (page_word r n w + page_align n)"
    and "unat (page_word r n w) = page_address r n w"
    and "unat (page_word r n w + page_align n) = page_address r n w + whole_pages n"
proof -
  note p = picked_address(1) [OF assms, of w, folded page_word_def] picked_address(2) [OF assms]
  show u: "unat (page_word r n w) = page_address r n w" by (rule p(1))
  have "page_address r n w + whole_pages n < 2 ^ 64"
    using page_address_bounds(2) [OF assms(1) p(2), of w] below_2p [of "mr_end r"] by linarith
  then show e: "unat (page_word r n w + page_align n) = page_address r n w + whole_pages n"
    by (subst unat_add_lem [THEN iffD1]) (simp_all add: u page_align_unat [OF assms(2)])
  show "good_page st r n w \<longleftrightarrow>
    apart_from (g_AliasRegion st) (page_word r n w) (page_word r n w + page_align n) \<and>
    apart_from (g_HeapRegion st) (page_word r n w) (page_word r n w + page_align n)"
    by (simp add: good_page_def apart_from_clear u e)
qed


lemma is_reserved:
  "reservations st xs \<Longrightarrow>
    memregionIsReserved st s e g = Some (\<not> list_all (\<lambda>x. apart_from (snd x) (s - g) (e + g)) xs)"
  using reserved_chain [of "vm_records st" 0 xs]
  by (auto simp: reservations_def memregionIsReserved_def apart_from_def list_all_iff)


lemma find_loop_sound:
  assumes r: "reservations st xs"
  shows "find_loop k rng q st r n g mp i = Some (Inr a) \<Longrightarrow> a = 0 \<or>
    (\<exists>j. a = mr_start r + push_bit 12 (rng j mod (mp + 1))) \<and>
    apart_from (g_AliasRegion st) a (a + n) \<and> apart_from (g_HeapRegion st) a (a + n) \<and>
    memregionIsMapped q a (a + n) g = Inr False \<and> (\<forall>x \<in> set xs. apart_from (snd x) (a - g) (a + n + g))"
proof (induction k arbitrary: i)
  case (Suc k)
  then obtain c i' where p: "pick_address rng st r n mp i = Some (c, i')" by (auto split: bind_splits)
  note found = pick_address_found [OF p, simplified]
  from Suc.prems p obtain m where m: "memregionIsMapped q c (c + n) g = Inr m"
    by (auto split: sum.splits)
  show ?case
  proof (cases "m \<or> \<not> list_all (\<lambda>x. apart_from (snd x) (c - g) (c + n + g)) xs")
    case True
    then have "find_loop k rng q st r n g mp (Suc i') = Some (Inr a)"
      using Suc.prems p m is_reserved [OF r, of c "c + n" g] by (cases m) auto
    then show ?thesis by (rule Suc.IH)
  next
    case False
    then have "a = c" using Suc.prems p m is_reserved [OF r, of c "c + n" g] by auto
    then show ?thesis using found m False by (simp add: list_all_iff)
  qed
qed simp

section \<open>Properties\<close>

text \<open>C38: an address the search answers lies inside its region, a whole number of pages behind the
  region's start, with the whole size that was asked for, rounded up to pages. No address of that
  range belongs to the alias or the heap region, and no address of the range extended by the
  rounded guard on both sides is mapped or belongs to a reservation. The guards must not leave the
  address space, and the answers of the kernel must describe the mapped addresses.\<close>

theorem found_range_is_free:
  assumes "reservations st xs" and "answers_for q mapped"
    and "unat (mr_start r) \<le> unat (mr_end r)" and "whole_pages n < 2 ^ 64"
    and "whole_pages g \<le> unat (mr_start r)" and "unat (mr_end r) + whole_pages g < 2 ^ 64"
    and "memregionFindRandom rng q st r n g = Some (Inr a)" and "a \<noteq> 0"
  shows "unat (mr_start r) \<le> unat a \<and> unat a + whole_pages n \<le> unat (mr_end r) \<and>
    (unat a - unat (mr_start r)) mod 4096 = 0 \<and>
    {unat a..<unat a + whole_pages n} \<inter> (addresses (g_AliasRegion st) \<union> addresses (g_HeapRegion st)) = {} \<and>
    {unat a - whole_pages g..<unat a + whole_pages n + whole_pages g} \<inter>
      (mapped \<union> (\<Union>x \<in> set xs. addresses (snd x))) = {}"
proof -
  let ?n = "page_align n" and ?g = "page_align g" and ?mp = "drop_bit 12 (mr_end r - mr_start r - page_align n)"
  have fits: "?n \<le> mr_end r - mr_start r"
    using assms(7,8) by (auto simp: memregionFindRandom_def Let_def not_less split: if_splits)
  then have "find_loop RANDOM_MAX_ATTEMPTS rng q st r ?n ?g ?mp 0 = Some (Inr a)"
    using assms(7) by (simp add: memregionFindRandom_def Let_def not_less [symmetric])
  from find_loop_sound [OF assms(1) this] assms(8) obtain j where a: "a = page_word r n (rng j)"
    and free: "apart_from (g_AliasRegion st) a (a + ?n)" "apart_from (g_HeapRegion st) a (a + ?n)"
      "memregionIsMapped q a (a + ?n) ?g = Inr False" "\<forall>x \<in> set xs. apart_from (snd x) (a - ?g) (a + ?n + ?g)"
    unfolding page_word_def by blast
  note u = good_page_test(2,3) [OF assms(3,4) fits, of "rng j", folded a]
  note b = page_address_bounds [OF assms(3) picked_address(2) [OF assms(3,4) fits], of "rng j", folded u(1)]
  have g: "unat ?g = whole_pages g" using assms(6) by (intro page_align_unat) linarith
  have e: "unat (a + ?n) = unat a + whole_pages n" using u by simp
  have ag: "whole_pages g \<le> unat a" "unat (a + ?n) + whole_pages g < 2 ^ 64" using assms(5,6) b e by linarith+
  have sg: "unat (a - ?g) = unat a - whole_pages g" using ag(1) g by (simp add: unat_sub word_le_nat_alt)
  have eg: "unat (a + ?n + ?g) = unat a + whole_pages n + whole_pages g"
    using ag(2) by (subst unat_add_lem [THEN iffD1]) (simp_all add: g e)
  have "0 < unat a" using assms(8) by (simp add: unat_gt_0)
  then have "a + ?n + ?g \<noteq> 0" using eg by auto
  from not_mapped [OF assms(2) free(3) _ _ this] ag g e
  have "{unat a - whole_pages g..<unat a + whole_pages n + whole_pages g} \<inter> mapped = {}" by simp
  then show ?thesis using b clear_of_disjoint free(1,2,4)
    by (simp add: apart_from_clear e sg eg Int_Un_distrib) blast
qed


text \<open>C40: the reservations are a list: adding one puts it in front, removing any one of them takes just
  that one out, wherever it stands, and leaves the links of the others intact.\<close>

theorem reservations_refine_list:
  assumes "reservations st (xs @ ys)" and "p \<noteq> 0" and "p \<notin> dom (vm_records st)"
  shows "\<exists>st1. virtmemAddReservation p mem n st = Some (p, st1) \<and>
      reservations st1 ((p, \<lparr>mr_start = mem, mr_end = mem + n\<rparr>) # xs @ ys) \<and>
      (\<exists>st2. virtmemRemoveReservation p st1 = Some st2 \<and> reservations st2 (xs @ ys)) \<and>
      (\<forall>y ys'. ys = y # ys' \<longrightarrow> (\<exists>st2. virtmemRemoveReservation (fst y) st1 = Some st2 \<and>
         reservations st2 ((p, \<lparr>mr_start = mem, mr_end = mem + n\<rparr>) # xs @ ys')))"
proof -
  let ?m = "\<lparr>mr_start = mem, mr_end = mem + n\<rparr>"
  from add_reservation [OF assms] obtain st1 where
    a: "virtmemAddReservation p mem n st = Some (p, st1)" "reservations st1 ((p, ?m) # xs @ ys)" by blast
  have "\<exists>st2. virtmemRemoveReservation p st1 = Some st2 \<and> reservations st2 (xs @ ys)"
    using remove_reservation [of st1 "[]" p ?m "xs @ ys"] a(2) by simp
  moreover have "\<exists>st2. virtmemRemoveReservation (fst y) st1 = Some st2 \<and> reservations st2 ((p, ?m) # xs @ ys')"
    if "ys = y # ys'" for y ys'
    using remove_reservation [of st1 "(p, ?m) # xs" "fst y" "snd y" ys'] a(2) that by simp
  ultimately show ?thesis using a by blast
qed

text \<open>A small address space for the witnesses: one reservation, everything unmapped.\<close>

definition demo_vm :: virtmem where
  "demo_vm = \<lparr>g_AliasRegion = \<lparr>mr_start = 0x100000, mr_end = 0x200000\<rparr>, g_HeapRegion = \<lparr>mr_start = 0x200000, mr_end = 0x300000\<rparr>,
     g_AslrRegion = \<lparr>mr_start = 0x300000, mr_end = 0x400000\<rparr>, g_StackRegion = \<lparr>mr_start = 0x300000, mr_end = 0x400000\<rparr>,
     g_Reservations = 9, g_IsLegacyKernel = False,
     vm_records = [9 \<mapsto> \<lparr>rv_next = 0, rv_prev = 0, rv_region = \<lparr>mr_start = 0x310000, mr_end = 0x320000\<rparr>\<rparr>]\<rparr>"

abbreviation demo_list :: "(ptr \<times> mem_region) list" where
  "demo_list \<equiv> [(9, \<lparr>mr_start = 0x310000, mr_end = 0x320000\<rparr>)]"

lemma demo_reservations: "reservations demo_vm demo_list"
  by (simp add: reservations_def demo_vm_def)

definition demo_query :: query where
  "demo_query a = (if a < 0x1000000 then Some \<lparr>mi_addr = 0, mi_size = 0x1000000, mi_unmapped = True\<rparr> else None)"

lemma demo_answers: "answers_for demo_query {0x1000000..<0x2000000}"
  by (auto simp: answers_for_def demo_query_def word_less_nat_alt split: if_splits)

theorem found_range_is_free_witness:
  "\<exists>a. memregionFindRandom (\<lambda>i. of_nat (i + 16)) demo_query demo_vm (g_AslrRegion demo_vm) 0x1800 0x1000 = Some (Inr a) \<and>
     a \<noteq> 0 \<and> unat a + 0x2000 \<le> 0x400000 \<and> {unat a - 0x1000..<unat a + 0x2000 + 0x1000} \<inter> {0x310000..<0x320000} = {}"
proof -
  let ?run = "memregionFindRandom (\<lambda>i. of_nat (i + 16)) demo_query demo_vm (g_AslrRegion demo_vm) 0x1800 0x1000"
  have "case ?run of Some (Inr a) \<Rightarrow> a \<noteq> 0 | _ \<Rightarrow> False" by code_simp
  then obtain a where a: "?run = Some (Inr a)" "a \<noteq> 0" by (auto split: option.splits sum.splits)
  have w: "whole_pages 0x1800 = 0x2000" "whole_pages 0x1000 = 0x1000" by (simp_all add: whole_pages_def)
  have r: "mr_start (g_AslrRegion demo_vm) = 0x300000" "mr_end (g_AslrRegion demo_vm) = 0x400000" by (simp_all add: demo_vm_def)
  from found_range_is_free [OF demo_reservations demo_answers _ _ _ _ a, unfolded w r]
  have f: "unat a + 0x2000 \<le> unat (0x400000 :: u64)"
    "{unat a - 0x1000..<unat a + 0x2000 + 0x1000} \<inter> (\<Union>x \<in> set demo_list. addresses (snd x)) = {}"
    by (simp_all add: Int_Un_distrib)
  then show ?thesis using a by (simp add: addresses_def)
qed



theorem reservations_refine_list_witness:
  "\<exists>st1. virtmemAddReservation 5 0x330000 0x1000 demo_vm = Some (5, st1) \<and>
     (\<exists>st2. virtmemRemoveReservation 9 st1 = Some st2 \<and> reservations st2 [(5, \<lparr>mr_start = 0x330000, mr_end = 0x331000\<rparr>)])"
proof -
  have "reservations demo_vm ([] @ demo_list)" using demo_reservations by simp
  from reservations_refine_list [OF this, of 5 "0x330000" "0x1000"] show ?thesis by (fastforce simp: demo_vm_def)
qed

end
