(* ===== verification/Hook_Impl.thy ===== *)
theory Hook_Impl
  imports Prelude
begin

text \<open>
  \<open>lib/hook/nx64/hook_impl.cpp\<close>: a function is hooked by writing a jump over its first
  instructions; those are first copied to a trampoline, where each instruction that depends on
  its address is replaced by words that do the same there.

  The code keeps a writable and an executable pointer to the same words, which always move
  together; a position in the trampoline is the number of words before it. Addresses are words
  of 64 bits that are compared and shifted as signed numbers, as \<open>int64_t\<close> is.
\<close>

section \<open>Constants\<close>

definition HookPoolSize :: nat where "HookPoolSize = 0x1000"
definition MaxInstructions :: nat where "MaxInstructions = 5"
definition TrampolineSize :: nat where "TrampolineSize = MaxInstructions * 10"
definition HookMax :: nat where "HookMax = HookPoolSize div (TrampolineSize * 4)"
definition MaxReferences :: nat where "MaxReferences = MaxInstructions * 2"
definition Aarch64Nop :: u32 where "Aarch64Nop = 0xd503201f"

section \<open>The context\<close>

text \<open>
  What remains to be done once it is known where a later instruction lands: a word of the
  trampoline, how far its offset is shifted, and which bits it has. The entries of the array
  that are in use are a list; \<open>insert_fix_map\<close> takes the first free one.
\<close>

record fix_info =
  fm_at :: nat
  fm_ls :: nat
  fm_ad :: u32

record insns_info =
  ins_addr :: u64
  fmap :: "fix_info list"

record fix_context =
  basep :: u64
  endp :: u64
  dat :: "insns_info list"

text \<open>
  The state of a rewrite: the instructions still to be read and the address of the first, the
  two addresses of the trampoline, and the words written so far.
\<close>

record fixer =
  fx_in :: "u32 list"
  inprx :: u64
  fx_rx :: u64
  fx_rw :: u64
  fx_out :: "u32 list"
  ctx :: fix_context

definition outprx :: "fixer \<Rightarrow> u64" where
  "outprx f = fx_rx f + 4 * of_nat (length (fx_out f))"

definition outprw :: "fixer \<Rightarrow> u64" where
  "outprw f = fx_rw f + 4 * of_nat (length (fx_out f))"

definition emit :: "u32 list \<Rightarrow> fixer \<Rightarrow> fixer" where
  "emit ws f = f\<lparr>fx_out := fx_out f @ ws\<rparr>"

definition next_in :: "fixer \<Rightarrow> fixer" where
  "next_in f = f\<lparr>fx_in := tl (fx_in f), inprx := inprx f + 4\<rparr>"

definition is_in_fixing_range :: "u64 \<Rightarrow> fix_context \<Rightarrow> bool" where
  "is_in_fixing_range a c \<longleftrightarrow> sint (basep c) \<le> sint a \<and> sint a < sint (endp c)"

definition get_ref_ins_index :: "u64 \<Rightarrow> fix_context \<Rightarrow> nat" where
  "get_ref_ins_index a c = unat ((a - basep c) div 4)"

definition reset_current_ins :: "nat \<Rightarrow> u64 \<Rightarrow> fixer \<Rightarrow> fixer" where
  "reset_current_ins i a f =
     f\<lparr>ctx := (ctx f)\<lparr>dat := (dat (ctx f))[i := (dat (ctx f) ! i)\<lparr>ins_addr := a\<rparr>]\<rparr>\<rparr>"

definition current_index :: "fixer \<Rightarrow> nat" where
  "current_index f = get_ref_ins_index (inprx f) (ctx f)"

definition get_and_set_current_index :: "u64 \<Rightarrow> fixer \<Rightarrow> nat \<times> fixer" where
  "get_and_set_current_index a f = (current_index f, reset_current_ins (current_index f) a f)"

definition insert_fix_map :: "nat \<Rightarrow> fix_info \<Rightarrow> fixer \<Rightarrow> fixer" where
  "insert_fix_map i e f =
     (let d = dat (ctx f) ! i
      in if length (fmap d) < MaxReferences
         then f\<lparr>ctx := (ctx f)\<lparr>dat := (dat (ctx f))[i := d\<lparr>fmap := fmap d @ [e]\<rparr>]\<rparr>\<rparr>
         else f)"

definition fix_word :: "u64 \<Rightarrow> u64 \<Rightarrow> fix_info \<Rightarrow> u32 list \<Rightarrow> u32 list" where
  "fix_word rx a e out =
     out[fm_at e := out ! fm_at e OR
       (push_bit (fm_ls e) (signed_drop_bit 2 (ucast (a - (rx + 4 * of_nat (fm_at e))))) AND fm_ad e)]"

definition process_fix_map :: "nat \<Rightarrow> fixer \<Rightarrow> fixer" where
  "process_fix_map i f =
     (let d = dat (ctx f) ! i
      in f\<lparr>fx_out := fold (fix_word (fx_rx f) (ins_addr d)) (fmap d) (fx_out f),
           ctx := (ctx f)\<lparr>dat := (dat (ctx f))[i := d\<lparr>fmap := []\<rparr>]\<rparr>\<rparr>)"

text \<open>
  A fixer says that the instruction is not one of its own, rewrites it, or reads a constant
  from memory that is not mapped.
\<close>

datatype fixed = Not_mine | Fixed fixer | Fault

definition addr_words :: "u64 \<Rightarrow> u32 list" where
  "addr_words a = [ucast a, ucast (drop_bit 32 a)]"

definition aligned8 :: "u64 \<Rightarrow> bool" where
  "aligned8 a \<longleftrightarrow> a AND 7 = 0"

text \<open>A NOP before the words of the instruction, which moves where it lands.\<close>

definition emit_nop :: "nat \<Rightarrow> fixer \<Rightarrow> fixer" where
  "emit_nop i f = reset_current_ins i (outprx f + 4) (emit [Aarch64Nop] f)"

section \<open>Branches\<close>

definition fix_branch_imm :: "fixer \<Rightarrow> fixed" where
  "fix_branch_imm f =
     (let ins = hd (fx_in f); opc = ins AND 0xfc000000
      in if opc \<noteq> 0x14000000 \<and> opc \<noteq> 0x94000000 then Not_mine
         else case get_and_set_current_index (outprx f) f of (idx, f1) \<Rightarrow>
           let absolute_addr = inprx f1 + scast (signed_drop_bit 4 (push_bit 6 ins) :: u32);
               off = signed_drop_bit 2 (absolute_addr - outprx f1);
               special = is_in_fixing_range absolute_addr (ctx f1);
               f2 = (if \<not> special \<and> 0x1ffffff \<le> \<bar>sint off\<bar> then
                       let b_aligned = aligned8 (outprx f1 + 8)
                       in if opc = 0x14000000 then
                            let f3 = (if \<not> b_aligned then emit_nop idx f1 else f1)
                            in emit ([0x58000051, 0xd61f0220] @ addr_words absolute_addr) f3
                          else
                            let f3 = (if b_aligned then emit_nop idx f1 else f1)
                            in emit ([0x58000071, 0x1000009e, 0xd61f0220] @ addr_words absolute_addr) f3
                     else
                       let ref = get_ref_ins_index absolute_addr (ctx f1);
                           off1 = (if \<not> special then off
                                   else if ref \<le> idx then signed_drop_bit 2 (ins_addr (dat (ctx f1) ! ref) - outprx f1)
                                   else 0);
                           f3 = (if special \<and> idx < ref
                                 then insert_fix_map ref \<lparr>fm_at = length (fx_out f1), fm_ls = 0, fm_ad = 0x03ffffff\<rparr> f1
                                 else f1)
                       in emit [opc OR (ucast off1 AND 0x03ffffff)] f3)
           in Fixed (process_fix_map idx (next_in f2)))"

definition cond_lmask :: "u32 \<Rightarrow> u32 option" where
  "cond_lmask ins =
     (if ins AND 0xff000010 \<noteq> 0x54000000 then
        let opc = ins AND 0x7f000000
        in if opc \<noteq> 0x34000000 \<and> opc \<noteq> 0x35000000 then
             if opc \<noteq> 0x36000000 \<and> opc \<noteq> 0x37000000 then None else Some 0xfff8001f
           else Some 0xff00001f
      else Some 0xff00001f)"

definition fix_cond_comp_test_branch :: "fixer \<Rightarrow> fixed" where
  "fix_cond_comp_test_branch f =
     (let ins = hd (fx_in f)
      in case cond_lmask ins of None \<Rightarrow> Not_mine | Some lmask \<Rightarrow>
         case get_and_set_current_index (outprx f) f of (idx, f1) \<Rightarrow>
           let absolute_addr = inprx f1 + ucast (drop_bit 3 (ins AND NOT lmask));
               off = signed_drop_bit 2 (absolute_addr - outprx f1);
               special = is_in_fixing_range absolute_addr (ctx f1);
               f2 = (if \<not> special \<and> uint (drop_bit 6 (NOT lmask)) \<le> \<bar>sint off\<bar> then
                       let f3 = (if \<not> aligned8 (outprx f1 + 16)
                                 then emit [Aarch64Nop] (reset_current_ins idx (outprx f1) f1) else f1)
                       in emit ([(0x40 AND NOT lmask) OR (ins AND lmask), 0x14000005, 0x58000051, 0xd61f0220] @
                                addr_words absolute_addr) f3
                     else
                       let ref = get_ref_ins_index absolute_addr (ctx f1);
                           off1 = (if \<not> special then off
                                   else if ref \<le> idx then signed_drop_bit 2 (ins_addr (dat (ctx f1) ! ref) - outprx f1)
                                   else 0);
                           f3 = (if special \<and> idx < ref
                                 then insert_fix_map ref \<lparr>fm_at = length (fx_out f1), fm_ls = 5, fm_ad = NOT lmask\<rparr> f1
                                 else f1)
                       in emit [(ucast (push_bit 5 off1) AND NOT lmask) OR (ins AND lmask)] f3)
           in Fixed (process_fix_map idx (next_in f2)))"

section \<open>Loads of constants\<close>

text \<open>
  The two loops that write NOPs end after at most three rounds when the trampoline is aligned
  to words: the address, or the offset, runs through all multiples of four modulo sixteen.
  Without this alignment they would not end.
\<close>

fun pad_until :: "nat \<Rightarrow> (u64 \<Rightarrow> bool) \<Rightarrow> fixer \<Rightarrow> fixer option" where
  "pad_until 0 ok f = (if ok (outprx f) then Some f else None)"
| "pad_until (Suc n) ok f = (if ok (outprx f) then Some f else pad_until n ok (emit [Aarch64Nop] f))"

fun read_image :: "(u64 \<Rightarrow> u32 option) \<Rightarrow> u64 \<Rightarrow> nat \<Rightarrow> u32 list option" where
  "read_image m a 0 = Some []"
| "read_image m a (Suc n) = do { w \<leftarrow> m a; ws \<leftarrow> read_image m (a + 4) n; Some (w # ws) }"

definition loadlit_class :: "u32 \<Rightarrow> (u32 \<times> u64) option" where
  "loadlit_class ins =
     (let faligned = (if bit ins 30 then 7 else 3)
      in if ins AND 0xbf000000 = 0x18000000 then Some (0xbf000000, faligned)
         else let faligned1 = (if faligned \<noteq> 7 then if bit ins 31 then 15 else 3 else faligned)
         in if ins AND 0x3f000000 = 0x1c000000 then Some (0x3f000000, faligned1)
         else if ins AND 0xff000000 = 0x98000000 then Some (0xff000000, 7)
         else None)"

definition fix_loadlit :: "(u64 \<Rightarrow> u32 option) \<Rightarrow> fixer \<Rightarrow> fixed" where
  "fix_loadlit mem f =
     (let ins = hd (fx_in f)
      in if ins AND 0xff000000 = 0xd8000000 then
           (case get_and_set_current_index (outprx f) f of (idx, f1) \<Rightarrow> Fixed (next_in (process_fix_map idx f1)))
         else case loadlit_class ins of None \<Rightarrow> Not_mine | Some (msk, faligned) \<Rightarrow>
         case get_and_set_current_index (outprx f) f of (idx, f1) \<Rightarrow>
           let absolute_addr = inprx f1 + ucast (signed_drop_bit 11 (push_bit 8 ins) AND NOT 3 :: u32);
               off = signed_drop_bit 2 (absolute_addr - outprx f1);
               special = is_in_fixing_range absolute_addr (ctx f1)
           in if special \<or> 0x3ffff \<le> \<bar>sint off\<bar> + (uint faligned + 1 - 4) div 4 then
                (let ns = unat (faligned + 1) div 4
                 in case pad_until 4 (\<lambda>a. (a + 8) AND faligned = 0) f1 of None \<Rightarrow> Fault | Some f2 \<Rightarrow>
                    case read_image mem absolute_addr ns of None \<Rightarrow> Fault | Some ws \<Rightarrow>
                      Fixed (process_fix_map idx (next_in
                        (emit ([(0x40 AND NOT msk) OR (ins AND 0xff00001f), 0x14000001 + of_nat ns] @ ws)
                          (reset_current_ins idx (outprx f2) f2)))))
              else
                (case pad_until 4 (\<lambda>a. signed_drop_bit 2 (absolute_addr - a) AND drop_bit 2 faligned = 0) f1 of
                   None \<Rightarrow> Fault
                 | Some f2 \<Rightarrow>
                     Fixed (process_fix_map idx (next_in
                       (emit [(ucast (push_bit 5 (signed_drop_bit 2 (absolute_addr - outprx f2) :: u64)) AND NOT msk) OR
                              (ins AND 0xff00001f)]
                         (reset_current_ins idx (outprx f2) f2))))))"

section \<open>Addresses\<close>

definition fix_adr :: "fixer \<Rightarrow> fixed" where
  "fix_adr f =
     (let ins = hd (fx_in f)
      in case get_and_set_current_index (outprx f) f of (idx, f1) \<Rightarrow>
           let lsb_bytes = drop_bit 30 (push_bit 1 ins);
               absolute_addr = inprx f1 + ((ucast (signed_drop_bit 11 (push_bit 8 ins) AND NOT 3 :: u32)) OR ucast lsb_bytes);
               off = absolute_addr - outprx f1;
               special = is_in_fixing_range absolute_addr (ctx f1);
               f2 = (if \<not> special \<and> 0xfffff \<le> \<bar>sint off\<bar> then
                       let f3 = (if \<not> aligned8 (outprx f1 + 8) then emit_nop idx f1 else f1)
                       in emit ([0x58000000 OR 0x40 OR (ins AND 0x1f), 0x14000003] @ addr_words absolute_addr) f3
                     else
                       let ref = get_ref_ins_index (absolute_addr AND NOT 3) (ctx f1);
                           off1 = (if \<not> special then off
                                   else if ref \<le> idx then ins_addr (dat (ctx f1) ! ref) - outprx f1
                                   else 0);
                           f3 = (if special \<and> idx < ref
                                 then insert_fix_map ref \<lparr>fm_at = length (fx_out f1), fm_ls = 5, fm_ad = 0x00ffffff\<rparr> f1
                                 else f1)
                       in emit [(ucast (push_bit 3 off1) AND 0x00ffffff) OR (ins AND 0xff00001f)] f3)
           in Fixed (process_fix_map idx (next_in f2)))"

text \<open>The first address that is remembered for \<open>adrp\<close> is the writable one.\<close>

definition fix_adrp :: "fixer \<Rightarrow> fixed" where
  "fix_adrp f =
     (let ins = hd (fx_in f)
      in case get_and_set_current_index (outprw f) f of (idx, f1) \<Rightarrow>
           let lsb_bytes = drop_bit 30 (push_bit 1 ins);
               absolute_addr = (inprx f1 AND NOT 0xfff) +
                 ucast (push_bit 12 ((signed_drop_bit 11 (push_bit 8 ins) AND NOT 3) OR lsb_bytes) :: u32);
               f2 = (if is_in_fixing_range absolute_addr (ctx f1) then emit [ins] f1
                     else
                       let f3 = (if \<not> aligned8 (outprx f1 + 8) then emit_nop idx f1 else f1)
                       in emit ([0x58000000 OR 0x40 OR (ins AND 0x1f), 0x14000003] @ addr_words absolute_addr) f3)
           in Fixed (process_fix_map idx (next_in f2)))"

definition fix_pcreladdr :: "fixer \<Rightarrow> fixed" where
  "fix_pcreladdr f =
     (let opc = hd (fx_in f) AND 0x9f000000
      in if opc = 0x10000000 then fix_adr f else if opc = 0x90000000 then fix_adrp f else Not_mine)"

section \<open>The copy\<close>

definition fix_plain :: "fixer \<Rightarrow> fixer" where
  "fix_plain f =
     (case get_and_set_current_index (outprx f) f of (idx, f1) \<Rightarrow>
        next_in (emit [hd (fx_in f)] (process_fix_map idx f1)))"

definition fix_one :: "(u64 \<Rightarrow> u32 option) \<Rightarrow> fixer \<Rightarrow> fixer option" where
  "fix_one mem f =
     (case fix_branch_imm f of Fixed f1 \<Rightarrow> Some f1 | Fault \<Rightarrow> None | Not_mine \<Rightarrow>
      case fix_cond_comp_test_branch f of Fixed f1 \<Rightarrow> Some f1 | Fault \<Rightarrow> None | Not_mine \<Rightarrow>
      case fix_loadlit mem f of Fixed f1 \<Rightarrow> Some f1 | Fault \<Rightarrow> None | Not_mine \<Rightarrow>
      case fix_pcreladdr f of Fixed f1 \<Rightarrow> Some f1 | Fault \<Rightarrow> None | Not_mine \<Rightarrow> Some (fix_plain f))"

fun fix_loop :: "(u64 \<Rightarrow> u32 option) \<Rightarrow> nat \<Rightarrow> fixer \<Rightarrow> fixer option" where
  "fix_loop mem 0 f = Some f"
| "fix_loop mem (Suc n) f = do { f1 \<leftarrow> fix_one mem f; fix_loop mem n f1 }"

text \<open>The jump back behind the instructions that were copied.\<close>

definition jump_back :: "fixer \<Rightarrow> fixer" where
  "jump_back f =
     (let callback = inprx f; off = signed_drop_bit 2 (callback - outprx f)
      in if 0x1ffffff \<le> \<bar>sint off\<bar> then
           emit ((if \<not> aligned8 (outprx f + 8) then [Aarch64Nop] else []) @ [0x58000051, 0xd61f0220] @ addr_words callback) f
         else emit [0x14000000 OR (ucast off AND 0x03ffffff)] f)"

definition start_fixer :: "u32 list \<Rightarrow> u64 \<Rightarrow> u64 \<Rightarrow> u64 \<Rightarrow> fixer" where
  "start_fixer ins rx outrw outrx =
     \<lparr>fx_in = ins, inprx = rx, fx_rx = outrx, fx_rw = outrw, fx_out = [],
      ctx = \<lparr>basep = rx, endp = rx + 4 * of_nat (length ins),
             dat = replicate MaxInstructions \<lparr>ins_addr = 0, fmap = []\<rparr>\<rparr>\<rparr>"

text \<open>With more instructions than \<open>MaxInstructions\<close> the process aborts.\<close>

definition fix_instructions :: "(u64 \<Rightarrow> u32 option) \<Rightarrow> u32 list \<Rightarrow> u64 \<Rightarrow> u64 \<Rightarrow> u64 \<Rightarrow> u32 list option" where
  "fix_instructions mem ins rx outrw outrx =
     (if MaxInstructions < length ins then None
      else map_option (\<lambda>f. fx_out (jump_back f)) (fix_loop mem (length ins) (start_fixer ins rx outrw outrx)))"

end
