(* ===== verification/Hook_Install.thy ===== *)
theory Hook_Install
  imports Hook_Impl
begin

text \<open>
  The rest of \<open>lib/hook/nx64/hook_impl.cpp\<close>: rows of the pool for the trampolines, and the jump
  that is written over the first instructions of the hooked function.

  Memory is the map of words that the processor executes. The writable mapping that
  \<open>util::RwPages\<close> makes of some pages shows the same words at other addresses, so that a write
  through it changes the word at the executable address; outside the pages that are mapped it
  faults.
\<close>

section \<open>Writing code\<close>

fun write_words :: "(u64 \<Rightarrow> u32 option) \<Rightarrow> u64 \<Rightarrow> u32 list \<Rightarrow> u64 \<Rightarrow> u32 option" where
  "write_words m a [] = m"
| "write_words m a (w # ws) = write_words (m(a \<mapsto> w)) (a + 4) ws"

text \<open>
  \<open>RwPages\<close> maps \<open>ALIGN_UP(size, PAGE_SIZE)\<close> bytes from the page of the address on, and compares
  the bytes of both mappings. For less than a page this is one page, and a range that ends in
  the next one is not mapped.
\<close>

definition PAGE_SIZE :: nat where "PAGE_SIZE = 0x1000"

definition GetAlignedSize :: "nat \<Rightarrow> nat" where
  "GetAlignedSize n = (n + (PAGE_SIZE - 1)) div PAGE_SIZE * PAGE_SIZE"

definition rw_mapped :: "(u64 \<Rightarrow> u32 option) \<Rightarrow> u64 \<Rightarrow> nat \<Rightarrow> bool" where
  "rw_mapped m ro n \<longleftrightarrow> unat (ro AND 0xfff) + 4 * n \<le> GetAlignedSize (4 * n) \<and> read_image m ro n \<noteq> None"

section \<open>The jump over the function\<close>

definition HookFuncImpl :: "(u64 \<Rightarrow> u32 option) \<Rightarrow> u64 \<Rightarrow> u64 \<Rightarrow> (u64 \<times> u64) option \<Rightarrow> (u64 \<times> nat) \<Rightarrow>
    (bool \<times> (u64 \<Rightarrow> u32 option)) option" where
  "HookFuncImpl m symbol replace tr pool =
     (let pc_offset = signed_drop_bit 2 (replace - symbol);
          far = (0x1ffffff \<le> \<bar>sint pc_offset\<bar>);
          count = (if far then if \<not> aligned8 (symbol + 8) then 5 else 4 else 1);
          jump = (if far then (if count = 5 then [Aarch64Nop] else []) @ [0x58000051, 0xd61f0220] @ addr_words replace
                  else [0x14000000 OR (ucast pc_offset AND 0x03ffffff)])
      in if \<not> rw_mapped m symbol (if far then 5 else 1) then None
         else case tr of
           None \<Rightarrow> Some (True, write_words m symbol jump)
         | Some (rxtr, rwtr) \<Rightarrow>
             if TrampolineSize < count * 10 then Some (False, m)
             else do { code \<leftarrow> read_image m symbol count;
                       ws \<leftarrow> fix_instructions m code symbol rwtr rxtr;
                       if unat (rxtr - fst pool) + 4 * length ws \<le> snd pool
                       then Some (True, write_words (write_words m rxtr ws) symbol jump)
                       else None })"

section \<open>Hooks\<close>

text \<open>
  The index of the last row that was given out starts below zero. The pool is
  \<open>s_HookJit\<close>, with its executable and its writable address.
\<close>

record hooks =
  hk_mem :: "u64 \<Rightarrow> u32 option"
  hk_index :: u32
  jit_ro :: u64
  jit_rw :: u64

definition start_hooks :: "(u64 \<Rightarrow> u32 option) \<Rightarrow> u64 \<Rightarrow> u64 \<Rightarrow> hooks" where
  "start_hooks m ro rw = \<lparr>hk_mem = m, hk_index = -1, jit_ro = ro, jit_rw = rw\<rparr>"

definition AllocForTrampoline :: "hooks \<Rightarrow> (u64 \<times> u64) option \<times> hooks" where
  "AllocForTrampoline s =
     (let i = hk_index s + 1; s1 = s\<lparr>hk_index := i\<rparr>
      in if of_nat HookMax < i then (None, s1)
         else (Some (jit_ro s + 4 * of_nat TrampolineSize * ucast i, jit_rw s + 4 * of_nat TrampolineSize * ucast i), s1))"

text \<open>The address of the trampoline, null without one. Every failure aborts the process.\<close>

definition Hook :: "hooks \<Rightarrow> u64 \<Rightarrow> u64 \<Rightarrow> bool \<Rightarrow> (u64 \<times> hooks) option" where
  "Hook s hook callback do_trampoline =
     (if hook = 0 \<or> callback = 0 then None
      else case (if do_trampoline then AllocForTrampoline s else (None, s)) of (tr, s1) \<Rightarrow>
        if do_trampoline \<and> tr = None then None
        else case HookFuncImpl (hk_mem s1) hook callback tr (jit_ro s1, HookPoolSize) of
          None \<Rightarrow> None
        | Some (ok, m) \<Rightarrow> if ok then Some (case tr of None \<Rightarrow> 0 | Some (rx, rw) \<Rightarrow> rx, s1\<lparr>hk_mem := m\<rparr>) else None)"

end
