(* ===== verification/Arm64.thy ===== *)
theory Arm64
  imports Prelude
begin

text \<open>
  The instructions of AArch64 whose effect depends on the program counter, and the few others
  the function hooks write: the documented behaviour of the processor, against which the code
  the hooks write is verified. Every other instruction is a function of the state that the
  statements are parametric in.
\<close>

section \<open>State\<close>

text \<open>
  The general purpose registers, the vector registers and the condition flags; everything else,
  the writable memory included, is the component \<open>world\<close>. Instructions and constants are read
  from an image of words that is not written to.
\<close>

type_synonym image = "u64 \<Rightarrow> u32 option"

record 'w core =
  gpr :: "nat \<Rightarrow> u64"
  vec :: "nat \<Rightarrow> 128 word"
  flag_n :: bool
  flag_z :: bool
  flag_c :: bool
  flag_v :: bool
  world :: 'w

text \<open>Register 31 reads as zero and ignores writes.\<close>

definition get_x :: "nat \<Rightarrow> 'w core \<Rightarrow> u64" where
  "get_x r c = (if r = 31 then 0 else gpr c r)"

definition set_x :: "nat \<Rightarrow> u64 \<Rightarrow> 'w core \<Rightarrow> 'w core" where
  "set_x r v c = (if r = 31 then c else c\<lparr>gpr := (gpr c)(r := v)\<rparr>)"

definition set_v :: "nat \<Rightarrow> 128 word \<Rightarrow> 'w core \<Rightarrow> 'w core" where
  "set_v r v c = c\<lparr>vec := (vec c)(r := v)\<rparr>"

section \<open>Instructions\<close>

datatype literal = LitW | LitX | LitSW | LitS | LitD | LitQ

datatype insn =
    I_B int
  | I_BL int
  | I_Bcond nat int
  | I_CBZ bool bool nat int
  | I_TBZ bool nat nat int
  | I_LDR literal nat int
  | I_PRFM
  | I_ADR nat int
  | I_ADRP nat int
  | I_BR nat
  | I_BLR nat
  | I_other u32
  | I_undefined

definition field :: "nat \<Rightarrow> nat \<Rightarrow> u32 \<Rightarrow> nat" where
  "field l k w = unat (take_bit k (drop_bit l w))"

definition simm :: "nat \<Rightarrow> nat \<Rightarrow> u32 \<Rightarrow> int" where
  "simm l k w = signed_take_bit (k - 1) (uint (drop_bit l w))"

text \<open>The width of a load is in the top two bits; vector registers have their own widths.\<close>

definition literal_of :: "bool \<Rightarrow> bool \<Rightarrow> bool \<Rightarrow> literal option" where
  "literal_of v b31 b30 =
     (if v then (if b31 then if b30 then None else Some LitQ else if b30 then Some LitD else Some LitS)
      else if b31 then if b30 then None else Some LitSW
      else if b30 then Some LitX else Some LitW)"

definition decode :: "u32 \<Rightarrow> insn" where
  "decode w =
     (if w AND 0xFC000000 = 0x14000000 then I_B (4 * simm 0 26 w)
      else if w AND 0xFC000000 = 0x94000000 then I_BL (4 * simm 0 26 w)
      else if w AND 0xFF000010 = 0x54000000 then I_Bcond (field 0 4 w) (4 * simm 5 19 w)
      else if w AND 0x7E000000 = 0x34000000 then I_CBZ (bit w 31) (bit w 24) (field 0 5 w) (4 * simm 5 19 w)
      else if w AND 0x7E000000 = 0x36000000 then
        I_TBZ (bit w 24) (field 19 5 w + (if bit w 31 then 32 else 0)) (field 0 5 w) (4 * simm 5 14 w)
      else if w AND 0x3B000000 = 0x18000000 then
        (case literal_of (bit w 26) (bit w 31) (bit w 30) of
           Some k \<Rightarrow> I_LDR k (field 0 5 w) (4 * simm 5 19 w)
         | None \<Rightarrow> if bit w 26 then I_undefined else I_PRFM)
      else if w AND 0x9F000000 = 0x10000000 then I_ADR (field 0 5 w) (4 * simm 5 19 w + int (field 29 2 w))
      else if w AND 0x9F000000 = 0x90000000 then I_ADRP (field 0 5 w) (4 * simm 5 19 w + int (field 29 2 w))
      else if w AND 0xFFFFFC1F = 0xD61F0000 then I_BR (field 5 5 w)
      else if w AND 0xFFFFFC1F = 0xD63F0000 then I_BLR (field 5 5 w)
      else I_other w)"

section \<open>Execution\<close>

definition cond_holds :: "nat \<Rightarrow> 'w core \<Rightarrow> bool" where
  "cond_holds k c =
     (let b = (let k2 = k div 2 in
                if k2 = 0 then flag_z c else if k2 = 1 then flag_c c else if k2 = 2 then flag_n c
                else if k2 = 3 then flag_v c else if k2 = 4 then flag_c c \<and> \<not> flag_z c
                else if k2 = 5 then flag_n c = flag_v c
                else if k2 = 6 then flag_n c = flag_v c \<and> \<not> flag_z c else True)
      in if odd k \<and> k \<noteq> 15 then \<not> b else b)"

definition cbz_taken :: "bool \<Rightarrow> bool \<Rightarrow> u64 \<Rightarrow> bool" where
  "cbz_taken sf nz v \<longleftrightarrow> ((if sf then v else take_bit 32 v) = 0) \<noteq> nz"

fun literal_words :: "literal \<Rightarrow> nat" where
  "literal_words LitX = 2"
| "literal_words LitD = 2"
| "literal_words LitQ = 4"
| "literal_words _ = 1"

fun read_words :: "image \<Rightarrow> u64 \<Rightarrow> nat \<Rightarrow> u32 list option" where
  "read_words m a 0 = Some []"
| "read_words m a (Suc n) = do { w \<leftarrow> m a; ws \<leftarrow> read_words m (a + 4) n; Some (w # ws) }"

fun join_words :: "u32 list \<Rightarrow> 128 word" where
  "join_words [] = 0"
| "join_words (w # ws) = ucast w OR push_bit 32 (join_words ws)"

definition load_literal :: "literal \<Rightarrow> nat \<Rightarrow> u32 list \<Rightarrow> 'w core \<Rightarrow> 'w core" where
  "load_literal k r ws c =
     (case k of
        LitW \<Rightarrow> set_x r (ucast (hd ws)) c
      | LitSW \<Rightarrow> set_x r (scast (hd ws)) c
      | LitX \<Rightarrow> set_x r (ucast (join_words ws)) c
      | _ \<Rightarrow> set_v r (join_words ws) c)"

text \<open>
  The effect of an instruction at an address: where it jumps to, or that the next instruction
  follows, and the new state. \<open>ot\<close> stands for the other instructions.
\<close>

type_synonym 'w others = "u32 \<Rightarrow> 'w core \<Rightarrow> u64 option \<times> 'w core"

fun execute :: "'w others \<Rightarrow> image \<Rightarrow> insn \<Rightarrow> u64 \<Rightarrow> 'w core \<Rightarrow> (u64 option \<times> 'w core) option" where
  "execute ot m (I_B i) a c = Some (Some (a + word_of_int i), c)"
| "execute ot m (I_BL i) a c = Some (Some (a + word_of_int i), set_x 30 (a + 4) c)"
| "execute ot m (I_Bcond k i) a c = Some (if cond_holds k c then Some (a + word_of_int i) else None, c)"
| "execute ot m (I_CBZ sf nz r i) a c = Some (if cbz_taken sf nz (get_x r c) then Some (a + word_of_int i) else None, c)"
| "execute ot m (I_TBZ nz b r i) a c = Some (if bit (get_x r c) b = nz then Some (a + word_of_int i) else None, c)"
| "execute ot m (I_LDR k r i) a c =
     map_option (\<lambda>ws. (None, load_literal k r ws c)) (read_words m (a + word_of_int i) (literal_words k))"
| "execute ot m I_PRFM a c = Some (None, c)"
| "execute ot m (I_ADR r i) a c = Some (None, set_x r (a + word_of_int i) c)"
| "execute ot m (I_ADRP r i) a c = Some (None, set_x r ((a AND NOT 0xFFF) + word_of_int (4096 * i)) c)"
| "execute ot m (I_BR r) a c = Some (Some (get_x r c), c)"
| "execute ot m (I_BLR r) a c = Some (Some (get_x r c), set_x 30 (a + 4) c)"
| "execute ot m (I_other w) a c = Some (ot w c)"
| "execute ot m I_undefined a c = None"

definition follow :: "u64 \<Rightarrow> u64 option \<Rightarrow> u64" where
  "follow a t = (case t of None \<Rightarrow> a | Some q \<Rightarrow> q)"

definition step :: "'w others \<Rightarrow> image \<Rightarrow> u64 \<times> 'w core \<Rightarrow> (u64 \<times> 'w core) option" where
  "step ot m s =
     (case s of (a, c) \<Rightarrow>
        do { w \<leftarrow> m a; (t, c1) \<leftarrow> execute ot m (decode w) a c; Some (follow (a + 4) t, c1) })"

fun run :: "'w others \<Rightarrow> image \<Rightarrow> nat \<Rightarrow> u64 \<times> 'w core \<Rightarrow> (u64 \<times> 'w core) option" where
  "run ot m 0 s = Some s"
| "run ot m (Suc n) s = do { s1 \<leftarrow> step ot m s; run ot m n s1 }"

text \<open>What the code a hook writes may use: NOP does nothing.\<close>

definition nop_word :: u32 where
  "nop_word = 0xD503201F"

definition nop_ok :: "'w others \<Rightarrow> bool" where
  "nop_ok ot \<longleftrightarrow> (\<forall>c. ot nop_word c = (None, c))"

lemma run_add: "run ot m (n + k) s = do { s1 \<leftarrow> run ot m n s; run ot m k s1 }"
  by (induction n arbitrary: s) (auto split: bind_splits)

lemma decode_nop [simp]: "decode nop_word = I_other nop_word"
  by code_simp

end
