(* ===== verification/Hook_Words.thy ===== *)
theory Hook_Words
  imports Arm64 Hook_Impl
begin

text \<open>
  What the arithmetic of the fixers computes, in terms of the fields of an instruction: offsets
  that are cut out and sign-extended, words whose offset is replaced, distances between
  addresses, and addresses as two words.
\<close>

section \<open>Words that agree on a mask\<close>

lemma and_sub:
  fixes w w' :: u32
  assumes "w' AND K = w AND K" and "M AND K = M"
  shows "w' AND M = w AND M"
proof -
  have "x AND M = (x AND K) AND M" for x :: u32 using assms(2) by (metis and.assoc and.commute)
  from this [of w'] this [of w] show ?thesis using assms(1) by simp
qed

lemma bit_sub:
  fixes w w' :: u32
  assumes "w' AND K = w AND K" and "bit K n"
  shows "bit w' n = bit w n"
  using assms by (metis bit_and_iff)

lemma field_and: "field l k w = unat (drop_bit l (w AND push_bit l (Bit_Operations.mask k)))"
proof -
  have "drop_bit l (w AND push_bit l (Bit_Operations.mask k)) = take_bit k (drop_bit l w)"
    by (rule bit_word_eqI) (auto simp: bit_simps dest: bit_imp_le_length)
  then show ?thesis by (simp add: field_def)
qed

lemma field_sub:
  assumes "w' AND K = w AND K" and "push_bit l (Bit_Operations.mask k) AND K = push_bit l (Bit_Operations.mask k)"
  shows "field l k w' = field l k w"
  using and_sub [OF assms] by (simp add: field_and)

lemma replaced_same: "((x AND NOT K) OR (w AND K)) AND K = w AND K" for x :: u32
  by (rule bit_word_eqI) (auto simp: bit_simps)

section \<open>Offsets\<close>

lemma field_masks:
  "(0x03ffffff :: u32) = Bit_Operations.mask 26" "(0xfc000000 :: u32) = NOT (Bit_Operations.mask 26)"
  "(0xff00001f :: u32) = NOT (push_bit 5 (Bit_Operations.mask 19))"
  "(0xfff8001f :: u32) = NOT (push_bit 5 (Bit_Operations.mask 14))"
  "(0x00ffffff :: u32) = Bit_Operations.mask 24" "(0x1f :: u32) = Bit_Operations.mask 5"
  by (simp_all add: mask_eq_exp_minus_1 push_bit_eq_mult)

lemma simm_range: "0 < k \<Longrightarrow> - (2 ^ (k - 1)) \<le> simm l k w \<and> simm l k w < 2 ^ (k - 1)"
  by (simp add: simm_def signed_take_bit_int_greater_eq_minus_exp signed_take_bit_int_less_exp)

lemma simm_encoded:
  assumes "0 < k" and "k \<le> 32" and "take_bit k (drop_bit l w) = take_bit k (ucast (off :: u64))"
    and "- (2 ^ (k - 1)) \<le> sint off" and "sint off < 2 ^ (k - 1)"
  shows "simm l k w = sint off"
proof -
  have "take_bit k (uint (drop_bit l w)) = take_bit k (uint (ucast off :: u32))"
    using arg_cong [OF assms(3), of uint] by (simp add: unsigned_take_bit_eq)
  also have "\<dots> = take_bit k (uint off)" using assms(2) by (simp add: unsigned_ucast_eq take_bit_take_bit min_def)
  also have "\<dots> = take_bit k (sint off)"
    using assms(2) by (simp add: sint_uint take_bit_signed_take_bit)
  finally have "take_bit (Suc (k - 1)) (uint (drop_bit l w)) = take_bit (Suc (k - 1)) (sint off)" using assms(1) by simp
  then have "signed_take_bit (k - 1) (uint (drop_bit l w)) = signed_take_bit (k - 1) (sint off)"
    by (simp add: signed_take_bit_eq_iff_take_bit_eq)
  then show ?thesis using assms(4,5) by (simp add: simm_def signed_take_bit_int_eq_self)
qed

lemma simm_nonneg:
  assumes "0 \<le> simm l (Suc k) w"
  shows "\<not> bit w (l + k)" "simm l (Suc k) w = uint (take_bit k (drop_bit l w))"
proof -
  have "0 \<le> signed_take_bit k (uint (drop_bit l w))" using assms by (simp add: simm_def)
  then have b: "\<not> bit (uint (drop_bit l w)) k" by (simp add: signed_take_bit_nonnegative_iff)
  show "simm l (Suc k) w = uint (take_bit k (drop_bit l w))"
    using b by (simp add: simm_def signed_take_bit_eq_if_positive unsigned_take_bit_eq)
  show "\<not> bit w (l + k)" using b by (auto simp: bit_simps dest: bit_imp_le_length)
qed

lemma simm_word:
  assumes "0 \<le> simm l (Suc k) w" and "l + k < 32"
  shows "word_of_int (4 * simm l (Suc k) w) = (push_bit 2 (take_bit (Suc k) (drop_bit l (ucast w))) :: u64)"
proof -
  have "word_of_int (uint (take_bit k (drop_bit l w))) = (take_bit k (drop_bit l (ucast w)) :: u64)"
    using assms(2) by (intro bit_word_eqI) (auto simp: bit_simps dest: bit_imp_le_length)
  moreover have "take_bit k (drop_bit l (ucast w)) = (take_bit (Suc k) (drop_bit l (ucast w)) :: u64)"
    using simm_nonneg(1) [OF assms(1)] by (intro bit_word_eqI) (auto simp: bit_simps less_Suc_eq)
  moreover have "word_of_int (4 * i) = (push_bit 2 (word_of_int i) :: u64)" for i by (simp add: push_bit_eq_mult)
  ultimately show ?thesis unfolding simm_nonneg(2) [OF assms(1)] by metis
qed

text \<open>The offset of a branch, of a conditional branch, of a load and of an address.\<close>

lemma branch_offset: "scast (signed_drop_bit 4 (push_bit 6 w) :: u32) = (word_of_int (4 * simm 0 26 w) :: u64)"
proof -
  have "word_of_int (4 * simm 0 26 w) = (word_of_int (push_bit 2 (signed_take_bit 25 (uint w))) :: u64)"
    by (simp add: simm_def push_bit_eq_mult)
  moreover have "bit w (n - 2) = bit w 25" if "n < 28" "25 \<le> n - 2" for n
  proof -
    from that have "n - 2 = 25" by simp
    then show ?thesis by (rule arg_cong)
  qed
  ultimately show ?thesis by simp (rule bit_word_eqI, simp add: bit_simps min_def not_le, auto)
qed

lemma cond_offset:
  assumes "0 \<le> simm 5 19 w"
  shows "ucast (drop_bit 3 (w AND NOT 0xff00001f)) = (word_of_int (4 * simm 5 19 w) :: u64)"
  using simm_word [of 5 18 w] assms unfolding field_masks
  by (simp del: bit.compl_eq_compl_iff) (rule bit_word_eqI, auto simp: bit_simps dest: bit_imp_le_length)

lemma test_offset:
  assumes "0 \<le> simm 5 14 w"
  shows "ucast (drop_bit 3 (w AND NOT 0xfff8001f)) = (word_of_int (4 * simm 5 14 w) :: u64)"
  using simm_word [of 5 13 w] assms unfolding field_masks
  by (simp del: bit.compl_eq_compl_iff) (rule bit_word_eqI, auto simp: bit_simps dest: bit_imp_le_length)

lemma load_offset:
  assumes "0 \<le> simm 5 19 w"
  shows "ucast (signed_drop_bit 11 (push_bit 8 w) AND NOT 3 :: u32) = (word_of_int (4 * simm 5 19 w) :: u64)"
proof -
  have m: "(3 :: u32) = Bit_Operations.mask 2" by (simp add: mask_eq_exp_minus_1)
  have b: "\<not> bit w 23" using simm_nonneg(1) [of 5 18 w] assms by simp
  show ?thesis using simm_word [of 5 18 w] assms b unfolding m
    by simp (rule bit_word_eqI, auto simp: bit_simps min_def dest: bit_imp_le_length)
qed

section \<open>Distances\<close>

lemma sint_nonneg:
  fixes x :: u64
  assumes "0 \<le> sint x"
  shows "sint x = uint x"
proof -
  have b: "\<not> bit (uint x) 63" using assms by (simp add: sint_uint signed_take_bit_nonnegative_iff)
  have "take_bit 64 (uint x) = uint x" by (rule bintr_uint) simp
  then have "take_bit 63 (uint x) = uint x" using b take_bit_Suc_from_most [of 63 "uint x"] by simp
  then show ?thesis using b by (simp add: sint_uint signed_take_bit_eq_if_positive)
qed

lemma distance_reached:
  fixes t p :: u64
  assumes "take_bit 2 (t - p) = 0"
  shows "p + word_of_int (4 * sint (signed_drop_bit 2 (t - p))) = t"
proof -
  have "take_bit 2 (sint (t - p)) = 0"
    using assms by (simp add: sint_uint take_bit_signed_take_bit min_def flip: unsigned_take_bit_eq)
  then have "4 dvd sint (t - p)" by (simp add: take_bit_eq_mod dvd_eq_mod_eq_0)
  then have "4 * sint (signed_drop_bit 2 (t - p)) = sint (t - p)"
    by (simp add: sint_signed_drop_bit_eq drop_bit_eq_div)
  then show ?thesis by simp
qed

lemma addr_joined: "ucast (join_words (addr_words a)) = a"
  by (rule bit_word_eqI) (auto simp: addr_words_def bit_simps dest: bit_imp_le_length)

end
