(* ===== verification/Hook_Decode.thy ===== *)
theory Hook_Decode
  imports Hook_Words
begin

text \<open>
  The tests of the fixers and the decoding of instructions agree, and the words the fixers write
  decode to what they are meant to be.
\<close>

section \<open>Classes of instructions\<close>

text \<open>A word is its bits, and a test with a mask is a test of some bits.\<close>

lemma u32_eq: "a = b \<longleftrightarrow>
    bit a 0 = bit b 0 \<and> bit a 1 = bit b 1 \<and> bit a 2 = bit b 2 \<and> bit a 3 = bit b 3 \<and> bit a 4 = bit b 4 \<and> bit a 5 = bit b 5 \<and> bit a 6 = bit b 6 \<and> bit a 7 = bit b 7 \<and>
    bit a 8 = bit b 8 \<and> bit a 9 = bit b 9 \<and> bit a 10 = bit b 10 \<and> bit a 11 = bit b 11 \<and> bit a 12 = bit b 12 \<and> bit a 13 = bit b 13 \<and> bit a 14 = bit b 14 \<and> bit a 15 = bit b 15 \<and>
    bit a 16 = bit b 16 \<and> bit a 17 = bit b 17 \<and> bit a 18 = bit b 18 \<and> bit a 19 = bit b 19 \<and> bit a 20 = bit b 20 \<and> bit a 21 = bit b 21 \<and> bit a 22 = bit b 22 \<and> bit a 23 = bit b 23 \<and>
    bit a 24 = bit b 24 \<and> bit a 25 = bit b 25 \<and> bit a 26 = bit b 26 \<and> bit a 27 = bit b 27 \<and> bit a 28 = bit b 28 \<and> bit a 29 = bit b 29 \<and> bit a 30 = bit b 30 \<and> bit a 31 = bit b 31" for a b :: u32
proof -
  have "(\<forall>n < 32. bit a n = bit b n) \<longleftrightarrow> list_all (\<lambda>n. bit a n = bit b n) [0..<32]"
    by (auto simp: list_all_iff)
  moreover have "a = b \<longleftrightarrow> (\<forall>n < 32. bit a n = bit b n)" by (auto intro: bit_word_eqI)
  moreover have "[0..<32] = [0, 1, 2, 3, 4, 5, 6, 7, 8, 9, 10, 11, 12, 13, 14, 15, 16, 17, 18, 19, 20, 21, 22, 23, 24, 25, 26, 27, 28, 29, 30, 31]" by code_simp
  ultimately show ?thesis by (simp only: list.pred_inject simp_thms)
qed

lemma mask_bits:
  fixes w :: u32
  shows
  "w AND 0xFC000000 = 0x14000000 \<longleftrightarrow> \<not> bit w 31 \<and> \<not> bit w 30 \<and> \<not> bit w 29 \<and> bit w 28 \<and> \<not> bit w 27 \<and> bit w 26"
  "w AND 0xFC000000 = 0x94000000 \<longleftrightarrow> bit w 31 \<and> \<not> bit w 30 \<and> \<not> bit w 29 \<and> bit w 28 \<and> \<not> bit w 27 \<and> bit w 26"
  "w AND 0x7E000000 = 0x34000000 \<longleftrightarrow> \<not> bit w 30 \<and> bit w 29 \<and> bit w 28 \<and> \<not> bit w 27 \<and> bit w 26 \<and> \<not> bit w 25"
  "w AND 0x7E000000 = 0x36000000 \<longleftrightarrow> \<not> bit w 30 \<and> bit w 29 \<and> bit w 28 \<and> \<not> bit w 27 \<and> bit w 26 \<and> bit w 25"
  "w AND 0x7F000000 = 0x34000000 \<longleftrightarrow> \<not> bit w 30 \<and> bit w 29 \<and> bit w 28 \<and> \<not> bit w 27 \<and> bit w 26 \<and> \<not> bit w 25 \<and> \<not> bit w 24"
  "w AND 0x7F000000 = 0x35000000 \<longleftrightarrow> \<not> bit w 30 \<and> bit w 29 \<and> bit w 28 \<and> \<not> bit w 27 \<and> bit w 26 \<and> \<not> bit w 25 \<and> bit w 24"
  "w AND 0x7F000000 = 0x36000000 \<longleftrightarrow> \<not> bit w 30 \<and> bit w 29 \<and> bit w 28 \<and> \<not> bit w 27 \<and> bit w 26 \<and> bit w 25 \<and> \<not> bit w 24"
  "w AND 0x7F000000 = 0x37000000 \<longleftrightarrow> \<not> bit w 30 \<and> bit w 29 \<and> bit w 28 \<and> \<not> bit w 27 \<and> bit w 26 \<and> bit w 25 \<and> bit w 24"
  "w AND 0x3B000000 = 0x18000000 \<longleftrightarrow> \<not> bit w 29 \<and> bit w 28 \<and> bit w 27 \<and> \<not> bit w 25 \<and> \<not> bit w 24"
  "w AND 0xFF000000 = 0xD8000000 \<longleftrightarrow> bit w 31 \<and> bit w 30 \<and> \<not> bit w 29 \<and> bit w 28 \<and> bit w 27 \<and> \<not> bit w 26 \<and> \<not> bit w 25 \<and> \<not> bit w 24"
  "w AND 0xBF000000 = 0x18000000 \<longleftrightarrow> \<not> bit w 31 \<and> \<not> bit w 29 \<and> bit w 28 \<and> bit w 27 \<and> \<not> bit w 26 \<and> \<not> bit w 25 \<and> \<not> bit w 24"
  "w AND 0x3F000000 = 0x1C000000 \<longleftrightarrow> \<not> bit w 29 \<and> bit w 28 \<and> bit w 27 \<and> bit w 26 \<and> \<not> bit w 25 \<and> \<not> bit w 24"
  "w AND 0xFF000000 = 0x98000000 \<longleftrightarrow> bit w 31 \<and> \<not> bit w 30 \<and> \<not> bit w 29 \<and> bit w 28 \<and> bit w 27 \<and> \<not> bit w 26 \<and> \<not> bit w 25 \<and> \<not> bit w 24"
  "w AND 0x9F000000 = 0x10000000 \<longleftrightarrow> \<not> bit w 31 \<and> bit w 28 \<and> \<not> bit w 27 \<and> \<not> bit w 26 \<and> \<not> bit w 25 \<and> \<not> bit w 24"
  "w AND 0x9F000000 = 0x90000000 \<longleftrightarrow> bit w 31 \<and> bit w 28 \<and> \<not> bit w 27 \<and> \<not> bit w 26 \<and> \<not> bit w 25 \<and> \<not> bit w 24"
  "w AND 0xFF000010 = 0x54000000 \<longleftrightarrow> \<not> bit w 31 \<and> bit w 30 \<and> \<not> bit w 29 \<and> bit w 28 \<and> \<not> bit w 27 \<and> bit w 26 \<and> \<not> bit w 25 \<and> \<not> bit w 24 \<and> \<not> bit w 4"
  by (simp_all add: u32_eq bit_simps) (auto)

text \<open>What loads a constant.\<close>

definition literal_mask :: "literal \<Rightarrow> u32" where
  "literal_mask k = (case k of LitW \<Rightarrow> 0xbf000000 | LitX \<Rightarrow> 0xbf000000 | LitSW \<Rightarrow> 0xff000000 | _ \<Rightarrow> 0x3f000000)"

definition literal_align :: "literal \<Rightarrow> u64" where
  "literal_align k = (case k of LitW \<Rightarrow> 3 | LitS \<Rightarrow> 3 | LitQ \<Rightarrow> 15 | _ \<Rightarrow> 7)"

lemma decode_prfm: "w AND 0xff000000 = 0xd8000000 \<Longrightarrow> decode w = I_PRFM"
  by (simp add: decode_def mask_bits literal_of_def)

lemma decode_load:
  assumes "loadlit_class w = Some (m, a)" and "w AND 0xff000000 \<noteq> 0xd8000000"
  shows "decode w = I_undefined \<or>
    (\<exists>k. decode w = I_LDR k (field 0 5 w) (4 * simm 5 19 w) \<and> m = literal_mask k \<and> a = literal_align k)"
  using assms
  by (simp add: loadlit_class_def decode_def mask_bits literal_of_def literal_mask_def literal_align_def Let_def split: if_splits)

lemma decode_not_load:
  assumes "loadlit_class w = None" and "w AND 0xff000000 \<noteq> 0xd8000000"
  shows "w AND 0x3B000000 \<noteq> 0x18000000"
  using assms by (simp add: loadlit_class_def mask_bits Let_def split: if_splits) blast

lemma near_class:
  fixes w :: u32
  shows
  "(w AND 0xff000010 = 0x54000000 \<or> w AND 0x7f000000 = 0x34000000 \<or> w AND 0x7f000000 = 0x35000000) \<longleftrightarrow>
    w AND 0xff000010 = 0x54000000 \<or> w AND 0x7E000000 = 0x34000000"
  "w AND 0x7f000000 = 0x36000000 \<or> w AND 0x7f000000 = 0x37000000 \<longleftrightarrow> w AND 0x7E000000 = 0x36000000"
  by (auto simp: mask_bits)

section \<open>Words with another offset\<close>

fun with_offset :: "insn \<Rightarrow> int \<Rightarrow> insn" where
  "with_offset (I_B i) d = I_B d"
| "with_offset (I_BL i) d = I_BL d"
| "with_offset (I_Bcond k i) d = I_Bcond k d"
| "with_offset (I_CBZ sf nz r i) d = I_CBZ sf nz r d"
| "with_offset (I_TBZ nz b r i) d = I_TBZ nz b r d"
| "with_offset (I_LDR k r i) d = I_LDR k r d"
| "with_offset x d = x"

lemma same_masks:
  fixes w w' :: u32
  assumes "w' AND 0xfff8001f = w AND 0xfff8001f \<or> w' AND 0xff00001f = w AND 0xff00001f"
  shows "w' AND 0xFC000000 = w AND 0xFC000000" "w' AND 0xFF000010 = w AND 0xFF000010" "w' AND 0x7E000000 = w AND 0x7E000000"
    "w' AND 0x3B000000 = w AND 0x3B000000" "w' AND 0x9F000000 = w AND 0x9F000000"
    "bit w' 31 = bit w 31" "bit w' 30 = bit w 30" "bit w' 26 = bit w 26" "bit w' 24 = bit w 24"
    "field 0 4 w' = field 0 4 w" "field 0 5 w' = field 0 5 w" "field 29 2 w' = field 29 2 w"
proof -
  have m: "w' AND M = w AND M" if "M AND 0xff00001f = M" "M AND 0xfff8001f = M" for M
    using assms and_sub [OF _ that(1)] and_sub [OF _ that(2)] by blast
  show "w' AND 0xFC000000 = w AND 0xFC000000" "w' AND 0xFF000010 = w AND 0xFF000010" "w' AND 0x7E000000 = w AND 0x7E000000"
    "w' AND 0x3B000000 = w AND 0x3B000000" "w' AND 0x9F000000 = w AND 0x9F000000"
    by (simp_all add: m)
  have b: "bit w' n = bit w n" if "bit (0xff00001f :: u32) n" "bit (0xfff8001f :: u32) n" for n
    using assms bit_sub [OF _ that(1)] bit_sub [OF _ that(2)] by blast
  show "bit w' 31 = bit w 31" "bit w' 30 = bit w 30" "bit w' 26 = bit w 26" "bit w' 24 = bit w 24"
    by (simp_all add: b)
  show "field 0 4 w' = field 0 4 w" "field 0 5 w' = field 0 5 w" "field 29 2 w' = field 29 2 w"
    unfolding field_and by (simp_all add: m mask_eq_exp_minus_1 push_bit_eq_mult)
qed

lemma decode_replaced:
  assumes "w' AND 0xff00001f = w AND 0xff00001f"
  shows "decode w = I_Bcond k i \<Longrightarrow> decode w' = I_Bcond k (4 * simm 5 19 w')"
    and "decode w = I_CBZ sf nz r i \<Longrightarrow> decode w' = I_CBZ sf nz r (4 * simm 5 19 w')"
    and "decode w = I_LDR l r i \<Longrightarrow> decode w' = I_LDR l r (4 * simm 5 19 w')"
    and "decode w = I_ADR r i \<Longrightarrow> decode w' = I_ADR r (4 * simm 5 19 w' + int (field 29 2 w))"
  using same_masks [of w' w] assms by (auto simp: decode_def split: if_splits option.splits)

lemma decode_replaced_test:
  assumes "w' AND 0xfff8001f = w AND 0xfff8001f" and "decode w = I_TBZ nz b r i"
  shows "decode w' = I_TBZ nz b r (4 * simm 5 14 w')"
proof -
  have "field 19 5 w' = field 19 5 w" using assms(1) by (rule field_sub) (simp add: mask_eq_exp_minus_1 push_bit_eq_mult)
  then show ?thesis
    using same_masks [of w' w] assms by (auto simp: decode_def split: if_splits option.splits)
qed

end
