(* ===== verification/Hook_Sim.thy ===== *)
theory Hook_Sim
  imports Hook_Decode
begin

text \<open>
  What it means that some words do at one address what an instruction does at another, and that
  each way in which the fixers rewrite an instruction has this property.
\<close>

section \<open>Encodings\<close>

lemma decode_jump:
  assumes "- (2 ^ 25) \<le> sint off" and "sint off < 2 ^ 25"
  shows "decode (0x14000000 OR (ucast (off :: u64) AND 0x03ffffff)) = I_B (4 * sint off)"
    and "decode (0x94000000 OR (ucast (off :: u64) AND 0x03ffffff)) = I_BL (4 * sint off)"
proof -
  have t: "take_bit 26 (opc OR (ucast off AND 0x03ffffff)) = take_bit 26 (ucast off)" if "take_bit 26 opc = 0" for opc :: u32
    using that unfolding field_masks by (simp add: take_bit_eq_mask ac_simps bit.conj_disj_distrib)
  have m: "(opc OR (ucast off AND 0x03ffffff)) AND 0xFC000000 = opc AND 0xFC000000" for opc :: u32
    unfolding field_masks by (rule bit_word_eqI) (auto simp: bit_simps)
  have "simm 0 26 (opc OR (ucast off AND 0x03ffffff)) = sint off" if "take_bit 26 opc = 0" for opc
    using t [OF that] assms by (intro simm_encoded) simp_all
  then show "decode (0x14000000 OR (ucast off AND 0x03ffffff)) = I_B (4 * sint off)"
    "decode (0x94000000 OR (ucast off AND 0x03ffffff)) = I_BL (4 * sint off)"
    using m [of "0x14000000"] m [of "0x94000000"] by (simp_all add: decode_def)
qed

definition put19 :: "u64 \<Rightarrow> u32 \<Rightarrow> u32" where
  "put19 off w = (ucast (push_bit 5 off) AND NOT 0xff00001f) OR (w AND 0xff00001f)"

definition put14 :: "u64 \<Rightarrow> u32 \<Rightarrow> u32" where
  "put14 off w = (ucast (push_bit 5 off) AND NOT 0xfff8001f) OR (w AND 0xfff8001f)"

lemma put_same: "put19 off w AND 0xff00001f = w AND 0xff00001f" "put14 off w AND 0xfff8001f = w AND 0xfff8001f"
  unfolding put19_def put14_def by (rule replaced_same)+

lemma put19_offset:
  assumes "- (2 ^ 18) \<le> sint off" and "sint off < 2 ^ 18"
  shows "simm 5 19 (put19 off w) = sint off"
proof (rule simm_encoded)
  show "take_bit 19 (drop_bit 5 (put19 off w)) = take_bit 19 (ucast off)"
    unfolding put19_def field_masks by (rule bit_word_eqI) (auto simp: bit_simps)
qed (use assms in simp_all)

lemma put14_offset:
  assumes "- (2 ^ 13) \<le> sint off" and "sint off < 2 ^ 13"
  shows "simm 5 14 (put14 off w) = sint off"
proof (rule simm_encoded)
  show "take_bit 14 (drop_bit 5 (put14 off w)) = take_bit 14 (ucast off)"
    unfolding put14_def field_masks by (rule bit_word_eqI) (auto simp: bit_simps)
qed (use assms in simp_all)

lemma put_short:
  "(0x40 AND NOT 0xff00001f) OR (w AND 0xff00001f) = put19 2 w"
  "(0x40 AND NOT 0xfff8001f) OR (w AND 0xfff8001f) = put14 2 w"
  by (simp_all add: put19_def put14_def push_bit_eq_mult)

lemma decode_put19:
  assumes "- (2 ^ 18) \<le> sint off" and "sint off < 2 ^ 18"
  shows "decode w = I_Bcond k i \<Longrightarrow> decode (put19 off w) = I_Bcond k (4 * sint off)"
    and "decode w = I_CBZ sf nz r i \<Longrightarrow> decode (put19 off w) = I_CBZ sf nz r (4 * sint off)"
    and "decode w = I_LDR l r i \<Longrightarrow> decode (put19 off w) = I_LDR l r (4 * sint off)"
    and "decode w = I_ADR r i \<Longrightarrow> decode (put19 off w) = I_ADR r (4 * sint off + int (field 29 2 w))"
  using decode_replaced [OF put_same(1) [of off w]] put19_offset [OF assms] by simp_all

lemma decode_put14:
  assumes "- (2 ^ 13) \<le> sint off" and "sint off < 2 ^ 13" and "decode w = I_TBZ nz b r i"
  shows "decode (put14 off w) = I_TBZ nz b r (4 * sint off)"
  using decode_replaced_test [OF put_same(2) assms(3)] put14_offset [OF assms(1,2)] by simp

text \<open>A load is rewritten with a wider mask, which is harmless unless the offset is negative.\<close>

lemma literal_put:
  assumes "decode w = I_LDR k r i" and "0 \<le> sint off \<and> sint off < 2 ^ 18 \<or> k = LitX \<or> k = LitSW"
  shows "(ucast (push_bit 5 (off :: u64)) AND NOT (literal_mask k)) OR (w AND 0xff00001f) = put19 off w"
proof -
  let ?o = "ucast (push_bit 5 off) :: u32"
  have "k = LitX \<Longrightarrow> bit w 30"
    using assms(1) by (auto simp: decode_def literal_of_def split: if_splits)
  moreover have "\<not> bit ?o n" if "0 \<le> sint off \<and> sint off < 2 ^ 18" "23 \<le> n" for n
  proof -
    have "uint off < 2 ^ 18" using that(1) sint_nonneg [of off] by simp
    then have "take_bit 18 off = off" by (metis take_bit_int_eq_self uint_ge_0 unsigned_take_bit_eq word_uint_eqI)
    then have "\<not> bit off m" if "18 \<le> m" for m using that by (metis bit_take_bit_iff not_le)
    then show ?thesis using that(2) by (auto simp: bit_simps)
  qed
  moreover have "\<not> bit ?o 0" "\<not> bit ?o (Suc 0)" "\<not> bit ?o 2" "\<not> bit ?o 3" "\<not> bit ?o 4" by (simp_all add: bit_simps)
  ultimately show ?thesis using assms(2)
    by (cases k) (auto simp: put19_def literal_mask_def u32_eq bit_and_iff bit_or_iff bit_not_iff)
qed

lemma address_load: "0x58000000 OR 0x40 OR (w AND 0x1f) = put19 2 (0x58000000 OR (w AND 0x1f))"
  by (simp add: put19_def u32_eq bit_simps push_bit_eq_mult)

lemma decode_address_load: "decode (0x58000000 OR 0x40 OR (w AND 0x1f)) = I_LDR LitX (field 0 5 w) 8"
proof -
  let ?v = "0x58000000 OR (w AND 0x1f)"
  have "field 0 5 ?v = field 0 5 w" unfolding field_def field_masks
    by (rule arg_cong [where f = unat], rule bit_word_eqI) (auto simp: bit_simps)
  moreover have "decode ?v = I_LDR LitX (field 0 5 ?v) (4 * simm 5 19 ?v)"
    by (simp add: decode_def mask_bits literal_of_def bit_simps)
  ultimately have "decode ?v = I_LDR LitX (field 0 5 w) (4 * simm 5 19 ?v)" by simp
  from decode_put19(3) [OF _ _ this, of 2] show ?thesis unfolding address_load by simp
qed

end
