(* ===== verification/Hook_Reloc.thy ===== *)
theory Hook_Reloc
  imports Hook_Sim
begin

text \<open>
  When some words do at one address what an instruction does at another.
\<close>

fun at_words :: "image \<Rightarrow> u64 \<Rightarrow> u32 list \<Rightarrow> bool" where
  "at_words m p [] \<longleftrightarrow> True"
| "at_words m p (w # ws) \<longleftrightarrow> m p = Some w \<and> at_words m (p + 4) ws"

lemma at_words_append: "at_words m p (us @ vs) \<longleftrightarrow> at_words m p us \<and> at_words m (p + 4 * word_of_nat (length us)) vs"
  by (induction us arbitrary: p) (auto simp: algebra_simps)

lemma read_words_at: "read_words m p (length ws) = Some ws \<longleftrightarrow> at_words m p ws"
  by (induction ws arbitrary: p) (auto simp: bind_eq_Some_conv)

lemma read_words_length: "read_words m p n = Some ws \<Longrightarrow> length ws = n"
  by (induction n arbitrary: p ws) (auto simp: bind_eq_Some_conv)

lemma read_words_add: "read_words m p (n + k) = do { us \<leftarrow> read_words m p n; vs \<leftarrow> read_words m (p + 4 * word_of_nat n) k; Some (us @ vs) }"
  by (induction n arbitrary: p) (auto simp: algebra_simps split: bind_splits)

text \<open>
  Leaving the copied code, register X17 may have another value, and after a call the return
  address is the one of the copy.
\<close>

definition with_x :: "nat \<Rightarrow> u64 \<Rightarrow> 'w core \<Rightarrow> 'w core" where
  "with_x r v c = c\<lparr>gpr := (gpr c)(r := v)\<rparr>"

definition left_as :: "u64 \<Rightarrow> u64 \<Rightarrow> 'w core \<Rightarrow> 'w core \<Rightarrow> bool" where
  "left_as ra ra' c c' \<longleftrightarrow>
     (\<exists>v. c' = with_x 17 v c) \<or> gpr c 30 = ra \<and> (\<exists>v. c' = with_x 17 v (with_x 30 ra' c))"

definition relocates :: "'w others \<Rightarrow> image \<Rightarrow> (u64 \<Rightarrow> bool) \<Rightarrow> u32 \<Rightarrow> u64 \<Rightarrow> u64 \<Rightarrow> u32 list \<Rightarrow> bool" where
  "relocates ot m0 ins w a p ws \<longleftrightarrow>
     (\<forall>m c t c1. at_words m p ws \<and> (\<forall>x v. m0 x = Some v \<and> \<not> ins x \<longrightarrow> m x = Some v) \<and>
        execute ot m0 (decode w) a c = Some (t, c1) \<longrightarrow>
        (\<exists>n c'. run ot m n (p, c) = Some (follow (p + 4 * word_of_nat (length ws)) t, c') \<and>
           (if t = None then c' = c1 else left_as (a + 4) (p + 4 * word_of_nat (length ws)) c1 c')))"

lemma relocatesI:
  assumes "\<And>m c t c1. at_words m p ws \<Longrightarrow> (\<And>x v. m0 x = Some v \<Longrightarrow> \<not> ins x \<Longrightarrow> m x = Some v) \<Longrightarrow>
      execute ot m0 (decode w) a c = Some (t, c1) \<Longrightarrow>
      \<exists>n c'. run ot m n (p, c) = Some (follow (p + 4 * word_of_nat (length ws)) t, c') \<and>
        (if t = None then c' = c1 else left_as (a + 4) (p + 4 * word_of_nat (length ws)) c1 c')"
  shows "relocates ot m0 ins w a p ws"
  using assms unfolding relocates_def by blast

lemma left_as_refl: "left_as a b c c"
  unfolding left_as_def with_x_def by (rule disjI1, rule exI [of _ "gpr c 17"]) simp

lemma left_as_17: "left_as a b c (with_x 17 v c)"
  unfolding left_as_def by blast

lemma left_as_call: "left_as a b (set_x 30 a c) (set_x 30 b c)"
  unfolding left_as_def
  by (rule disjI2) (auto simp: set_x_def with_x_def fun_upd_twist [of 30 17] intro!: exI [of _ "gpr c 17"])

lemma left_as_call_17: "left_as a b (set_x 30 a c) (set_x 30 b (with_x 17 v c))"
  unfolding left_as_def
  by (rule disjI2) (auto simp: set_x_def with_x_def fun_upd_twist [of 30 17] intro!: exI [of _ v])

text \<open>The code that jumps to an address in two words.\<close>

lemma decode_fixed:
  "decode 0x58000051 = I_LDR LitX 17 8" "decode 0x58000071 = I_LDR LitX 17 12" "decode 0xd61f0220 = I_BR 17"
  "decode 0x1000009e = I_ADR 30 16" "decode 0x14000005 = I_B 20" "decode 0x14000003 = I_B 12"
  by code_simp+

lemma load_address: "load_literal LitX r (addr_words t) c = set_x r t c"
  using addr_joined [of t] by (simp add: load_literal_def addr_words_def)

lemma read_address: "at_words m p (addr_words t) \<Longrightarrow> read_words m p 2 = Some (addr_words t)"
  using read_words_at [of m p "addr_words t"] by (simp add: addr_words_def numeral_2_eq_2)

lemma run_far:
  assumes "at_words m p ([0x58000051, 0xd61f0220] @ addr_words t)"
  shows "run ot m 2 (p, c) = Some (t, with_x 17 t c)"
proof -
  have "read_words m (p + 8) 2 = Some (addr_words t)" using assms by (intro read_address) (simp add: add.assoc)
  then show ?thesis using assms
    by (simp add: numeral_2_eq_2 step_def decode_fixed follow_def load_address get_x_def set_x_def with_x_def)
qed

section \<open>The rewritings\<close>

lemma relocates_plain:
  assumes "decode w = I_other w \<or> (\<exists>r. decode w = I_BR r \<or> decode w = I_BLR r)"
  shows "relocates ot m0 ins w a p [w]"
proof (rule relocatesI)
  fix m c t c1
  assume m: "at_words m p [w]" and e: "execute ot m0 (decode w) a c = Some (t, c1)"
  have "run ot m 1 (p, c) = map_option (\<lambda>(t, c). (follow (p + 4) t, c)) (execute ot m (decode w) p c)"
    using m by (cases "execute ot m (decode w) p c") (auto simp: step_def)
  then show "\<exists>n c'. run ot m n (p, c) = Some (follow (p + 4 * word_of_nat (length [w])) t, c') \<and>
    (if t = None then c' = c1 else left_as (a + 4) (p + 4 * word_of_nat (length [w])) c1 c')"
    using assms e left_as_refl [of "a + 4" "p + 4" c1] left_as_call [of "a + 4" "p + 4" c]
    by (cases t) (auto intro!: exI [of _ 1])
qed

lemma relocates_prfm: "decode w = I_PRFM \<Longrightarrow> relocates ot m0 ins w a p []"
  by (rule relocatesI) (auto intro!: exI [of _ 0] simp: follow_def)

fun branch_of :: "insn \<Rightarrow> int option" where
  "branch_of (I_B i) = Some i"
| "branch_of (I_BL i) = Some i"
| "branch_of (I_Bcond k i) = Some i"
| "branch_of (I_CBZ sf nz r i) = Some i"
| "branch_of (I_TBZ nz b r i) = Some i"
| "branch_of x = None"

lemma relocates_branch:
  assumes "branch_of (decode w) = Some i" and "decode w' = with_offset (decode w) d" and "p + word_of_int d = a + word_of_int i"
  shows "relocates ot m0 ins w a p [w']"
proof (rule relocatesI)
  fix m c t c1
  assume m: "at_words m p [w']" and e: "execute ot m0 (decode w) a c = Some (t, c1)"
  have "run ot m 1 (p, c) = map_option (\<lambda>(t, c). (follow (p + 4) t, c)) (execute ot m (decode w') p c)"
    using m by (cases "execute ot m (decode w') p c") (auto simp: step_def)
  then show "\<exists>n c'. run ot m n (p, c) = Some (follow (p + 4 * word_of_nat (length [w'])) t, c') \<and>
    (if t = None then c' = c1 else left_as (a + 4) (p + 4 * word_of_nat (length [w'])) c1 c')"
    using assms e left_as_refl [of "a + 4" "p + 4" c1] left_as_call [of "a + 4" "p + 4" c]
    by (cases "decode w") (auto intro!: exI [of _ 1] split: if_splits)
qed

lemma relocates_jump_far:
  assumes "decode w = I_B i" and "t = a + word_of_int i"
  shows "relocates ot m0 ins w a p ([0x58000051, 0xd61f0220] @ addr_words t)"
proof (rule relocatesI)
  fix m :: image and c :: "'a core" and q c1
  assume "at_words m p ([0x58000051, 0xd61f0220] @ addr_words t)" and e: "execute ot m0 (decode w) a c = Some (q, c1)"
  from run_far [OF this(1), of ot c] e assms left_as_17
  show "\<exists>n c'. run ot m n (p, c) = Some (follow (p + 4 * word_of_nat (length ([0x58000051, 0xd61f0220] @ addr_words t))) q, c') \<and>
    (if q = None then c' = c1 else left_as (a + 4) (p + 4 * word_of_nat (length ([0x58000051, 0xd61f0220] @ addr_words t))) c1 c')"
    by (intro exI [of _ 2]) (auto simp: follow_def)
qed

lemma relocates_call_far:
  assumes "decode w = I_BL i" and "t = a + word_of_int i"
  shows "relocates ot m0 ins w a p ([0x58000071, 0x1000009e, 0xd61f0220] @ addr_words t)"
proof (rule relocatesI)
  fix m :: image and c :: "'a core" and q c1
  let ?ws = "[0x58000071, 0x1000009e, 0xd61f0220] @ addr_words t"
  assume m: "at_words m p ?ws" and e: "execute ot m0 (decode w) a c = Some (q, c1)"
  have "read_words m (p + 12) 2 = Some (addr_words t)" using m by (intro read_address) (simp add: add.assoc)
  then have "run ot m 3 (p, c) = Some (t, set_x 30 (p + 20) (with_x 17 t c))"
    using m by (simp add: numeral_3_eq_3 step_def decode_fixed follow_def load_address get_x_def set_x_def with_x_def add.assoc)
  then show "\<exists>n c'. run ot m n (p, c) = Some (follow (p + 4 * word_of_nat (length ?ws)) q, c') \<and>
    (if q = None then c' = c1 else left_as (a + 4) (p + 4 * word_of_nat (length ?ws)) c1 c')"
    using e assms left_as_call_17 [of "a + 4" "p + 20" c t]
    by (intro exI [of _ 3]) (auto simp: follow_def addr_words_def)
qed

text \<open>A conditional branch over a jump.\<close>

lemma relocates_cond_far:
  assumes b: "branch_of (decode w) = Some i" and nb: "decode w \<noteq> I_B i" "decode w \<noteq> I_BL i"
    and w': "decode w' = with_offset (decode w) 8" and t: "t = a + word_of_int i"
  shows "relocates ot m0 ins w a p ([w', 0x14000005, 0x58000051, 0xd61f0220] @ addr_words t)"
proof (rule relocatesI)
  fix m :: image and c :: "'a core" and q c1
  let ?ws = "[w', 0x14000005, 0x58000051, 0xd61f0220] @ addr_words t"
  assume m: "at_words m p ?ws" and e: "execute ot m0 (decode w) a c = Some (q, c1)"
  have far: "run ot m 2 (p + 8, c) = Some (t, with_x 17 t c)" using m by (intro run_far) (simp add: add.assoc)
  have "step ot m (p, c) = Some (if q = None then p + 4 else p + 8, c) \<and> c1 = c \<and> (q \<noteq> None \<longrightarrow> q = Some t)"
    using m e b nb w' t by (cases "decode w") (auto simp: step_def follow_def split: if_splits)
  then have s: "step ot m (p, c) = Some (if q = None then p + 4 else p + 8, c)" "c1 = c" "q \<noteq> None \<longrightarrow> q = Some t"
    by blast+
  show "\<exists>n c'. run ot m n (p, c) = Some (follow (p + 4 * word_of_nat (length ?ws)) q, c') \<and>
    (if q = None then c' = c1 else left_as (a + 4) (p + 4 * word_of_nat (length ?ws)) c1 c')"
  proof (cases "q = None")
    case True
    have "step ot m (p + 4, c) = Some (p + 24, c)" using m by (simp add: step_def decode_fixed follow_def add.assoc)
    then show ?thesis using s True by (intro exI [of _ 2] exI [of _ c]) (simp add: numeral_2_eq_2 follow_def addr_words_def)
  next
    case False
    then have "run ot m (1 + 2) (p, c) = Some (t, with_x 17 t c)" unfolding run_add using s(1) far by auto
    then show ?thesis using s False left_as_17 [of "a + 4" _ c t] by (intro exI [of _ "1 + 2"]) (auto simp: follow_def)
  qed
qed

lemma relocates_address_near:
  assumes "decode w = I_ADR r i" and "decode w' = I_ADR r d" and "p + word_of_int d = a + word_of_int i"
  shows "relocates ot m0 ins w a p [w']"
  by (rule relocatesI, rule exI [of _ 1]) (use assms in \<open>auto simp: step_def follow_def\<close>)

lemma relocates_address_far:
  assumes "\<And>m c. execute ot m (decode w) a c = Some (None, set_x r t c)" and "decode w' = I_LDR LitX r 8"
  shows "relocates ot m0 ins w a p ([w', 0x14000003] @ addr_words t)"
proof (rule relocatesI)
  fix m :: image and c :: "'a core" and q c1
  let ?ws = "[w', 0x14000003] @ addr_words t"
  assume m: "at_words m p ?ws" and e: "execute ot m0 (decode w) a c = Some (q, c1)"
  have "read_words m (p + 8) 2 = Some (addr_words t)" using m by (intro read_address) (simp add: add.assoc)
  then have "run ot m 2 (p, c) = Some (p + 16, set_x r t c)"
    using m assms(2) by (simp add: numeral_2_eq_2 step_def decode_fixed follow_def load_address)
  then show "\<exists>n c'. run ot m n (p, c) = Some (follow (p + 4 * word_of_nat (length ?ws)) q, c') \<and>
    (if q = None then c' = c1 else left_as (a + 4) (p + 4 * word_of_nat (length ?ws)) c1 c')"
    using e assms(1) by (intro exI [of _ 2]) (auto simp: follow_def addr_words_def)
qed

lemma relocates_load_far:
  assumes w: "decode w = I_LDR k r i" and w': "decode w' = I_LDR k r 8"
    and ns: "ns = 1 \<or> ns = 2 \<or> ns = 4" "literal_words k \<le> ns" and ws: "read_words m0 (a + word_of_int i) ns = Some ws"
  shows "relocates ot m0 ins w a p ([w', 0x14000001 + of_nat ns] @ ws)"
proof (rule relocatesI)
  fix m :: image and c :: "'a core" and q c1
  let ?ws = "[w', 0x14000001 + of_nat ns] @ ws"
  assume m: "at_words m p ?ws" and e: "execute ot m0 (decode w) a c = Some (q, c1)"
  obtain us vs where u: "ws = us @ vs" "read_words m0 (a + word_of_int i) (literal_words k) = Some us"
    using ws read_words_add [of m0 _ "literal_words k" "ns - literal_words k"] ns(2) by (auto simp: bind_eq_Some_conv)
  have "at_words m (p + 8) us" using m u(1) by (simp add: at_words_append add.assoc)
  then have "read_words m (p + 8) (literal_words k) = Some us"
    using read_words_at [of m "p + 8" us] read_words_length [OF u(2)] by simp
  moreover have "decode (0x14000001 + of_nat ns) = I_B (4 + 4 * int ns)" using ns(1) by (elim disjE; simp; code_simp)
  ultimately have "run ot m 2 (p, c) = Some (p + 4 * word_of_nat (length ?ws), load_literal k r us c)"
    using m w' read_words_length [OF ws] by (simp add: numeral_2_eq_2 step_def follow_def algebra_simps)
  then show "\<exists>n c'. run ot m n (p, c) = Some (follow (p + 4 * word_of_nat (length ?ws)) q, c') \<and>
    (if q = None then c' = c1 else left_as (a + 4) (p + 4 * word_of_nat (length ?ws)) c1 c')"
    using e w u(2) by (intro exI [of _ 2]) (auto simp: follow_def)
qed

lemma read_words_agree:
  assumes "\<And>x v. m0 x = Some v \<Longrightarrow> \<not> ins x \<Longrightarrow> m x = Some v" and "\<And>j. j < n \<Longrightarrow> \<not> ins (b + 4 * word_of_nat j)"
    and "read_words m0 b n = Some ws"
  shows "read_words m b n = Some ws"
  using assms(2,3)
proof (induction n arbitrary: b ws)
  case (Suc n)
  have "\<not> ins b" using Suc.prems(1) [of 0] by simp
  moreover have "\<not> ins (b + 4 + 4 * word_of_nat j)" if "j < n" for j
    using Suc.prems(1) [of "Suc j"] that by (simp add: algebra_simps)
  ultimately show ?case using Suc.prems(2) Suc.IH [of "b + 4"] assms(1) [of b] by (auto simp: bind_eq_Some_conv)
qed simp

lemma relocates_load_near:
  assumes w: "decode w = I_LDR k r i" and w': "decode w' = I_LDR k r d" and d: "p + word_of_int d = a + word_of_int i"
    and ins: "\<And>j. j < literal_words k \<Longrightarrow> \<not> ins (a + word_of_int i + 4 * word_of_nat j)"
  shows "relocates ot m0 ins w a p [w']"
proof (rule relocatesI)
  fix m :: image and c :: "'a core" and q c1
  assume m: "at_words m p [w']" and ag: "\<And>x v. m0 x = Some v \<Longrightarrow> \<not> ins x \<Longrightarrow> m x = Some v"
    and e: "execute ot m0 (decode w) a c = Some (q, c1)"
  from e w obtain ws where ws: "read_words m0 (a + word_of_int i) (literal_words k) = Some ws" "q = None" "c1 = load_literal k r ws c"
    by auto
  have "read_words m (a + word_of_int i) (literal_words k) = Some ws"
    by (rule read_words_agree [where ins = ins, OF _ _ ws(1)]) (use ag ins in blast)+
  with m w' d ws(2,3)
  show "\<exists>n c'. run ot m n (p, c) = Some (follow (p + 4 * word_of_nat (length [w'])) q, c') \<and>
    (if q = None then c' = c1 else left_as (a + 4) (p + 4 * word_of_nat (length [w'])) c1 c')"
    by (intro exI [of _ 1]) (auto simp: step_def follow_def)
qed

end
