(* ===== verification/Hook_Stage.thy ===== *)
theory Hook_Stage
  imports Hook_Reloc
begin

text \<open>
  The invariant of the copying loop: where the copies of the instructions begin, that each does
  what its instruction does, and what is still to be filled in for branches to instructions
  that have not been copied yet.
\<close>

section \<open>Branches inside the copied code\<close>

definition inside :: "u64 \<Rightarrow> nat \<Rightarrow> u64 \<Rightarrow> bool" where
  "inside base n x \<longleftrightarrow> x - base < 4 * of_nat n"

definition target :: "u32 list \<Rightarrow> nat \<Rightarrow> nat option" where
  "target code i =
     (case branch_of (decode (code ! i)) of None \<Rightarrow> None
      | Some d \<Rightarrow> let t = 4 * of_nat i + word_of_int d :: u64
                  in if t < 4 * of_nat (length code) then Some (unat (t div 4)) else None)"

text \<open>The branch with another offset, counted in words.\<close>

definition enc :: "u32 \<Rightarrow> u64 \<Rightarrow> u32" where
  "enc w off =
     (case decode w of I_B i \<Rightarrow> 0x14000000 OR (ucast off AND 0x03ffffff)
      | I_BL i \<Rightarrow> 0x94000000 OR (ucast off AND 0x03ffffff)
      | I_TBZ nz b r i \<Rightarrow> put14 off w
      | _ \<Rightarrow> put19 off w)"

definition entry :: "u32 list \<Rightarrow> (nat \<Rightarrow> nat) \<Rightarrow> nat \<Rightarrow> fix_info" where
  "entry code l i =
     (case decode (code ! i) of
        I_B d \<Rightarrow> \<lparr>fm_at = l i, fm_ls = 0, fm_ad = 0x03ffffff\<rparr>
      | I_BL d \<Rightarrow> \<lparr>fm_at = l i, fm_ls = 0, fm_ad = 0x03ffffff\<rparr>
      | I_TBZ nz b r d \<Rightarrow> \<lparr>fm_at = l i, fm_ls = 5, fm_ad = NOT 0xfff8001f\<rparr>
      | _ \<Rightarrow> \<lparr>fm_at = l i, fm_ls = 5, fm_ad = NOT 0xff00001f\<rparr>)"

lemma entry_at [simp]: "fm_at (entry code l i) = l i"
  by (simp add: entry_def split: insn.split)

definition dist :: "nat \<Rightarrow> nat \<Rightarrow> u64" where
  "dist p q = signed_drop_bit 2 (4 * of_nat q - 4 * of_nat p)"

lemma dist_self [simp]: "dist p p = 0"
  by (simp add: dist_def)

lemma sint_small: "- (2 ^ 63) \<le> k \<Longrightarrow> k < 2 ^ 63 \<Longrightarrow> sint (word_of_int k :: u64) = k"
  unfolding sint_sbintrunc' by (rule signed_take_bit_int_eq_self) simp_all

lemma sint_dist: "p < 2 ^ 20 \<Longrightarrow> q < 2 ^ 20 \<Longrightarrow> sint (dist p q) = int q - int p"
proof -
  assume "p < 2 ^ 20" "q < 2 ^ 20"
  then have r: "- (2 ^ 63) \<le> 4 * (int q - int p)" "4 * (int q - int p) < 2 ^ 63" by simp_all
  have "4 * of_nat q - 4 * of_nat p = (word_of_int (4 * (int q - int p)) :: u64)" by simp
  then have "sint (4 * of_nat q - 4 * of_nat p :: u64) = 4 * (int q - int p)"
    using sint_small [OF r] by simp
  then show ?thesis by (simp add: dist_def sint_signed_drop_bit_eq drop_bit_eq_div)
qed

lemma patched_word:
  "enc (code ! i) 0 OR
     (push_bit (fm_ls (entry code l i)) (signed_drop_bit 2 (ucast (d :: u64))) AND fm_ad (entry code l i)) =
   enc (code ! i) (signed_drop_bit 2 d)"
proof -
  have "(0x14000000 OR (ucast (0 :: u64) AND 0x03ffffff)) OR (push_bit 0 (signed_drop_bit 2 (ucast d)) AND 0x03ffffff) =
      (0x14000000 OR (ucast (signed_drop_bit 2 d) AND 0x03ffffff) :: u32)"
    unfolding field_masks by (rule bit_word_eqI) (auto simp: bit_simps min_def)
  moreover have "(0x94000000 OR (ucast (0 :: u64) AND 0x03ffffff)) OR (push_bit 0 (signed_drop_bit 2 (ucast d)) AND 0x03ffffff) =
      (0x94000000 OR (ucast (signed_drop_bit 2 d) AND 0x03ffffff) :: u32)"
    unfolding field_masks by (rule bit_word_eqI) (auto simp: bit_simps min_def)
  moreover have "put14 0 w OR (push_bit 5 (signed_drop_bit 2 (ucast d)) AND NOT 0xfff8001f) = put14 (signed_drop_bit 2 d) w" for w
    unfolding put14_def field_masks by (rule bit_word_eqI) (auto simp: bit_simps min_def)
  moreover have "put19 0 w OR (push_bit 5 (signed_drop_bit 2 (ucast d)) AND NOT 0xff00001f) = put19 (signed_drop_bit 2 d) w" for w
    unfolding put19_def field_masks by (rule bit_word_eqI) (auto simp: bit_simps min_def)
  ultimately show ?thesis by (simp add: enc_def entry_def split: insn.split)
qed

lemma decode_enc:
  assumes "branch_of (decode w) = Some d" and "- (2 ^ 13) \<le> sint off" and "sint off < 2 ^ 13"
  shows "decode (enc w off) = with_offset (decode w) (4 * sint off)"
proof -
  have "- (2 ^ 18) \<le> sint off" "sint off < 2 ^ 18" "- (2 ^ 25) \<le> sint off" "sint off < 2 ^ 25" using assms(2,3) by simp_all
  note f = decode_put19 [OF this(1,2)] decode_jump [OF this(3,4)] decode_put14 [OF assms(2,3)]
  show ?thesis using assms(1) f by (cases "decode w") (simp_all add: enc_def)
qed

text \<open>Filling in all offsets that wait for one instruction.\<close>

lemma fix_word_length [simp]: "length (fix_word rx a x out) = length out"
  by (simp add: fix_word_def)

lemma fold_fix_length [simp]: "length (fold (fix_word rx a) es out) = length out"
  by (induction es arbitrary: out) simp_all

lemma fold_fix_other: "q \<notin> fm_at ` set es \<Longrightarrow> fold (fix_word rx a) es out ! q = out ! q"
  by (induction es arbitrary: out) (auto simp: fix_word_def)

lemma fold_fix_at:
  assumes "distinct (map fm_at es)" and "x \<in> set es" and "fm_at x < length out"
  shows "fold (fix_word rx a) es out ! fm_at x =
    out ! fm_at x OR (push_bit (fm_ls x) (signed_drop_bit 2 (ucast (a - (rx + 4 * of_nat (fm_at x))))) AND fm_ad x)"
  using assms
proof (induction es arbitrary: out)
  case (Cons y es)
  show ?case
  proof (cases "x = y")
    case True
    then have "fm_at x \<notin> fm_at ` set es" using Cons.prems(1) by simp
    then show ?thesis using True Cons.prems(3) by (simp add: fold_fix_other) (simp add: fix_word_def)
  next
    case False
    then have "x \<in> set es" "fm_at y \<noteq> fm_at x" using Cons.prems(1,2) by auto
    then show ?thesis using Cons.IH [of "fix_word rx a y out"] Cons.prems by (simp add: fix_word_def)
  qed
qed simp

section \<open>The invariant\<close>

definition slice :: "nat \<Rightarrow> nat \<Rightarrow> 'a list \<Rightarrow> 'a list" where
  "slice p q xs = take (q - p) (drop p xs)"

lemma slice_nth_eq:
  assumes "\<And>i. p \<le> i \<Longrightarrow> i < q \<Longrightarrow> xs ! i = ys ! i" and "q \<le> length xs" and "q \<le> length ys"
  shows "slice p q xs = slice p q ys"
  using assms by (intro nth_equalityI) (simp_all add: slice_def)

fun is_adrp :: "insn \<Rightarrow> bool" where
  "is_adrp (I_ADRP r i) = True"
| "is_adrp x = False"

definition copied :: "'w others \<Rightarrow> image \<Rightarrow> u32 list \<Rightarrow> u64 \<Rightarrow> u64 \<Rightarrow> nat \<Rightarrow> u32 list \<Rightarrow> (nat \<Rightarrow> nat) \<Rightarrow> (nat \<Rightarrow> nat) \<Rightarrow> nat \<Rightarrow> bool" where
  "copied ot m0 code base rx k out e l i \<longleftrightarrow>
     (case target code i of
        Some j \<Rightarrow> e (Suc i) = Suc (l i) \<and> out ! l i = enc (code ! i) (if j < k then dist (l i) (l j) else 0)
      | None \<Rightarrow> relocates ot m0 (inside base (length code)) (code ! i) (base + 4 * of_nat i) (rx + 4 * of_nat (l i))
          (slice (l i) (e (Suc i)) out))"

definition blocks :: "nat \<Rightarrow> u32 list \<Rightarrow> (nat \<Rightarrow> nat) \<Rightarrow> (nat \<Rightarrow> nat) \<Rightarrow> bool" where
  "blocks k out e l \<longleftrightarrow> e 0 = 0 \<and> e k = length out \<and>
     (\<forall>i < k. e i \<le> l i \<and> l i \<le> e (Suc i) \<and> e (Suc i) \<le> e i + 9 \<and> (\<forall>q. e i \<le> q \<and> q < l i \<longrightarrow> out ! q = Aarch64Nop))"

definition pending :: "u32 list \<Rightarrow> (nat \<Rightarrow> nat) \<Rightarrow> nat \<Rightarrow> nat \<Rightarrow> fix_info list" where
  "pending code l k j = (if j < k then [] else map (entry code l) (filter (\<lambda>i. target code i = Some j) [0..<k]))"

definition stage :: "'w others \<Rightarrow> image \<Rightarrow> u32 list \<Rightarrow> u64 \<Rightarrow> nat \<Rightarrow> fixer \<Rightarrow> (nat \<Rightarrow> nat) \<Rightarrow> (nat \<Rightarrow> nat) \<Rightarrow> bool" where
  "stage ot m0 code base k f e l \<longleftrightarrow>
     fx_in f = drop k code \<and> inprx f = base + 4 * of_nat k \<and>
     basep (ctx f) = base \<and> endp (ctx f) = base + 4 * of_nat (length code) \<and> length (dat (ctx f)) = MaxInstructions \<and>
     blocks k (fx_out f) e l \<and>
     (\<forall>i < k. \<not> is_adrp (decode (code ! i)) \<longrightarrow> ins_addr (dat (ctx f) ! i) = fx_rx f + 4 * of_nat (l i)) \<and>
     (\<forall>j < length code. fmap (dat (ctx f) ! j) = pending code l k j) \<and>
     (\<forall>i < k. copied ot m0 code base (fx_rx f) k (fx_out f) e l i)"

definition noted :: "u32 list \<Rightarrow> nat \<Rightarrow> nat \<Rightarrow> u64 \<Rightarrow> insns_info list \<Rightarrow> insns_info list" where
  "noted code k lk A d0 =
     (let d = d0[k := (d0 ! k)\<lparr>ins_addr := A\<rparr>]
      in case target code k of None \<Rightarrow> d
         | Some j \<Rightarrow> if k < j then d[j := (d ! j)\<lparr>fmap := fmap (d ! j) @ [entry code (\<lambda>i. lk) k]\<rparr>] else d)"

text \<open>What a fixer has done before the words that wait for its instruction are filled in.\<close>

definition handled :: "'w others \<Rightarrow> image \<Rightarrow> u32 list \<Rightarrow> u64 \<Rightarrow> nat \<Rightarrow> fixer \<Rightarrow> (nat \<Rightarrow> nat) \<Rightarrow> fixer \<Rightarrow> nat \<Rightarrow> bool" where
  "handled ot m0 code base k f l f2 lk \<longleftrightarrow>
     fx_in f2 = fx_in f \<and> inprx f2 = inprx f \<and> fx_rx f2 = fx_rx f \<and>
     basep (ctx f2) = basep (ctx f) \<and> endp (ctx f2) = endp (ctx f) \<and>
     (\<exists>A. (\<not> is_adrp (decode (code ! k)) \<longrightarrow> A = fx_rx f + 4 * of_nat lk) \<and>
        dat (ctx f2) = noted code k lk A (dat (ctx f))) \<and>
     (\<exists>ws. fx_out f2 = fx_out f @ replicate (lk - length (fx_out f)) Aarch64Nop @ ws \<and> length (fx_out f) \<le> lk \<and>
        length (fx_out f2) \<le> length (fx_out f) + 9 \<and>
        (case target code k of
           Some j \<Rightarrow> lk = length (fx_out f) \<and> ws = [enc (code ! k) (if j < k then dist lk (l j) else 0)]
         | None \<Rightarrow> relocates ot m0 (inside base (length code)) (code ! k) (base + 4 * of_nat k) (fx_rx f + 4 * of_nat lk) ws))"

lemma blocks_mono: "blocks k out e l \<Longrightarrow> i \<le> i' \<Longrightarrow> i' \<le> k \<Longrightarrow> e i \<le> e i'"
proof (induction i')
  case (Suc n)
  then have "e n \<le> l n" "l n \<le> e (Suc n)" by (auto simp: blocks_def)
  then show ?case using Suc by (cases "i = Suc n") auto
qed simp

lemma blocks_length: "blocks k out e l \<Longrightarrow> i \<le> k \<Longrightarrow> e i \<le> 9 * i"
proof (induction i)
  case (Suc i)
  then show ?case by (auto simp: blocks_def) (metis Suc_le_lessD le_trans nat_add_left_cancel_le add.commute)
qed (simp add: blocks_def)

text \<open>A branch to an instruction of the code is not in the block of another one.\<close>

lemma block_apart:
  assumes b: "blocks k out e l" and i: "i < k" "i' < k" "i \<noteq> i'" and s: "e (Suc i') = Suc (l i')"
    and q: "e i \<le> q" "q < e (Suc i)"
  shows "q \<noteq> l i'"
proof (cases "i' < i")
  case True
  then have "e (Suc i') \<le> e i" using blocks_mono [OF b, of "Suc i'" i] i by simp
  then show ?thesis using s q by simp
next
  case False
  then have "e (Suc i) \<le> e i'" using blocks_mono [OF b, of "Suc i" i'] i by simp
  moreover have "e i' \<le> l i'" using b i by (simp add: blocks_def)
  ultimately show ?thesis using q by simp
qed

section \<open>One instruction more\<close>

lemma nth_target_Some: "target code i = Some j \<Longrightarrow> j < length code \<Longrightarrow> \<exists>d. branch_of (decode (code ! i)) = Some d"
  by (auto simp: target_def split: option.splits)

lemma stage_step:
  assumes st: "stage ot m0 code base k f e l" and k: "k < length code" "length code \<le> MaxInstructions"
    and h: "handled ot m0 code base k f l f2 lk"
    and na: "\<And>i. i < k \<Longrightarrow> target code i = Some k \<Longrightarrow> \<not> is_adrp (decode (code ! k))"
  shows "stage ot m0 code base (Suc k) (process_fix_map k (next_in f2)) (e(Suc k := length (fx_out f2))) (l(k := lk))"
proof -
  let ?e = "e(Suc k := length (fx_out f2))" and ?l = "l(k := lk)" and ?f = "process_fix_map k (next_in f2)"
  let ?d = "dat (ctx f)" and ?rx = "fx_rx f"
  note s = st [unfolded stage_def]
  from s have b: "blocks k (fx_out f) e l" and cp: "\<And>i. i < k \<Longrightarrow> copied ot m0 code base ?rx k (fx_out f) e l i"
    and pn: "\<And>j. j < length code \<Longrightarrow> fmap (?d ! j) = pending code l k j" and ld: "length ?d = MaxInstructions" by auto
  from h obtain A ws where A: "\<not> is_adrp (decode (code ! k)) \<longrightarrow> A = ?rx + 4 * of_nat lk"
    and d2: "dat (ctx f2) = noted code k lk A ?d"
    and out2: "fx_out f2 = fx_out f @ replicate (lk - length (fx_out f)) Aarch64Nop @ ws" "length (fx_out f) \<le> lk"
      "length (fx_out f2) \<le> length (fx_out f) + 9"
    and bl: "case target code k of
           Some j \<Rightarrow> lk = length (fx_out f) \<and> ws = [enc (code ! k) (if j < k then dist lk (l j) else 0)]
         | None \<Rightarrow> relocates ot m0 (inside base (length code)) (code ! k) (base + 4 * of_nat k) (?rx + 4 * of_nat lk) ws"
    and fr: "fx_rx f2 = ?rx" unfolding handled_def by (elim conjE exE) (rule that)
  let ?E = "map (entry code l) (filter (\<lambda>i. target code i = Some k) [0..<k])"
  have dk: "fmap (dat (ctx f2) ! k) = ?E" "ins_addr (dat (ctx f2) ! k) = A"
    using d2 pn [OF k(1)] k ld by (auto simp: noted_def Let_def pending_def nth_list_update split: option.splits if_splits)
  have out: "fx_out ?f = fold (fix_word ?rx A) ?E (fx_out f2)"
    using dk fr by (simp add: process_fix_map_def next_in_def Let_def)
  have ek: "e k = length (fx_out f)" using b by (simp add: blocks_def)
  have one: "e (Suc i) = Suc (l i)" if "i < k" "target code i = Some j" for i j
    using cp [OF that(1)] that(2) by (simp add: copied_def)
  have at: "q \<in> fm_at ` set ?E \<longleftrightarrow> (\<exists>i < k. target code i = Some k \<and> q = l i)" for q by (auto simp: image_image)
  have lt: "l i < length (fx_out f)" if "i < k" "target code i = Some j" for i j
    using one [OF that] blocks_mono [OF b, of "Suc i" k] that(1) ek by simp
  have apart: "q \<notin> fm_at ` set ?E" if "i < k" "e i \<le> q" "q < e (Suc i)" "target code i \<noteq> Some k" for i q
  proof
    assume "q \<in> fm_at ` set ?E"
    then obtain i' where "i' < k" "target code i' = Some k" "q = l i'" unfolding at by blast
    then show False using block_apart [OF b that(1) \<open>i' < k\<close> _ one that(2,3)] that(4) by metis
  qed
  have new: "q \<notin> fm_at ` set ?E" if "length (fx_out f) \<le> q" for q
    unfolding at using lt that by fastforce
  have other: "fx_out ?f ! q = fx_out f2 ! q" if "q \<notin> fm_at ` set ?E" for q
    unfolding out using fold_fix_other [OF that] .
  have old: "fx_out f2 ! q = fx_out f ! q" if "q < length (fx_out f)" for q
    using that out2(1) by (simp add: nth_append)
  have len: "length (fx_out ?f) = length (fx_out f2)" unfolding out by simp
  have ei: "e i \<le> length (fx_out f)" if "i \<le> k" for i using blocks_mono [OF b that] ek by simp
  have nops: "fx_out ?f ! q = Aarch64Nop" if "i < Suc k" "?e i \<le> q" "q < ?l i" for i q
  proof (cases "i = k")
    case True
    then have q: "length (fx_out f) \<le> q" "q < lk" using that ek by simp_all
    then have "q - length (fx_out f) < lk - length (fx_out f)" by simp
    then show ?thesis using q other [OF new [OF q(1)]] out2(1) by (simp add: nth_append)
  next
    case False
    then have i: "i < k" "e i \<le> q" "q < l i" using that by auto
    then have "fx_out f ! q = Aarch64Nop" "q < e (Suc i)" using b by (auto simp: blocks_def)
    moreover have "q \<notin> fm_at ` set ?E"
    proof (cases "target code i = Some k")
      case True
      show ?thesis
      proof
        assume "q \<in> fm_at ` set ?E"
        then obtain i' where "i' < k" "target code i' = Some k" "q = l i'" unfolding at by blast
        then show False using block_apart [OF b i(1) \<open>i' < k\<close> _ one i(2) \<open>q < e (Suc i)\<close>] i(3) by (metis less_irrefl)
      qed
    qed (use apart i \<open>q < e (Suc i)\<close> in simp)
    ultimately show ?thesis using other old ei [of "Suc i"] i(1) by simp
  qed
  have blocks: "blocks (Suc k) (fx_out ?f) ?e ?l"
    using b nops len out2(2,3) ek arg_cong [OF out2(1), of length] unfolding blocks_def by (auto simp: less_Suc_eq)
  have patched: "fx_out ?f ! l i = enc (code ! i) (dist (l i) lk)" if i: "i < k" "target code i = Some k" for i
  proof -
    have "distinct (map fm_at ?E)"
    proof -
      have "inj_on l {i. i < k \<and> target code i = Some k}"
      proof (rule inj_onI, rule ccontr)
        fix i i' assume a: "i \<in> {i. i < k \<and> target code i = Some k}" "i' \<in> {i. i < k \<and> target code i = Some k}" "l i = l i'" "i \<noteq> i'"
        then show False using block_apart [OF b _ _ _ one, of i i' k "l i"] one [of i] b by (auto simp: blocks_def)
      qed
      then show ?thesis by (auto simp: comp_def distinct_map intro: inj_on_subset)
    qed
    then have "fx_out ?f ! l i = fx_out f2 ! l i OR
        (push_bit (fm_ls (entry code l i)) (signed_drop_bit 2 (ucast (A - (?rx + 4 * of_nat (l i))))) AND fm_ad (entry code l i))"
      unfolding out using fold_fix_at [of ?E "entry code l i" "fx_out f2" ?rx A] i lt [OF i] out2(1) by simp
    also have "fx_out f2 ! l i = enc (code ! i) 0"
      using cp [OF i(1)] i(2) old [OF lt [OF i]] by (simp add: copied_def)
    finally show ?thesis using A na [OF i] by (simp add: patched_word dist_def)
  qed
  have cps: "copied ot m0 code base ?rx (Suc k) (fx_out ?f) ?e ?l i" if "i < Suc k" for i
  proof (cases "i = k")
    case True
    have w: "fx_out ?f ! q = fx_out f2 ! q" if "length (fx_out f) \<le> q" for q using other [OF new [OF that]] .
    show ?thesis
    proof (cases "target code k")
      case None
      have "slice lk (length (fx_out f2)) (fx_out ?f) = slice lk (length (fx_out f2)) (fx_out f2)"
        using w out2(2) len by (intro slice_nth_eq) auto
      also have "\<dots> = ws" using out2(1,2) by (simp add: slice_def)
      finally show ?thesis using True None bl by (simp add: copied_def)
    next
      case (Some j)
      then show ?thesis using True bl out2(1) w [of lk] by (auto simp: copied_def less_Suc_eq)
    qed
  next
    case False
    then have i: "i < k" using that by simp
    show ?thesis
    proof (cases "target code i")
      case None
      have "slice (l i) (e (Suc i)) (fx_out ?f) = slice (l i) (e (Suc i)) (fx_out f)"
        using apart [OF i, of _] None b i other old ei [of "Suc i"] len out2(1)
        by (intro slice_nth_eq) (auto simp: blocks_def)
      then show ?thesis using cp [OF i] None i by (simp add: copied_def)
    next
      case (Some j)
      show ?thesis
      proof (cases "j = k")
        case True
        then show ?thesis using Some patched [OF i] one [OF i] i by (simp add: copied_def)
      next
        case nk: False
        then have "l i \<notin> fm_at ` set ?E" using apart [OF i, of "l i"] Some b i one [OF i Some] by (auto simp: blocks_def)
        then have "fx_out ?f ! l i = fx_out f ! l i" using other old lt [OF i Some] by simp
        then show ?thesis using cp [OF i] Some nk i by (auto simp: copied_def less_Suc_eq)
      qed
    qed
  qed
  have keep: "fx_in ?f = tl (fx_in f)" "inprx ?f = inprx f + 4" "fx_rx ?f = ?rx" "basep (ctx ?f) = basep (ctx f)" "endp (ctx ?f) = endp (ctx f)"
    using h by (simp_all add: handled_def process_fix_map_def next_in_def Let_def)
  have dat': "dat (ctx ?f) = (dat (ctx f2))[k := (dat (ctx f2) ! k)\<lparr>fmap := []\<rparr>]"
    by (simp add: process_fix_map_def next_in_def Let_def)
  have ldat: "length (dat (ctx f2)) = MaxInstructions" using d2 ld by (simp add: noted_def Let_def split: option.splits)
  have land: "ins_addr (dat (ctx ?f) ! i) = ?rx + 4 * of_nat (?l i)" if "i < Suc k" "\<not> is_adrp (decode (code ! i))" for i
    using that s A dk(2) d2 k ld ldat unfolding dat'
    by (cases "i = k") (auto simp: noted_def nth_list_update Let_def split: option.splits)
  have pend: "fmap (dat (ctx ?f) ! j) = pending code ?l (Suc k) j" if "j < length code" for j
  proof -
    have e: "map (entry code ?l) (filter (\<lambda>i. target code i = Some j) [0..<k]) = map (entry code l) (filter (\<lambda>i. target code i = Some j) [0..<k])"
      by (auto simp: entry_def split: insn.split)
    have "entry code ?l k = entry code (\<lambda>i. lk) k" by (simp add: entry_def split: insn.split)
    then show ?thesis using that pn [OF that] k ld ldat d2 dk(1) e unfolding dat' pending_def
      by (cases "j = k") (auto simp: noted_def nth_list_update Let_def split: option.splits if_splits)
  qed
  show ?thesis unfolding stage_def keep using s blocks cps land pend ldat
    by (simp add: dat' drop_Suc tl_drop algebra_simps)
qed

end
