(* ===== verification/Hook_Fixers.thy ===== *)
theory Hook_Fixers
  imports Hook_Stage
begin

text \<open>
  Each fixer rewrites its instruction as the invariant asks for, provided the instruction is one
  the code handles: no backward conditional branches, backward loads of constants or backward
  addresses, and no address of the copied code itself.
\<close>

section \<open>Instructions that can be moved\<close>

definition geometry :: "u64 \<Rightarrow> u64 \<Rightarrow> bool" where
  "geometry base rx \<longleftrightarrow>
     take_bit 2 base = 0 \<and> take_bit 2 rx = 0 \<and> uint base + 20 < 2 ^ 62 \<and> uint rx + 200 < 2 ^ 62"

definition movable_insn :: "u64 \<Rightarrow> u64 \<Rightarrow> nat \<Rightarrow> u64 \<Rightarrow> insn \<Rightarrow> bool" where
  "movable_insn base rx n a x \<longleftrightarrow>
     (case x of
        I_BL d \<Rightarrow> \<not> inside base n (a + word_of_int d)
      | I_Bcond c d \<Rightarrow> 0 \<le> d
      | I_CBZ sf nz r d \<Rightarrow> 0 \<le> d
      | I_TBZ nz b r d \<Rightarrow> 0 \<le> d
      | I_LDR k r d \<Rightarrow> 0 \<le> d \<and>
          (k = LitX \<or> k = LitSW \<or> uint rx + 200 \<le> uint a + d \<or> uint a + d + 2 ^ 20 \<le> uint rx)
      | I_ADR r d \<Rightarrow> 0 \<le> d \<and> \<not> inside base n (a + word_of_int d) \<and>
          (d mod 4 = 0 \<or> uint rx + 200 + 2 ^ 20 \<le> uint a + d \<or> uint a + d + 2 ^ 20 \<le> uint rx)
      | I_ADRP r d \<Rightarrow> 0 \<le> d \<and> \<not> inside base n ((a AND NOT 0xfff) + word_of_int (4096 * d))
      | I_undefined \<Rightarrow> False
      | _ \<Rightarrow> True)"

definition movable :: "u64 \<Rightarrow> u64 \<Rightarrow> u32 list \<Rightarrow> bool" where
  "movable base rx code \<longleftrightarrow>
     (\<forall>i < length code. movable_insn base rx (length code) (base + 4 * of_nat i) (decode (code ! i)) \<and>
        (case target code i of None \<Rightarrow> True | Some j \<Rightarrow> \<not> is_adrp (decode (code ! j))))"

section \<open>Addresses of the loop\<close>

lemma less_5: "k < 5 \<Longrightarrow> k = 0 \<or> k = 1 \<or> k = 2 \<or> k = 3 \<or> k = (4 :: nat)"
  by auto

lemma current_index_eq: "inprx f = basep (ctx f) + 4 * of_nat k \<Longrightarrow> k < 5 \<Longrightarrow> current_index f = k"
  by (auto simp: current_index_def get_ref_ins_index_def dest!: less_5)

lemma uint_of_nat_small: "n < 2 ^ 64 \<Longrightarrow> uint (word_of_nat n :: u64) = int n"
  by (simp add: unsigned_of_nat take_bit_nat_eq_self)

lemma uint_plus_small: "uint a + uint b < 2 ^ 64 \<Longrightarrow> uint (a + b) = uint a + uint b" for a b :: u64
  unfolding uint_word_arith_bintrs(1) by (rule take_bit_int_eq_self) simp_all

lemma uint_minus_small: "uint b \<le> uint a \<Longrightarrow> uint (a - b) = uint a - uint b" for a b :: u64
  unfolding uint_word_arith_bintrs(2) by (rule take_bit_int_eq_self) (simp, rule le_less_trans [OF _ uint_bounded [of a]], simp)

lemma sint_uint_small: "uint x < 2 ^ 63 \<Longrightarrow> sint x = uint x" for x :: u64
  unfolding sint_uint by (rule signed_take_bit_int_eq_self) (simp_all add: order_trans [OF _ uint_ge_0])

lemma uint_of_nat_4: "n \<le> 100 \<Longrightarrow> uint (4 * of_nat n :: u64) = 4 * int n"
  using uint_of_nat_small [of "4 * n"] by simp

lemma in_range_iff:
  assumes "uint base + 20 < 2 ^ 62" and "n \<le> 5" and "basep c = base" and "endp c = base + 4 * of_nat n"
  shows "is_in_fixing_range t c \<longleftrightarrow> inside base n t"
proof -
  have b: "sint base = uint base" using assms(1) by (intro sint_uint_small) simp
  have ue: "uint (base + 4 * of_nat n) = uint base + 4 * int n"
    using assms(1,2) uint_of_nat_4 [of n] uint_plus_small [of base "4 * of_nat n"] by simp
  then have e: "sint (base + 4 * of_nat n) = uint base + 4 * int n"
    using assms(1,2) by (subst sint_uint_small) simp_all
  have i: "inside base n t \<longleftrightarrow> uint (t - base) < 4 * int n"
    using uint_of_nat_4 [of n] assms(2) by (simp add: inside_def word_less_def)
  have "sint t = uint base + uint (t - base)" if "uint (t - base) < 4 * int n"
  proof -
    have "uint (base + (t - base)) = uint base + uint (t - base)"
      using that assms(1,2) by (intro uint_plus_small) simp
    then show ?thesis using that assms(1,2) by (subst sint_uint_small) simp_all
  qed
  then have "uint (t - base) < 4 * int n \<Longrightarrow> uint base \<le> sint t \<and> sint t < uint base + 4 * int n"
    using uint_ge_0 [of "t - base"] by linarith
  moreover have "uint (t - base) < 4 * int n" if "uint base \<le> sint t" "sint t < uint base + 4 * int n"
  proof -
    have "sint t = uint t" using that(1) by (intro sint_nonneg) (meson order_trans uint_ge_0)
    then show ?thesis using that uint_minus_small [of base t] by simp
  qed
  ultimately have "uint base \<le> sint t \<and> sint t < uint base + 4 * int n \<longleftrightarrow> uint (t - base) < 4 * int n" by blast
  then show ?thesis unfolding is_in_fixing_range_def assms(3,4) b e i .
qed

lemma target_iff:
  assumes "branch_of (decode (code ! k)) = Some d" and "k < length code" and "length code \<le> 5"
  shows "target code k =
    (if inside base (length code) (base + 4 * of_nat k + word_of_int d)
     then Some (unat ((base + 4 * of_nat k + word_of_int d - base) div 4)) else None)"
  using assms by (simp add: target_def inside_def Let_def add.assoc)

lemma target_less: "target code k = Some j \<Longrightarrow> length code \<le> 5 \<Longrightarrow> j < length code"
proof -
  assume a: "target code k = Some j" "length code \<le> 5"
  then obtain t :: u64 where t: "t < 4 * of_nat (length code)" "j = unat (t div 4)"
    by (auto simp: target_def Let_def split: option.splits if_splits)
  have "unat (4 * of_nat (length code) :: u64) = 4 * length code"
    using a(2) by (simp add: unat_word_ariths unsigned_of_nat take_bit_nat_eq_self)
  then have "unat t < 4 * length code" using t(1) by (simp add: word_less_nat_alt)
  then show ?thesis using t(2) by (simp add: unat_div)
qed

section \<open>Normal forms of what a fixer did\<close>

lemma reset_reset [simp]: "reset_current_ins i b (reset_current_ins i a f) = reset_current_ins i b f"
  by (cases "i < length (dat (ctx f))") (simp_all add: reset_current_ins_def list_update_beyond)

lemma reset_emit [simp]: "reset_current_ins i a (emit ws f) = emit ws (reset_current_ins i a f)"
  by (simp add: reset_current_ins_def emit_def)

lemma emit_emit [simp]: "emit vs (emit ws f) = emit (ws @ vs) f"
  by (simp add: emit_def)

lemma emit_Nil [simp]: "emit [] f = f"
  by (simp add: emit_def)

lemma next_process: "next_in (process_fix_map i f) = process_fix_map i (next_in f)"
  by (simp add: next_in_def process_fix_map_def Let_def)

lemma outprx_reset [simp]: "outprx (reset_current_ins i a f) = outprx f"
  by (simp add: outprx_def reset_current_ins_def)

lemma outprx_emit [simp]: "outprx (emit ws f) = outprx f + 4 * of_nat (length ws)"
  by (simp add: outprx_def emit_def algebra_simps)

lemma reset_simps [simp]:
  "inprx (reset_current_ins i a f) = inprx f" "fx_in (reset_current_ins i a f) = fx_in f"
  "fx_out (reset_current_ins i a f) = fx_out f" "fx_rx (reset_current_ins i a f) = fx_rx f"
  "basep (ctx (reset_current_ins i a f)) = basep (ctx f)" "endp (ctx (reset_current_ins i a f)) = endp (ctx f)"
  "dat (ctx (reset_current_ins i a f)) = (dat (ctx f))[i := (dat (ctx f) ! i)\<lparr>ins_addr := a\<rparr>]"
  by (simp_all add: reset_current_ins_def)

lemma range_reset [simp]:
  "is_in_fixing_range t (ctx (reset_current_ins i a f)) = is_in_fixing_range t (ctx f)"
  "get_ref_ins_index t (ctx (reset_current_ins i a f)) = get_ref_ins_index t (ctx f)"
  by (simp_all add: is_in_fixing_range_def get_ref_ins_index_def)

lemma emit_simps [simp]:
  "inprx (emit ws f) = inprx f" "fx_in (emit ws f) = fx_in f" "fx_out (emit ws f) = fx_out f @ ws" "fx_rx (emit ws f) = fx_rx f"
  "ctx (emit ws f) = ctx f"
  by (simp_all add: emit_def)

lemma handled_outside:
  assumes "target code k = None" and "f2 = emit (replicate nn Aarch64Nop @ ws) (reset_current_ins k A f)"
    and "\<not> is_adrp (decode (code ! k)) \<longrightarrow> A = outprx f + 4 * of_nat nn" and "nn + length ws \<le> 9"
    and "relocates ot m0 (inside base (length code)) (code ! k) (base + 4 * of_nat k) (outprx f + 4 * of_nat nn) ws"
  shows "handled ot m0 code base k f l f2 (length (fx_out f) + nn)"
  unfolding handled_def using assms by (auto simp: outprx_def noted_def algebra_simps)

lemma handled_back:
  assumes "target code k = Some j" and "\<not> k < j" and "f2 = emit [enc (code ! k) (if j < k then dist (length (fx_out f)) (l j) else 0)] (reset_current_ins k (outprx f) f)"
  shows "handled ot m0 code base k f l f2 (length (fx_out f))"
  unfolding handled_def using assms by (auto simp: outprx_def noted_def)

lemma handled_forward:
  assumes "target code k = Some j" and "k < j"
    and "f2 = emit [enc (code ! k) 0] (insert_fix_map j (entry code (\<lambda>i. length (fx_out f)) k) (reset_current_ins k (outprx f) f))"
    and "length (fmap (dat (ctx f) ! j)) < MaxReferences"
  shows "handled ot m0 code base k f l f2 (length (fx_out f))"
  unfolding handled_def using assms by (auto simp: outprx_def noted_def insert_fix_map_def Let_def)

section \<open>Branches\<close>

lemma stageD:
  assumes "stage ot m0 code base k f e l" and "k < length code" and "length code \<le> 5" and "geometry base (fx_rx f)"
  shows "hd (fx_in f) = code ! k" "inprx f = base + 4 * of_nat k" "current_index f = k" "length (dat (ctx f)) = 5"
    "is_in_fixing_range t (ctx f) = inside base (length code) t" "get_ref_ins_index t (ctx f) = unat ((t - base) div 4)"
    "length (fx_out f) \<le> 9 * k" "\<And>j. j < length code \<Longrightarrow> length (fmap (dat (ctx f) ! j)) \<le> k"
    "\<And>i. i < k \<Longrightarrow> \<not> is_adrp (decode (code ! i)) \<Longrightarrow> ins_addr (dat (ctx f) ! i) = fx_rx f + 4 * of_nat (l i)"
proof -
  note s = assms(1) [unfolded stage_def]
  show "hd (fx_in f) = code ! k" using s assms(2) by (simp add: hd_drop_conv_nth)
  show "current_index f = k" using s assms(2,3) by (intro current_index_eq) auto
  show "is_in_fixing_range t (ctx f) = inside base (length code) t"
    using s assms(3,4) by (intro in_range_iff) (auto simp: geometry_def)
  have b: "blocks k (fx_out f) e l" using s by simp
  show "length (fx_out f) \<le> 9 * k" using blocks_length [OF b order_refl] b by (simp add: blocks_def)
  show "length (fmap (dat (ctx f) ! j)) \<le> k" if "j < length code" for j
    using s that length_filter_le [of "\<lambda>i. target code i = Some j" "[0..<k]"] by (simp add: pending_def)
qed (use assms(1) in \<open>auto simp: stage_def MaxInstructions_def get_ref_ins_index_def\<close>)

definition done_by :: "'w others \<Rightarrow> image \<Rightarrow> u32 list \<Rightarrow> u64 \<Rightarrow> nat \<Rightarrow> fixer \<Rightarrow> (nat \<Rightarrow> nat) \<Rightarrow> fixer \<Rightarrow> bool" where
  "done_by ot m0 code base k f l f' \<longleftrightarrow>
     (\<exists>f2 lk. handled ot m0 code base k f l f2 lk \<and> f' = process_fix_map k (next_in f2))"

lemma aligned_uint: "take_bit 2 x = 0 \<longleftrightarrow> take_bit 2 (uint x) = 0" for x :: u64
  by (simp add: uint_0_iff flip: unsigned_take_bit_eq)

lemma aligned_diff: "take_bit 2 x = 0 \<Longrightarrow> take_bit 2 y = 0 \<Longrightarrow> take_bit 2 (x - y) = 0" for x y :: u64
proof -
  assume "take_bit 2 x = 0" "take_bit 2 y = 0"
  then have "take_bit 2 (take_bit 2 (uint x) - take_bit 2 (uint y)) = 0" unfolding aligned_uint by simp
  then show ?thesis unfolding aligned_uint take_bit_diff uint_word_arith_bintrs(2) by simp
qed

lemma aligned_add: "take_bit 2 x = 0 \<Longrightarrow> take_bit 2 y = 0 \<Longrightarrow> take_bit 2 (x + y) = 0" for x y :: u64
proof -
  assume "take_bit 2 x = 0" "take_bit 2 y = 0"
  then have "take_bit 2 (take_bit 2 (uint x) + take_bit 2 (uint y)) = 0" unfolding aligned_uint by simp
  then show ?thesis unfolding aligned_uint take_bit_add uint_word_arith_bintrs(1) by simp
qed

lemma aligned_4: "take_bit 2 (word_of_int (4 * i) :: u64) = 0" "take_bit 2 (4 * of_nat n :: u64) = 0"
proof -
  show i: "take_bit 2 (word_of_int (4 * i) :: u64) = 0" for i
    unfolding aligned_uint uint_word_of_int_eq by (simp add: take_bit_take_bit) (simp add: take_bit_eq_mod)
  show "take_bit 2 (4 * of_nat n :: u64) = 0" using i [of "int n"] by simp
qed

lemma done_byI: "handled ot m0 code base k f l f2 lk \<Longrightarrow> done_by ot m0 code base k f l (process_fix_map k (next_in f2))"
  by (auto simp: done_by_def)

lemma outside_done:
  assumes "target code k = None"
    and "relocates ot m0 (inside base (length code)) (code ! k) (base + 4 * of_nat k) (outprx f + 4 * of_nat nn) ws"
    and "nn + length ws \<le> 9"
  shows "done_by ot m0 code base k f l (process_fix_map k (next_in
    (emit (replicate nn Aarch64Nop @ ws) (reset_current_ins k (outprx f + 4 * of_nat nn) f))))"
  by (rule done_byI, rule handled_outside [OF assms(1) refl _ assms(3,2)]) simp

lemma inside_done:
  assumes st: "stage ot m0 code base k f e l" and k: "k < length code" "length code \<le> 5" and g: "geometry base (fx_rx f)"
    and mv: "movable base (fx_rx f) code" and j: "target code k = Some j"
  shows "k < j \<Longrightarrow> done_by ot m0 code base k f l (process_fix_map k (next_in (emit [enc (code ! k) 0]
      (insert_fix_map j (entry code (\<lambda>i. length (fx_out f)) k) (reset_current_ins k (outprx f) f)))))"
    and "\<not> k < j \<Longrightarrow> done_by ot m0 code base k f l (process_fix_map k (next_in (emit
      [enc (code ! k) (signed_drop_bit 2 (ins_addr (dat (ctx (reset_current_ins k (outprx f) f)) ! j) - outprx f))]
      (reset_current_ins k (outprx f) f))))"
proof -
  note D = stageD [OF st k g]
  have nadrp: "\<not> is_adrp (decode (code ! j))" using mv k(1) j by (auto simp: movable_def)
  have "length (fmap (dat (ctx f) ! j)) < MaxReferences"
    using D(8) [OF target_less [OF j k(2)]] k by (simp add: MaxReferences_def MaxInstructions_def)
  then show "k < j \<Longrightarrow> done_by ot m0 code base k f l (process_fix_map k (next_in (emit [enc (code ! k) 0]
      (insert_fix_map j (entry code (\<lambda>i. length (fx_out f)) k) (reset_current_ins k (outprx f) f)))))"
    using handled_forward [OF j _ refl] done_byI by blast
  assume nj: "\<not> k < j"
  have "signed_drop_bit 2 (ins_addr (dat (ctx (reset_current_ins k (outprx f) f)) ! j) - outprx f) =
      (if j < k then dist (length (fx_out f)) (l j) else 0)"
    using nj D(4,9) nadrp k by (auto simp: outprx_def dist_def nth_list_update)
  then show "done_by ot m0 code base k f l (process_fix_map k (next_in (emit
      [enc (code ! k) (signed_drop_bit 2 (ins_addr (dat (ctx (reset_current_ins k (outprx f) f)) ! j) - outprx f))]
      (reset_current_ins k (outprx f) f))))"
    using done_byI [OF handled_back [OF j nj refl]] by (simp only:)
qed

text \<open>A distance to a place outside is exact, since all addresses are multiples of four.\<close>

lemma aligned_outprx:
  assumes "geometry base (fx_rx f)"
  shows "take_bit 2 (outprx f) = 0" "take_bit 2 (base + 4 * of_nat k) = 0" "take_bit 2 (base + 4 * of_nat k + word_of_int (4 * i)) = 0"
  using assms aligned_4 unfolding outprx_def geometry_def by (auto intro!: aligned_add simp del: of_int_mult)

lemma fix_branch_imm_done:
  assumes st: "stage ot m0 code base k f e l" and k: "k < length code" "length code \<le> 5" and g: "geometry base (fx_rx f)"
    and mv: "movable base (fx_rx f) code"
  shows "case fix_branch_imm f of Fixed f' \<Rightarrow> done_by ot m0 code base k f l f'
    | Not_mine \<Rightarrow> (\<forall>d. decode (code ! k) \<noteq> I_B d \<and> decode (code ! k) \<noteq> I_BL d) \<and> code ! k AND 0xfc000000 \<noteq> 0x14000000 \<and> code ! k AND 0xfc000000 \<noteq> 0x94000000
    | Fault \<Rightarrow> False"
proof (cases "code ! k AND 0xfc000000 = 0x14000000 \<or> code ! k AND 0xfc000000 = 0x94000000")
  case False
  then show ?thesis using stageD(1) [OF st k g] by (auto simp: fix_branch_imm_def Let_def decode_def split: if_splits option.splits)
next
  case True
  let ?w = "code ! k" and ?a = "base + 4 * of_nat k"
  define d where "d = 4 * simm 0 26 ?w"
  define b where "b = (?w AND 0xfc000000 = 0x14000000)"
  note D = stageD [OF st k g]
  define t where "t = ?a + word_of_int d"
  let ?p = "outprx f" and ?n = "length code"
  have hd: "hd (fx_in f) = ?w" by (rule D(1))
  have abs: "inprx f + scast (signed_drop_bit 4 (push_bit 6 ?w) :: u32) = t"
    by (simp only: D(2) t_def d_def branch_offset)
  have dec: "decode ?w = (if b then I_B d else I_BL d)" using True by (auto simp: b_def d_def decode_def)
  then have br: "branch_of (decode ?w) = Some d" by simp
  have opc: "?w AND 0xfc000000 = (if b then 0x14000000 else 0x94000000)" using True by (auto simp: b_def)
  have mi: "movable_insn base (fx_rx f) ?n ?a (decode ?w)" using mv k by (simp add: movable_def)
  have tg: "target code k = (if inside base ?n t then Some (unat ((t - base) div 4)) else None)"
    unfolding t_def by (rule target_iff [OF br k])
  have al: "take_bit 2 (t - ?p) = 0"
    using aligned_outprx [OF g] unfolding t_def d_def by (intro aligned_diff)
  define off where "off = signed_drop_bit 2 (t - ?p)"
  have reach: "?p + word_of_int (4 * sint off) = t" unfolding off_def by (rule distance_reached [OF al])
  note eqs = fix_branch_imm_def Let_def get_and_set_current_index_def hd opc abs D(3,5,6)
  consider (ins) "inside base ?n t" | (near) "\<not> inside base ?n t" "\<not> 0x1ffffff \<le> \<bar>sint off\<bar>" | (far) "\<not> inside base ?n t" "0x1ffffff \<le> \<bar>sint off\<bar>"
    by blast
  then have "\<exists>f'. fix_branch_imm f = Fixed f' \<and> done_by ot m0 code base k f l f'"
  proof cases
    case near
    define w' :: u32 where "w' = (if b then 0x14000000 else 0x94000000) OR (ucast off AND 0x03ffffff)"
    have "- (2 ^ 25) \<le> sint off" "sint off < 2 ^ 25" using near by (auto simp: abs_if split: if_splits)
    from decode_jump [OF this] dec have "decode w' = with_offset (decode ?w) (4 * sint off)" by (simp add: w'_def)
    then have "relocates ot m0 (inside base ?n) ?w ?a ?p [w']"
      by (rule relocates_branch [OF br]) (simp only: reach t_def)
    then show ?thesis
      using outside_done [of code k ot m0 base f 0 "[w']" l] near tg by (simp add: eqs w'_def flip: off_def)
  next
    case far
    define nn where "nn = (if aligned8 (?p + 8) = b then 0 else 1 :: nat)"
    define ws where "ws = (if b then [0x58000051, 0xd61f0220] else [0x58000071, 0x1000009e, 0xd61f0220]) @ addr_words t"
    have "relocates ot m0 (inside base ?n) ?w ?a (?p + 4 * of_nat nn) ws"
      using relocates_jump_far [of ?w d t ?a] relocates_call_far [of ?w d t ?a] dec by (auto simp: ws_def t_def)
    moreover have "nn + length ws \<le> 9" by (simp add: nn_def ws_def addr_words_def)
    ultimately have "done_by ot m0 code base k f l (process_fix_map k (next_in
        (emit (replicate nn Aarch64Nop @ ws) (reset_current_ins k (?p + 4 * of_nat nn) f))))"
      using far tg by (intro outside_done) simp_all
    moreover have "fix_branch_imm f = Fixed (process_fix_map k (next_in
        (emit (replicate nn Aarch64Nop @ ws) (reset_current_ins k (?p + 4 * of_nat nn) f))))"
      using far by (cases b; cases "aligned8 (?p + 8)") (simp_all add: eqs emit_nop_def nn_def ws_def flip: off_def)
    ultimately show ?thesis by blast
  next
    case ins
    then obtain j where j: "target code k = Some j" "j = unat ((t - base) div 4)" using tg by simp
    have b using mi dec ins by (auto simp: movable_insn_def t_def split: if_splits)
    then have e: "enc ?w x = 0x14000000 OR (ucast x AND 0x03ffffff)" for x using dec by (simp add: enc_def)
    show ?thesis
      using inside_done [OF st k g mv j(1)] ins \<open>b\<close> dec by (cases "k < j") (simp_all add: eqs e entry_def flip: j(2))
  qed
  then show ?thesis by auto
qed

section \<open>Conditional branches\<close>

lemma cond_classes:
  "w AND 0xff000010 = 0x54000000 \<Longrightarrow> decode w = I_Bcond (field 0 4 w) (4 * simm 5 19 w)"
  "w AND 0x7E000000 = 0x34000000 \<Longrightarrow> decode w = I_CBZ (bit w 31) (bit w 24) (field 0 5 w) (4 * simm 5 19 w)"
  "w AND 0x7E000000 = 0x36000000 \<Longrightarrow>
    decode w = I_TBZ (bit w 24) (field 19 5 w + (if bit w 31 then 32 else 0)) (field 0 5 w) (4 * simm 5 14 w)"
  by (auto simp: decode_def mask_bits)

lemma relocates_nop:
  assumes "nop_ok ot" and "relocates ot m0 ins w a (p + 4) ws"
  shows "relocates ot m0 ins w a p (Aarch64Nop # ws)"
proof (rule relocatesI)
  fix m c t c1
  assume m: "at_words m p (Aarch64Nop # ws)" and ag: "\<And>x v. m0 x = Some v \<Longrightarrow> \<not> ins x \<Longrightarrow> m x = Some v"
    and e: "execute ot m0 (decode w) a c = Some (t, c1)"
  from assms(2) [unfolded relocates_def, rule_format, of m c t c1] m ag e obtain n c'
    where n: "run ot m n (p + 4, c) = Some (follow (p + 4 + 4 * word_of_nat (length ws)) t, c')"
      "if t = None then c' = c1 else left_as (a + 4) (p + 4 + 4 * word_of_nat (length ws)) c1 c'" by auto
  have "step ot m (p, c) = Some (p + 4, c)"
    using m assms(1) decode_nop by (simp add: step_def nop_ok_def Aarch64Nop_def nop_word_def follow_def)
  then have "run ot m (Suc n) (p, c) = Some (follow (p + 4 * word_of_nat (length (Aarch64Nop # ws))) t, c')"
    using n(1) by (simp add: algebra_simps)
  then show "\<exists>n c'. run ot m n (p, c) = Some (follow (p + 4 * word_of_nat (length (Aarch64Nop # ws))) t, c') \<and>
      (if t = None then c' = c1 else left_as (a + 4) (p + 4 * word_of_nat (length (Aarch64Nop # ws))) c1 c')"
    using n(2) by (intro exI [of _ "Suc n"] exI [of _ c']) (simp add: algebra_simps split: if_splits)
qed

lemma fix_cond_done:
  assumes st: "stage ot m0 code base k f e l" and k: "k < length code" "length code \<le> 5" and g: "geometry base (fx_rx f)"
    and mv: "movable base (fx_rx f) code" and nop: "nop_ok ot"
  shows "case fix_cond_comp_test_branch f of Fixed f' \<Rightarrow> done_by ot m0 code base k f l f'
    | Not_mine \<Rightarrow> code ! k AND 0xff000010 \<noteq> 0x54000000 \<and> code ! k AND 0x7E000000 \<noteq> 0x34000000 \<and> code ! k AND 0x7E000000 \<noteq> 0x36000000
    | Fault \<Rightarrow> False"
proof (cases "code ! k AND 0xff000010 = 0x54000000 \<or> code ! k AND 0x7E000000 = 0x34000000 \<or> code ! k AND 0x7E000000 = 0x36000000")
  case False
  then have "cond_lmask (code ! k) = None" using near_class [of "code ! k"] by (auto simp: cond_lmask_def Let_def)
  then show ?thesis using False stageD(1) [OF st k g] by (simp add: fix_cond_comp_test_branch_def)
next
  case True
  let ?w = "code ! k" and ?a = "base + 4 * of_nat k"
  define near where "near = (?w AND 0xff000010 = 0x54000000 \<or> ?w AND 0x7E000000 = 0x34000000)"
  define lm :: u32 where "lm = (if near then 0xff00001f else 0xfff8001f)"
  define d where "d = (if near then 4 * simm 5 19 ?w else 4 * simm 5 14 ?w)"
  define put where "put = (if near then put19 else put14)"
  note D = stageD [OF st k g]
  define t where "t = ?a + word_of_int d"
  let ?p = "outprx f" and ?n = "length code"
  have hd: "hd (fx_in f) = ?w" by (rule D(1))
  have br: "branch_of (decode ?w) = Some d" "decode ?w \<noteq> I_B d" "decode ?w \<noteq> I_BL d"
    using True cond_classes [of ?w] by (auto simp: near_def d_def)
  have mi: "movable_insn base (fx_rx f) ?n ?a (decode ?w)" using mv k by (simp add: movable_def)
  have d0: "0 \<le> d" using mi True cond_classes [of ?w] by (auto simp: near_def d_def movable_insn_def)
  have abs: "inprx f + ucast (drop_bit 3 (?w AND NOT lm)) = t"
    using d0 cond_offset [of ?w] test_offset [of ?w] unfolding lm_def t_def d_def D(2) by (cases near) (simp_all only: if_True if_False)
  have abs: "inprx f + ucast (drop_bit 3 ?w AND drop_bit 3 (NOT lm)) = t" using abs by simp
  have lim: "uint (drop_bit 6 (NOT lm)) = (if near then 0x3ffff else 0x1fff)" by (simp add: lm_def)
  have dec: "decode (put off ?w) = with_offset (decode ?w) (4 * sint off)"
    if "\<bar>sint off\<bar> < (if near then 0x3ffff else 0x1fff)" for off
  proof -
    have "near \<longrightarrow> - (2 ^ 18) \<le> sint off \<and> sint off < 2 ^ 18" "\<not> near \<longrightarrow> - (2 ^ 13) \<le> sint off \<and> sint off < 2 ^ 13"
      using that by (auto simp: abs_if split: if_splits)
    then show ?thesis using True cond_classes [of ?w] decode_put19 [of off ?w] decode_put14 [of off ?w]
      by (cases near) (auto simp: put_def near_def)
  qed
  have put: "(ucast (push_bit 5 x) AND NOT lm) OR (?w AND lm) = put x ?w" for x
    by (simp add: put_def lm_def put19_def put14_def)
  have short: "(0x40 AND NOT lm) OR (?w AND lm) = put 2 ?w" using put_short [of ?w] by (simp add: put_def lm_def)
  have tg: "target code k = (if inside base ?n t then Some (unat ((t - base) div 4)) else None)"
    unfolding t_def by (rule target_iff [OF br(1) k])
  have al: "take_bit 2 (t - ?p) = 0"
    using aligned_outprx [OF g] unfolding t_def d_def by (cases near) (auto intro: aligned_diff)
  define off where "off = signed_drop_bit 2 (t - ?p)"
  have reach: "?p + word_of_int (4 * sint off) = t" unfolding off_def by (rule distance_reached [OF al])
  have cls: "cond_lmask ?w = Some lm"
    using True near_class [of ?w] by (auto simp: cond_lmask_def near_def lm_def Let_def)
  have fc: "fix_cond_comp_test_branch f =
    (let f1 = reset_current_ins k ?p f; special = inside base ?n t;
         f2 = (if \<not> special \<and> (if near then 0x3ffff else 0x1fff) \<le> \<bar>sint off\<bar> then
                 emit ([put 2 ?w, 0x14000005, 0x58000051, 0xd61f0220] @ addr_words t)
                   (if \<not> aligned8 (?p + 16) then emit [Aarch64Nop] f1 else f1)
               else
                 let ref = unat ((t - base) div 4);
                     off1 = (if \<not> special then off else if ref \<le> k then signed_drop_bit 2 (ins_addr (dat (ctx f1) ! ref) - ?p) else 0)
                 in emit [put off1 ?w]
                      (if special \<and> k < ref then insert_fix_map ref \<lparr>fm_at = length (fx_out f), fm_ls = 5, fm_ad = NOT lm\<rparr> f1 else f1))
     in Fixed (process_fix_map k (next_in f2)))"
    by (simp add: fix_cond_comp_test_branch_def get_and_set_current_index_def Let_def hd cls abs D(3,5,6) lim put short off_def)
  consider (ins) "inside base ?n t" | (nr) "\<not> inside base ?n t" "\<not> (if near then 0x3ffff else 0x1fff) \<le> \<bar>sint off\<bar>"
    | (far) "\<not> inside base ?n t" "(if near then 0x3ffff else 0x1fff) \<le> \<bar>sint off\<bar>"
    by blast
  then have "\<exists>f'. fix_cond_comp_test_branch f = Fixed f' \<and> done_by ot m0 code base k f l f'"
  proof cases
    case nr
    then have "decode (put off ?w) = with_offset (decode ?w) (4 * sint off)" by (intro dec) simp
    then have "relocates ot m0 (inside base ?n) ?w ?a ?p [put off ?w]"
      by (rule relocates_branch [OF br(1)]) (simp only: reach t_def)
    then show ?thesis using outside_done [of code k ot m0 base f 0 "[put off ?w]" l] nr tg by (simp add: fc)
  next
    case far
    have "decode (put 2 ?w) = with_offset (decode ?w) 8" using dec [of 2] by simp
    then have r: "relocates ot m0 (inside base ?n) ?w ?a p ([put 2 ?w, 0x14000005, 0x58000051, 0xd61f0220] @ addr_words t)" for p
      by (rule relocates_cond_far [OF br]) (simp only: t_def)
    define ws where "ws = (if aligned8 (?p + 16) then [] else [Aarch64Nop]) @ [put 2 ?w, 0x14000005, 0x58000051, 0xd61f0220] @ addr_words t"
    have "relocates ot m0 (inside base ?n) ?w ?a ?p ws" using r relocates_nop [OF nop r] by (simp add: ws_def)
    moreover have "length ws \<le> 9" by (simp add: ws_def addr_words_def)
    ultimately show ?thesis
      using outside_done [of code k ot m0 base f 0 ws l] far tg by (cases "aligned8 (?p + 16)") (simp_all add: fc Let_def ws_def)
  next
    case ins
    then obtain j where j: "target code k = Some j" "j = unat ((t - base) div 4)" using tg by simp
    have e: "enc ?w x = put x ?w" for x using True cond_classes [of ?w] by (auto simp: enc_def put_def near_def)
    have en: "entry code (\<lambda>i. length (fx_out f)) k = \<lparr>fm_at = length (fx_out f), fm_ls = 5, fm_ad = NOT lm\<rparr>"
      using True cond_classes [of ?w] by (auto simp: entry_def lm_def near_def)
    show ?thesis
      using inside_done [OF st k g mv j(1)] ins by (cases "k < j") (simp_all add: fc Let_def e en flip: j(2))
  qed
  then show ?thesis by auto
qed

section \<open>Loads of constants\<close>

lemma read_image_eq: "read_image m a n = read_words m a n"
  by (induction n arbitrary: a) simp_all

lemma pad_until_first:
  assumes "ok (outprx f + 4 * of_nat j)" and "j \<le> n"
  shows "\<exists>i \<le> j. pad_until n ok f = Some (emit (replicate i Aarch64Nop) f) \<and> ok (outprx f + 4 * of_nat i)"
  using assms
proof (induction n arbitrary: f j)
  case 0
  then show ?case by (auto simp: emit_def)
next
  case (Suc n)
  show ?case
  proof (cases "ok (outprx f)")
    case True
    then show ?thesis by (intro exI [of _ 0]) (simp add: emit_def)
  next
    case False
    with Suc.prems(1) have "j \<noteq> 0" by (auto intro!: gr0I)
    then obtain j' where j: "j = Suc j'" using not0_implies_Suc by blast
    have "ok (outprx (emit [Aarch64Nop] f) + 4 * of_nat j')" "j' \<le> n" using Suc.prems j by (simp_all add: algebra_simps)
    from Suc.IH [OF this] obtain i where "i \<le> j'" "pad_until n ok (emit [Aarch64Nop] f) = Some (emit (replicate i Aarch64Nop) (emit [Aarch64Nop] f))"
      "ok (outprx (emit [Aarch64Nop] f) + 4 * of_nat i)" by blast
    then show ?thesis using False j by (intro exI [of _ "Suc i"]) (simp add: algebra_simps)
  qed
qed

text \<open>Within three words there is an address with any alignment up to sixteen bytes.\<close>

lemma multiple_up: "v mod 4 = 0 \<Longrightarrow> (v + 4 * ((- (v div 4)) mod 2 ^ m)) mod (4 * 2 ^ m) = 0" for v :: int
proof -
  assume "v mod 4 = 0"
  then obtain q where q: "v = 4 * q" by (metis mod_0_imp_dvd dvdE)
  have "(q + (- q) mod 2 ^ m) mod 2 ^ m = 0" by (simp add: mod_add_right_eq)
  moreover have "(4 * (q + (- q) mod 2 ^ m)) mod (4 * 2 ^ m) = 4 * ((q + (- q) mod 2 ^ m) mod 2 ^ m)" by (rule mult_mod_right [symmetric])
  ultimately show ?thesis using q by (simp add: algebra_simps)
qed

lemma pad_words:
  assumes "take_bit 2 x = 0" and "m \<le> 2"
  shows "\<exists>i < 2 ^ m. take_bit (2 + m) (x + 4 * of_nat i :: u64) = 0" and "\<exists>i < 2 ^ m. take_bit (2 + m) (x - 4 * of_nat i :: u64) = 0"
proof -
  have v: "uint x mod 4 = 0" using assms(1) unfolding aligned_uint by (simp add: take_bit_eq_mod)
  have e: "take_bit (2 + m) (x + word_of_int y) = 0 \<longleftrightarrow> (uint x + y) mod (4 * 2 ^ m) = 0" for y
  proof -
    have "word_of_int (uint x + y) = x + word_of_int y" by simp
    then have "take_bit (2 + m) (uint (x + word_of_int y)) = take_bit (2 + m) (uint x + y)"
      using uint_word_of_int_eq [of "uint x + y", where 'a = 64] assms(2) by (simp only:) (simp add: take_bit_take_bit min_def)
    moreover have "take_bit (2 + m) (x + word_of_int y) = 0 \<longleftrightarrow> take_bit (2 + m) (uint (x + word_of_int y)) = 0"
      by (metis uint_0_iff unsigned_take_bit_eq)
    ultimately show ?thesis by (simp add: take_bit_eq_mod power_add)
  qed
  obtain i where i: "0 \<le> i" "i < 2 ^ m" "(uint x + 4 * i) mod (4 * 2 ^ m) = 0"
    by (rule that [OF _ _ multiple_up [OF v]]) simp_all
  then show "\<exists>i < 2 ^ m. take_bit (2 + m) (x + 4 * of_nat i) = 0" using e [of "4 * i"]
    by (intro exI [of _ "nat i"]) (auto simp: nat_less_iff)
  have "(- uint x) mod 4 = 0" using v by (simp add: zmod_zminus1_eq_if)
  from multiple_up [OF this, of m] obtain i where i: "0 \<le> i" "i < 2 ^ m" "(- uint x + 4 * i) mod (4 * 2 ^ m) = 0"
    by (metis pos_mod_bound pos_mod_sign zero_less_numeral zero_less_power)
  then have "(uint x - 4 * i) mod (4 * 2 ^ m) = 0" using zmod_zminus1_eq_if [of "- uint x + 4 * i" "4 * 2 ^ m"] by simp
  then show "\<exists>i < 2 ^ m. take_bit (2 + m) (x - 4 * of_nat i) = 0" using i(1,2) e [of "- (4 * i)"]
    by (intro exI [of _ "nat i"]) (auto simp: nat_less_iff)
qed

definition align_bits :: "literal \<Rightarrow> nat" where
  "align_bits q = (case q of LitW \<Rightarrow> 0 | LitS \<Rightarrow> 0 | LitQ \<Rightarrow> 2 | _ \<Rightarrow> 1)"

lemma align_masks:
  "align_bits q \<le> 2" "literal_align q = Bit_Operations.mask (2 + align_bits q)"
  "drop_bit 2 (literal_align q) = Bit_Operations.mask (align_bits q)"
  "(uint (literal_align q) + 1 - 4) div 4 = 2 ^ align_bits q - 1"
  by (cases q; simp add: align_bits_def literal_align_def mask_eq_exp_minus_1)+

lemma align_and:
  assumes "take_bit (2 + align_bits q) y = 0"
  shows "y AND literal_align q = 0" and "signed_drop_bit 2 y AND drop_bit 2 (literal_align q) = 0"
proof -
  show "y AND literal_align q = 0" using assms by (simp add: align_masks(2) flip: take_bit_eq_mask)
  have "bit (take_bit (2 + align_bits q) y) (n + 2) = False" for n unfolding assms by simp
  then have "\<not> bit y (n + 2)" if "n < align_bits q" for n using that by (auto simp: bit_take_bit_iff)
  then show "signed_drop_bit 2 y AND drop_bit 2 (literal_align q) = 0"
    unfolding align_masks(3) using align_masks(1) [of q] by (intro bit_word_eqI) (auto simp: bit_simps min_def add.commute)
qed

definition copies :: "literal \<Rightarrow> nat" where
  "copies k = (case k of LitW \<Rightarrow> 1 | LitS \<Rightarrow> 1 | LitQ \<Rightarrow> 4 | _ \<Rightarrow> 2)"

definition readable :: "image \<Rightarrow> u64 \<Rightarrow> insn \<Rightarrow> bool" where
  "readable m a x \<longleftrightarrow> (case x of I_LDR k r d \<Rightarrow> read_words m (a + word_of_int d) (copies k) \<noteq> None | _ \<Rightarrow> True)"

lemma sint_diff:
  fixes p :: u64
  assumes "uint p < 2 ^ 62" and "0 \<le> T" and "T < 2 ^ 63"
  shows "sint (word_of_int T - p) = T - uint p"
proof -
  have "word_of_int (T - uint p) = word_of_int T - (word_of_int (uint p) :: u64)" by (rule of_int_diff)
  then have "sint (word_of_int T - p) = sint (word_of_int (T - uint p) :: u64)" by (simp only: word_of_int_uint)
  moreover have "sint (word_of_int (T - uint p) :: u64) = T - uint p"
  proof (rule sint_small)
    have "(2 :: int) ^ 63 = 2 * 2 ^ 62" "0 < (2 :: int) ^ 62" by simp_all
    then show "- (2 ^ 63) \<le> T - uint p" "T - uint p < 2 ^ 63" using assms uint_ge_0 [of p] by linarith+
  qed
  ultimately show ?thesis by (simp only:)
qed

lemma distance:
  fixes p :: u64
  assumes "uint p < 2 ^ 62" and "0 \<le> T" and "T < 2 ^ 63"
  shows "sint (signed_drop_bit 2 (word_of_int T - p)) = (T - uint p) div 4"
  using sint_diff [OF assms] by (simp add: sint_signed_drop_bit_eq drop_bit_eq_div)

text \<open>Where things are.\<close>

lemma uint_positions:
  assumes "stage ot m0 code base k f e l" and "k < length code" and "length code \<le> 5" and "geometry base (fx_rx f)" and "i \<le> 10"
  shows "uint (base + 4 * of_nat k) = uint base + 4 * int k"
    and "uint (outprx f + 4 * of_nat i) = uint (fx_rx f) + 4 * int (length (fx_out f)) + 4 * int i"
    and "length (fx_out f) \<le> 36"
proof -
  have l: "length (fx_out f) \<le> 36" using stageD(7) [OF assms(1-4)] assms(2,3) by linarith
  then show "length (fx_out f) \<le> 36" .
  have g: "uint base + 20 < 2 ^ 62" "uint (fx_rx f) + 200 < 2 ^ 62" using assms(4) by (auto simp: geometry_def)
  show "uint (base + 4 * of_nat k) = uint base + 4 * int k"
    using g(1) assms(2,3) uint_of_nat_4 [of k] uint_plus_small [of base "4 * of_nat k"] by simp
  have "uint (outprx f) = uint (fx_rx f) + 4 * int (length (fx_out f))"
    using g(2) l uint_of_nat_4 [of "length (fx_out f)"] uint_plus_small [of "fx_rx f" "4 * of_nat (length (fx_out f))"] by (simp add: outprx_def)
  then show "uint (outprx f + 4 * of_nat i) = uint (fx_rx f) + 4 * int (length (fx_out f)) + 4 * int i"
    using g(2) l assms(5) uint_of_nat_4 [of i] uint_plus_small [of "outprx f" "4 * of_nat i"] by simp
qed

lemma not_inside_after:
  assumes "\<not> inside base n (word_of_int T)" and "uint base \<le> T" and "T < 2 ^ 63" and "n \<le> 5" and "j \<le> 4"
  shows "\<not> inside base n (word_of_int T + 4 * of_nat j)"
proof -
  have u: "uint (word_of_int T + 4 * of_nat j - base) = T + 4 * int j - uint base" if "j \<le> 4" for j
  proof -
    have "word_of_int T + 4 * of_nat j = (word_of_int (T + 4 * int j) :: u64)" by simp
    moreover have "uint (word_of_int (T + 4 * int j) :: u64) = T + 4 * int j"
    proof -
      have "0 \<le> T + 4 * int j" using assms(2) uint_ge_0 [of base] by linarith
      moreover have "T + 4 * int j < 2 ^ 64" using assms(3) that by simp
      ultimately show ?thesis unfolding uint_word_of_int_eq by (intro take_bit_int_eq_self) simp_all
    qed
    ultimately show ?thesis using uint_minus_small [of base "word_of_int T + 4 * of_nat j"] assms(2) by simp
  qed
  have i: "inside base n x \<longleftrightarrow> uint (x - base) < 4 * int n" for x
    using uint_of_nat_4 [of n] assms(4) by (simp add: inside_def word_less_def)
  show ?thesis using assms(1) u [of 0] u [OF assms(5)] unfolding i by simp
qed

lemma copies_eq: "unat (literal_align q + 1) div 4 = copies q" "copies q = 1 \<or> copies q = 2 \<or> copies q = 4" "literal_words q \<le> copies q"
  by (cases q; simp add: literal_align_def copies_def)+

lemma fix_loadlit_done:
  assumes st: "stage ot m0 code base k f e l" and k: "k < length code" "length code \<le> 5" and g: "geometry base (fx_rx f)"
    and mv: "movable base (fx_rx f) code" and rd: "readable m0 (base + 4 * of_nat k) (decode (code ! k))"
  shows "case fix_loadlit m0 f of Fixed f' \<Rightarrow> done_by ot m0 code base k f l f'
    | Not_mine \<Rightarrow> code ! k AND 0x3B000000 \<noteq> 0x18000000 | Fault \<Rightarrow> False"
proof -
  let ?w = "code ! k" and ?a = "base + 4 * of_nat k" and ?p = "outprx f" and ?n = "length code"
  note D = stageD [OF st k g]
  have mi: "movable_insn base (fx_rx f) ?n ?a (decode ?w)" using mv k by (simp add: movable_def)
  consider (prfm) "?w AND 0xff000000 = 0xd8000000" | (other) "?w AND 0xff000000 \<noteq> 0xd8000000" "loadlit_class ?w = None"
    | (load) q r d where "?w AND 0xff000000 \<noteq> 0xd8000000" "loadlit_class ?w = Some (literal_mask q, literal_align q)" "decode ?w = I_LDR q r d" "d = 4 * simm 5 19 ?w"
  proof (cases "loadlit_class ?w")
    case (Some x)
    have "decode ?w \<noteq> I_undefined" using mi by (auto simp: movable_insn_def)
    then show thesis using Some that(1,3) decode_load [of ?w "fst x" "snd x"] by (metis prod.collapse)
  qed (use that in blast)
  then show ?thesis
  proof cases
    case prfm
    then have "target code k = None" by (simp add: target_def decode_prfm)
    have r: "relocates ot m0 (inside base ?n) ?w ?a (?p + 4 * of_nat 0) []" by (rule relocates_prfm [OF decode_prfm [OF prfm]])
    from outside_done [OF \<open>target code k = None\<close> r] show ?thesis using prfm D(1,3) by (simp add: fix_loadlit_def get_and_set_current_index_def next_process)
  next
    case other
    then show ?thesis using D(1) decode_not_load [of ?w] by (simp add: fix_loadlit_def)
  next
    case load
    note w = load(3)
    have tg: "target code k = None" by (simp add: target_def w)
    define t where "t = ?a + word_of_int d"
    have d0: "0 \<le> d" using mi w by (simp add: movable_insn_def)
    have abs: "inprx f + ucast (signed_drop_bit 11 (push_bit 8 ?w) AND NOT 3 :: u32) = t"
      using load_offset [of ?w] d0 load(4) by (simp only: D(2) t_def)
    then have abs': "inprx f + ucast (signed_drop_bit 11 (push_bit 8 ?w) AND - 4 :: u32) = t" by simp
    define off where "off = signed_drop_bit 2 (t - ?p)"
    define c where "c = (uint (literal_align q) + 1 - 4) div 4"
    show ?thesis
    proof (cases "inside base ?n t \<or> 0x3ffff \<le> \<bar>sint off\<bar> + c")
      case True
      obtain j where "j < 2 ^ align_bits q" "take_bit (2 + align_bits q) (?p + 8 + 4 * of_nat j) = 0"
        using pad_words(1) [OF aligned_add [OF aligned_outprx(1) [OF g], of 8] align_masks(1)] by auto
      moreover have "(2 :: nat) ^ align_bits q \<le> 4" by (cases q) (simp_all add: align_bits_def)
      ultimately have "(?p + 4 * of_nat j + 8) AND literal_align q = 0" "j \<le> 3"
        using align_and(1) [of q "?p + 4 * of_nat j + 8"] by (simp_all add: algebra_simps)
      with pad_until_first [of "\<lambda>a. (a + 8) AND literal_align q = 0" "reset_current_ins k ?p f" j 4]
      obtain i where i: "i \<le> 3" "pad_until 4 (\<lambda>a. (a + 8) AND literal_align q = 0) (reset_current_ins k ?p f) =
          Some (emit (replicate i Aarch64Nop) (reset_current_ins k ?p f))" by (auto intro: le_trans)
      obtain ws where ws: "read_words m0 t (copies q) = Some ws" using rd w by (auto simp: readable_def t_def)
      have p2: "(0x40 AND NOT (literal_mask q)) OR (?w AND 0xff00001f) = put19 2 ?w"
        using literal_put [OF w, of 2] by (simp add: push_bit_eq_mult)
      have "decode (put19 2 ?w) = I_LDR q r 8" using decode_put19(3) [OF _ _ w, of 2] by simp
      then have "relocates ot m0 (inside base ?n) ?w ?a (?p + 4 * of_nat i) ([put19 2 ?w, 0x14000001 + of_nat (copies q)] @ ws)"
        by (rule relocates_load_far [OF w _ copies_eq(2,3)]) (use ws in \<open>simp add: t_def\<close>)
      then have "done_by ot m0 code base k f l (process_fix_map k (next_in
          (emit (replicate i Aarch64Nop @ [put19 2 ?w, 0x14000001 + of_nat (copies q)] @ ws) (reset_current_ins k (?p + 4 * of_nat i) f))))"
        using i(1) read_words_length [OF ws] copies_eq(2) [of q] by (intro outside_done [OF tg]) auto
      moreover have "fix_loadlit m0 f = Fixed (process_fix_map k (next_in
          (emit (replicate i Aarch64Nop @ [put19 2 ?w, 0x14000001 + of_nat (copies q)] @ ws) (reset_current_ins k (?p + 4 * of_nat i) f))))"
        using True load(1,2) i(2) ws
        by (simp add: fix_loadlit_def get_and_set_current_index_def Let_def D(1,3,5) abs' copies_eq(1) read_image_eq p2 c_def off_def)
      ultimately show ?thesis by simp
    next
      case False
      define T where "T = uint ?a + d"
      have t: "t = word_of_int T" by (simp add: t_def T_def)
      have d20: "d < 2 ^ 20" using simm_range [of 19 5 ?w] load(4) by simp
      note pos = uint_positions [OF st k g]
      have g': "uint base + 20 < 2 ^ 62" "uint (fx_rx f) + 200 < 2 ^ 62" using g by (auto simp: geometry_def)
      have T: "uint base \<le> T" "0 \<le> T" "T < 2 ^ 63"
        using pos(1) [of 0] d0 d20 g'(1) k uint_ge_0 [of base] unfolding T_def by (simp_all del: uint_ge_0)
      have P: "uint (?p + 4 * of_nat i) < 2 ^ 62" if "i \<le> 10" for i using pos(2) [OF that] pos(3) [of 0] that g'(2) by simp
      have off: "sint (signed_drop_bit 2 (t - (?p + 4 * of_nat i))) = (T - uint ?p) div 4 - int i" if "i \<le> 10" for i
        using distance [OF P [OF that] T(2,3)] pos(2) [OF that] pos(2) [of 0] by (simp add: t)
      obtain j where j: "j < 2 ^ align_bits q" "take_bit (2 + align_bits q) (t - ?p - 4 * of_nat j) = 0"
        using pad_words(2) [OF _ align_masks(1), of "t - ?p" q] aligned_diff [OF aligned_outprx(3,1) [OF g]] load(4) by (auto simp: t_def)
      have "(2 :: nat) ^ align_bits q \<le> 4" by (cases q) (simp_all add: align_bits_def)
      with j have "signed_drop_bit 2 (t - (?p + 4 * of_nat j)) AND drop_bit 2 (literal_align q) = 0" "j \<le> 4"
        using align_and(2) [of q "t - (?p + 4 * of_nat j)"] by (simp_all add: algebra_simps)
      with pad_until_first [of "\<lambda>a. signed_drop_bit 2 (t - a) AND drop_bit 2 (literal_align q) = 0" "reset_current_ins k ?p f" j 4]
      obtain i where i: "i \<le> j" "pad_until 4 (\<lambda>a. signed_drop_bit 2 (t - a) AND drop_bit 2 (literal_align q) = 0) (reset_current_ins k ?p f) =
          Some (emit (replicate i Aarch64Nop) (reset_current_ins k ?p f))" by auto
      define off' where "off' = signed_drop_bit 2 (t - (?p + 4 * of_nat i))"
      have c: "c = 2 ^ align_bits q - 1" unfolding c_def by (rule align_masks(4))
      have ic: "int i \<le> c" "i \<le> 3" using i(1) j \<open>(2 :: nat) ^ align_bits q \<le> 4\<close> unfolding c by (simp_all add: of_nat_less_iff)
      have so: "sint off = (T - uint ?p) div 4" "sint off' = sint off - int i"
        using off [of 0] off [of i] ic(2) by (simp_all add: off_def off'_def)
      have near: "\<not> inside base ?n t" "\<bar>sint off\<bar> + c < 0x3ffff" using False by auto
      have r: "- (2 ^ 18) \<le> sint off'" "sint off' < 2 ^ 18" using near(2) ic so(2) by (simp_all add: abs_if split: if_splits)
      have ok: "0 \<le> sint off' \<and> sint off' < 2 ^ 18 \<or> q = LitX \<or> q = LitSW"
      proof -
        have "0 \<le> sint off'" if "uint (fx_rx f) + 200 \<le> T" using that so pos(2) [of 0] pos(3) [of 0] ic(2) by simp
        moreover have False if "T + 2 ^ 20 \<le> uint (fx_rx f)"
        proof -
          have "(T - uint ?p) div 4 \<le> - (2 ^ 18)" using that pos(2) [of 0] by simp
          then show False using near(2) so(1) ic(1) by simp
        qed
        ultimately show ?thesis using mi w r(2) by (auto simp: movable_insn_def T_def)
      qed
      have al: "take_bit 2 (t - (?p + 4 * of_nat i)) = 0"
        unfolding t_def load(4) by (rule aligned_diff [OF aligned_outprx(3) [OF g] aligned_add [OF aligned_outprx(1) [OF g] aligned_4(2)]])
      have reach: "?p + 4 * of_nat i + word_of_int (4 * sint off') = t" unfolding off'_def by (rule distance_reached [OF al])
      have ni: "\<not> inside base ?n (?a + word_of_int d + 4 * of_nat j)" if "j < literal_words q" for j
      proof -
        have j4: "j \<le> 4" using that by (cases q) simp_all
        show ?thesis unfolding t_def [symmetric] unfolding t by (rule not_inside_after [OF _ T(1,3) k(2) j4]) (rule near(1) [unfolded t])
      qed
      have "relocates ot m0 (inside base ?n) ?w ?a (?p + 4 * of_nat i) [put19 off' ?w]"
        by (rule relocates_load_near [OF w decode_put19(3) [OF r w] reach [unfolded t_def]]) (rule ni)
      from outside_done [OF tg this, of l] have "done_by ot m0 code base k f l (process_fix_map k (next_in
          (emit (replicate i Aarch64Nop @ [put19 off' ?w]) (reset_current_ins k (?p + 4 * of_nat i) f))))" using ic(2) by simp
      moreover have "fix_loadlit m0 f = Fixed (process_fix_map k (next_in
          (emit (replicate i Aarch64Nop @ [put19 off' ?w]) (reset_current_ins k (?p + 4 * of_nat i) f))))"
        using False load(1,2) i(2) literal_put [OF w ok]
        by (simp add: fix_loadlit_def get_and_set_current_index_def Let_def D(1,3,5) abs' c_def flip: off_def off'_def)
      ultimately show ?thesis by simp
    qed
  qed
qed

section \<open>Addresses\<close>

lemma field_bits: "ucast (drop_bit 30 (push_bit 1 w)) = (word_of_int (int (field 29 2 w)) :: u64)"
proof -
  have "drop_bit 30 (push_bit k w) = take_bit 2 (drop_bit 29 w)" if "k = 1" for k
  proof (rule bit_word_eqI)
    fix n
    have "30 + n - k = 29 + n" "k \<le> 30 + n" using that by simp_all
    then show "bit (drop_bit 30 (push_bit k w)) n = bit (take_bit 2 (drop_bit 29 w)) n"
      by (auto simp: bit_simps dest: bit_imp_le_length)
  qed
  then show ?thesis by (simp only:) (simp add: field_def)
qed

lemma address_offset:
  assumes "0 \<le> 4 * simm 5 19 w + int (field 29 2 w)"
  shows "ucast (signed_drop_bit 11 (push_bit 8 w) AND NOT 3 :: u32) OR ucast (drop_bit 30 (push_bit 1 w)) =
    (word_of_int (4 * simm 5 19 w + int (field 29 2 w)) :: u64)"
proof -
  let ?A = "ucast (signed_drop_bit 11 (push_bit 8 w) AND NOT 3 :: u32) :: u64" and ?B = "ucast (drop_bit 30 (push_bit 1 w)) :: u64"
  have "field 29 2 w < 4" using take_bit_nat_less_exp [of 2 "unat (drop_bit 29 w)"] by (simp add: field_def unsigned_take_bit_eq)
  then have "0 \<le> simm 5 19 w" using assms by simp
  from load_offset [OF this] have A: "?A = word_of_int (4 * simm 5 19 w)" .
  have "?A AND ?B = 0"
  proof (rule bit_word_eqI)
    fix n
    have "bit ?B n \<Longrightarrow> n < 2" by (auto simp: bit_simps dest: bit_imp_le_length)
    moreover have "n < 2 \<Longrightarrow> \<not> bit ?A n" by (auto simp: bit_simps less_2_cases_iff)
    ultimately show "bit (?A AND ?B) n = bit (0 :: u64) n" by (auto simp: bit_and_iff)
  qed
  then have "?A OR ?B = ?A + ?B" by (rule disjunctive_add_eq_or [symmetric])
  then show ?thesis unfolding A field_bits by simp
qed

lemma offset_range: "int (field 29 2 w) < 4" "4 * simm 5 19 w + int (field 29 2 w) < 2 ^ 20"
  using simm_range [of 19 5 w] take_bit_nat_less_exp [of 2 "unat (drop_bit 29 w)"] by (simp_all add: field_def unsigned_take_bit_eq)

lemma page_offset:
  assumes "0 \<le> 4 * simm 5 19 w + int (field 29 2 w)"
  shows "ucast (push_bit 12 ((signed_drop_bit 11 (push_bit 8 w) AND NOT 3) OR drop_bit 30 (push_bit 1 w)) :: u32) =
    (word_of_int (4096 * (4 * simm 5 19 w + int (field 29 2 w))) :: u64)"
proof -
  define d where "d = 4 * simm 5 19 w + int (field 29 2 w)"
  define x :: u32 where "x = (signed_drop_bit 11 (push_bit 8 w) AND NOT 3) OR drop_bit 30 (push_bit 1 w)"
  have "d < 2 ^ 20" unfolding d_def by (rule offset_range)
  have "ucast x = (word_of_int d :: u64)" using address_offset [OF assms] unfolding x_def d_def unsigned_or_eq .
  from arg_cong [OF this, of uint] have "uint x = take_bit 64 d" by (simp add: unsigned_ucast_eq uint_word_of_int_eq bintr_uint)
  also have "\<dots> = d" using assms \<open>d < 2 ^ 20\<close> by (intro take_bit_int_eq_self) (simp_all add: d_def)
  finally have x: "uint x = d" .
  have "uint (push_bit 12 x) = take_bit 32 (4096 * d)" by (simp add: push_bit_eq_mult uint_word_arith_bintrs x mult.commute)
  also have "\<dots> = 4096 * d" using assms \<open>d < 2 ^ 20\<close> by (intro take_bit_int_eq_self) (simp_all add: d_def)
  finally have "ucast (push_bit 12 x) = (word_of_int (4096 * d) :: u64)" by (metis word_of_int_uint unsigned_ucast_eq ucast_eq)
  then show ?thesis unfolding x_def d_def .
qed

lemma address_put:
  assumes "take_bit 2 x = 0"
  shows "(ucast (push_bit 3 (x :: u64)) AND 0x00ffffff) OR (w AND 0xff00001f) = put19 (signed_drop_bit 2 x) w"
proof -
  have b: "\<not> bit x n" if "n < 2" for n
  proof -
    have "bit (take_bit 2 x) n = False" unfolding assms by simp
    then show ?thesis using that by (simp add: bit_take_bit_iff)
  qed
  have "(ucast (push_bit 3 x) AND 0x00ffffff) = (ucast (push_bit 5 (signed_drop_bit 2 x)) AND NOT 0xff00001f :: u32)"
    unfolding field_masks
  proof (rule bit_word_eqI)
    fix n
    show "bit (ucast (push_bit 3 x) AND mask 24 :: u32) n = bit (ucast (push_bit 5 (signed_drop_bit 2 x)) AND NOT (NOT (push_bit 5 (mask 19))) :: u32) n"
    proof (cases "n < 5")
      case True
      then show ?thesis using b [of "n - 3"] by (auto simp: bit_simps)
    next
      case False
      then obtain m where "n = 5 + m" using le_Suc_ex not_less by blast
      then show ?thesis by (auto simp: bit_simps min_def)
    qed
  qed
  then show ?thesis by (simp only: put19_def)
qed

lemma address_classes:
  "w AND 0x9F000000 = 0x10000000 \<Longrightarrow> decode w = I_ADR (field 0 5 w) (4 * simm 5 19 w + int (field 29 2 w))"
  "w AND 0x9F000000 = 0x90000000 \<Longrightarrow> decode w = I_ADRP (field 0 5 w) (4 * simm 5 19 w + int (field 29 2 w))"
  by (auto simp: decode_def mask_bits)

lemma fix_adr_done:
  assumes st: "stage ot m0 code base k f e l" and k: "k < length code" "length code \<le> 5" and g: "geometry base (fx_rx f)"
    and mv: "movable base (fx_rx f) code" and w: "code ! k AND 0x9f000000 = 0x10000000"
  shows "\<exists>f'. fix_adr f = Fixed f' \<and> done_by ot m0 code base k f l f'"
proof -
  let ?w = "code ! k" and ?a = "base + 4 * of_nat k" and ?p = "outprx f" and ?n = "length code"
  note D = stageD [OF st k g] and pos = uint_positions [OF st k g]
  define d where "d = 4 * simm 5 19 ?w + int (field 29 2 ?w)"
  define r where "r = field 0 5 ?w"
  have dec: "decode ?w = I_ADR r d" using address_classes(1) [OF w] by (simp add: r_def d_def)
  have tg: "target code k = None" by (simp add: target_def dec)
  have mi: "movable_insn base (fx_rx f) ?n ?a (decode ?w)" using mv k by (simp add: movable_def)
  then have d0: "0 \<le> d" by (simp add: dec movable_insn_def)
  define t where "t = ?a + word_of_int d"
  have abs: "inprx f + ((ucast (signed_drop_bit 11 (push_bit 8 ?w) AND NOT 3 :: u32)) OR ucast (drop_bit 30 (push_bit 1 ?w))) = t"
    using address_offset [of ?w] d0 unfolding t_def d_def D(2) by (simp only:)
  have ni: "\<not> inside base ?n t" using mi by (simp add: dec movable_insn_def t_def)
  define off where "off = t - ?p"
  define f2 where "f2 = (if 0xfffff \<le> \<bar>sint off\<bar>
      then emit ([0x58000000 OR 0x40 OR (?w AND 0x1f), 0x14000003] @ addr_words t)
        (if \<not> aligned8 (?p + 8) then emit_nop k (reset_current_ins k ?p f) else reset_current_ins k ?p f)
      else emit [(ucast (push_bit 3 off) AND 0x00ffffff) OR (?w AND 0xff00001f)] (reset_current_ins k ?p f))"
  have eq: "fix_adr f = Fixed (process_fix_map k (next_in f2))"
    unfolding fix_adr_def get_and_set_current_index_def Let_def D(1,3) prod.case reset_simps outprx_reset abs range_reset D(5) f2_def off_def
    using ni by simp
  have "\<exists>nn ws. f2 = emit (replicate nn Aarch64Nop @ ws) (reset_current_ins k (?p + 4 * of_nat nn) f) \<and> nn + length ws \<le> 9 \<and>
      relocates ot m0 (inside base ?n) ?w ?a (?p + 4 * of_nat nn) ws"
  proof (cases "0xfffff \<le> \<bar>sint off\<bar>")
    case True
    have "relocates ot m0 (inside base ?n) ?w ?a p ([0x58000000 OR 0x40 OR (?w AND 0x1f), 0x14000003] @ addr_words t)" for p
      by (rule relocates_address_far [where r = r]) (simp_all only: dec execute.simps t_def decode_address_load r_def)
    then show ?thesis using True
      by (intro exI [of _ "if aligned8 (?p + 8) then 0 else 1"] exI [of _ "[0x58000000 OR 0x40 OR (?w AND 0x1f), 0x14000003] @ addr_words t"])
        (simp add: f2_def emit_nop_def addr_words_def)
  next
    case False
    define T where "T = uint ?a + d"
    have tT: "t = word_of_int T" by (simp add: t_def T_def)
    have d20: "d < 2 ^ 20" using offset_range [of ?w] by (simp add: d_def)
    have g': "uint base + 20 < 2 ^ 62" "uint (fx_rx f) + 200 < 2 ^ 62" using g by (auto simp: geometry_def)
    have "sint off = T - uint ?p" unfolding off_def tT
      using pos(1,2) [of 0] pos(3) [of 0] d0 d20 g' k uint_ge_0 [of base] by (intro sint_diff) (simp_all add: T_def del: uint_ge_0)
    then have "\<not> (uint (fx_rx f) + 200 + 2 ^ 20 \<le> T \<or> T + 2 ^ 20 \<le> uint (fx_rx f))"
      using False pos(2) [of 0] pos(3) [of 0] by (auto simp: abs_if split: if_splits)
    then have m: "d mod 4 = 0" using mi by (auto simp: dec movable_insn_def T_def)
    then have fz: "int (field 29 2 ?w) = 0" and ds: "d = 4 * simm 5 19 ?w" using offset_range [of ?w] by (auto simp: d_def)
    have al: "take_bit 2 off = 0" unfolding off_def t_def ds by (rule aligned_diff [OF aligned_outprx(3,1) [OF g]])
    let ?o = "signed_drop_bit 2 off"
    have "- (2 ^ 18) \<le> sint ?o" "sint ?o < 2 ^ 18"
      using False by (auto simp: sint_signed_drop_bit_eq drop_bit_eq_div abs_if split: if_splits)
    from decode_put19(4) [OF this dec] have "decode (put19 ?o ?w) = I_ADR r (4 * sint ?o)" using fz by simp
    then have "relocates ot m0 (inside base ?n) ?w ?a ?p [put19 ?o ?w]"
      by (rule relocates_address_near [OF dec]) (use distance_reached [OF al [unfolded off_def]] in \<open>simp only: off_def t_def\<close>)
    then show ?thesis using False
      by (intro exI [of _ 0] exI [of _ "[put19 ?o ?w]"]) (simp add: f2_def address_put [OF al])
  qed
  then obtain nn ws where "f2 = emit (replicate nn Aarch64Nop @ ws) (reset_current_ins k (?p + 4 * of_nat nn) f)" "nn + length ws \<le> 9"
    "relocates ot m0 (inside base ?n) ?w ?a (?p + 4 * of_nat nn) ws" by blast
  then show ?thesis unfolding eq using outside_done [OF tg, of ot m0 base f nn ws l] by simp
qed

lemma fix_adrp_done:
  assumes st: "stage ot m0 code base k f e l" and k: "k < length code" "length code \<le> 5" and g: "geometry base (fx_rx f)"
    and mv: "movable base (fx_rx f) code" and w: "code ! k AND 0x9f000000 = 0x90000000"
  shows "\<exists>f'. fix_adrp f = Fixed f' \<and> done_by ot m0 code base k f l f'"
proof -
  let ?w = "code ! k" and ?a = "base + 4 * of_nat k" and ?p = "outprx f" and ?n = "length code"
  note D = stageD [OF st k g]
  define d where "d = 4 * simm 5 19 ?w + int (field 29 2 ?w)"
  define r where "r = field 0 5 ?w"
  have dec: "decode ?w = I_ADRP r d" using address_classes(2) [OF w] by (simp add: r_def d_def)
  have tg: "target code k = None" by (simp add: target_def dec)
  have mi: "movable_insn base (fx_rx f) ?n ?a (decode ?w)" using mv k by (simp add: movable_def)
  then have d0: "0 \<le> d" by (simp add: dec movable_insn_def)
  define t where "t = (?a AND NOT 0xfff) + word_of_int (4096 * d)"
  have abs: "(inprx f AND NOT 0xfff) + ucast (push_bit 12 ((signed_drop_bit 11 (push_bit 8 ?w) AND NOT 3) OR drop_bit 30 (push_bit 1 ?w)) :: u32) = t"
    using page_offset [of ?w] d0 unfolding t_def d_def D(2) by (simp only:)
  have ni: "\<not> inside base ?n t" using mi by (simp add: dec movable_insn_def t_def)
  define nn where "nn = (if aligned8 (?p + 8) then 0 else 1 :: nat)"
  define A where "A = (if aligned8 (?p + 8) then outprw f else ?p + 4)"
  let ?ws = "[0x58000000 OR 0x40 OR (?w AND 0x1f), 0x14000003] @ addr_words t"
  define f2 where "f2 = emit (replicate nn Aarch64Nop @ ?ws) (reset_current_ins k A f)"
  have eq: "fix_adrp f = Fixed (process_fix_map k (next_in f2))"
    unfolding fix_adrp_def get_and_set_current_index_def Let_def D(1,3) prod.case reset_simps outprx_reset abs range_reset D(5) f2_def
    using ni by (simp add: nn_def A_def emit_nop_def)
  have r: "relocates ot m0 (inside base ?n) ?w ?a (?p + 4 * of_nat nn) ?ws"
    by (rule relocates_address_far [where r = r]) (simp_all only: dec execute.simps t_def decode_address_load r_def)
  have "handled ot m0 code base k f l f2 (length (fx_out f) + nn)"
    by (rule handled_outside [OF tg f2_def _ _ r]) (simp_all add: dec addr_words_def nn_def)
  from done_byI [OF this] show ?thesis unfolding eq by blast
qed

text \<open>Everything else is copied as it is, after the words that wait for it have been filled in.\<close>

lemma fold_fix_append: "\<forall>x \<in> set es. fm_at x < length out \<Longrightarrow> fold (fix_word rx a) es (out @ ws) = fold (fix_word rx a) es out @ ws"
  by (induction es arbitrary: out) (simp_all add: fix_word_def nth_append list_update_append)

lemma pending_written:
  assumes "stage ot m0 code base k f e l" and "k < length code" and "x \<in> set (fmap (dat (ctx f) ! k))"
  shows "fm_at x < length (fx_out f)"
proof -
  have b: "blocks k (fx_out f) e l" and c: "\<And>i. i < k \<Longrightarrow> copied ot m0 code base (fx_rx f) k (fx_out f) e l i"
    and "fmap (dat (ctx f) ! k) = pending code l k k" using assms(1,2) by (auto simp: stage_def)
  then obtain i where i: "i < k" "target code i = Some k" "fm_at x = l i" using assms(3) by (auto simp: pending_def)
  then have "e (Suc i) = Suc (l i)" using c [of i] by (simp add: copied_def)
  then show ?thesis using blocks_mono [OF b, of "Suc i" k] i b by (simp add: blocks_def)
qed

lemma process_emit:
  assumes "stage ot m0 code base k f e l" and "k < length code" and "length code \<le> 5"
  shows "emit ws (process_fix_map k (reset_current_ins k a f)) = process_fix_map k (emit ws (reset_current_ins k a f))"
proof -
  have "length (dat (ctx f)) = MaxInstructions" using assms(1) by (simp add: stage_def)
  then show ?thesis using assms(2,3) fold_fix_append [of "fmap (dat (ctx f) ! k)" "fx_out f"] pending_written [OF assms(1,2)]
    by (simp add: process_fix_map_def Let_def emit_def reset_current_ins_def MaxInstructions_def)
qed

lemma fix_plain_done:
  assumes st: "stage ot m0 code base k f e l" and k: "k < length code" "length code \<le> 5" and g: "geometry base (fx_rx f)"
    and pl: "decode (code ! k) = I_other (code ! k) \<or> (\<exists>r. decode (code ! k) = I_BR r \<or> decode (code ! k) = I_BLR r)"
  shows "done_by ot m0 code base k f l (fix_plain f)"
proof -
  note D = stageD [OF st k g]
  have tg: "target code k = None" using pl by (auto simp: target_def)
  have "fix_plain f = process_fix_map k (next_in (emit [code ! k] (reset_current_ins k (outprx f) f)))"
    by (simp add: fix_plain_def get_and_set_current_index_def D(1,3) process_emit [OF st k] next_process)
  moreover have "relocates ot m0 (inside base (length code)) (code ! k) (base + 4 * of_nat k) (outprx f + 4 * of_nat 0) [code ! k]"
    by (rule relocates_plain [OF pl])
  ultimately show ?thesis using outside_done [OF tg, of ot m0 base f 0 "[code ! k]" l] by simp
qed

section \<open>The loop\<close>

definition all_readable :: "image \<Rightarrow> u64 \<Rightarrow> u32 list \<Rightarrow> bool" where
  "all_readable m base code \<longleftrightarrow> (\<forall>i < length code. readable m (base + 4 * of_nat i) (decode (code ! i)))"

lemma fix_one_done:
  assumes st: "stage ot m0 code base k f e l" and k: "k < length code" "length code \<le> 5" and g: "geometry base (fx_rx f)"
    and mv: "movable base (fx_rx f) code" and rd: "all_readable m0 base code" and nop: "nop_ok ot"
  shows "\<exists>f'. fix_one m0 f = Some f' \<and> done_by ot m0 code base k f l f'"
proof -
  let ?w = "code ! k"
  note D = stageD [OF st k g]
  have rd': "readable m0 (base + 4 * of_nat k) (decode ?w)" using rd k by (simp add: all_readable_def)
  note b = fix_branch_imm_done [OF st k g mv] and c = fix_cond_done [OF st k g mv nop] and l = fix_loadlit_done [OF st k g mv rd']
  have hd: "hd (fx_in f) = ?w" by (rule D(1))
  show ?thesis
  proof (cases "fix_branch_imm f = Not_mine \<and> fix_cond_comp_test_branch f = Not_mine \<and> fix_loadlit m0 f = Not_mine")
    case False
    then show ?thesis using b c l by (auto simp: fix_one_def split: fixed.splits)
  next
    case True
    consider "?w AND 0x9f000000 = 0x10000000" | "?w AND 0x9f000000 = 0x90000000"
      | (pl) "?w AND 0x9f000000 \<noteq> 0x10000000" "?w AND 0x9f000000 \<noteq> 0x90000000" by blast
    then show ?thesis
    proof cases
      case pl
      have "decode ?w \<noteq> I_undefined" using mv k by (auto simp: movable_def movable_insn_def)
      then have "decode ?w = I_other ?w \<or> (\<exists>r. decode ?w = I_BR r \<or> decode ?w = I_BLR r)"
        using b c l True pl by (auto simp: decode_def split: if_splits)
      from fix_plain_done [OF st k g this] show ?thesis using True pl by (simp add: fix_one_def fix_pcreladdr_def hd Let_def)
    qed (use True fix_adr_done [OF st k g mv] fix_adrp_done [OF st k g mv] in \<open>auto simp: fix_one_def fix_pcreladdr_def hd Let_def\<close>)
  qed
qed

lemma fix_loop_stage:
  assumes "stage ot m0 code base k f e l" and "k + n = length code" and "length code \<le> 5" and "geometry base (fx_rx f)"
    and "movable base (fx_rx f) code" and "all_readable m0 base code" and "nop_ok ot"
  shows "\<exists>f' e' l'. fix_loop m0 n f = Some f' \<and> stage ot m0 code base (length code) f' e' l' \<and> fx_rx f' = fx_rx f"
  using assms
proof (induction n arbitrary: k f e l)
  case 0
  then show ?case by auto
next
  case (Suc n)
  have k: "k < length code" using Suc.prems(2) by simp
  from fix_one_done [OF Suc.prems(1) k Suc.prems(3-7)] obtain f2 lk where
    f2: "fix_one m0 f = Some (process_fix_map k (next_in f2))" "handled ot m0 code base k f l f2 lk" by (auto simp: done_by_def)
  have na: "\<not> is_adrp (decode (code ! k))" if "i < k" "target code i = Some k" for i
    using Suc.prems(5) that less_trans [OF that(1) k] unfolding movable_def by fastforce
  have rx: "fx_rx (process_fix_map k (next_in f2)) = fx_rx f"
    using f2(2) by (simp add: handled_def process_fix_map_def next_in_def Let_def)
  from Suc.prems(3) have "length code \<le> MaxInstructions" by (simp add: MaxInstructions_def)
  from stage_step [OF Suc.prems(1) k this f2(2) na] have
    "stage ot m0 code base (Suc k) (process_fix_map k (next_in f2)) (e(Suc k := length (fx_out f2))) (l(k := lk))" .
  from Suc.IH [OF this] show ?case using Suc.prems f2(1) rx by simp
qed

lemma start_stage:
  assumes "length code \<le> 5"
  shows "stage ot m0 code base 0 (start_fixer code base rw rx) (\<lambda>i. 0) (\<lambda>i. 0)"
  using assms by (auto simp: stage_def start_fixer_def blocks_def pending_def MaxInstructions_def nth_Cons' eval_nat_numeral)

end
