(* ===== verification/Hook_Trampoline.thy ===== *)
theory Hook_Trampoline
  imports Hook_Fixers
begin

text \<open>
  The trampoline does what the hooked function did: entered at the copy of an instruction, it
  leaves for the address for which the original code would have left, in the same state but for
  the register X17 and the return address of a call.
\<close>

section \<open>Leaving the hooked code\<close>

text \<open>
  The run of some code until it is left. Only direct branches may stay inside: an indirect jump
  into the first instructions of a hooked function arrives in the middle of the hook.
\<close>

fun leaves :: "'w others \<Rightarrow> image \<Rightarrow> u64 \<Rightarrow> nat \<Rightarrow> nat \<Rightarrow> u64 \<times> 'w core \<Rightarrow> (u64 \<times> 'w core) option" where
  "leaves ot m base n 0 s = None"
| "leaves ot m base n (Suc fuel) (a, c) =
     (if inside base n a then
        do { w \<leftarrow> m a; (t, c1) \<leftarrow> execute ot m (decode w) a c;
             case t of None \<Rightarrow> leaves ot m base n fuel (a + 4, c1)
             | Some q \<Rightarrow> if inside base n q
                         then if branch_of (decode w) = None then None else leaves ot m base n fuel (q, c1)
                         else Some (q, c1) }
      else Some (a, c))"

text \<open>The states in which the trampoline may leave instead, when its blocks begin at the words \<open>e\<close>.\<close>

definition left_from :: "u64 \<Rightarrow> u64 \<Rightarrow> nat \<Rightarrow> (nat \<Rightarrow> nat) \<Rightarrow> 'w core \<Rightarrow> 'w core \<Rightarrow> bool" where
  "left_from base rx n e c c' \<longleftrightarrow>
     (\<exists>v. c' = with_x 17 v c) \<or>
     (\<exists>j < n. gpr c 30 = base + 4 * of_nat (Suc j) \<and> (\<exists>v. c' = with_x 17 v (with_x 30 (rx + 4 * of_nat (e (Suc j))) c)))"

lemma left_from_same: "left_from base rx n e c c"
  unfolding left_from_def with_x_def by (rule disjI1, rule exI [of _ "gpr c 17"]) simp

lemma left_from_as:
  assumes "left_as (base + 4 * of_nat j + 4) (rx + 4 * of_nat (e (Suc j))) c c'" and "j < n"
  shows "left_from base rx n e c c'"
  using assms unfolding left_as_def left_from_def by (auto simp: algebra_simps intro: exI [of _ j])

section \<open>The words of the trampoline\<close>

lemma at_words_nth: "at_words m p ws \<longleftrightarrow> (\<forall>i < length ws. m (p + 4 * of_nat i) = Some (ws ! i))"
proof (induction ws arbitrary: p)
  case (Cons w ws)
  have "(\<forall>i < Suc (length ws). m (p + 4 * of_nat i) = Some ((w # ws) ! i)) \<longleftrightarrow>
      m p = Some w \<and> (\<forall>i < length ws. m (p + 4 + 4 * of_nat i) = Some (ws ! i))"
    by (subst All_less_Suc2) (simp add: algebra_simps)
  then show ?case using Cons by simp
qed simp

lemma at_words_slice:
  assumes "at_words m rx out" and "q \<le> length out"
  shows "at_words m (rx + 4 * of_nat p) (slice p q out)"
  unfolding at_words_nth
proof (intro allI impI)
  fix i assume "i < length (slice p q out)"
  then have i: "p + i < q" "p + i < length out" "slice p q out ! i = out ! (p + i)" using assms(2) by (auto simp: slice_def)
  then have "m (rx + 4 * of_nat (p + i)) = Some (out ! (p + i))" using assms(1) by (simp only: at_words_nth)
  then show "m (rx + 4 * of_nat p + 4 * of_nat i) = Some (slice p q out ! i)" by (simp add: i(3) algebra_simps)
qed

lemma run_nops:
  assumes "nop_ok ot" and "\<And>q. a \<le> q \<Longrightarrow> q < b \<Longrightarrow> m (rx + 4 * of_nat q) = Some Aarch64Nop" and "a \<le> b"
  shows "run ot m (b - a) (rx + 4 * of_nat a, c) = Some (rx + 4 * of_nat b, c)"
  using assms(2,3)
proof (induction "b - a" arbitrary: a)
  case (Suc d)
  then have a: "a < b" by simp
  have "step ot m (rx + 4 * of_nat a, c) = Some (rx + 4 * of_nat (Suc a), c)"
    using Suc.prems(1) [OF order_refl a] assms(1) decode_nop
    by (simp add: step_def nop_ok_def Aarch64Nop_def nop_word_def follow_def algebra_simps)
  moreover have "run ot m (b - Suc a) (rx + 4 * of_nat (Suc a), c) = Some (rx + 4 * of_nat b, c)"
    using Suc a by (intro Suc.hyps(1)) auto
  moreover have "b - a = Suc (b - Suc a)" using a by simp
  ultimately show ?case by (simp only: run.simps bind.bind_lunit option.simps bind_simps)
qed simp

lemma run_then: "run ot m n s = Some s1 \<Longrightarrow> run ot m k s1 = r \<Longrightarrow> run ot m (n + k) s = r"
  by (simp add: run_add)

text \<open>A jump to any address, which may use X17.\<close>

definition jump_words :: "u64 \<Rightarrow> u64 \<Rightarrow> u32 list" where
  "jump_words p t =
     (let off = signed_drop_bit 2 (t - p)
      in if 0x1ffffff \<le> \<bar>sint off\<bar> then
           replicate (if aligned8 (p + 8) then 0 else 1) Aarch64Nop @ ([0x58000051, 0xd61f0220] @ addr_words t)
         else [0x14000000 OR (ucast off AND 0x03ffffff)])"

lemma jump_words_length: "length (jump_words p t) \<le> 5"
  by (simp add: jump_words_def Let_def addr_words_def)

lemma jump_words_run:
  assumes al: "take_bit 2 (t - p) = 0" and n: "nop_ok ot" and at: "at_words m p (jump_words p t)"
  shows "\<exists>k c'. run ot m k (p, c) = Some (t, c') \<and> (\<exists>v. c' = with_x 17 v c)"
proof -
  define off where "off = signed_drop_bit 2 (t - p)"
  show ?thesis
  proof (cases "0x1ffffff \<le> \<bar>sint off\<bar>")
    case True
    define nn where "nn = (if aligned8 (p + 8) then 0 else 1 :: nat)"
    have "at_words m p (replicate nn Aarch64Nop @ ([0x58000051, 0xd61f0220] @ addr_words t))"
      using at True unfolding nn_def jump_words_def Let_def off_def [symmetric] by (simp only: if_True)
    then have w: "at_words m p (replicate nn Aarch64Nop)" "at_words m (p + 4 * of_nat nn) ([0x58000051, 0xd61f0220] @ addr_words t)"
      by (simp_all add: at_words_append del: append_Cons)
    have "run ot m (nn - 0) (p + 4 * of_nat 0, c) = Some (p + 4 * of_nat nn, c)"
      using w(1) by (intro run_nops [OF n]) (auto simp: at_words_nth)
    then have "run ot m nn (p, c) = Some (p + 4 * of_nat nn, c)" by simp
    from run_then [OF this run_far [OF w(2)]] show ?thesis by blast
  next
    case False
    then have "- (2 ^ 25) \<le> sint off" "sint off < 2 ^ 25" by (auto simp: abs_if split: if_splits)
    from decode_jump(1) [OF this] have d: "decode (0x14000000 OR (ucast off AND 0x03ffffff)) = I_B (4 * sint off)" .
    have "m p = Some (0x14000000 OR (ucast off AND 0x03ffffff))"
      using at False unfolding jump_words_def Let_def off_def [symmetric] by (simp only: if_False at_words.simps)
    moreover have "p + word_of_int (4 * sint off) = t" unfolding off_def by (rule distance_reached [OF al])
    ultimately have "run ot m 1 (p, c) = Some (t, c)" using d by (simp add: step_def follow_def)
    moreover have "c = with_x 17 (gpr c 17) c" by (simp add: with_x_def)
    ultimately show ?thesis by blast
  qed
qed

text \<open>The jump back.\<close>

lemma jump_back_words: "jump_back f = emit (jump_words (outprx f) (inprx f)) f"
  by (simp add: jump_back_def jump_words_def Let_def)

section \<open>The copy does what the code does\<close>

text \<open>Where the copy of an instruction begins, after the NOPs before it.\<close>

definition landing :: "nat \<Rightarrow> (nat \<Rightarrow> nat) \<Rightarrow> (nat \<Rightarrow> nat) \<Rightarrow> nat \<Rightarrow> nat" where
  "landing n e l j = (if j < n then l j else e j)"

lemma run_to_landing:
  assumes "blocks n out e l" and "at_words m rx (out @ ws)" and "nop_ok ot" and "j \<le> n"
  shows "run ot m (landing n e l j - e j) (rx + 4 * of_nat (e j), c) = Some (rx + 4 * of_nat (landing n e l j), c)"
proof (rule run_nops [OF assms(3)])
  show "e j \<le> landing n e l j" using assms(1,4) by (simp add: landing_def blocks_def)
  fix q assume q: "e j \<le> q" "q < landing n e l j"
  then have j: "j < n" "q < l j" by (auto simp: landing_def split: if_splits)
  then have "l j \<le> e (Suc j)" "out ! q = Aarch64Nop" using assms(1) q by (auto simp: blocks_def)
  moreover have "e (Suc j) \<le> length out" using blocks_mono [OF assms(1), of "Suc j" n] j assms(1) by (simp add: blocks_def)
  ultimately show "m (rx + 4 * of_nat q) = Some Aarch64Nop"
    using assms(2) j by (auto simp: at_words_nth nth_append dest!: spec [of _ q])
qed

lemma block_words:
  assumes b: "blocks n out e l" and m: "at_words m rx (out @ ws)" and j: "j < n"
  shows "at_words m (rx + 4 * of_nat (l j)) (slice (l j) (e (Suc j)) out)"
    and "length (slice (l j) (e (Suc j)) out) = e (Suc j) - l j" and "l j \<le> e (Suc j)"
proof -
  have e: "e (Suc j) \<le> length out" "l j \<le> e (Suc j)" using blocks_mono [OF b, of "Suc j" n] j b by (auto simp: blocks_def)
  show "at_words m (rx + 4 * of_nat (l j)) (slice (l j) (e (Suc j)) out)"
    using m e by (intro at_words_slice) (simp_all add: at_words_append)
  show "length (slice (l j) (e (Suc j)) out) = e (Suc j) - l j" "l j \<le> e (Suc j)" using e by (simp_all add: slice_def)
qed

lemma target_jump:
  assumes "target code j = Some i" and "execute ot m (decode (code ! j)) (base + 4 * of_nat j) c = Some (Some q, c1)"
  shows "q = base + 4 * of_nat i"
proof -
  obtain d where d: "branch_of (decode (code ! j)) = Some d" "4 * of_nat j + word_of_int d < (4 * of_nat (length code) :: u64)"
    "i = unat ((4 * of_nat j + word_of_int d :: u64) div 4)"
    using assms(1) by (auto simp: target_def Let_def split: option.splits if_splits)
  let ?t = "4 * of_nat j + word_of_int d :: u64"
  have q: "q = base + 4 * of_nat j + word_of_int d" using assms(2) d(1) by (cases "decode (code ! j)") (auto split: if_splits)
  obtain x where "d = 4 * x" using d(1) by (auto simp: decode_def split: if_splits option.splits)
  then have "take_bit 2 ?t = 0" using aligned_4(2) [of j] aligned_4(1) [of x] by (simp only: aligned_add)
  then have "?t mod 4 = 0" by (simp add: take_bit_eq_mod)
  then have "?t = 4 * (?t div 4)" using div_mult_mod_eq [of ?t 4] by (simp add: mult.commute)
  also have "\<dots> = 4 * of_nat i" by (simp add: d(3))
  finally show ?thesis using q by (simp add: add.assoc)
qed

lemma target_none_outside:
  assumes "target code j = None" and "branch_of (decode (code ! j)) \<noteq> None" and "length code \<le> 5"
    and "execute ot m (decode (code ! j)) (base + 4 * of_nat j) c = Some (Some q, c1)"
  shows "\<not> inside base (length code) q"
proof -
  obtain d where d: "branch_of (decode (code ! j)) = Some d" using assms(2) by blast
  then have "q = base + 4 * of_nat j + word_of_int d" using assms(4) by (cases "decode (code ! j)") (auto split: if_splits)
  moreover have "\<not> 4 * of_nat j + word_of_int d < (4 * of_nat (length code) :: u64)"
    using assms(1) d by (simp add: target_def Let_def split: if_splits)
  ultimately show ?thesis by (simp add: inside_def add.assoc)
qed

lemma branch_runs:
  assumes "branch_of (decode w) = Some d" and "decode w \<noteq> I_BL d" and "decode w' = with_offset (decode w) i" and "m p = Some w'"
    and "execute ot m0 (decode w) a c = Some (t, c2)"
  shows "run ot m 1 (p, c) = Some (case t of None \<Rightarrow> p + 4 | Some q \<Rightarrow> p + word_of_int i, c2)"
  using assms by (cases "decode w") (auto simp: step_def follow_def split: if_splits)

lemma block_step:
  assumes st: "stage ot m0 code base n f e l" and n: "n = length code" "n \<le> 5" and j: "j < n"
    and m: "at_words m (fx_rx f) (fx_out f @ ws)" and ag: "\<forall>x v. m0 x = Some v \<and> \<not> inside base n x \<longrightarrow> m x = Some v"
    and mv: "movable base (fx_rx f) code"
    and ex: "execute ot m0 (decode (code ! j)) (base + 4 * of_nat j) c = Some (t, c2)"
  obtains k c' where "run ot m k (fx_rx f + 4 * of_nat (l j), c) =
      Some (case t of None \<Rightarrow> fx_rx f + 4 * of_nat (e (Suc j))
        | Some q \<Rightarrow> (case target code j of None \<Rightarrow> q | Some i \<Rightarrow> fx_rx f + 4 * of_nat (l i)), c')"
    and "if t = None \<or> target code j \<noteq> None then c' = c2 else left_as (base + 4 * of_nat j + 4) (fx_rx f + 4 * of_nat (e (Suc j))) c2 c'"
proof (cases "target code j")
  case None
  have b: "blocks n (fx_out f) e l" and cp: "copied ot m0 code base (fx_rx f) n (fx_out f) e l j" using st j by (auto simp: stage_def)
  note bw = block_words [OF b m j]
  have p: "(fx_rx f + 4 * of_nat (l j)) + 4 * word_of_nat (e (Suc j) - l j) = fx_rx f + 4 * of_nat (e (Suc j))"
    using bw(3) by (simp add: of_nat_diff algebra_simps)
  have r: "relocates ot m0 (inside base n) (code ! j) (base + 4 * of_nat j) (fx_rx f + 4 * of_nat (l j)) (slice (l j) (e (Suc j)) (fx_out f))"
    using cp None n by (simp add: copied_def)
  from r [unfolded relocates_def bw(2) p, rule_format, of m c t c2] bw(1) ag ex
  obtain k c' where "run ot m k (fx_rx f + 4 * of_nat (l j), c) = Some (follow (fx_rx f + 4 * of_nat (e (Suc j))) t, c')"
    "if t = None then c' = c2 else left_as (base + 4 * of_nat j + 4) (fx_rx f + 4 * of_nat (e (Suc j))) c2 c'"
    by blast
  then show thesis using None that [of k c'] by (cases t) (simp_all add: follow_def)
next
  case (Some i)
  have b: "blocks n (fx_out f) e l" and cp: "copied ot m0 code base (fx_rx f) n (fx_out f) e l j" using st j by (auto simp: stage_def)
  have i: "i < n" using target_less [OF Some] n by simp
  have e: "e (Suc j) = Suc (l j)" and w: "fx_out f ! l j = enc (code ! j) (dist (l j) (l i))" using cp Some i by (auto simp: copied_def)
  obtain d where d: "branch_of (decode (code ! j)) = Some d" using Some by (auto simp: target_def split: option.splits)
  have le: "l x \<le> 45" if "x < n" for x
  proof -
    have "l x \<le> e (Suc x)" using b that by (simp add: blocks_def)
    moreover have "e (Suc x) \<le> 9 * Suc x" using that by (intro blocks_length [OF b]) simp
    ultimately show ?thesis using that n(2) by simp
  qed
  have sd: "sint (dist (l j) (l i)) = int (l i) - int (l j)" using le [OF j] le [OF i] by (intro sint_dist) simp_all
  have dec: "decode (enc (code ! j) (dist (l j) (l i))) = with_offset (decode (code ! j)) (4 * (int (l i) - int (l j)))"
    using decode_enc [OF d, of "dist (l j) (l i)"] le [OF j] le [OF i] unfolding sd by simp
  have "l j < length (fx_out f)" using e blocks_mono [OF b, of "Suc j" n] j b by (simp add: blocks_def)
  then have mw: "m (fx_rx f + 4 * of_nat (l j)) = Some (enc (code ! j) (dist (l j) (l i)))"
    using m w by (auto simp: at_words_nth nth_append dest!: spec [of _ "l j"])
  have land: "fx_rx f + 4 * of_nat (l j) + word_of_int (4 * (int (l i) - int (l j))) = fx_rx f + 4 * of_nat (l i)" by (simp add: algebra_simps)
  have nbl: "decode (code ! j) \<noteq> I_BL d"
  proof
    assume "decode (code ! j) = I_BL d"
    then have "\<not> inside base n (base + 4 * of_nat j + word_of_int d)" using mv j n by (auto simp: movable_def movable_insn_def)
    then show False using Some target_iff [OF d, of base] j n by simp
  qed
  have nxt: "fx_rx f + 4 * of_nat (l j) + 4 = fx_rx f + 4 * of_nat (e (Suc j))" by (simp add: e algebra_simps)
  have r: "run ot m 1 (fx_rx f + 4 * of_nat (l j), c) = Some (case t of None \<Rightarrow> fx_rx f + 4 * of_nat (e (Suc j)) | Some q \<Rightarrow> fx_rx f + 4 * of_nat (l i), c2)"
    using branch_runs [OF d nbl dec, of m "fx_rx f + 4 * of_nat (l j)" ot m0 "base + 4 * of_nat j" c t c2] mw ex unfolding land nxt by blast
  have "(case t of None \<Rightarrow> fx_rx f + 4 * of_nat (e (Suc j)) | Some q \<Rightarrow> fx_rx f + 4 * of_nat (l i)) =
      (case t of None \<Rightarrow> fx_rx f + 4 * of_nat (e (Suc j))
        | Some q \<Rightarrow> (case target code j of None \<Rightarrow> q | Some i \<Rightarrow> fx_rx f + 4 * of_nat (l i)))"
    using Some by (simp split: option.split)
  from r [unfolded this] show thesis by (rule that) (simp add: Some)
qed

lemma inside_index: "x \<le> n \<Longrightarrow> n \<le> 5 \<Longrightarrow> inside base n (base + 4 * of_nat x) \<longleftrightarrow> x < n"
  using uint_of_nat_4 [of x] uint_of_nat_4 [of n] by (simp add: inside_def word_less_def)

lemma trampoline_run:
  assumes st: "stage ot m0 code base n f e l" and n: "n = length code" "n \<le> 5" and g: "geometry base (fx_rx f)" and nop: "nop_ok ot"
    and code: "at_words m0 base code" and m: "at_words m (fx_rx f) (fx_out (jump_back f))"
    and ag: "\<forall>x v. m0 x = Some v \<and> \<not> inside base n x \<longrightarrow> m x = Some v" and mv: "movable base (fx_rx f) code"
  shows "leaves ot m0 base n fuel (base + 4 * of_nat j, c) = Some (q, c1) \<Longrightarrow> j \<le> n \<Longrightarrow>
    \<exists>k c'. run ot m k (fx_rx f + 4 * of_nat (landing n e l j), c) = Some (q, c') \<and> left_from base (fx_rx f) n e c1 c'"
proof (induction fuel arbitrary: j c)
  case (Suc fuel)
  have b: "blocks n (fx_out f) e l" using st by (simp add: stage_def)
  have m': "at_words m (fx_rx f) (fx_out f @ jump_words (outprx f) (inprx f))" using m by (simp add: jump_back_words)
  have ins: "inside base n (base + 4 * of_nat x) \<longleftrightarrow> x < n" if "x \<le> n" for x using that n(2) by (rule inside_index)
  show ?case
  proof (cases "j = n")
    case True
    then have "q = base + 4 * of_nat n" "c1 = c" using Suc.prems ins [of n] by simp_all
    moreover have "at_words m (outprx f) (jump_words (outprx f) (inprx f))" using m' by (simp add: at_words_append outprx_def)
    moreover have "take_bit 2 (inprx f - outprx f) = 0" using st aligned_outprx(2,1) [OF g] by (intro aligned_diff) (simp_all add: stage_def)
    note al = this
    moreover have "landing n e l j = length (fx_out f)" "inprx f = base + 4 * of_nat n" using True b st by (simp_all add: landing_def blocks_def stage_def)
    ultimately show ?thesis using jump_words_run [OF al nop, of m c] by (auto simp: outprx_def left_from_def)
  next
    case False
    then have j: "j < n" using Suc.prems(2) by simp
    then have w: "m0 (base + 4 * of_nat j) = Some (code ! j)" using code n(1) by (simp add: at_words_nth)
    obtain t c2 where ex: "execute ot m0 (decode (code ! j)) (base + 4 * of_nat j) c = Some (t, c2)"
      using Suc.prems(1) w ins [of j] j by (auto simp: bind_eq_Some_conv)
    from block_step [OF st n j m' ag mv ex] obtain k c' where
      k: "run ot m k (fx_rx f + 4 * of_nat (l j), c) =
        Some (case t of None \<Rightarrow> fx_rx f + 4 * of_nat (e (Suc j))
          | Some q \<Rightarrow> (case target code j of None \<Rightarrow> q | Some i \<Rightarrow> fx_rx f + 4 * of_nat (l i)), c')"
      "if t = None \<or> target code j \<noteq> None then c' = c2 else left_as (base + 4 * of_nat j + 4) (fx_rx f + 4 * of_nat (e (Suc j))) c2 c'" .
    have lj: "landing n e l j = l j" using j by (simp add: landing_def)
    show ?thesis
    proof (cases t)
      case None
      have "leaves ot m0 base n fuel (base + 4 * of_nat (Suc j), c2) = Some (q, c1)"
        using Suc.prems(1) w ins [of j] j ex None by (simp add: algebra_simps)
      from Suc.IH [OF this] j obtain k2 c3 where
        "run ot m k2 (fx_rx f + 4 * of_nat (landing n e l (Suc j)), c2) = Some (q, c3)" "left_from base (fx_rx f) n e c1 c3" by auto
      moreover have "run ot m (k + (landing n e l (Suc j) - e (Suc j))) (fx_rx f + 4 * of_nat (l j), c) = Some (fx_rx f + 4 * of_nat (landing n e l (Suc j)), c2)"
        using k None j by (intro run_then [OF _ run_to_landing [OF b m' nop]]) auto
      ultimately show ?thesis unfolding lj using run_then by blast
    next
      case (Some q1)
      have lv: "(if inside base n q1 then if branch_of (decode (code ! j)) = None then None else leaves ot m0 base n fuel (q1, c2) else Some (q1, c2)) = Some (q, c1)"
        using Suc.prems(1) w ins [of j] j ex Some by (simp split: if_splits)
      show ?thesis
      proof (cases "target code j")
        case None
        then have "\<not> inside base n q1" using lv target_none_outside [OF None _ _ ex [unfolded Some]] n by (auto split: if_splits)
        then have "q1 = q" "c2 = c1" using lv by simp_all
        then have "run ot m k (fx_rx f + 4 * of_nat (l j), c) = Some (q, c')"
          "left_as (base + 4 * of_nat j + 4) (fx_rx f + 4 * of_nat (e (Suc j))) c1 c'" using k Some None by simp_all
        then show ?thesis using left_from_as [of base j "fx_rx f" e c1 c' n] j unfolding lj by blast
      next
        case (Some i)
        then have i: "i < n" "q1 = base + 4 * of_nat i" using target_less [OF Some] n target_jump [OF Some] ex \<open>t = Some q1\<close> by auto
        then have "leaves ot m0 base n fuel (base + 4 * of_nat i, c2) = Some (q, c1)" using lv ins [of i] by (simp split: if_splits)
        from Suc.IH [OF this] i obtain k2 c3 where
          "run ot m k2 (fx_rx f + 4 * of_nat (l i), c2) = Some (q, c3)" "left_from base (fx_rx f) n e c1 c3" by (auto simp: landing_def)
        then show ?thesis unfolding lj using run_then [of ot m k] k \<open>t = Some q1\<close> Some by fastforce
      qed
    qed
  qed
qed simp

section \<open>The trampoline\<close>

text \<open>
  The words that the rewriting of at most five instructions writes fit a row of the pool, and,
  for instructions it handles, entered at the copy of any of them they do what the original
  code does until it is left: they reach the same address in the same state, but for X17 and,
  after a call, the return address, which is that of the copy of the following instruction.
\<close>

lemma trampoline_words:
  assumes "length code \<le> MaxInstructions" and "geometry base rx" and "movable base rx code" and "at_words m0 base code"
    and "all_readable m0 base code" and "nop_ok ot"
  shows "\<exists>ws e. fix_instructions m0 code base rw rx = Some ws \<and> length ws \<le> TrampolineSize \<and> e 0 = 0 \<and>
    (\<forall>m. at_words m rx ws \<and> (\<forall>x v. m0 x = Some v \<and> \<not> inside base (length code) x \<longrightarrow> m x = Some v) \<longrightarrow>
      (\<forall>j \<le> length code. \<forall>fuel c q c1.
        leaves ot m0 base (length code) fuel (base + 4 * of_nat j, c) = Some (q, c1) \<longrightarrow>
        (\<exists>k c'. run ot m k (rx + 4 * of_nat (e j), c) = Some (q, c') \<and> left_from base rx (length code) e c1 c')))"
proof -
  let ?n = "length code" and ?f = "start_fixer code base rw rx"
  have n: "?n \<le> 5" using assms(1) by (simp add: MaxInstructions_def)
  have rx: "fx_rx ?f = rx" by (simp add: start_fixer_def)
  have "\<exists>f e l. fix_loop m0 ?n ?f = Some f \<and> stage ot m0 code base ?n f e l \<and> fx_rx f = fx_rx ?f"
    by (rule fix_loop_stage [OF start_stage [OF n] _ n]) (use assms rx in simp_all)
  then obtain f e l where
    f: "fix_loop m0 ?n ?f = Some f" "stage ot m0 code base ?n f e l" "fx_rx f = rx" unfolding rx by blast
  have b: "blocks ?n (fx_out f) e l" using f(2) by (simp add: stage_def)
  have eq: "fix_instructions m0 code base rw rx = Some (fx_out (jump_back f))"
    using assms(1) f(1) by (simp add: fix_instructions_def)
  have "length (fx_out f) \<le> 9 * ?n" using blocks_length [OF b order_refl] b by (simp add: blocks_def)
  then have len: "length (fx_out (jump_back f)) \<le> TrampolineSize"
    using n jump_words_length [of "outprx f" "inprx f"] by (simp add: jump_back_words TrampolineSize_def MaxInstructions_def)
  have "\<exists>k c'. run ot m k (rx + 4 * of_nat (e j), c) = Some (q, c') \<and> left_from base rx ?n e c1 c'"
    if m: "at_words m rx (fx_out (jump_back f))" "\<forall>x v. m0 x = Some v \<and> \<not> inside base ?n x \<longrightarrow> m x = Some v"
      and j: "j \<le> ?n" and lv: "leaves ot m0 base ?n fuel (base + 4 * of_nat j, c) = Some (q, c1)" for m j fuel c q c1
  proof -
    have w: "at_words m rx (fx_out f @ jump_words (outprx f) (inprx f))" using m(1) by (simp add: jump_back_words)
    have g': "geometry base (fx_rx f)" and mv': "movable base (fx_rx f) code" and m': "at_words m (fx_rx f) (fx_out (jump_back f))"
      unfolding f(3) by (rule assms(2), rule assms(3), rule m(1))
    note r = run_to_landing [OF b w assms(6) j, of c]
    have "\<exists>k c'. run ot m k (fx_rx f + 4 * of_nat (landing ?n e l j), c) = Some (q, c') \<and> left_from base (fx_rx f) ?n e c1 c'"
      by (rule trampoline_run [OF f(2) refl n g' assms(6,4) m' m(2) mv' lv j])
    then obtain k c' where k: "run ot m k (rx + 4 * of_nat (landing ?n e l j), c) = Some (q, c')" "left_from base rx ?n e c1 c'" unfolding f(3) by blast
    show ?thesis by (intro exI conjI) (rule run_then [OF r k(1)], rule k(2))
  qed
  moreover have "e 0 = 0" using b by (simp add: blocks_def)
  ultimately show ?thesis using eq len by (intro exI [of _ "fx_out (jump_back f)"] exI [of _ e]) simp
qed

end
