(* ===== verification/Hook_Claims.thy ===== *)
theory Hook_Claims
  imports Hook_Install Hook_Trampoline
begin

text \<open>
  A hooked function: called, it arrives at the callback; called through the trampoline, it does
  what it did before.
\<close>

section \<open>Written words\<close>

lemma write_words_other: "(\<And>i. i < length ws \<Longrightarrow> x \<noteq> a + 4 * of_nat i) \<Longrightarrow> write_words m a ws x = m x"
proof (induction ws arbitrary: m a)
  case (Cons w ws)
  have "x \<noteq> a + 4 + 4 * of_nat i" if "i < length ws" for i
    using Cons.prems [of "Suc i"] that by (simp add: algebra_simps)
  moreover have "x \<noteq> a" using Cons.prems [of 0] by simp
  ultimately show ?case using Cons.IH [of "a + 4"] by simp
qed simp

lemma step_apart: "a + 4 * of_nat i = (a :: u64) + 4 * of_nat j \<Longrightarrow> i \<le> 100 \<Longrightarrow> j \<le> 100 \<Longrightarrow> i = j"
proof -
  assume a: "a + 4 * of_nat i = (a :: u64) + 4 * of_nat j" "i \<le> 100" "j \<le> 100"
  then have "uint (4 * of_nat i :: u64) = uint (4 * of_nat j :: u64)" by simp
  then show ?thesis using a(2,3) by (simp only: uint_of_nat_4)
qed

lemma write_words_at: "length ws \<le> 100 \<Longrightarrow> at_words (write_words m a ws) a ws"
proof (induction ws arbitrary: m a)
  case (Cons w ws)
  have "write_words (m(a \<mapsto> w)) (a + 4) ws a = (m(a \<mapsto> w)) a"
  proof (rule write_words_other)
    fix i assume "i < length ws"
    then show "a \<noteq> a + 4 + 4 * of_nat i" using step_apart [of a 0 "Suc i"] Cons.prems by (auto simp: algebra_simps)
  qed
  then show ?case using Cons by simp
qed simp

lemma at_words_other:
  assumes "at_words m a vs" and "\<And>i j. i < length vs \<Longrightarrow> j < length ws \<Longrightarrow> a + 4 * of_nat i \<noteq> b + 4 * of_nat j"
  shows "at_words (write_words m b ws) a vs"
  using assms unfolding at_words_nth by (auto simp: write_words_other)

section \<open>The hook\<close>

definition hook_count :: "u64 \<Rightarrow> u64 \<Rightarrow> nat" where
  "hook_count h cb = (if 0x1ffffff \<le> \<bar>sint (signed_drop_bit 2 (cb - h))\<bar> then if aligned8 (h + 8) then 4 else 5 else 1)"

lemma HookFuncImpl_eq:
  "HookFuncImpl m h cb tr pool =
     (if \<not> rw_mapped m h (if hook_count h cb = 1 then 1 else 5) then None
      else case tr of
        None \<Rightarrow> Some (True, write_words m h (jump_words h cb))
      | Some (rxtr, rwtr) \<Rightarrow>
          do { code \<leftarrow> read_words m h (hook_count h cb); ws \<leftarrow> fix_instructions m code h rwtr rxtr;
               if unat (rxtr - fst pool) + 4 * length ws \<le> snd pool
               then Some (True, write_words (write_words m rxtr ws) h (jump_words h cb)) else None })"
proof -
  consider (near) "\<not> 0x1ffffff \<le> \<bar>sint (signed_drop_bit 2 (cb - h))\<bar>"
    | (nop) "0x1ffffff \<le> \<bar>sint (signed_drop_bit 2 (cb - h))\<bar>" "\<not> aligned8 (h + 8)"
    | (far) "0x1ffffff \<le> \<bar>sint (signed_drop_bit 2 (cb - h))\<bar>" "aligned8 (h + 8)" by blast
  then show ?thesis
    by cases (simp_all add: HookFuncImpl_def Let_def hook_count_def jump_words_def TrampolineSize_def MaxInstructions_def
      read_image_eq cong del: if_weak_cong split: option.split)
qed

text \<open>C17: after a successful \<open>Hook\<close>, with or without a trampoline, a processor that arrives at the
  hooked address goes on to the callback, and only X17 may have changed.\<close>

theorem hook_redirects:
  assumes "Hook s h cb tramp = Some (tr, s')" and "take_bit 2 h = 0" and "take_bit 2 cb = 0" and "nop_ok ot"
  shows "\<exists>k c'. run ot (hk_mem s') k (h, c) = Some (cb, c') \<and> (\<exists>v. c' = with_x 17 v c)"
proof -
  obtain m where "hk_mem s' = write_words m h (jump_words h cb)"
    using assms(1) by (auto simp: Hook_def HookFuncImpl_eq bind_eq_Some_conv split: prod.splits option.splits if_splits)
  moreover have "at_words (write_words m h (jump_words h cb)) h (jump_words h cb)"
    using jump_words_length [of h cb] by (intro write_words_at) simp
  ultimately show ?thesis using jump_words_run [OF aligned_diff [OF assms(3,2)] assms(4)] by simp
qed

text \<open>C16: the trampoline that \<open>Hook\<close> returns does what the hooked function did before. When a row of
  the pool is free, the first instructions can be moved and lie in one page, the hook succeeds;
  then, entered at the copy of any of these instructions, the trampoline leaves for the address
  for which the original code would have left from there, in the memory that has the hook.\<close>

theorem trampoline_calls_original:
  assumes "h \<noteq> 0" and "cb \<noteq> 0" and "n = hook_count h cb" and "length code = n" and "at_words (hk_mem s) h code"
    and "unat (hk_index s + 1) < HookMax" and "tr = jit_ro s + 200 * ucast (hk_index s + 1)"
    and "\<forall>i < TrampolineSize. hk_mem s (tr + 4 * of_nat i) = None"
    and "rw_mapped (hk_mem s) h (if n = 1 then 1 else 5)"
    and "geometry h tr" and "movable h tr code" and "all_readable (hk_mem s) h code" and "nop_ok ot"
  shows "\<exists>s' e. Hook s h cb True = Some (tr, s') \<and> e 0 = 0 \<and>
    (\<forall>j \<le> n. \<forall>fuel c q c1. leaves ot (hk_mem s) h n fuel (h + 4 * of_nat j, c) = Some (q, c1) \<longrightarrow>
      (\<exists>k c'. run ot (hk_mem s') k (tr + 4 * of_nat (e j), c) = Some (q, c') \<and> left_from h tr n e c1 c'))"
proof -
  let ?m = "hk_mem s"
  have n: "n \<le> 5" "length code = n" "length (jump_words h cb) \<le> n" using assms(3,4)
    by (auto simp: hook_count_def jump_words_def Let_def addr_words_def)
  then have "length code \<le> MaxInstructions" by (simp add: MaxInstructions_def)
  note tw = trampoline_words [OF this assms(10,11,5,12,13), unfolded n(2), of "jit_rw s + 200 * ucast (hk_index s + 1)"]
  from tw obtain ws e where
    ws: "fix_instructions ?m code h (jit_rw s + 200 * ucast (hk_index s + 1)) tr = Some ws" "length ws \<le> TrampolineSize" "e 0 = 0"
    and eq: "\<forall>m. at_words m tr ws \<and> (\<forall>x v. ?m x = Some v \<and> \<not> inside h n x \<longrightarrow> m x = Some v) \<longrightarrow>
      (\<forall>j \<le> n. \<forall>fuel c q c1. leaves ot ?m h n fuel (h + 4 * of_nat j, c) = Some (q, c1) \<longrightarrow>
        (\<exists>k c'. run ot m k (tr + 4 * of_nat (e j), c) = Some (q, c') \<and> left_from h tr n e c1 c'))"
    by (elim exE conjE) (rule that)
  have at: "?m (h + 4 * of_nat j) \<noteq> None" if "j < n" for j using assms(5) n(2) that by (simp add: at_words_nth)
  have "i < TrampolineSize \<Longrightarrow> j < n \<Longrightarrow> tr + 4 * of_nat i \<noteq> h + 4 * of_nat j" for i j using assms(8) at [of j] by metis
  then have ap: "tr + 4 * of_nat i \<noteq> h + 4 * of_nat j" if "i < length ws" "j < length (jump_words h cb)" for i j
    using that ws(2) n(3) by simp
  define i where "i = hk_index s + 1"
  define m where "m = write_words (write_words ?m tr ws) h (jump_words h cb)"
  have i: "unat i < 20" using assms(6) by (simp add: i_def HookMax_def HookPoolSize_def TrampolineSize_def MaxInstructions_def)
  have "\<not> of_nat HookMax < i"
    using i by (simp add: word_less_nat_alt HookMax_def HookPoolSize_def TrampolineSize_def MaxInstructions_def)
  then have al: "AllocForTrampoline s = (Some (tr, jit_rw s + 200 * ucast i), s\<lparr>hk_index := i\<rparr>)"
    by (simp add: AllocForTrampoline_def Let_def assms(7) TrampolineSize_def MaxInstructions_def flip: i_def)
  have "unat (200 * ucast i :: u64) = 200 * unat i" using i by (simp add: unat_word_ariths unsigned_ucast_eq take_bit_nat_eq_self)
  then have "unat (tr - jit_ro s) + 4 * length ws \<le> HookPoolSize"
    using i ws(2) by (simp add: assms(7) HookPoolSize_def TrampolineSize_def MaxInstructions_def flip: i_def)
  moreover have "read_words ?m h n = Some code" using assms(4,5) read_words_at by blast
  ultimately have "Hook s h cb True = Some (tr, s\<lparr>hk_index := i, hk_mem := m\<rparr>)"
    using assms(1,2,3,9) al ws(1) by (simp add: Hook_def HookFuncImpl_eq m_def i_def)
  moreover have "at_words m tr ws" unfolding m_def using ws(2) ap
    by (intro at_words_other write_words_at) (simp_all add: TrampolineSize_def MaxInstructions_def)
  moreover have "m x = Some v" if "?m x = Some v" "\<not> inside h n x" for x v
  proof -
    have "x \<noteq> h + 4 * of_nat j" if "j < length (jump_words h cb)" for j
      using inside_index [of j n h] n that \<open>\<not> inside h n x\<close> by auto
    moreover have "x \<noteq> tr + 4 * of_nat j" if "j < length ws" for j using assms(8) ws(2) that \<open>?m x = Some v\<close> by auto
    ultimately show ?thesis unfolding m_def using that by (simp add: write_words_other)
  qed
  ultimately show ?thesis using eq [rule_format, of m] ws(3) by (intro exI [of _ "s\<lparr>hk_index := i, hk_mem := m\<rparr>"] exI [of _ e]) simp
qed

section \<open>An example\<close>

text \<open>A function whose first four instructions are a branch to the third, a load, a call and an address.\<close>

definition demo_code :: "u32 list" where
  "demo_code = [0xb4000040, 0x580000e1, 0x94000800, 0xb0000002]"

definition demo_hooks :: hooks where
  "demo_hooks = start_hooks (write_words (write_words (\<lambda>x. None) 0x1000 (demo_code @ [0xd65f03c0])) 0x1020 [7, 8]) 0x80000000 0x90000000"

definition demo_core :: "unit core" where
  "demo_core = \<lparr>gpr = \<lambda>r. 0, vec = \<lambda>r. 0, flag_n = False, flag_z = False, flag_c = False, flag_v = False, world = ()\<rparr>"

definition demo_others :: "unit others" where
  "demo_others w c = (None, c)"

lemma demo_mem: "hk_mem demo_hooks = [0x1000 \<mapsto> 0xb4000040, 0x1004 \<mapsto> 0x580000e1, 0x1008 \<mapsto> 0x94000800, 0x100c \<mapsto> 0xb0000002,
    0x1010 \<mapsto> 0xd65f03c0, 0x1020 \<mapsto> 7, 0x1024 \<mapsto> 8]"
  by (simp add: demo_hooks_def start_hooks_def demo_code_def)

lemma demo_free: "\<forall>i < TrampolineSize. hk_mem demo_hooks (0x80000000 + 4 * of_nat i) = None"
proof (intro allI impI)
  fix i assume "i < TrampolineSize"
  then have "uint (0x80000000 + 4 * of_nat i :: u64) = 0x80000000 + 4 * int i"
    using uint_of_nat_4 [of i] uint_plus_small [of "0x80000000" "4 * of_nat i"] by (simp add: TrampolineSize_def MaxInstructions_def)
  then have "(0x80000000 + 4 * of_nat i :: u64) \<noteq> x" if "uint x < 0x80000000" for x using that by auto
  then show "hk_mem demo_hooks (0x80000000 + 4 * of_nat i) = None" by (simp add: demo_mem)
qed

lemma demo_mapped: "rw_mapped (hk_mem demo_hooks) 0x1000 5"
proof -
  have "at_words (hk_mem demo_hooks) 0x1000 (demo_code @ [0xd65f03c0])" by (simp add: demo_mem demo_code_def)
  moreover have "length (demo_code @ [0xd65f03c0]) = 5" by (simp add: demo_code_def)
  ultimately have "read_words (hk_mem demo_hooks) 0x1000 5 \<noteq> None" by (metis read_words_at option.distinct(1))
  then show ?thesis by (simp add: rw_mapped_def GetAlignedSize_def PAGE_SIZE_def read_image_eq)
qed

lemma demo_count: "hook_count 0x1000 0x40000000 = 4" by code_simp

lemma demo_length: "length demo_code = 4" by (simp add: demo_code_def)

lemma demo_at: "at_words (hk_mem demo_hooks) 0x1000 demo_code" by (simp add: demo_mem demo_code_def)

lemma demo_row: "unat (hk_index demo_hooks + 1) < HookMax" "0x80000000 = jit_ro demo_hooks + 200 * ucast (hk_index demo_hooks + 1)"
  by (simp_all add: demo_hooks_def start_hooks_def HookMax_def HookPoolSize_def TrampolineSize_def MaxInstructions_def)

lemma demo_movable: "movable 0x1000 0x80000000 demo_code" "all_readable (hk_mem demo_hooks) 0x1000 demo_code"
  by code_simp+

lemma demo_decode: "decode 0xb4000040 = I_CBZ True False 0 8" "decode 0x94000800 = I_BL 0x2000" by code_simp+

lemma demo_leaves:
  "leaves demo_others (hk_mem demo_hooks) 0x1000 4 3 (0x1000 + 4 * of_nat 0, demo_core) = Some (0x3008, set_x 30 0x100c demo_core)"
  by (simp add: numeral_3_eq_3 inside_def demo_mem demo_decode get_x_def demo_core_def cbz_taken_def)

lemma demo_nop: "nop_ok demo_others"
  by (simp add: nop_ok_def demo_others_def)

theorem hook_redirects_witness:
  "\<exists>s'. Hook demo_hooks 0x1000 0x40000000 False = Some (0, s') \<and>
    (\<exists>k c'. run demo_others (hk_mem s') k (0x1000, demo_core) = Some (0x40000000, c') \<and> (\<exists>v. c' = with_x 17 v demo_core))"
proof -
  let ?s = "demo_hooks\<lparr>hk_mem := write_words (hk_mem demo_hooks) 0x1000 (jump_words 0x1000 0x40000000)\<rparr>"
  have "Hook demo_hooks 0x1000 0x40000000 False = Some (0, ?s)" by (simp add: Hook_def HookFuncImpl_eq demo_count demo_mapped)
  from this hook_redirects [OF this _ _ demo_nop, of demo_core] show ?thesis by (intro exI [of _ ?s]) simp
qed

theorem trampoline_calls_original_witness:
  "\<exists>s' e. Hook demo_hooks 0x1000 0x40000000 True = Some (0x80000000, s') \<and> e 0 = 0 \<and>
    (\<exists>k c'. run demo_others (hk_mem s') k (0x80000000 + 4 * of_nat (e 0), demo_core) = Some (0x3008, c') \<and>
      left_from 0x1000 0x80000000 4 e (set_x 30 0x100c demo_core) c')"
proof -
  have g: "geometry 0x1000 0x80000000" by (simp add: geometry_def)
  from trampoline_calls_original [OF _ _ demo_count [symmetric] demo_length demo_at demo_row demo_free _ g demo_movable demo_nop]
    demo_mapped demo_leaves show ?thesis by fastforce
qed

end
