(* ===== verification/Spec2Isabelle.thy ===== *)
theory Spec2Isabelle
  imports Wire_Claims Remote_Claims CJson_Compose CJson_Render Discovery_Claims
    Romfs_Claims Item_Pickups Virtmem_Claims Hook_Claims
begin

text \<open>
  A verification library for the Metroid Dread randomizer's exlaunch module.

  The module is loaded into the game process. Its own logic is in \<open>source/program\<close>: a TCP
  bridge that exchanges newline-terminated JSON with a PC (\<open>remote_api.cpp\<close>, with the
  encoder and scanner of \<open>json_line.cpp\<close>), the Lua entry points that drive it from the game
  thread (\<open>main.cpp\<close>, \<open>debug_hooks.cpp\<close>), the search for the PC (\<open>discovery.cpp\<close>), the
  redirection of game files (\<open>romfs.cpp\<close>, which reads its configuration with the bundled
  \<open>cJSON.c\<close>) and the pickup hooks (\<open>item_pickups.cpp\<close>). Hooks are installed by \<open>lib/hook/nx64/hook_impl.cpp\<close>.

  Theories.
  \<^item> \<open>Prelude\<close>: machine integers, byte strings, C strings, decimal rendering.
  \<^item> \<open>Wire_Encoder\<close>, \<open>Wire_Reader\<close>: \<open>LineBuffer\<close>, \<open>Encoder\<close> and \<open>Reader\<close> of \<open>json_line.cpp\<close>,
    one definition for each member function. \<open>Wire\<close> has the cursor discipline of the reader,
    \<open>Wire_Text\<close> its refinement to a pure decoder on byte lists, \<open>Wire_Claims\<close> the properties.
  \<^item> \<open>Remote_Api\<close>: the globals of \<open>remote_api.cpp\<close> as the record \<open>bridge\<close>, its helpers,
    handlers and public functions. \<open>Remote_Dispatch\<close> has the functional behaviour of
    \<open>dispatch_line\<close> on the lines a peer sends.
  \<^item> \<open>Multiworld\<close>: the Lua entry points of \<open>main.cpp\<close>, the answer to a command, the version
    offsets, \<open>LogWarn\<close>.
  \<^item> \<open>Remote_Worker\<close>: worker and game thread as the transition system \<open>sys_step\<close>, with the
    invariant \<open>sys_ok\<close>; \<open>Remote_Stream\<close> has the byte streams in both directions;
    \<open>Remote_Claims\<close> the properties.
  \<^item> \<open>C_Double\<close>, \<open>CJson_Heap\<close>: doubles as IEEE values, and the store of \<open>cJSON.c\<close>: items are
    records at addresses, strings and buffers are blocks of bytes, every allocation may fail.
    \<open>CJson_Parse\<close>, \<open>CJson_Print\<close>, \<open>CJson_Items\<close>, \<open>CJson_Tree\<close> have its functions.
  \<^item> \<open>CJson_Shape\<close>: the trees of items in a store (\<open>seg\<close>, \<open>apart\<close>, \<open>tidy\<close>) and what deleting
    one does; \<open>CJson_Input\<close>, \<open>CJson_Safety\<close>, \<open>CJson_Parse_Safe\<close>, \<open>CJson_Claims\<close>: the parser
    returns on every terminated text, stays inside it, leaks nothing and builds such a tree.
  \<^item> \<open>CJson_Grammar\<close>, \<open>CJson_Escapes\<close>, \<open>CJson_Value\<close>: a specification of the language as a
    reader on byte lists, without positions, fuel or memory, that the escapes of the code agree
    with the standard, and the value a tree of items holds; \<open>CJson_Claims\<close> shows that the parser
    refines this reader.
  \<^item> \<open>CJson_Lists\<close>, \<open>CJson_List_Claims\<close>: the array functions as operations on a list, through an
    interface; \<open>CJson_Compose\<close> shows that what the parser builds satisfies it;
    \<open>CJson_Lookup\<close> has the search for a member.
  \<^item> \<open>CJson_Number\<close>, \<open>CJson_Print_Text\<close>, \<open>CJson_Print_Ok\<close>, \<open>CJson_Print_Claims\<close>: the reference
    text of a tree, and that the printer writes exactly this text inside its buffers.
    \<open>CJson_Render\<close>: the reader, and so the parser, gets the value of a tree back from its text.
  \<^item> \<open>Romfs_File\<close>, \<open>Json_File\<close>: reading a configuration file and parsing it. \<open>Discovery\<close>,
    \<open>Discovery_Claims\<close>: \<open>discovery.cpp\<close>, the probe, its reply, the sweep over the network and
    the cached host. \<open>Romfs\<close>, \<open>Romfs_Claims\<close>: \<open>romfs.cpp\<close>, the table of replacements and the
    names of the save slots.
  \<^item> \<open>Item_Pickups\<close>: the hooks of \<open>item_pickups.cpp\<close>, with their arguments, as steps on their four
    statics; the callbacks of the game and the conditions under which none is lost.
  \<^item> \<open>Virtmem\<close>, \<open>Virtmem_Claims\<close>: \<open>virtmem.c\<close>, the search for free address space and the list of
    reservations; what is found is stated over sets of addresses, the end of the search over the
    random numbers it reads.
  \<^item> \<open>Arm64\<close>: the instructions of the processor that depend on their address, as documented, and
    runs of code in an image of words; every other instruction is a parameter.
    \<open>Hook_Impl\<close>, \<open>Hook_Install\<close>: \<open>hook_impl.cpp\<close>, the fixers that rewrite the first instructions of
    a function for a trampoline, the rows of the pool, the jump to the callback.
    \<open>Hook_Words\<close>, \<open>Hook_Decode\<close>, \<open>Hook_Sim\<close>: the bits the fixers compute and what they decode to;
    \<open>Hook_Reloc\<close>: when words do at one address what an instruction does at another;
    \<open>Hook_Stage\<close>, \<open>Hook_Fixers\<close>: the invariant of the rewriting loop, and that every fixer keeps
    it for the instructions it handles (\<open>movable\<close>); \<open>Hook_Trampoline\<close>, \<open>Hook_Claims\<close>: the
    trampoline does what the hooked function did, and the hook leads to the callback.

  Modelling. A function that may run into undefined behaviour of C has an option as its result,
  and \<open>None\<close> is the undefined behaviour: a null or dangling pointer, an access outside a block,
  an uninitialised value that is read, memory freed twice. Errors of the program are ordinary
  results. Machine integers are words of their width wherever they may wrap around.
  What \<open>nn::socket\<close>, \<open>nn::fs\<close>, the kernel, the Lua interpreter and the functions of the game
  answer are arguments of the definitions; what is done with sockets, files and the game is a
  list of events. The two threads of the bridge interleave between the steps of \<open>sys_step\<close>: a line
  that is dispatched, a closed socket and a pump of the queue are one step each, and a command
  takes its source out of the shared buffer in one step, so that a source torn by a line that is
  dispatched meanwhile does not occur in the model. Loops are recursive functions with termination proofs, or partial functions
  where C would not terminate on a cyclic list or an unlucky random generator. The recursive
  descent of the parser and of the printer has fuel: \<open>parse_fuel\<close> is three times the length of
  the text and nine, the printer gets three for each item of the tree, and the properties show
  that the fuel is enough, since they state that a result is there. The padding loops of
  \<open>fix_loadlit\<close> get four rounds; at word-aligned addresses three are enough, and the properties
  show it. Caches are not modelled: code that was written is the code that runs.

  Not modelled: the vendored Lua interpreter and the SDK headers (third-party code), the
  framework the module is built on as far as it maps pages, encodes instructions or relocates
  the module (\<open>source/lib\<close> other than \<open>virtmem.c\<close> and \<open>hook_impl.cpp\<close>), the registration of
  Lua libraries, and debug output.
\<close>

end
